(* ===== verification/Prelude.thy ===== *)
theory Prelude
  imports
    Main
    "HOL-Library.Char_ord"
    "HOL-Library.List_Lexorder"
    "HOL-Library.Product_Lexorder"
    "HOL-Library.Sublist"
    "HOL-Library.Word"
begin

text \<open>
  Shared vocabulary of the development: what the Rust sources use of the standard library
  (strings as byte sequences, \<^verbatim>\<open>Iterator::min_by_key\<close>, \<^verbatim>\<open>Vec::remove\<close>, \<^verbatim>\<open>BTreeMap\<close> entries,
  checked and saturating \<^verbatim>\<open>u64\<close> arithmetic), and the generic lemmas about it.

  A Rust \<^verbatim>\<open>String\<close> is its UTF-8 byte sequence: \<open>string\<close> is a list of 8-bit \<open>char\<close>s, so
  \<open>length\<close> is Rust's \<^verbatim>\<open>len()\<close>.  Offsets and sizes of type \<^verbatim>\<open>usize\<close> are \<open>nat\<close>: they are lengths
  of values that fit in memory.  Counters whose overflow the code handles keep their bound
  (\<open>u64_max\<close>) or their width (\<open>64 word\<close>).
\<close>

named_theorems rust_simps \<open>rewrite rules of the modelled standard-library operations\<close>

section \<open>Machine integers\<close>

abbreviation u64_max :: nat where
  "u64_max \<equiv> 2 ^ 64 - 1"

definition checked_add_u64 :: "nat \<Rightarrow> nat \<Rightarrow> nat option" where
  "checked_add_u64 a b = (if a + b \<le> u64_max then Some (a + b) else None)"

definition saturating_add_u64 :: "nat \<Rightarrow> nat \<Rightarrow> nat" where
  "saturating_add_u64 a b = min (a + b) u64_max"

section \<open>Vectors\<close>

text \<open>\<^verbatim>\<open>Vec::remove\<close>, for an index in range.\<close>

definition vec_remove :: "nat \<Rightarrow> 'a list \<Rightarrow> 'a list" where
  "vec_remove i xs = take i xs @ drop (Suc i) xs"

lemma length_vec_remove [rust_simps]:
  "i < length xs \<Longrightarrow> length (vec_remove i xs) = length xs - 1"
  by (simp add: vec_remove_def)

lemma set_vec_remove_subset: "set (vec_remove i xs) \<subseteq> set xs"
  by (auto simp: vec_remove_def dest: in_set_takeD in_set_dropD)

lemma vec_remove_Cons_0 [simp]: "vec_remove 0 (x # xs) = xs"
  by (simp add: vec_remove_def)

lemma vec_remove_Cons_Suc [simp]: "vec_remove (Suc i) (x # xs) = x # vec_remove i xs"
  by (simp add: vec_remove_def)

lemma map_vec_remove: "map f (vec_remove i xs) = vec_remove i (map f xs)"
  by (simp add: vec_remove_def take_map drop_map)

lemma distinct_vec_remove: "distinct xs \<Longrightarrow> distinct (vec_remove i xs)"
  by (auto simp: vec_remove_def set_take_disj_set_drop_if_distinct)

lemma sum_list_vec_remove:
  fixes f :: "'a \<Rightarrow> nat"
  assumes "i < length xs"
  shows "sum_list (map f (vec_remove i xs)) + f (xs ! i) = sum_list (map f xs)"
proof -
  have "xs = take i xs @ xs ! i # drop (Suc i) xs"
    using assms by (rule id_take_nth_drop)
  then have "sum_list (map f xs) = sum_list (map f (take i xs @ xs ! i # drop (Suc i) xs))"
    by simp
  then show ?thesis by (simp add: vec_remove_def)
qed

lemma filter_vec_remove_not:
  assumes "i < length xs" and "\<not> P (xs ! i)"
  shows "filter P (vec_remove i xs) = filter P xs"
proof -
  have "xs = take i xs @ xs ! i # drop (Suc i) xs"
    using assms(1) by (rule id_take_nth_drop)
  then have "filter P xs = filter P (take i xs @ xs ! i # drop (Suc i) xs)"
    by simp
  with assms(2) show ?thesis by (simp add: vec_remove_def)
qed

lemma length_filter_vec_remove:
  assumes "i < length xs" and "P (xs ! i)"
  shows "Suc (length (filter P (vec_remove i xs))) = length (filter P xs)"
proof -
  have "xs = take i xs @ xs ! i # drop (Suc i) xs"
    using assms(1) by (rule id_take_nth_drop)
  then have "length (filter P xs) = length (filter P (take i xs @ xs ! i # drop (Suc i) xs))"
    by simp
  with assms(2) show ?thesis by (simp add: vec_remove_def)
qed

lemma subseq_vec_remove: "subseq (vec_remove i xs) xs"
proof (induction xs arbitrary: i)
  case (Cons x xs)
  then show ?case by (cases i) auto
qed (simp add: vec_remove_def)

lemma subseq_set: "subseq xs ys \<Longrightarrow> set xs \<subseteq> set ys"
  by (induction rule: list_emb.induct) auto

lemma subseq_distinct: "subseq xs ys \<Longrightarrow> distinct ys \<Longrightarrow> distinct xs"
  by (induction rule: list_emb.induct) (auto dest: subseq_set)

lemma strict_sorted_remdups_adj: "sorted xs \<Longrightarrow> sorted_wrt (<) (remdups_adj (xs :: 'a :: linorder list))"
  by (induction xs rule: remdups_adj.induct) auto

lemma sum_list_filter_le:
  fixes f :: "'a \<Rightarrow> nat"
  shows "sum_list (map f (filter P xs)) \<le> sum_list (map f xs)"
  by (induction xs) auto

text \<open>\<^verbatim>\<open>iter().position(p)\<close>: the first index that satisfies \<open>p\<close>.\<close>

fun position :: "('a \<Rightarrow> bool) \<Rightarrow> 'a list \<Rightarrow> nat option" where
  "position p [] = None"
| "position p (x # xs) = (if p x then Some 0 else map_option Suc (position p xs))"

lemma position_None: "position p xs = None \<longleftrightarrow> (\<forall>x \<in> set xs. \<not> p x)"
  by (induction xs) auto

lemma position_SomeD:
  "position p xs = Some i \<Longrightarrow> i < length xs \<and> p (xs ! i) \<and> (\<forall>j < i. \<not> p (xs ! j))"
proof (induction xs arbitrary: i)
  case (Cons x xs)
  then show ?case by (fastforce split: if_splits simp: less_Suc_eq_0_disj)
qed simp

text \<open>\<^verbatim>\<open>enumerate().rev().find(p)\<close>: the last index that satisfies \<open>p\<close>.\<close>

fun rposition :: "('a \<Rightarrow> bool) \<Rightarrow> 'a list \<Rightarrow> nat option" where
  "rposition p [] = None"
| "rposition p (x # xs) =
     (case rposition p xs of Some i \<Rightarrow> Some (Suc i) | None \<Rightarrow> (if p x then Some 0 else None))"

lemma rposition_None: "rposition p xs = None \<longleftrightarrow> (\<forall>x \<in> set xs. \<not> p x)"
  by (induction xs) (auto split: option.splits)

lemma rposition_SomeD:
  "rposition p xs = Some i \<Longrightarrow> i < length xs \<and> p (xs ! i) \<and> (\<forall>j. i < j \<and> j < length xs \<longrightarrow> \<not> p (xs ! j))"
proof (induction xs arbitrary: i)
  case (Cons x xs)
  show ?case
  proof (cases "rposition p xs")
    case None
    with Cons.prems have "p x" "i = 0" by (auto split: if_splits)
    with None show ?thesis by (auto simp: rposition_None nth_Cons' all_set_conv_all_nth)
  next
    case (Some k)
    from Cons.IH [OF Some] Cons.prems Some show ?thesis by (auto simp: nth_Cons split: nat.splits)
  qed
qed simp

lemma rposition_Some:
  "rposition p xs = Some i \<longleftrightarrow> i < length xs \<and> p (xs ! i) \<and> (\<forall>x \<in> set (drop (Suc i) xs). \<not> p x)"
proof (induction xs arbitrary: i)
  case (Cons x xs)
  show ?case
  proof (cases "rposition p xs")
    case None
    then have "\<forall>x \<in> set xs. \<not> p x" by (simp add: rposition_None)
    with None show ?thesis by (cases i) auto
  next
    case (Some k)
    then have "\<exists>x \<in> set xs. p x" by (metis option.distinct(1) rposition_None)
    with Some Cons [of "i - 1"] show ?thesis by (cases i) auto
  qed
qed simp

lemma vec_remove_position:
  assumes "distinct (map f xs)" and "\<And>x y. p x \<Longrightarrow> p y \<Longrightarrow> f x = f y"
  shows "(case position p xs of None \<Rightarrow> xs | Some i \<Rightarrow> vec_remove i xs) = filter (\<lambda>x. \<not> p x) xs"
  using assms(1)
proof (induction xs)
  case (Cons x xs)
  show ?case
  proof (cases "p x")
    case True
    with Cons.prems assms(2) have "\<forall>y \<in> set xs. \<not> p y" by (metis distinct.simps(2) image_eqI list.simps(9) set_map)
    with True show ?thesis by (simp add: filter_id_conv)
  next
    case False
    with Cons show ?thesis by (auto split: option.splits)
  qed
qed simp

lemma position_filter_hd:
  "(case position p xs of None \<Rightarrow> d | Some i \<Rightarrow> g (xs ! i)) = (case filter p xs of [] \<Rightarrow> d | x # _ \<Rightarrow> g x)"
proof (induction xs)
  case (Cons x xs)
  then show ?case by (cases "position p xs") auto
qed simp

section \<open>Least and greatest elements by key\<close>

text \<open>
  \<^verbatim>\<open>enumerate().filter(p).min_by_key(k)\<close>, as an index: the first position whose element has the
  least key among those that satisfy \<open>p\<close> (Rust keeps the first of several minima).
\<close>

fun min_pos :: "('a \<Rightarrow> bool) \<Rightarrow> ('a \<Rightarrow> 'k :: linorder) \<Rightarrow> 'a list \<Rightarrow> nat option" where
  "min_pos p k [] = None"
| "min_pos p k (x # xs) =
     (case min_pos p k xs of
        None \<Rightarrow> (if p x then Some 0 else None)
      | Some j \<Rightarrow> (if p x \<and> k x \<le> k (xs ! j) then Some 0 else Some (Suc j)))"

lemma min_pos_None: "min_pos p k xs = None \<longleftrightarrow> (\<forall>x \<in> set xs. \<not> p x)"
  by (induction xs) (auto split: option.splits)

lemma min_pos_SomeD:
  "min_pos p k xs = Some i \<Longrightarrow>
     i < length xs \<and> p (xs ! i) \<and> (\<forall>x \<in> set xs. p x \<longrightarrow> k (xs ! i) \<le> k x)"
proof (induction xs arbitrary: i)
  case (Cons x xs)
  show ?case
  proof (cases "min_pos p k xs")
    case None
    with Cons.prems show ?thesis by (auto simp: min_pos_None split: if_splits)
  next
    case (Some j)
    from Cons.IH [OF Some] Cons.prems Some show ?thesis
      by (auto split: if_splits)
  qed
qed simp

lemma min_pos_0:
  assumes "p x" and "\<And>y. y \<in> set xs \<Longrightarrow> p y \<Longrightarrow> k x \<le> k y"
  shows "min_pos p k (x # xs) = Some 0"
proof (cases "min_pos p k xs")
  case (Some j)
  from min_pos_SomeD [OF Some] assms Some show ?thesis by (simp add: nth_mem)
qed (use assms in simp)

text \<open>\<^verbatim>\<open>max_by_key\<close>: Rust keeps the last of several maxima.\<close>

fun max_by_key :: "('a \<Rightarrow> 'k :: linorder) \<Rightarrow> 'a list \<Rightarrow> 'a option" where
  "max_by_key k [] = None"
| "max_by_key k (x # xs) =
     (case max_by_key k xs of
        None \<Rightarrow> Some x
      | Some y \<Rightarrow> (if k x \<le> k y then Some y else Some x))"

lemma max_by_key_None: "max_by_key k xs = None \<longleftrightarrow> xs = []"
  by (cases xs) (auto split: option.splits)

lemma max_by_key_SomeD:
  "max_by_key k xs = Some y \<Longrightarrow> y \<in> set xs \<and> (\<forall>x \<in> set xs. k x \<le> k y)"
proof (induction xs arbitrary: y)
  case (Cons x xs)
  show ?case
  proof (cases "max_by_key k xs")
    case None
    with Cons.prems show ?thesis by (auto simp: max_by_key_None)
  next
    case (Some z)
    from Cons.IH [OF Some] Cons.prems Some show ?thesis
      by (auto split: if_splits)
  qed
qed simp

section \<open>Ordered maps\<close>

text \<open>
  A \<^verbatim>\<open>BTreeMap\<close> is an association list with strictly ascending keys.
  \<open>bt_alter k d f\<close> is \<^verbatim>\<open>*entry(k).or_insert(d) = f(..)\<close>.
\<close>

fun bt_alter :: "'k :: linorder \<Rightarrow> 'v \<Rightarrow> ('v \<Rightarrow> 'v) \<Rightarrow> ('k \<times> 'v) list \<Rightarrow> ('k \<times> 'v) list" where
  "bt_alter k d f [] = [(k, f d)]"
| "bt_alter k d f ((k', v) # m) =
     (if k < k' then (k, f d) # (k', v) # m
      else if k = k' then (k, f v) # m
      else (k', v) # bt_alter k d f m)"

abbreviation bt_ok :: "('k :: linorder \<times> 'v) list \<Rightarrow> bool" where
  "bt_ok m \<equiv> sorted_wrt (<) (map fst m)"

lemma keys_bt_alter: "set (map fst (bt_alter k d f m)) = insert k (set (map fst m))"
proof (induction m)
  case (Cons p m)
  then show ?case by (cases p) (auto simp del: set_map)
qed simp

lemma bt_ok_bt_alter: "bt_ok m \<Longrightarrow> bt_ok (bt_alter k d f m)"
proof (induction m)
  case (Cons p m)
  obtain k' v where p: "p = (k', v)" by (cases p)
  consider "k < k'" | "k = k'" | "k' < k" by (rule linorder_cases)
  then show ?case
  proof cases
    case 1
    with Cons.prems p show ?thesis by (auto simp del: set_map)
  next
    case 2
    with Cons.prems p show ?thesis by (simp del: set_map)
  next
    case 3
    with Cons p show ?thesis by (auto simp: keys_bt_alter simp del: set_map)
  qed
qed simp

lemma map_of_bt_alter:
  assumes "bt_ok m"
  shows "map_of (bt_alter k d f m) x =
    (if x = k then Some (f (case map_of m k of None \<Rightarrow> d | Some v \<Rightarrow> v)) else map_of m x)"
  using assms
proof (induction m)
  case (Cons p m)
  obtain k' v where p: "p = (k', v)" by (cases p)
  have "map_of m k = None" if "k < k'"
    using Cons.prems that p by (force simp: map_of_eq_None_iff)
  with Cons p show ?case by auto
qed simp

section \<open>Strings\<close>

definition is_prefix_of :: "string \<Rightarrow> string \<Rightarrow> bool" where
  "is_prefix_of p s \<longleftrightarrow> take (length p) s = p"

text \<open>\<^verbatim>\<open>str::find\<close>: the byte offset of the first occurrence of a pattern.\<close>

fun str_find :: "string \<Rightarrow> string \<Rightarrow> nat option" where
  "str_find pat [] = (if pat = [] then Some 0 else None)"
| "str_find pat (c # cs) =
     (if is_prefix_of pat (c # cs) then Some 0 else map_option Suc (str_find pat cs))"

lemma is_prefix_ofD: "is_prefix_of p s \<Longrightarrow> s = p @ drop (length p) s"
  unfolding is_prefix_of_def by (metis append_take_drop_id)

lemma str_find_SomeD:
  "str_find pat s = Some i \<Longrightarrow> i + length pat \<le> length s \<and> take (length pat) (drop i s) = pat"
proof (induction pat s arbitrary: i rule: str_find.induct)
  case (2 pat c cs)
  show ?case
  proof (cases "is_prefix_of pat (c # cs)")
    case True
    with 2 have "i = 0" by simp
    with True show ?thesis
      unfolding is_prefix_of_def by (metis add_0 drop0 length_take min.cobounded1)
  next
    case False
    with 2 show ?thesis by auto
  qed
qed (simp split: if_splits)

definition ascii_lower :: "char \<Rightarrow> char" where
  "ascii_lower c = (if 65 \<le> (of_char c :: nat) \<and> (of_char c :: nat) \<le> 90 then char_of ((of_char c :: nat) + 32) else c)"

definition eq_ignore_ascii_case :: "string \<Rightarrow> string \<Rightarrow> bool" where
  "eq_ignore_ascii_case a b \<longleftrightarrow> map ascii_lower a = map ascii_lower b"

section \<open>Components as machines\<close>

text \<open>
  A component is a state and operations on it; \<open>None\<close> is a panic.  The locale is the contract
  every stateful component meets: each operation returns, and keeps the invariant.
\<close>

fun run_ops :: "('op \<Rightarrow> 's \<Rightarrow> 's option) \<Rightarrow> 'op list \<Rightarrow> 's \<Rightarrow> 's option" where
  "run_ops step [] s = Some s"
| "run_ops step (x # xs) s = (case step x s of None \<Rightarrow> None | Some s' \<Rightarrow> run_ops step xs s')"

locale guarded_machine =
  fixes inv :: "'s \<Rightarrow> bool"
    and step :: "'op \<Rightarrow> 's \<Rightarrow> 's option"
  assumes step_ok: "inv s \<Longrightarrow> \<exists>s'. step x s = Some s' \<and> inv s'"
begin

lemma run_ok: "inv s \<Longrightarrow> \<exists>s'. run_ops step xs s = Some s' \<and> inv s'"
proof (induction xs arbitrary: s)
  case (Cons x xs)
  then obtain s1 where "step x s = Some s1" "inv s1" using step_ok by blast
  with Cons.IH show ?case by simp
qed simp

lemma run_inv: "inv s \<Longrightarrow> run_ops step xs s = Some s' \<Longrightarrow> inv s'"
  using run_ok [of s xs] by auto

end

end
