(* ===== verification/Cookie_Jar.thy ===== *)
theory Cookie_Jar
  imports Prelude
begin

text \<open>
  The bounded cookie jar of the engine (\<^verbatim>\<open>crates/anvil-engine/src/cookies.rs\<close>): a flat list of
  entries with byte accounting, per-site and per-jar limits, least-recently-used eviction and a
  bounded \<^verbatim>\<open>Cookie\<close> header.

  Matching, expiry and the public suffix list belong to the crates \<^verbatim>\<open>cookie_store\<close> and \<^verbatim>\<open>psl\<close>:
  they are the parameter record \<open>cookie_lib\<close>, whose fields are the methods the jar calls.  Every
  call of \<^verbatim>\<open>is_expired\<close> reads the wall clock, so each operation takes the instants of its reads.
  Indexing that would panic in Rust is the value \<open>None\<close>.
\<close>

section \<open>State\<close>

record ('c, 'u) cookie_lib =
  ck_domain :: "'c \<Rightarrow> string option"
  ck_path :: "'c \<Rightarrow> string"
  ck_name :: "'c \<Rightarrow> string"
  ck_value :: "'c \<Rightarrow> string"
  ck_expired :: "nat \<Rightarrow> 'c \<Rightarrow> bool"
  ck_matches :: "'c \<Rightarrow> 'u \<Rightarrow> bool"
  psl_known :: "string \<Rightarrow> bool"
  psl_domain :: "string \<Rightarrow> string option"
  entry_size :: nat

definition MAX_ITEM_BYTES :: nat where "MAX_ITEM_BYTES = 8192"
definition MAX_SITE_COUNT :: nat where "MAX_SITE_COUNT = 180"
definition MAX_SITE_BYTES :: nat where "MAX_SITE_BYTES = 128 * 1024"
definition MAX_JAR_COUNT :: nat where "MAX_JAR_COUNT = 3000"
definition MAX_JAR_BYTES :: nat where "MAX_JAR_BYTES = 2 * 1024 * 1024"
definition MAX_COOKIE_HEADER_BYTES :: nat where "MAX_COOKIE_HEADER_BYTES = 8192"

lemmas jar_consts = MAX_ITEM_BYTES_def MAX_SITE_COUNT_def MAX_SITE_BYTES_def
  MAX_JAR_COUNT_def MAX_JAR_BYTES_def MAX_COOKIE_HEADER_BYTES_def

record 'c jar_entry =
  cookie :: 'c
  site :: string
  bytes :: nat
  used :: nat
  created :: nat

record 'c bounded_jar =
  entries :: "'c jar_entry list"
  clock :: nat

definition empty_jar :: "'c bounded_jar" where
  "empty_jar = \<lparr>entries = [], clock = 0\<rparr>"

section \<open>Operations\<close>

definition purge_expired :: "('c, 'u) cookie_lib \<Rightarrow> nat \<Rightarrow> 'c bounded_jar \<Rightarrow> 'c bounded_jar" where
  "purge_expired L now j = j\<lparr>entries := filter (\<lambda>e. \<not> ck_expired L now (cookie e)) (entries j)\<rparr>"

text \<open>
  \<^verbatim>\<open>tick\<close>: when the clock is at its maximum the stamps are replaced by their rank among all
  stamps (\<^verbatim>\<open>sort\<close>, \<^verbatim>\<open>dedup\<close>, \<^verbatim>\<open>binary_search\<close>), then the clock advances by one.
\<close>

definition stamps_of :: "'c jar_entry list \<Rightarrow> nat list" where
  "stamps_of es = remdups_adj (sort (concat (map (\<lambda>e. [used e, created e]) es)))"

definition rank_in :: "nat list \<Rightarrow> nat \<Rightarrow> nat" where
  "rank_in st x = (case position (\<lambda>y. y = x) st of None \<Rightarrow> 0 | Some i \<Rightarrow> i)"

definition rebase :: "'c bounded_jar \<Rightarrow> 'c bounded_jar" where
  "rebase j =
     (let st = stamps_of (entries j)
      in \<lparr>entries = map (\<lambda>e. e\<lparr>used := rank_in st (used e), created := rank_in st (created e)\<rparr>) (entries j),
          clock = length st\<rparr>)"

definition tick :: "'c bounded_jar \<Rightarrow> nat \<times> 'c bounded_jar" where
  "tick j =
     (let j' = (if clock j = u64_max then rebase j else j);
          j'' = j'\<lparr>clock := clock j' + 1\<rparr>
      in (clock j'', j''))"

definition trim_end_dots :: "string \<Rightarrow> string" where
  "trim_end_dots s = rev (dropWhile (\<lambda>c. c = CHR ''.'') (rev s))"

definition site_key :: "('c, 'u) cookie_lib \<Rightarrow> string \<Rightarrow> string" where
  "site_key L dom0 =
     (let d = trim_end_dots dom0
      in if psl_known L d then (case psl_domain L d of Some r \<Rightarrow> r | None \<Rightarrow> d) else d)"

definition jar_bytes :: "'c jar_entry list \<Rightarrow> nat" where
  "jar_bytes es = sum_list (map bytes es)"

definition site_usage :: "string \<Rightarrow> 'c jar_entry list \<Rightarrow> nat \<times> nat" where
  "site_usage s es = foldl (\<lambda>(n, b) e. (n + 1, b + bytes e)) (0, 0) (filter (\<lambda>e. site e = s) es)"

definition evict_key :: "('c, 'u) cookie_lib \<Rightarrow> 'c jar_entry \<Rightarrow> nat \<times> nat \<times> string" where
  "evict_key L e = (used e, created e, ck_name L (cookie e))"

definition evict :: "('c, 'u) cookie_lib \<Rightarrow> string \<Rightarrow> 'c jar_entry list \<Rightarrow> 'c jar_entry list option" where
  "evict L s es =
     (case min_pos (\<lambda>e. site e = s) (evict_key L) es of
        None \<Rightarrow> None
      | Some i \<Rightarrow> Some (vec_remove i es))"

lemma evict_shrinks [termination_simp]: "evict L s es = Some es' \<Longrightarrow> length es' < length es"
  by (auto simp: evict_def rust_simps split: option.splits dest!: min_pos_SomeD)

text \<open>The two eviction loops of \<^verbatim>\<open>insert\<close>: room in the cookie's own site, then room in the jar.\<close>

fun make_site_room :: "('c, 'u) cookie_lib \<Rightarrow> string \<Rightarrow> nat \<Rightarrow> 'c jar_entry list \<Rightarrow> 'c jar_entry list option" where
  "make_site_room L s b es =
     (let (count, total) = site_usage s es
      in if count < MAX_SITE_COUNT \<and> total + b \<le> MAX_SITE_BYTES then Some es
         else (case evict L s es of None \<Rightarrow> None | Some es' \<Rightarrow> make_site_room L s b es'))"

definition site_table :: "'c jar_entry list \<Rightarrow> (string \<times> (nat \<times> nat)) list" where
  "site_table es = foldl (\<lambda>m e. bt_alter (site e) (0, 0) (\<lambda>(b, n). (b + bytes e, n + 1)) m) [] es"

definition largest_site :: "'c jar_entry list \<Rightarrow> string option" where
  "largest_site es = map_option fst (max_by_key (\<lambda>(s, usage). (usage, s)) (site_table es))"

fun make_jar_room :: "('c, 'u) cookie_lib \<Rightarrow> nat \<Rightarrow> 'c jar_entry list \<Rightarrow> 'c jar_entry list option" where
  "make_jar_room L b es =
     (if MAX_JAR_COUNT \<le> length es \<or> MAX_JAR_BYTES < jar_bytes es + b
      then (case largest_site es of
              None \<Rightarrow> None
            | Some s \<Rightarrow> (case evict L s es of None \<Rightarrow> None | Some es' \<Rightarrow> make_jar_room L b es'))
      else Some es)"

declare make_site_room.simps [simp del] make_jar_room.simps [simp del]

definition same_tuple :: "('c, 'u) cookie_lib \<Rightarrow> 'c \<Rightarrow> string \<Rightarrow> 'c jar_entry \<Rightarrow> bool" where
  "same_tuple L c dom0 e \<longleftrightarrow>
     ck_domain L (cookie e) = Some dom0 \<and> ck_path L (cookie e) = ck_path L c \<and> ck_name L (cookie e) = ck_name L c"

definition item_bytes :: "('c, 'u) cookie_lib \<Rightarrow> 'c \<Rightarrow> string \<Rightarrow> nat \<Rightarrow> nat" where
  "item_bytes L c dom0 wire_bytes =
     wire_bytes + length dom0 + length (ck_path L c) + length (site_key L dom0) + entry_size L"

text \<open>
  \<^verbatim>\<open>BoundedJar::insert\<close>.  \<open>now\<close> is the instant of \<^verbatim>\<open>purge_expired\<close>, \<open>now'\<close> the later instant at
  which the new cookie's own expiry is read.
\<close>

definition insert_cookie ::
  "('c, 'u) cookie_lib \<Rightarrow> nat \<Rightarrow> nat \<Rightarrow> 'c \<Rightarrow> nat \<Rightarrow> 'c bounded_jar \<Rightarrow> 'c bounded_jar option" where
  "insert_cookie L now now' c wire_bytes j0 =
     (let j = purge_expired L now j0
      in case ck_domain L c of
           None \<Rightarrow> Some j
         | Some dom0 \<Rightarrow>
             (let s = site_key L dom0; b = item_bytes L c dom0 wire_bytes
              in if MAX_ITEM_BYTES < b then Some j
                 else
                   (let (u, j1) = tick j; old = position (same_tuple L c dom0) (entries j1);
                        cr = map_option (\<lambda>i. created (entries j1 ! i)) old;
                        j2 = (case old of None \<Rightarrow> j1 | Some i \<Rightarrow> j1\<lparr>entries := vec_remove i (entries j1)\<rparr>)
                    in if ck_expired L now' c then Some j2
                       else (case make_site_room L s b (entries j2) of
                               None \<Rightarrow> None
                             | Some es1 \<Rightarrow>
                                 (case make_jar_room L b es1 of
                                    None \<Rightarrow> None
                                  | Some es2 \<Rightarrow>
                                      Some (j2\<lparr>entries := es2 @ [\<lparr>cookie = c, site = s, bytes = b, used = u,
                                         created = (case cr of Some x \<Rightarrow> x | None \<Rightarrow> u)\<rparr>]\<rparr>))))))"

text \<open>\<^verbatim>\<open>BoundedJar::header\<close>: the matching entries in send order, the whole pairs that fit, the text.\<close>

definition header_order :: "('c, 'u) cookie_lib \<Rightarrow> 'u \<Rightarrow> 'c jar_entry list \<Rightarrow> nat list" where
  "header_order L url es =
     sort_key (\<lambda>i. (- int (length (ck_path L (cookie (es ! i)))), created (es ! i), i))
       (filter (\<lambda>i. ck_matches L (cookie (es ! i)) url) [0..<length es])"

definition pair_len :: "('c, 'u) cookie_lib \<Rightarrow> 'c jar_entry \<Rightarrow> nat" where
  "pair_len L e = length (ck_name L (cookie e)) + 1 + length (ck_value L (cookie e))"

fun select_pairs :: "('c, 'u) cookie_lib \<Rightarrow> 'c jar_entry list \<Rightarrow> nat list \<Rightarrow> nat list \<Rightarrow> nat \<Rightarrow> nat list \<times> nat" where
  "select_pairs L es [] sel n = (sel, n)"
| "select_pairs L es (i # is) sel n =
     (let added = pair_len L (es ! i) + (if sel = [] then 0 else 2)
      in if n + added \<le> MAX_COOKIE_HEADER_BYTES then select_pairs L es is (sel @ [i]) (n + added)
         else select_pairs L es is sel n)"

definition push_pair :: "('c, 'u) cookie_lib \<Rightarrow> 'c jar_entry list \<Rightarrow> string \<Rightarrow> nat \<Rightarrow> string" where
  "push_pair L es h i =
     (if h = [] then h else h @ ''; '') @ ck_name L (cookie (es ! i)) @ ''='' @ ck_value L (cookie (es ! i))"

definition touch :: "nat \<Rightarrow> 'c jar_entry list \<Rightarrow> nat list \<Rightarrow> 'c jar_entry list" where
  "touch u es is = foldl (\<lambda>es i. es[i := (es ! i)\<lparr>used := u\<rparr>]) es is"

definition header :: "('c, 'u) cookie_lib \<Rightarrow> nat \<Rightarrow> 'u \<Rightarrow> 'c bounded_jar \<Rightarrow> string option \<times> 'c bounded_jar" where
  "header L now url j0 =
     (let j = purge_expired L now j0;
          sel = fst (select_pairs L (entries j) (header_order L url (entries j)) [] 0)
      in if sel = [] then (None, j)
         else (let (u, j1) = tick j
               in (Some (foldl (push_pair L (entries j1)) [] sel), j1\<lparr>entries := touch u (entries j1) sel\<rparr>)))"


section \<open>Accounting\<close>

lemma site_usage_foldl:
  "foldl (\<lambda>(n, b) e. (Suc n, b + bytes e)) (n0, b0) es = (n0 + length es, b0 + sum_list (map bytes es))"
  by (induction es arbitrary: n0 b0) auto

lemma site_usage_eq [simp]:
  "site_usage s es = (length (filter (\<lambda>e. site e = s) es), jar_bytes (filter (\<lambda>e. site e = s) es))"
  by (simp add: site_usage_def site_usage_foldl jar_bytes_def)

lemma jar_bytes_simps [simp]:
  "jar_bytes [] = 0"
  "jar_bytes (e # es) = bytes e + jar_bytes es"
  "jar_bytes (es @ es') = jar_bytes es + jar_bytes es'"
  by (simp_all add: jar_bytes_def)

lemma subseq_jar_bytes: "subseq es' es \<Longrightarrow> jar_bytes es' \<le> jar_bytes es"
  by (induction rule: list_emb.induct) auto

lemma subseq_filter_sum: "subseq es' es \<Longrightarrow> jar_bytes (filter P es') \<le> jar_bytes (filter P es)"
  by (rule subseq_jar_bytes) (rule subseq_filter)

lemma subseq_filter_length: "subseq es' es \<Longrightarrow> length (filter P es') \<le> length (filter P es)"
  by (rule list_emb_length) (rule subseq_filter)

section \<open>Eviction\<close>

lemma evict_SomeD:
  assumes "evict L s es = Some es'"
  obtains v where "v \<in> set es" "site v = s" "\<forall>e \<in> set es. site e = s \<longrightarrow> evict_key L v \<le> evict_key L e"
    "subseq es' es" "set es \<subseteq> insert v (set es')" "filter (\<lambda>e. site e \<noteq> s) es' = filter (\<lambda>e. site e \<noteq> s) es"
proof -
  from assms obtain i where i: "min_pos (\<lambda>e. site e = s) (evict_key L) es = Some i" and es': "es' = vec_remove i es"
    by (auto simp: evict_def split: option.splits)
  from min_pos_SomeD [OF i] have il: "i < length es" and si: "site (es ! i) = s"
    and least: "\<forall>e \<in> set es. site e = s \<longrightarrow> evict_key L (es ! i) \<le> evict_key L e"
    by auto
  have "es = take i es @ es ! i # drop (Suc i) es"
    using il by (rule id_take_nth_drop)
  then have "set es = set (take i es @ es ! i # drop (Suc i) es)"
    by simp
  then have sub: "set es \<subseteq> insert (es ! i) (set es')"
    by (auto simp: es' vec_remove_def)
  have "filter (\<lambda>e. site e \<noteq> s) es' = filter (\<lambda>e. site e \<noteq> s) es"
    using il si unfolding es' by (intro filter_vec_remove_not) auto
  with il si least sub show ?thesis
    by (intro that [of "es ! i"]) (auto simp: es' subseq_vec_remove)
qed

lemma evict_None: "evict L s es = None \<longleftrightarrow> (\<forall>e \<in> set es. site e \<noteq> s)"
proof (cases "min_pos (\<lambda>e. site e = s) (evict_key L) es")
  case None
  then show ?thesis by (simp add: evict_def) (simp add: min_pos_None)
next
  case (Some i)
  from min_pos_SomeD [OF Some] Some show ?thesis by (auto simp: evict_def)
qed

lemma filter_site_empty: "evict L s es = None \<Longrightarrow> filter (\<lambda>e. site e = s) es = []"
  by (simp add: evict_None filter_empty_conv)

text \<open>
  What eviction may do: drop entries, each no more recently used than the entries of its own
  site that are kept.
\<close>

definition lru_only :: "('c, 'u) cookie_lib \<Rightarrow> 'c jar_entry list \<Rightarrow> 'c jar_entry list \<Rightarrow> bool" where
  "lru_only L es es' \<longleftrightarrow>
     subseq es' es \<and>
     (\<forall>e \<in> set es - set es'. \<forall>e' \<in> set es'. site e' = site e \<longrightarrow> evict_key L e \<le> evict_key L e')"

lemma lru_only_refl: "lru_only L es es"
  by (simp add: lru_only_def)

lemma lru_only_trans:
  assumes "lru_only L es es1" and "lru_only L es1 es2"
  shows "lru_only L es es2"
  using assms subseq_set unfolding lru_only_def
  by (meson Diff_iff in_mono subseq_order.trans)

lemma lru_only_evict: "evict L s es = Some es' \<Longrightarrow> lru_only L es es'"
  unfolding lru_only_def
  by (erule evict_SomeD) (metis DiffE insertE subsetD subseq_set)

definition site_fits :: "string \<Rightarrow> nat \<Rightarrow> 'c jar_entry list \<Rightarrow> bool" where
  "site_fits s b es \<longleftrightarrow>
     length (filter (\<lambda>e. site e = s) es) < MAX_SITE_COUNT \<and> jar_bytes (filter (\<lambda>e. site e = s) es) + b \<le> MAX_SITE_BYTES"

lemma make_site_room_unfold:
  "make_site_room L s b es =
     (if site_fits s b es then Some es
      else (case evict L s es of None \<Rightarrow> None | Some es' \<Rightarrow> make_site_room L s b es'))"
  by (subst make_site_room.simps) (simp add: site_fits_def)

text \<open>The per-site loop ends, never panics, and leaves room for one more item of the site.\<close>

lemma make_site_room_ok:
  assumes "b \<le> MAX_SITE_BYTES"
  shows "\<exists>es'. make_site_room L s b es = Some es' \<and> site_fits s b es' \<and> lru_only L es es'"
proof (induction es rule: length_induct)
  case (1 es)
  show ?case
  proof (cases "site_fits s b es")
    case True
    then show ?thesis by (simp add: make_site_room_unfold [of L s b es] lru_only_refl)
  next
    case False
    have "evict L s es \<noteq> None"
    proof
      assume "evict L s es = None"
      then have "filter (\<lambda>e. site e = s) es = []" by (rule filter_site_empty)
      with False assms show False by (simp add: site_fits_def jar_consts)
    qed
    then obtain es1 where ev: "evict L s es = Some es1" by blast
    with 1 obtain es' where "make_site_room L s b es1 = Some es'" "site_fits s b es'" "lru_only L es1 es'"
      using evict_shrinks [OF ev] by blast
    with False ev show ?thesis
      by (auto simp: make_site_room_unfold [of L s b es] intro: lru_only_trans lru_only_evict)
  qed
qed

text \<open>The table of the jar-wide loop holds every site's usage, so its maximum is the largest site.\<close>

lemma site_table_foldl:
  assumes "bt_ok m"
  shows "bt_ok (foldl (\<lambda>m e. bt_alter (site e) (0, 0) (\<lambda>(b, n). (b + bytes e, n + 1)) m) m es) \<and>
    map_of (foldl (\<lambda>m e. bt_alter (site e) (0, 0) (\<lambda>(b, n). (b + bytes e, n + 1)) m) m es) s =
    (if filter (\<lambda>e. site e = s) es = [] then map_of m s
     else (case map_of m s of
             None \<Rightarrow> Some (jar_bytes (filter (\<lambda>e. site e = s) es), length (filter (\<lambda>e. site e = s) es))
           | Some (b, n) \<Rightarrow> Some (b + jar_bytes (filter (\<lambda>e. site e = s) es), n + length (filter (\<lambda>e. site e = s) es))))"
  using assms
proof (induction es arbitrary: m)
  case (Cons e es)
  have "bt_ok (bt_alter (site e) (0, 0) (\<lambda>(b, n). (b + bytes e, n + 1)) m)"
    by (rule bt_ok_bt_alter) (rule Cons.prems)
  from Cons.IH [OF this] show ?case
    by (auto simp: map_of_bt_alter [OF Cons.prems] split: option.splits)
qed simp

lemma map_of_site_table:
  "map_of (site_table es) s =
     (if filter (\<lambda>e. site e = s) es = [] then None
      else Some (jar_bytes (filter (\<lambda>e. site e = s) es), length (filter (\<lambda>e. site e = s) es)))"
  using site_table_foldl [of "[]" es s] by (simp add: site_table_def)

lemma bt_ok_site_table: "bt_ok (site_table es)"
  using site_table_foldl [of "[]" es] by (simp add: site_table_def)


lemma in_site_table:
  assumes "e \<in> set es"
  shows "(site e, jar_bytes (filter (\<lambda>x. site x = site e) es), length (filter (\<lambda>x. site x = site e) es)) \<in> set (site_table es)"
proof -
  have "filter (\<lambda>x. site x = site e) es \<noteq> []" using assms by (auto simp: filter_empty_conv)
  then show ?thesis by (intro map_of_SomeD) (simp add: map_of_site_table)
qed

lemma site_table_mem:
  assumes "(s, b, n) \<in> set (site_table es)"
  shows "b = jar_bytes (filter (\<lambda>e. site e = s) es) \<and> n = length (filter (\<lambda>e. site e = s) es) \<and> (\<exists>e \<in> set es. site e = s)"
proof -
  have "distinct (map fst (site_table es))"
    using bt_ok_site_table [of es] by (simp only: strict_sorted_iff)
  with assms have "map_of (site_table es) s = Some (b, n)" by simp
  then show ?thesis by (auto simp: map_of_site_table filter_empty_conv split: if_splits)
qed

lemma largest_site_None: "largest_site es = None \<longleftrightarrow> es = []"
proof -
  have "site_table es = [] \<longleftrightarrow> es = []"
    using in_site_table [of "hd es" es] by (cases es) (auto simp: site_table_def)
  then show ?thesis by (simp add: largest_site_def max_by_key_None)
qed

lemma largest_site_SomeD:
  assumes "largest_site es = Some s"
  shows "\<exists>e \<in> set es. site e = s"
    and "e \<in> set es \<Longrightarrow> jar_bytes (filter (\<lambda>x. site x = site e) es) \<le> jar_bytes (filter (\<lambda>x. site x = s) es)"
proof -
  from assms obtain b n where mx: "max_by_key (\<lambda>(s, usage). (usage, s)) (site_table es) = Some (s, b, n)"
    by (auto simp: largest_site_def)
  note m = max_by_key_SomeD [OF mx]
  from m have sbn: "(s, b, n) \<in> set (site_table es)" by simp
  from site_table_mem [OF sbn] show "\<exists>e \<in> set es. site e = s" by simp
  show "jar_bytes (filter (\<lambda>x. site x = site e) es) \<le> jar_bytes (filter (\<lambda>x. site x = s) es)" if "e \<in> set es"
    using m in_site_table [OF that] site_table_mem [OF sbn] by (fastforce simp: less_eq_prod_def)
qed

text \<open>The jar-wide loop ends, never panics, and leaves room for one more item.\<close>

definition jar_fits :: "nat \<Rightarrow> 'c jar_entry list \<Rightarrow> bool" where
  "jar_fits b es \<longleftrightarrow> length es < MAX_JAR_COUNT \<and> jar_bytes es + b \<le> MAX_JAR_BYTES"

lemma make_jar_room_unfold:
  "make_jar_room L b es =
     (if jar_fits b es then Some es
      else (case largest_site es of
              None \<Rightarrow> None
            | Some s \<Rightarrow> (case evict L s es of None \<Rightarrow> None | Some es' \<Rightarrow> make_jar_room L b es')))"
  by (subst make_jar_room.simps) (simp add: jar_fits_def not_le not_less)

lemma make_jar_room_ok:
  assumes "b \<le> MAX_JAR_BYTES"
  shows "\<exists>es'. make_jar_room L b es = Some es' \<and> jar_fits b es' \<and> lru_only L es es'"
proof (induction es rule: length_induct)
  case (1 es)
  show ?case
  proof (cases "jar_fits b es")
    case True
    then show ?thesis by (simp add: make_jar_room_unfold [of L b es] lru_only_refl)
  next
    case False
    with assms have "es \<noteq> []" by (auto simp: jar_fits_def jar_consts)
    then obtain s where s: "largest_site es = Some s" by (auto simp: largest_site_None [symmetric])
    have "evict L s es \<noteq> None" using largest_site_SomeD(1) [OF s] by (auto simp: evict_None)
    then obtain es1 where ev: "evict L s es = Some es1" by blast
    with 1 obtain es' where r: "make_jar_room L b es1 = Some es'" "jar_fits b es'" "lru_only L es1 es'"
      using evict_shrinks [OF ev] by blast
    with False s ev show ?thesis
      by (auto simp: make_jar_room_unfold [of L b es] intro: lru_only_trans lru_only_evict)
  qed
qed


section \<open>The clock\<close>

lemma set_stamps_of: "set (stamps_of es) = used ` set es \<union> created ` set es"
  by (auto simp: stamps_of_def)

lemma stamps_of_strict: "sorted_wrt (<) (stamps_of es)"
  by (simp add: stamps_of_def strict_sorted_remdups_adj)

lemma length_stamps_of: "length (stamps_of es) \<le> 2 * length es"
proof -
  have "length (stamps_of es) \<le> length (concat (map (\<lambda>e. [used e, created e]) es))"
    using remdups_adj_length [of "sort (concat (map (\<lambda>e. [used e, created e]) es))"] by (simp add: stamps_of_def)
  also have "\<dots> = 2 * length es" by (induction es) auto
  finally show ?thesis .
qed

lemma rank_in_nth: "x \<in> set st \<Longrightarrow> rank_in st x < length st \<and> st ! rank_in st x = x"
  by (auto simp: rank_in_def position_None dest: position_SomeD split: option.splits)

lemma rank_in_mono:
  assumes "sorted_wrt (<) st" and "x \<in> set st" and "y \<in> set st"
  shows "rank_in st x \<le> rank_in st y \<longleftrightarrow> x \<le> y"
proof -
  note rx = rank_in_nth [OF assms(2)] and ry = rank_in_nth [OF assms(3)]
  have less: "st ! i < st ! j" if "i < j" "j < length st" for i j
    using assms(1) that by (simp add: sorted_wrt_iff_nth_less)
  show ?thesis
    using less [of "rank_in st x" "rank_in st y"] less [of "rank_in st y" "rank_in st x"] rx ry
    by (metis leD le_less_linear nat_less_le order_less_le)
qed

definition stamps_ok :: "'c bounded_jar \<Rightarrow> bool" where
  "stamps_ok j \<longleftrightarrow> clock j \<le> u64_max \<and> (\<forall>e \<in> set (entries j). used e \<le> clock j \<and> created e \<le> clock j)"

lemma tick_fst: "fst (tick j) = clock (snd (tick j))"
  by (simp add: tick_def Let_def)

lemma tick_stamps_ok:
  assumes "stamps_ok j" and "length (entries j) \<le> MAX_JAR_COUNT"
  shows "stamps_ok (snd (tick j))"
proof (cases "clock j = u64_max")
  case True
  have "length (stamps_of (entries j)) + 1 \<le> u64_max"
    using length_stamps_of [of "entries j"] assms(2) by (simp add: jar_consts)
  moreover have "rank_in (stamps_of (entries j)) x \<le> length (stamps_of (entries j)) + 1"
    if "x \<in> used ` set (entries j) \<union> created ` set (entries j)" for x
    using that rank_in_nth [of x "stamps_of (entries j)"] by (simp add: set_stamps_of)
  ultimately show ?thesis
    using True by (auto simp: tick_def rebase_def Let_def stamps_ok_def)
next
  case False
  with assms(1) show ?thesis by (auto simp: tick_def stamps_ok_def Let_def)
qed

text \<open>\<open>restamped\<close>: the same entries up to their ordering stamps, which is all \<^verbatim>\<open>tick\<close> may change.\<close>

definition restamped :: "'c jar_entry list \<Rightarrow> 'c jar_entry list \<Rightarrow> bool" where
  "restamped = list_all2 (\<lambda>e e'. cookie e' = cookie e \<and> site e' = site e \<and> bytes e' = bytes e)"

lemma tick_restamped: "restamped (entries j) (entries (snd (tick j)))"
  by (simp add: tick_def rebase_def Let_def restamped_def list_all2_conv_all_nth)

lemma restamped_trans: "restamped es es1 \<Longrightarrow> restamped es1 es2 \<Longrightarrow> restamped es es2"
  by (simp add: restamped_def list_all2_conv_all_nth)

lemma restamped_length: "restamped es es' \<Longrightarrow> length es' = length es"
  by (simp add: restamped_def list_all2_lengthD)

lemma restamped_usage:
  "restamped es es' \<Longrightarrow> jar_bytes es' = jar_bytes es \<and>
     length (filter (\<lambda>e. site e = s) es') = length (filter (\<lambda>e. site e = s) es) \<and>
     jar_bytes (filter (\<lambda>e. site e = s) es') = jar_bytes (filter (\<lambda>e. site e = s) es)"
  unfolding restamped_def by (induction rule: list_all2_induct) auto

lemma restamped_mem:
  "restamped es es' \<Longrightarrow> e' \<in> set es' \<Longrightarrow>
     \<exists>e \<in> set es. cookie e' = cookie e \<and> site e' = site e \<and> bytes e' = bytes e"
  unfolding restamped_def by (induction rule: list_all2_induct) auto

section \<open>The invariant\<close>

definition limits_ok :: "'c jar_entry list \<Rightarrow> bool" where
  "limits_ok es \<longleftrightarrow>
     length es \<le> MAX_JAR_COUNT \<and> jar_bytes es \<le> MAX_JAR_BYTES \<and>
     (\<forall>e \<in> set es. bytes e \<le> MAX_ITEM_BYTES \<and>
        length (filter (\<lambda>x. site x = site e) es) \<le> MAX_SITE_COUNT \<and>
        jar_bytes (filter (\<lambda>x. site x = site e) es) \<le> MAX_SITE_BYTES)"

definition tuple_of :: "('c, 'u) cookie_lib \<Rightarrow> 'c jar_entry \<Rightarrow> string option \<times> string \<times> string" where
  "tuple_of L e = (ck_domain L (cookie e), ck_path L (cookie e), ck_name L (cookie e))"

definition tuples_ok :: "('c, 'u) cookie_lib \<Rightarrow> 'c jar_entry list \<Rightarrow> bool" where
  "tuples_ok L es \<longleftrightarrow>
     distinct (map (tuple_of L) es) \<and>
     (\<forall>e \<in> set es. \<exists>d. ck_domain L (cookie e) = Some d \<and> site e = site_key L d)"

definition jar_ok :: "('c, 'u) cookie_lib \<Rightarrow> 'c bounded_jar \<Rightarrow> bool" where
  "jar_ok L j \<longleftrightarrow> limits_ok (entries j) \<and> stamps_ok j \<and> tuples_ok L (entries j)"

lemma limits_ok_subseq:
  assumes "limits_ok es" and "subseq es' es"
  shows "limits_ok es'"
proof -
  note le = subseq_jar_bytes [OF assms(2)] list_emb_length [OF assms(2)]
  have "bytes e \<le> MAX_ITEM_BYTES \<and> length (filter (\<lambda>x. site x = site e) es') \<le> MAX_SITE_COUNT \<and>
      jar_bytes (filter (\<lambda>x. site x = site e) es') \<le> MAX_SITE_BYTES" if "e \<in> set es'" for e
    using assms(1) that subseq_set [OF assms(2)]
      subseq_filter_length [OF assms(2), of "\<lambda>x. site x = site e"]
      subseq_filter_sum [OF assms(2), of "\<lambda>x. site x = site e"]
    by (fastforce simp: limits_ok_def)
  with assms(1) le show ?thesis by (simp add: limits_ok_def)
qed

lemma tuples_ok_subseq:
  assumes "tuples_ok L es" and "subseq es' es"
  shows "tuples_ok L es'"
  using assms(1) subseq_set [OF assms(2)] subseq_distinct [OF subseq_map [OF assms(2)], of "tuple_of L"]
  by (auto simp: tuples_ok_def)

lemma stamps_ok_subseq:
  "stamps_ok j \<Longrightarrow> subseq es' (entries j) \<Longrightarrow> stamps_ok (j\<lparr>entries := es'\<rparr>)"
  using subseq_set by (fastforce simp: stamps_ok_def)

lemma jar_ok_subseq:
  "jar_ok L j \<Longrightarrow> subseq es' (entries j) \<Longrightarrow> jar_ok L (j\<lparr>entries := es'\<rparr>)"
  by (auto simp: jar_ok_def intro: limits_ok_subseq tuples_ok_subseq stamps_ok_subseq)

lemma jar_ok_empty: "jar_ok L empty_jar"
  by (simp add: jar_ok_def empty_jar_def limits_ok_def stamps_ok_def tuples_ok_def)

lemma jar_ok_purge: "jar_ok L j \<Longrightarrow> jar_ok L (purge_expired L now j)"
  unfolding purge_expired_def by (rule jar_ok_subseq) auto

lemma restamped_limits_ok:
  assumes "restamped es es'" and "limits_ok es"
  shows "limits_ok es'"
  unfolding limits_ok_def
proof (intro conjI ballI)
  show "length es' \<le> MAX_JAR_COUNT" "jar_bytes es' \<le> MAX_JAR_BYTES"
    using assms restamped_length [OF assms(1)] restamped_usage [OF assms(1)] by (auto simp: limits_ok_def)
  fix e' assume "e' \<in> set es'"
  with restamped_mem [OF assms(1)] obtain e where "e \<in> set es" "site e' = site e" "bytes e' = bytes e" by blast
  with assms(2) restamped_usage [OF assms(1), of "site e"]
  show "bytes e' \<le> MAX_ITEM_BYTES" "length (filter (\<lambda>x. site x = site e') es') \<le> MAX_SITE_COUNT"
    "jar_bytes (filter (\<lambda>x. site x = site e') es') \<le> MAX_SITE_BYTES"
    by (auto simp: limits_ok_def)
qed

lemma restamped_tuples_ok:
  assumes "restamped es es'" and "tuples_ok L es"
  shows "tuples_ok L es'"
proof -
  have "map (tuple_of L) es' = map (tuple_of L) es"
    using assms(1) unfolding restamped_def by (induction rule: list_all2_induct) (auto simp: tuple_of_def)
  with assms show ?thesis
    by (auto simp: tuples_ok_def) (metis restamped_mem)
qed

lemma jar_ok_tick:
  assumes "jar_ok L j"
  shows "jar_ok L (snd (tick j))"
  using assms tick_restamped [of j] tick_stamps_ok [of j]
  by (auto simp: jar_ok_def intro: restamped_limits_ok restamped_tuples_ok) (simp add: limits_ok_def)

section \<open>Insertion\<close>

lemma item_room: "b \<le> MAX_ITEM_BYTES \<Longrightarrow> b \<le> MAX_SITE_BYTES \<and> b \<le> MAX_JAR_BYTES"
  by (simp add: jar_consts)

lemma limits_ok_snoc:
  assumes "limits_ok es" and "bytes e \<le> MAX_ITEM_BYTES" and "site_fits (site e) (bytes e) es" and "jar_fits (bytes e) es"
  shows "limits_ok (es @ [e])"
  using assms by (auto simp: limits_ok_def site_fits_def jar_fits_def)

lemma site_fits_subseq: "site_fits s b es \<Longrightarrow> subseq es' es \<Longrightarrow> site_fits s b es'"
  using subseq_filter_length [of es' es "\<lambda>e. site e = s"] subseq_filter_sum [of es' es "\<lambda>e. site e = s"]
  by (auto simp: site_fits_def)

lemma remove_same_tuple:
  assumes "tuples_ok L es"
  shows "(case position (same_tuple L c d) es of None \<Rightarrow> es | Some i \<Rightarrow> vec_remove i es) = filter (\<lambda>e. \<not> same_tuple L c d e) es"
  using assms by (intro vec_remove_position [of "tuple_of L"]) (auto simp: tuples_ok_def tuple_of_def same_tuple_def)

text \<open>What one insertion of an accepted cookie does to the entries.\<close>

definition stored_entry :: "('c, 'u) cookie_lib \<Rightarrow> 'c \<Rightarrow> string \<Rightarrow> nat \<Rightarrow> nat \<Rightarrow> nat \<Rightarrow> 'c jar_entry" where
  "stored_entry L c d wire u cr =
     \<lparr>cookie = c, site = site_key L d, bytes = item_bytes L c d wire, used = u, created = cr\<rparr>"

lemma insert_cookie_stores:
  fixes j :: "'c bounded_jar" and now :: nat
  assumes ok: "jar_ok L j" and dom: "ck_domain L c = Some d" and size: "item_bytes L c d wire \<le> MAX_ITEM_BYTES"
    and live: "\<not> ck_expired L now' c"
  defines "j1 \<equiv> snd (tick (purge_expired L now j))"
  defines "es0 \<equiv> filter (\<lambda>e. \<not> same_tuple L c d e) (entries j1)"
  defines "cr \<equiv> (case filter (same_tuple L c d) (entries j1) of [] \<Rightarrow> clock j1 | e # _ \<Rightarrow> created e)"
  shows "\<exists>es2. insert_cookie L now now' c wire j =
      Some (j1\<lparr>entries := es2 @ [stored_entry L c d wire (clock j1) cr]\<rparr>) \<and>
    lru_only L es0 es2 \<and> (site_fits (site_key L d) (item_bytes L c d wire) es0 \<longrightarrow>
      jar_fits (item_bytes L c d wire) es0 \<longrightarrow> es2 = es0) \<and>
    jar_ok L (j1\<lparr>entries := es2 @ [stored_entry L c d wire (clock j1) cr]\<rparr>)"
proof -
  let ?b = "item_bytes L c d wire" and ?e = "stored_entry L c d wire (clock j1) cr"
  have ok1: "jar_ok L j1" unfolding j1_def by (intro jar_ok_tick jar_ok_purge ok)
  let ?old = "position (same_tuple L c d) (entries j1)"
  have rm: "(case ?old of None \<Rightarrow> entries j1 | Some i \<Rightarrow> vec_remove i (entries j1)) = es0"
    using ok1 unfolding es0_def by (intro remove_same_tuple) (simp add: jar_ok_def)
  have old_cr: "(case ?old of None \<Rightarrow> clock j1 | Some i \<Rightarrow> created (entries j1 ! i)) = cr"
    unfolding cr_def by (rule position_filter_hd)
  have sub0: "subseq es0 (entries j1)" by (simp add: es0_def)
  have cr: "cr \<le> clock j1"
  proof (cases "filter (same_tuple L c d) (entries j1)")
    case (Cons e es)
    then have "e \<in> set (entries j1)" by (metis filter_is_subset list.set_intros(1) subsetD)
    with ok1 Cons show ?thesis by (simp add: cr_def jar_ok_def stamps_ok_def)
  qed (simp add: cr_def)
  from item_room [OF size] obtain es1 where es1: "make_site_room L (site_key L d) ?b es0 = Some es1"
    "site_fits (site_key L d) ?b es1" "lru_only L es0 es1"
    using make_site_room_ok by blast
  from item_room [OF size] obtain es2 where es2: "make_jar_room L ?b es1 = Some es2" "jar_fits ?b es2" "lru_only L es1 es2"
    using make_jar_room_ok by blast
  have lru: "lru_only L es0 es2" using es1(3) es2(3) by (rule lru_only_trans)
  then have sub2: "subseq es2 es0" by (simp add: lru_only_def)
  from es2(3) have sub12: "subseq es2 es1" by (simp add: lru_only_def)
  have sub2': "subseq es2 (entries j1)" using sub2 sub0 by (rule subseq_order.trans)
  have "limits_ok (es2 @ [?e])"
    using limits_ok_subseq [OF _ sub2'] ok1 site_fits_subseq [OF es1(2) sub12] es2(2) size
    by (intro limits_ok_snoc) (simp_all add: jar_ok_def stored_entry_def)
  moreover have "tuples_ok L (es2 @ [?e])"
  proof -
    have "\<forall>x \<in> set es2. \<not> same_tuple L c d x"
      using subseq_set [OF sub2] by (auto simp: es0_def)
    then have "tuple_of L ?e \<notin> tuple_of L ` set es2"
      by (force simp: tuple_of_def same_tuple_def stored_entry_def dom)
    with tuples_ok_subseq [OF _ sub2'] ok1 show ?thesis
      by (auto simp: tuples_ok_def jar_ok_def stored_entry_def dom)
  qed
  moreover have "stamps_ok (j1\<lparr>entries := es2 @ [?e]\<rparr>)"
    using ok1 cr subseq_set [OF sub2'] by (auto simp: jar_ok_def stamps_ok_def stored_entry_def)
  ultimately have fin: "jar_ok L (j1\<lparr>entries := es2 @ [?e]\<rparr>)" by (simp add: jar_ok_def)
  obtain u where t: "tick (purge_expired L now j) = (u, j1)" and u: "u = clock j1"
    using tick_fst [of "purge_expired L now j"] by (metis j1_def prod.collapse)
  have "insert_cookie L now now' c wire j = Some (j1\<lparr>entries := es2 @ [?e]\<rparr>)"
    using size live es1(1) es2(1) rm old_cr
    by (cases ?old) (simp_all add: insert_cookie_def Let_def dom t u stored_entry_def)
  moreover have "es2 = es0" if "site_fits (site_key L d) ?b es0" "jar_fits ?b es0"
    using that es1(1) es2(1) by (simp add: make_site_room_unfold make_jar_room_unfold)
  ultimately show ?thesis using lru fin by blast
qed

text \<open>
  Insertion never panics and keeps the invariant, whatever the cookie: no domain, over the item
  limit, already expired, or stored.
\<close>

lemma insert_cookie_ok:
  assumes "jar_ok L j"
  shows "\<exists>j'. insert_cookie L now now' c wire j = Some j' \<and> jar_ok L j'"
proof -
  have purge: "jar_ok L (purge_expired L now j)" using assms by (rule jar_ok_purge)
  show ?thesis
  proof (cases "ck_domain L c")
    case None
    with purge show ?thesis by (simp add: insert_cookie_def Let_def)
  next
    case (Some d)
    let ?j1 = "snd (tick (purge_expired L now j))"
    have ok1: "jar_ok L ?j1" using purge by (rule jar_ok_tick)
    consider "MAX_ITEM_BYTES < item_bytes L c d wire"
      | "item_bytes L c d wire \<le> MAX_ITEM_BYTES" "ck_expired L now' c"
      | "item_bytes L c d wire \<le> MAX_ITEM_BYTES" "\<not> ck_expired L now' c"
      by linarith
    then show ?thesis
    proof cases
      case 1
      with Some purge show ?thesis by (simp add: insert_cookie_def Let_def)
    next
      case 2
      let ?old = "position (same_tuple L c d) (entries ?j1)"
      have "insert_cookie L now now' c wire j =
          Some (case ?old of None \<Rightarrow> ?j1 | Some i \<Rightarrow> ?j1\<lparr>entries := vec_remove i (entries ?j1)\<rparr>)"
        using 2 Some by (simp add: insert_cookie_def Let_def case_prod_beta)
      moreover have "jar_ok L (case ?old of None \<Rightarrow> ?j1 | Some i \<Rightarrow> ?j1\<lparr>entries := vec_remove i (entries ?j1)\<rparr>)"
        using ok1 by (auto intro: jar_ok_subseq subseq_vec_remove split: option.splits)
      ultimately show ?thesis by blast
    next
      case 3
      with insert_cookie_stores [OF assms Some, of wire now' now] show ?thesis by blast
    qed
  qed
qed


section \<open>The Cookie header\<close>

lemma select_pairs_spec:
  assumes "select_pairs L es is sel n = (sel', n')" and "n \<le> MAX_COOKIE_HEADER_BYTES"
  shows "n' \<le> MAX_COOKIE_HEADER_BYTES \<and> (\<exists>ks. sel' = sel @ ks \<and> subseq ks is)"
  using assms
proof (induction L es "is" sel n rule: select_pairs.induct)
  case (2 L es i "is" sel n)
  let ?added = "pair_len L (es ! i) + (if sel = [] then 0 else 2)"
  show ?case
  proof (cases "n + ?added \<le> MAX_COOKIE_HEADER_BYTES")
    case True
    with 2 obtain ks where "n' \<le> MAX_COOKIE_HEADER_BYTES" "sel' = (sel @ [i]) @ ks" "subseq ks is"
      by (auto simp: Let_def)
    then show ?thesis by (metis append.assoc append_Cons append_Nil subseq_Cons2)
  next
    case False
    with 2 show ?thesis by (auto simp: Let_def)
  qed
qed simp

definition pair_text :: "('c, 'u) cookie_lib \<Rightarrow> 'c jar_entry \<Rightarrow> string" where
  "pair_text L e = ck_name L (cookie e) @ ''='' @ ck_value L (cookie e)"

fun join_pairs :: "string list \<Rightarrow> string" where
  "join_pairs [] = []"
| "join_pairs [p] = p"
| "join_pairs (p # q # ps) = p @ ''; '' @ join_pairs (q # ps)"

lemma join_pairs_snoc:
  "join_pairs (ps @ [p]) = (if ps = [] then p else join_pairs ps @ ''; '' @ p)"
  by (induction ps rule: join_pairs.induct) auto

lemma pair_text_nonempty: "pair_text L e \<noteq> []"
  by (simp add: pair_text_def)

lemma join_pairs_nonempty: "ps \<noteq> [] \<Longrightarrow> [] \<notin> set ps \<Longrightarrow> join_pairs ps \<noteq> []"
  by (induction ps rule: join_pairs.induct) auto

lemma foldl_push_pair: "foldl (push_pair L es) [] is = join_pairs (map (\<lambda>i. pair_text L (es ! i)) is)"
proof (induction "is" rule: rev_induct)
  case (snoc i "is")
  have "join_pairs (map (\<lambda>i. pair_text L (es ! i)) is) = [] \<longleftrightarrow> is = []"
    using join_pairs_nonempty [of "map (\<lambda>i. pair_text L (es ! i)) is"] by (cases "is") (auto simp: pair_text_def)
  with snoc show ?case
    by (auto simp: push_pair_def join_pairs_snoc pair_text_def)
qed simp

lemma length_join_pairs:
  "length (join_pairs ps) = sum_list (map length ps) + 2 * (length ps - 1)"
  by (induction ps rule: join_pairs.induct) auto

lemma select_pairs_count:
  assumes "select_pairs L es is sel n = (sel', n')"
    and "n = sum_list (map (\<lambda>i. pair_len L (es ! i)) sel) + 2 * (length sel - 1)"
  shows "n' = sum_list (map (\<lambda>i. pair_len L (es ! i)) sel') + 2 * (length sel' - 1)"
  using assms
proof (induction L es "is" sel n rule: select_pairs.induct)
  case (2 L es i "is" sel n)
  then show ?case by (cases sel) (auto simp: Let_def split: if_splits)
qed simp

lemma touch_restamped: "restamped es (touch u es is)"
  unfolding touch_def
proof (induction "is" arbitrary: es)
  case Nil
  then show ?case by (simp add: restamped_def list_all2_refl)
next
  case (Cons i "is")
  have "restamped es (es[i := (es ! i)\<lparr>used := u\<rparr>])"
    by (cases "i < length es") (auto simp: restamped_def list_all2_conv_all_nth nth_list_update list_update_beyond)
  moreover have "restamped (es[i := (es ! i)\<lparr>used := u\<rparr>]) (foldl (\<lambda>es i. es[i := (es ! i)\<lparr>used := u\<rparr>]) (es[i := (es ! i)\<lparr>used := u\<rparr>]) is)"
    by (rule Cons.IH)
  ultimately show ?case
    by (simp add: restamped_trans)
qed

lemma touch_stamps:
  assumes "\<forall>e \<in> set es. used e \<le> n \<and> created e \<le> n" and "u \<le> n" and "e \<in> set (touch u es is)"
  shows "used e \<le> n \<and> created e \<le> n"
  using assms unfolding touch_def
proof (induction "is" arbitrary: es)
  case (Cons i "is")
  have "\<forall>e \<in> set (es[i := (es ! i)\<lparr>used := u\<rparr>]). used e \<le> n \<and> created e \<le> n"
  proof (cases "i < length es")
    case True
    with Cons.prems(1,2) set_update_subset_insert [of es i "(es ! i)\<lparr>used := u\<rparr>"] show ?thesis by fastforce
  next
    case False
    with Cons.prems(1) show ?thesis by (simp add: list_update_beyond)
  qed
  with Cons show ?case by simp
qed simp

lemma jar_ok_header:
  assumes "jar_ok L j"
  shows "jar_ok L (snd (header L now url j))"
proof -
  let ?j = "purge_expired L now j"
  have ok: "jar_ok L ?j" using assms by (rule jar_ok_purge)
  have ok1: "jar_ok L (snd (tick ?j))" using ok by (rule jar_ok_tick)
  have "jar_ok L ((snd (tick ?j))\<lparr>entries := touch (fst (tick ?j)) (entries (snd (tick ?j))) is\<rparr>)" for "is"
    using ok1 touch_restamped touch_stamps [of "entries (snd (tick ?j))" "clock (snd (tick ?j))" "fst (tick ?j)"]
    by (auto simp: jar_ok_def stamps_ok_def tick_fst intro: restamped_limits_ok restamped_tuples_ok)
  with ok show ?thesis by (simp add: header_def Let_def case_prod_beta)
qed


section \<open>The jar as a machine\<close>

datatype ('c, 'u) jar_op =
    JarInsert nat nat 'c nat
  | JarHeader nat 'u

fun jar_step :: "('c, 'u) cookie_lib \<Rightarrow> ('c, 'u) jar_op \<Rightarrow> 'c bounded_jar \<Rightarrow> 'c bounded_jar option" where
  "jar_step L (JarInsert now now' c wire) j = insert_cookie L now now' c wire j"
| "jar_step L (JarHeader now url) j = Some (snd (header L now url j))"

interpretation jar: guarded_machine "jar_ok L" "jar_step L" for L :: "('c, 'u) cookie_lib"
proof
  fix j :: "'c bounded_jar" and x :: "('c, 'u) jar_op"
  assume "jar_ok L j"
  then show "\<exists>j'. jar_step L x j = Some j' \<and> jar_ok L j'"
    by (cases x) (simp_all add: insert_cookie_ok jar_ok_header)
qed

section \<open>Properties\<close>


text \<open>
  A concrete library for the witnesses: a cookie is (domain, name, value, expiry), every path is
  \<^verbatim>\<open>/\<close>, and a cookie matches the URL that is its domain.
\<close>

definition plain_lib :: "(string \<times> string \<times> string \<times> nat, string) cookie_lib" where
  "plain_lib = \<lparr>ck_domain = (\<lambda>(d, n, v, x). Some d), ck_path = (\<lambda>_. ''/''), ck_name = (\<lambda>(d, n, v, x). n),
     ck_value = (\<lambda>(d, n, v, x). v), ck_expired = (\<lambda>now (d, n, v, x). x \<le> now), ck_matches = (\<lambda>(d, n, v, x) u. d = u),
     psl_known = (\<lambda>_. False), psl_domain = (\<lambda>_. None), entry_size = 100\<rparr>"

text \<open>
  An accepted cookie (it has a domain, fits the item limit and is not expired) is in the jar
  after its insertion: it is the last entry, it is charged its full size, it is the most recently
  used one, and if it replaces an entry with the same (domain, path, name) it keeps that entry's
  creation stamp.  When site and jar have room, every other live entry is still there.
\<close>

lemma insert_cookie_present:
  assumes "jar_ok L j" and "ck_domain L c = Some d" and "item_bytes L c d wire \<le> MAX_ITEM_BYTES"
    and "\<not> ck_expired L now' c"
    and "es = entries (snd (tick (purge_expired L now j)))"
    and "kept = filter (\<lambda>e. \<not> same_tuple L c d e) es"
  shows "\<exists>j' others. insert_cookie L now now' c wire j = Some j' \<and>
     entries j' = others @ [\<lparr>cookie = c, site = site_key L d, bytes = item_bytes L c d wire, used = clock j',
        created = (case filter (same_tuple L c d) es of [] \<Rightarrow> clock j' | e # _ \<Rightarrow> created e)\<rparr>] \<and>
     subseq others kept \<and>
     (site_fits (site_key L d) (item_bytes L c d wire) kept \<and> jar_fits (item_bytes L c d wire) kept \<longrightarrow> others = kept)"
proof -
  from insert_cookie_stores [OF assms(1-4), of now, folded assms(5), folded assms(6)]
  obtain es2 where r: "insert_cookie L now now' c wire j =
      Some ((snd (tick (purge_expired L now j)))\<lparr>entries := es2 @ [stored_entry L c d wire
        (clock (snd (tick (purge_expired L now j))))
        (case filter (same_tuple L c d) es of [] \<Rightarrow> clock (snd (tick (purge_expired L now j))) | e # _ \<Rightarrow> created e)]\<rparr>)"
    and "lru_only L kept es2"
    and "site_fits (site_key L d) (item_bytes L c d wire) kept \<longrightarrow> jar_fits (item_bytes L c d wire) kept \<longrightarrow> es2 = kept"
    by blast
  then show ?thesis
    by (simp add: stored_entry_def lru_only_def split: list.splits)
qed

text \<open>
  Eviction is least recently used per site: an entry that an insertion drops (other than the
  one it replaces) was no more recently used than any older entry of its site that stays.
\<close>

lemma insert_cookie_lru:
  assumes "jar_ok L j" and "ck_domain L c = Some d" and "item_bytes L c d wire \<le> MAX_ITEM_BYTES"
    and "\<not> ck_expired L now' c" and "insert_cookie L now now' c wire j = Some j'"
    and "es = entries (snd (tick (purge_expired L now j)))"
    and "e \<in> set es" and "\<not> same_tuple L c d e" and "e \<notin> set (entries j')"
    and "e' \<in> set es" and "e' \<in> set (butlast (entries j'))" and "site e' = site e"
  shows "evict_key L e \<le> evict_key L e'"
  using insert_cookie_stores [OF assms(1-4), of now] assms(5-12) by (auto simp: lru_only_def)

text \<open>
  The witness fills a site to its count limit: 180 cookies of one site, the first used at 7, the
  others later; the insertion of one more drops the first.
\<close>

definition full_entry :: "nat \<Rightarrow> (string \<times> string \<times> string \<times> nat) jar_entry" where
  "full_entry i = \<lparr>cookie = (''a.test'', replicate i CHR ''n'', ''v'', 9), site = ''a.test'',
     bytes = 120, used = 7 + i, created = 7 + i\<rparr>"

definition full_site_jar :: "(string \<times> string \<times> string \<times> nat) bounded_jar" where
  "full_site_jar = \<lparr>entries = map full_entry [0..<180], clock = 200\<rparr>"

lemma full_site_jar_ok: "jar_ok plain_lib full_site_jar"
  by (auto simp: jar_ok_def limits_ok_def stamps_ok_def tuples_ok_def jar_consts plain_lib_def tuple_of_def full_entry_def
      site_key_def trim_end_dots_def full_site_jar_def jar_bytes_def comp_def distinct_map inj_on_def sum_list_triv)

lemma full_site_entries: "entries full_site_jar = full_entry 0 # map full_entry [1..<180]"
  by (simp add: full_site_jar_def upt_conv_Cons del: upt_Suc)

text \<open>
  The \<^verbatim>\<open>Cookie\<close> header is at most 8192 bytes and is made of whole \<^verbatim>\<open>name=value\<close> pairs of live
  matching entries, joined by \<^verbatim>\<open>"; "\<close> in the order of longest path first, then oldest first; no pair
  is cut.  When all matching pairs fit, all of them are sent.
\<close>

lemma pair_text_length: "length (pair_text L e) = pair_len L e"
  by (simp add: pair_text_def pair_len_def)

lemma select_pairs_all:
  assumes "n + sum_list (map (\<lambda>i. pair_len L (es ! i)) is) + 2 * (length is - (if sel = [] then 1 else 0)) \<le> MAX_COOKIE_HEADER_BYTES"
  shows "fst (select_pairs L es is sel n) = sel @ is"
  using assms
proof (induction L es "is" sel n rule: select_pairs.induct)
  case (2 L es i "is" sel n)
  then show ?case by (cases sel; cases "is") (auto simp: Let_def)
qed simp

lemma restamped_nth: "restamped es es' \<Longrightarrow> i < length es \<Longrightarrow> cookie (es' ! i) = cookie (es ! i)"
  by (simp add: restamped_def list_all2_conv_all_nth)

lemma header_order_bound: "i \<in> set (header_order L url es) \<Longrightarrow> i < length es"
  by (auto simp: header_order_def)

lemma header_text:
  assumes "sel = fst (select_pairs L es (header_order L url es) [] 0)" and "es = entries (purge_expired L now j)"
  shows "fst (header L now url j) = (if sel = [] then None else Some (join_pairs (map (\<lambda>i. pair_text L (es ! i)) sel)))"
proof -
  let ?es' = "entries (snd (tick (purge_expired L now j)))"
  obtain n where sp: "select_pairs L es (header_order L url es) [] 0 = (sel, n)"
    unfolding assms(1) by (cases "select_pairs L es (header_order L url es) [] 0") auto
  from select_pairs_spec [OF sp] have "subseq sel (header_order L url es)" by auto
  then have "\<forall>i \<in> set sel. i < length es" using header_order_bound by (auto dest!: subseq_set [THEN subsetD])
  then have "map (\<lambda>i. pair_text L (?es' ! i)) sel = map (\<lambda>i. pair_text L (es ! i)) sel"
    by (simp add: assms(2) pair_text_def restamped_nth [OF tick_restamped])
  then show ?thesis
    unfolding header_def Let_def case_prod_beta foldl_push_pair
    by (simp only: flip: assms) simp
qed

lemma header_whole_pairs:
  assumes "es = entries (purge_expired L now j)"
    and "all_pairs = join_pairs (map (\<lambda>i. pair_text L (es ! i)) (header_order L url es))"
  shows "(\<forall>t. fst (header L now url j) = Some t \<longrightarrow>
        length t \<le> MAX_COOKIE_HEADER_BYTES \<and>
        (\<exists>sel. sel \<noteq> [] \<and> subseq sel (header_order L url es) \<and> t = join_pairs (map (\<lambda>i. pair_text L (es ! i)) sel))) \<and>
      (header_order L url es \<noteq> [] \<and> length all_pairs \<le> MAX_COOKIE_HEADER_BYTES \<longrightarrow>
        fst (header L now url j) = Some all_pairs)"
proof -
  obtain sel n where sel: "select_pairs L es (header_order L url es) [] 0 = (sel, n)" by fastforce
  then have out: "fst (header L now url j) = (if sel = [] then None else Some (join_pairs (map (\<lambda>i. pair_text L (es ! i)) sel)))"
    using header_text [OF _ assms(1), of sel url] by simp
  from select_pairs_spec [OF sel] have n: "n \<le> MAX_COOKIE_HEADER_BYTES" and sub: "subseq sel (header_order L url es)" by auto
  have "n = length (join_pairs (map (\<lambda>i. pair_text L (es ! i)) sel))"
    using select_pairs_count [OF sel] by (simp add: length_join_pairs comp_def pair_text_length)
  with n sub out have "\<forall>t. fst (header L now url j) = Some t \<longrightarrow> length t \<le> MAX_COOKIE_HEADER_BYTES \<and>
      (\<exists>sel. sel \<noteq> [] \<and> subseq sel (header_order L url es) \<and> t = join_pairs (map (\<lambda>i. pair_text L (es ! i)) sel))"
    by (auto split: if_splits)
  moreover have "fst (header L now url j) = Some all_pairs"
    if "header_order L url es \<noteq> []" "length all_pairs \<le> MAX_COOKIE_HEADER_BYTES"
  proof -
    have "sel = header_order L url es"
      using select_pairs_all [of 0 L es "header_order L url es" "[]"] that(2) sel
      by (simp add: assms(2) length_join_pairs comp_def pair_text_length)
    with out that(1) assms(2) show ?thesis by simp
  qed
  ultimately show ?thesis by blast
qed

text \<open>
  A tick, even one that rebases the stamps because the clock is at the maximum of 64 bits,
  keeps the order of all used and created stamps, ties included, and returns a stamp later than
  every one in the jar.
\<close>

lemma tick_keeps_order:
  assumes "stamps_ok j" and "es = entries j" and "es' = entries (snd (tick j))"
    and "i < length es" and "k < length es" and "f \<in> {used, created}" and "g \<in> {used, created}"
  shows "(f (es' ! i) \<le> g (es' ! k) \<longleftrightarrow> f (es ! i) \<le> g (es ! k)) \<and> f (es' ! i) < fst (tick j)"
proof -
  let ?st = "stamps_of es"
  have mem: "f (es ! i) \<in> set ?st" "g (es ! k) \<in> set ?st" using assms(4-7) by (auto simp: set_stamps_of)
  have le: "f (es ! i) \<le> clock j" using assms(1,2,4,6) by (auto simp: stamps_ok_def)
  show ?thesis
  proof (cases "clock j = u64_max")
    case True
    then have "f (es' ! i) = rank_in ?st (f (es ! i))" "g (es' ! k) = rank_in ?st (g (es ! k))" "fst (tick j) = length ?st + 1"
      using assms(2-7) by (auto simp: tick_def rebase_def Let_def)
    with rank_in_mono [OF stamps_of_strict mem] rank_in_nth [OF mem(1)] show ?thesis by simp
  next
    case False
    then have "es' = es" "fst (tick j) = clock j + 1" by (simp_all add: tick_def Let_def assms(2,3))
    with le show ?thesis by simp
  qed
qed

end
