(* ===== verification/Evidence.thy ===== *)
theory Evidence
  imports Prelude
begin

text \<open>
  The typed evidence of an attempt (\<^verbatim>\<open>crates/anvil-domain/src/execution.rs\<close>): phases and their
  status, the dispatch state and its summary over attempts, the failure kinds and their classes,
  and the transport failure record; and the functions of the transport and load crates that
  classify a failure kind.
\<close>

section \<open>Phases\<close>

datatype phase =
    Prepare | Queue | Dns | Connect | ProxyTunnel | ProxyProtocolHeader | TlsHandshake | QuicHandshake
  | DtlsHandshake | ProtocolHandshake | RequestWrite | AwaitResponseHeaders | ResponseBody | Session

datatype phase_status =
    Completed | Failed | TimedOut | PhaseCanceled | Reused | NotApplicable | UnknownStatus

record phase_timing =
  pt_phase :: phase
  pt_status :: phase_status
  start_us :: "nat option"
  end_us :: "nat option"
  pt_detail :: "string option"

definition duration_us :: "phase_timing \<Rightarrow> nat option" where
  "duration_us p =
     (case (start_us p, end_us p) of
        (Some s, Some e) \<Rightarrow> (if s \<le> e then Some (e - s) else None)
      | _ \<Rightarrow> None)"

section \<open>Failure kinds\<close>

text \<open>The code generator's setup of this many constructors is not needed: the simplifier decides equality.\<close>

datatype (plugins only: size) failure_kind =
    InvalidUrl | UnsupportedScheme | UnresolvedVariable | VariableCycle | MissingAttachment
  | ClientIdentityInvalid | ClientIdentityKeyMismatch | TlsProfileInvalid | ProxyConfigInvalid
  | InvalidHeader | BodySerialization | LintBlocked | RequestTooLargeLocal | AuthPreparationFailed
  | OAuthInteractionRequired | UnsupportedCombination | VaultLocked | WorkloadApiUnavailable
  | WorkloadApiDenied | WorkloadApiFailed | JwtSvidRejectedLocally | DnsNoSuchHost | DnsNoRecords
  | DnsTimeout | DnsServerFailure | DnsOther | ConnectRefused | ConnectTimeout | ConnectReset
  | NetworkUnreachable | HostUnreachable | AddressUnavailable | ConnectOther | ProxyConnectFailed
  | ProxyTunnelRejected | ProxyAuthRequired | ProxyProtocolError | HboneEndpointTlsFailed
  | HboneConnectRefused | HboneProtocolError | TlsUntrustedIssuer | TlsExpired | TlsNotYetValid
  | TlsNameMismatch | TlsRevoked | TlsBadCertificate | TlsAlertReceived | TlsHandshakeTimeout | TlsPeerClosed
  | TlsReset | TlsProtocolMismatch | TlsAlpnMismatch | TlsOther | TlsAlertAfterHandshake
  | TlsSpiffeIdMismatch | TlsUntrustedTrustDomain | TlsInvalidSvid | QuicHandshakeTimeout | QuicIdleTimeout
  | QuicTransportError | QuicApplicationClosed | QuicOther | DtlsHandshakeTimeout | DtlsHandshakeFailed
  | RequestWriteTimeout | RequestWriteFailed | ResponseHeadersTimeout | ClosedBeforeResponse
  | ResetBeforeResponse | HttpProtocolError | H2StreamReset | H2RefusedStream | H2GoAway
  | ResponseHeadersTooLarge | BodyIdleTimeout | BodyIncomplete | BodyReset | ResponseTooLargeLocal
  | DecompressionFailed | WsHandshakeRejected | WsProtocolError | WsMessageTooLarge | MasqueUnsupported
  | MasqueRefused | TotalTimeout | Canceled | Internal

text \<open>Equality of kinds by their position, so that failures can be compared by evaluation.\<close>

definition kind_index :: "failure_kind \<Rightarrow> nat" where
  "kind_index k = (case k of
     InvalidUrl \<Rightarrow> 0 | UnsupportedScheme \<Rightarrow> 1 | UnresolvedVariable \<Rightarrow> 2
     | VariableCycle \<Rightarrow> 3 | MissingAttachment \<Rightarrow> 4 | ClientIdentityInvalid \<Rightarrow> 5
     | ClientIdentityKeyMismatch \<Rightarrow> 6 | TlsProfileInvalid \<Rightarrow> 7
     | ProxyConfigInvalid \<Rightarrow> 8 | InvalidHeader \<Rightarrow> 9 | BodySerialization \<Rightarrow> 10
     | LintBlocked \<Rightarrow> 11 | RequestTooLargeLocal \<Rightarrow> 12 | AuthPreparationFailed \<Rightarrow> 13
     | OAuthInteractionRequired \<Rightarrow> 14 | UnsupportedCombination \<Rightarrow> 15
     | VaultLocked \<Rightarrow> 16 | WorkloadApiUnavailable \<Rightarrow> 17 | WorkloadApiDenied \<Rightarrow> 18
     | WorkloadApiFailed \<Rightarrow> 19 | JwtSvidRejectedLocally \<Rightarrow> 20 | DnsNoSuchHost \<Rightarrow> 21
     | DnsNoRecords \<Rightarrow> 22 | DnsTimeout \<Rightarrow> 23 | DnsServerFailure \<Rightarrow> 24
     | DnsOther \<Rightarrow> 25 | ConnectRefused \<Rightarrow> 26 | ConnectTimeout \<Rightarrow> 27
     | ConnectReset \<Rightarrow> 28 | NetworkUnreachable \<Rightarrow> 29 | HostUnreachable \<Rightarrow> 30
     | AddressUnavailable \<Rightarrow> 31 | ConnectOther \<Rightarrow> 32 | ProxyConnectFailed \<Rightarrow> 33
     | ProxyTunnelRejected \<Rightarrow> 34 | ProxyAuthRequired \<Rightarrow> 35 | ProxyProtocolError \<Rightarrow> 36
     | HboneEndpointTlsFailed \<Rightarrow> 37 | HboneConnectRefused \<Rightarrow> 38
     | HboneProtocolError \<Rightarrow> 39 | TlsUntrustedIssuer \<Rightarrow> 40 | TlsExpired \<Rightarrow> 41
     | TlsNotYetValid \<Rightarrow> 42 | TlsNameMismatch \<Rightarrow> 43 | TlsRevoked \<Rightarrow> 44
     | TlsBadCertificate \<Rightarrow> 45 | TlsAlertReceived \<Rightarrow> 46 | TlsHandshakeTimeout \<Rightarrow> 47
     | TlsPeerClosed \<Rightarrow> 48 | TlsReset \<Rightarrow> 49 | TlsProtocolMismatch \<Rightarrow> 50
     | TlsAlpnMismatch \<Rightarrow> 51 | TlsOther \<Rightarrow> 52 | TlsAlertAfterHandshake \<Rightarrow> 53
     | TlsSpiffeIdMismatch \<Rightarrow> 54 | TlsUntrustedTrustDomain \<Rightarrow> 55
     | TlsInvalidSvid \<Rightarrow> 56 | QuicHandshakeTimeout \<Rightarrow> 57 | QuicIdleTimeout \<Rightarrow> 58
     | QuicTransportError \<Rightarrow> 59 | QuicApplicationClosed \<Rightarrow> 60 | QuicOther \<Rightarrow> 61
     | DtlsHandshakeTimeout \<Rightarrow> 62 | DtlsHandshakeFailed \<Rightarrow> 63
     | RequestWriteTimeout \<Rightarrow> 64 | RequestWriteFailed \<Rightarrow> 65
     | ResponseHeadersTimeout \<Rightarrow> 66 | ClosedBeforeResponse \<Rightarrow> 67
     | ResetBeforeResponse \<Rightarrow> 68 | HttpProtocolError \<Rightarrow> 69 | H2StreamReset \<Rightarrow> 70
     | H2RefusedStream \<Rightarrow> 71 | H2GoAway \<Rightarrow> 72 | ResponseHeadersTooLarge \<Rightarrow> 73
     | BodyIdleTimeout \<Rightarrow> 74 | BodyIncomplete \<Rightarrow> 75 | BodyReset \<Rightarrow> 76
     | ResponseTooLargeLocal \<Rightarrow> 77 | DecompressionFailed \<Rightarrow> 78
     | WsHandshakeRejected \<Rightarrow> 79 | WsProtocolError \<Rightarrow> 80 | WsMessageTooLarge \<Rightarrow> 81
     | MasqueUnsupported \<Rightarrow> 82 | MasqueRefused \<Rightarrow> 83 | TotalTimeout \<Rightarrow> 84
     | Canceled \<Rightarrow> 85 | Internal \<Rightarrow> 86)"

definition all_kinds :: "failure_kind list" where
  "all_kinds = [
    InvalidUrl, UnsupportedScheme, UnresolvedVariable, VariableCycle, MissingAttachment,
    ClientIdentityInvalid, ClientIdentityKeyMismatch, TlsProfileInvalid, ProxyConfigInvalid, InvalidHeader,
    BodySerialization, LintBlocked, RequestTooLargeLocal, AuthPreparationFailed, OAuthInteractionRequired,
    UnsupportedCombination, VaultLocked, WorkloadApiUnavailable, WorkloadApiDenied, WorkloadApiFailed,
    JwtSvidRejectedLocally, DnsNoSuchHost, DnsNoRecords, DnsTimeout, DnsServerFailure, DnsOther,
    ConnectRefused, ConnectTimeout, ConnectReset, NetworkUnreachable, HostUnreachable, AddressUnavailable,
    ConnectOther, ProxyConnectFailed, ProxyTunnelRejected, ProxyAuthRequired, ProxyProtocolError,
    HboneEndpointTlsFailed, HboneConnectRefused, HboneProtocolError, TlsUntrustedIssuer, TlsExpired,
    TlsNotYetValid, TlsNameMismatch, TlsRevoked, TlsBadCertificate, TlsAlertReceived, TlsHandshakeTimeout,
    TlsPeerClosed, TlsReset, TlsProtocolMismatch, TlsAlpnMismatch, TlsOther, TlsAlertAfterHandshake,
    TlsSpiffeIdMismatch, TlsUntrustedTrustDomain, TlsInvalidSvid, QuicHandshakeTimeout, QuicIdleTimeout,
    QuicTransportError, QuicApplicationClosed, QuicOther, DtlsHandshakeTimeout, DtlsHandshakeFailed,
    RequestWriteTimeout, RequestWriteFailed, ResponseHeadersTimeout, ClosedBeforeResponse,
    ResetBeforeResponse, HttpProtocolError, H2StreamReset, H2RefusedStream, H2GoAway,
    ResponseHeadersTooLarge, BodyIdleTimeout, BodyIncomplete, BodyReset, ResponseTooLargeLocal,
    DecompressionFailed, WsHandshakeRejected, WsProtocolError, WsMessageTooLarge, MasqueUnsupported,
    MasqueRefused, TotalTimeout, Canceled, Internal]"

lemma all_kinds_index: "all_kinds ! kind_index k = k"
  by (cases k) (simp_all add: kind_index_def all_kinds_def)

instantiation failure_kind :: equal
begin

definition equal_failure_kind :: "failure_kind \<Rightarrow> failure_kind \<Rightarrow> bool" where
  "equal_failure_kind a b \<longleftrightarrow> kind_index a = kind_index b"

instance
  by standard (metis all_kinds_index equal_failure_kind_def)

end

definition is_local_preparation :: "failure_kind \<Rightarrow> bool" where
  "is_local_preparation k \<longleftrightarrow> k \<in> {InvalidUrl, UnsupportedScheme, UnresolvedVariable, VariableCycle, MissingAttachment, ClientIdentityInvalid, ClientIdentityKeyMismatch, TlsProfileInvalid, ProxyConfigInvalid, InvalidHeader, BodySerialization, LintBlocked, RequestTooLargeLocal, AuthPreparationFailed, OAuthInteractionRequired, UnsupportedCombination, VaultLocked, WorkloadApiUnavailable, WorkloadApiDenied, WorkloadApiFailed, JwtSvidRejectedLocally}"

definition is_tls_verification :: "failure_kind \<Rightarrow> bool" where
  "is_tls_verification k \<longleftrightarrow> k \<in> {TlsUntrustedIssuer, TlsExpired, TlsNotYetValid, TlsNameMismatch, TlsRevoked, TlsBadCertificate, TlsSpiffeIdMismatch, TlsUntrustedTrustDomain, TlsInvalidSvid}"

definition is_tunnel_leg :: "failure_kind \<Rightarrow> bool" where
  "is_tunnel_leg k \<longleftrightarrow> k \<in> {HboneEndpointTlsFailed, HboneConnectRefused, HboneProtocolError}"

section \<open>Transport failures\<close>

record transport_failure =
  tf_phase :: phase
  tf_kind :: failure_kind
  tf_message :: string
  io_error_kind :: "string option"
  os_error_code :: "int option"
  tls_alert :: "string option"
  h2_error_code :: "nat option"
  quic_error_code :: "nat option"
  tf_status :: "nat option"
  tf_field :: "string option"
  deadline_ms :: "nat option"

definition new_failure :: "phase \<Rightarrow> failure_kind \<Rightarrow> string \<Rightarrow> transport_failure" where
  "new_failure p k m = \<lparr>tf_phase = p, tf_kind = k, tf_message = m, io_error_kind = None, os_error_code = None,
     tls_alert = None, h2_error_code = None, quic_error_code = None, tf_status = None, tf_field = None,
     deadline_ms = None\<rparr>"

definition with_field :: "transport_failure \<Rightarrow> string \<Rightarrow> transport_failure" where
  "with_field f x = f\<lparr>tf_field := Some x\<rparr>"

definition with_deadline :: "transport_failure \<Rightarrow> nat option \<Rightarrow> transport_failure" where
  "with_deadline f ms = f\<lparr>deadline_ms := ms\<rparr>"

lemma failure_selectors [simp]:
  "tf_kind (new_failure p k m) = k" "tf_phase (new_failure p k m) = p" "tf_message (new_failure p k m) = m"
  "tf_field (new_failure p k m) = None"
  "tf_kind (with_field f x) = tf_kind f" "tf_phase (with_field f x) = tf_phase f"
  "tf_message (with_field f x) = tf_message f" "tf_field (with_field f x) = Some x"
  by (simp_all add: new_failure_def with_field_def)

section \<open>Dispatch state\<close>

datatype dispatch_state = NotDispatched | Sent | MayHaveBeenSent | UnknownDispatch

fun combine_dispatch :: "dispatch_state \<Rightarrow> dispatch_state \<Rightarrow> dispatch_state" where
  "combine_dispatch r s =
     (if r = Sent \<or> s = Sent then Sent
      else if r = MayHaveBeenSent \<or> s = MayHaveBeenSent then MayHaveBeenSent
      else if r = UnknownDispatch \<or> s = UnknownDispatch then UnknownDispatch
      else NotDispatched)"

definition summarize :: "dispatch_state list \<Rightarrow> dispatch_state" where
  "summarize states =
     (let (has, result) = foldl (\<lambda>(has, result) s. (True, combine_dispatch result s)) (False, NotDispatched) states
      in if has then result else NotDispatched)"

text \<open>How much a state admits that the peer may have acted on the request.\<close>

fun dispatch_rank :: "dispatch_state \<Rightarrow> nat" where
  "dispatch_rank NotDispatched = 0"
| "dispatch_rank UnknownDispatch = 1"
| "dispatch_rank MayHaveBeenSent = 2"
| "dispatch_rank Sent = 3"

lemma dispatch_rank_inj: "dispatch_rank a = dispatch_rank b \<longleftrightarrow> a = b"
  by (cases a; cases b) auto

instantiation dispatch_state :: linorder
begin

definition less_eq_dispatch_state :: "dispatch_state \<Rightarrow> dispatch_state \<Rightarrow> bool" where
  "less_eq_dispatch_state a b \<longleftrightarrow> dispatch_rank a \<le> dispatch_rank b"

definition less_dispatch_state :: "dispatch_state \<Rightarrow> dispatch_state \<Rightarrow> bool" where
  "less_dispatch_state a b \<longleftrightarrow> dispatch_rank a < dispatch_rank b"

instance
  by standard (auto simp: less_eq_dispatch_state_def less_dispatch_state_def dispatch_rank_inj)

end

lemma combine_dispatch_max: "combine_dispatch a b = max a b"
  by (cases a; cases b) (simp_all add: max_def less_eq_dispatch_state_def)

lemma NotDispatched_least: "NotDispatched \<le> a"
  by (simp add: less_eq_dispatch_state_def)

lemma summarize_foldl:
  "foldl (\<lambda>(has, result) s. (True, combine_dispatch result s)) (b, r) xs = (b \<or> xs \<noteq> [], foldl max r xs)"
  by (induction xs arbitrary: b r) (auto simp: combine_dispatch_max simp del: combine_dispatch.simps)

lemma foldl_max_Max: "foldl max r xs = Max (insert (r :: 'a :: linorder) (set xs))"
proof (induction xs arbitrary: r)
  case (Cons x xs)
  have "Max (insert (max r x) (set xs)) = Max (insert r (insert x (set xs)))"
    by (cases "set xs = {}") (simp_all add: max.assoc)
  with Cons show ?case by simp
qed simp

text \<open>
  The dispatch summary of a request is the state of its attempts that admits most (sent, then
  possibly sent, then unknown, then not dispatched): it does not depend on the order of the
  attempts, and it says that nothing was dispatched only if every attempt says so.
\<close>

lemma summarize_is_max:
  "summarize states = Max (insert NotDispatched (set states)) \<and>
   (summarize states = NotDispatched \<longleftrightarrow> set states \<subseteq> {NotDispatched})"
proof -
  have eq: "summarize states = Max (insert NotDispatched (set states))"
    by (simp add: summarize_def summarize_foldl foldl_max_Max del: combine_dispatch.simps)
  have "Max (insert NotDispatched (set states)) = NotDispatched \<longleftrightarrow> (\<forall>s \<in> set states. s \<le> NotDispatched)"
    using NotDispatched_least by (auto simp: Max_eq_iff)
  also have "\<dots> \<longleftrightarrow> set states \<subseteq> {NotDispatched}"
    using NotDispatched_least by (auto intro: order.antisym)
  finally show ?thesis using eq by simp
qed

section \<open>Classifiers of the transport and load crates\<close>

definition http_fail_status :: "failure_kind \<Rightarrow> phase_status" where
  "http_fail_status k =
     (if k = Canceled then PhaseCanceled
      else if k \<in> {TotalTimeout, ResponseHeadersTimeout, RequestWriteTimeout, BodyIdleTimeout, ConnectTimeout,
                   TlsHandshakeTimeout, DnsTimeout} then TimedOut
      else Failed)"

definition h3_phase_status :: "failure_kind \<Rightarrow> phase_status" where
  "h3_phase_status k =
     (if k = Canceled then PhaseCanceled
      else if k \<in> {QuicHandshakeTimeout, TotalTimeout, ResponseHeadersTimeout, BodyIdleTimeout, DnsTimeout} then TimedOut
      else Failed)"

definition phase_status_for :: "failure_kind \<Rightarrow> phase_status" where
  "phase_status_for k =
     (if k = Canceled then PhaseCanceled
      else if k \<in> {TotalTimeout, ResponseHeadersTimeout, RequestWriteTimeout, BodyIdleTimeout, ConnectTimeout,
                   TlsHandshakeTimeout, DnsTimeout, QuicHandshakeTimeout, DtlsHandshakeTimeout} then TimedOut
      else Failed)"

definition tunnel_status_for :: "transport_failure \<Rightarrow> phase_status" where
  "tunnel_status_for f =
     (if tf_kind f \<in> {DnsTimeout, ConnectTimeout, TlsHandshakeTimeout} then TimedOut
      else if deadline_ms f \<noteq> None then TimedOut
      else Failed)"

definition is_timeout :: "failure_kind \<Rightarrow> bool" where
  "is_timeout k \<longleftrightarrow> k \<in> {TotalTimeout, ResponseHeadersTimeout, RequestWriteTimeout, BodyIdleTimeout, ConnectTimeout,
     TlsHandshakeTimeout, DnsTimeout, QuicHandshakeTimeout, QuicIdleTimeout, DtlsHandshakeTimeout}"

definition closed_before_response :: "failure_kind \<Rightarrow> bool" where
  "closed_before_response k \<longleftrightarrow> k \<in> {ClosedBeforeResponse, ResetBeforeResponse, RequestWriteFailed}"

text \<open>
  The classifications of a failure agree: the three phase-status functions say \<^verbatim>\<open>TimedOut\<close> only
  for kinds that the load metrics count as timeouts, and \<^verbatim>\<open>Canceled\<close> exactly for a cancellation;
  a timeout is never a local preparation failure, a certificate failure, a tunnel-leg failure or a
  close before the response, and those four classes are pairwise disjoint.
\<close>

lemma failure_classes_agree:
  "(\<forall>st \<in> {http_fail_status, h3_phase_status, phase_status_for}.
      (st k = TimedOut \<longrightarrow> is_timeout k) \<and> (st k = PhaseCanceled \<longleftrightarrow> k = Canceled)) \<and>
   length (filter (\<lambda>p. p k) [is_timeout, is_local_preparation, is_tls_verification, is_tunnel_leg, closed_before_response]) \<le> 1"
proof -
  have "(st k = TimedOut \<longrightarrow> is_timeout k) \<and> (st k = PhaseCanceled \<longleftrightarrow> k = Canceled)"
    if "st \<in> {http_fail_status, h3_phase_status, phase_status_for}" for st
    using that by (auto simp: http_fail_status_def h3_phase_status_def phase_status_for_def is_timeout_def split: if_splits)
  moreover have "length (filter (\<lambda>p. p k) [is_timeout, is_local_preparation, is_tls_verification, is_tunnel_leg, closed_before_response]) \<le> 1"
    by (cases k) (simp_all add: is_timeout_def is_local_preparation_def is_tls_verification_def is_tunnel_leg_def closed_before_response_def)
  ultimately show ?thesis by blast
qed

end
