(* ===== verification/Rust_Text.thy ===== *)
theory Rust_Text
  imports Prelude
begin

text \<open>
  Text operations of the Rust standard library on UTF-8 byte strings: Unicode white space
  (\<^verbatim>\<open>trim\<close>, \<^verbatim>\<open>split_whitespace\<close>), decimal numbers (\<^verbatim>\<open>to_string\<close>, \<^verbatim>\<open>parse::<i64>\<close>), splitting and joining.
\<close>

section \<open>White space\<close>

text \<open>
  The number of bytes of the white-space character at the head of a string, 0 if there is none:
  the code points of Unicode's \<^verbatim>\<open>White_Space\<close> property in UTF-8.
\<close>

definition byte :: "char \<Rightarrow> nat" where
  "byte c = of_char c"

fun ws_len :: "string \<Rightarrow> nat" where
  "ws_len [] = 0"
| "ws_len (a # r) =
     (if byte a \<in> {9, 10, 11, 12, 13, 32} then 1
      else case r of
        [] \<Rightarrow> 0
      | b # r' \<Rightarrow>
          (if byte a = 194 \<and> byte b \<in> {133, 160} then 2
           else case r' of
             [] \<Rightarrow> 0
           | c # _ \<Rightarrow>
               (if byte a = 225 \<and> byte b = 154 \<and> byte c = 128
                   \<or> byte a = 226 \<and> byte b = 128 \<and> (128 \<le> byte c \<and> byte c \<le> 138 \<or> byte c \<in> {168, 169, 175})
                   \<or> byte a = 226 \<and> byte b = 129 \<and> byte c = 159
                   \<or> byte a = 227 \<and> byte b = 128 \<and> byte c = 128
                then 3 else 0)))"

text \<open>The same at the end of a string, read from a reversed string.\<close>

fun ws_len_rev :: "string \<Rightarrow> nat" where
  "ws_len_rev [] = 0"
| "ws_len_rev (a # r) =
     (if ws_len [a] = 1 then 1
      else case r of
        [] \<Rightarrow> 0
      | b # r' \<Rightarrow>
          (if ws_len [b, a] = 2 then 2
           else case r' of [] \<Rightarrow> 0 | c # _ \<Rightarrow> (if ws_len [c, b, a] = 3 then 3 else 0)))"

lemma ws_len_le: "ws_len s \<le> length s"
  by (cases s) (auto split: list.splits)

lemma ws_len_rev_le: "ws_len_rev s \<le> length s"
  by (cases s) (auto split: list.splits)

function trim_start :: "string \<Rightarrow> string" where
  "trim_start s = (if ws_len s = 0 then s else trim_start (drop (ws_len s) s))"
  by pat_completeness auto
termination
proof (relation "measure length")
  fix s :: string assume "ws_len s \<noteq> 0"
  then show "(drop (ws_len s) s, s) \<in> measure length" using ws_len_le [of s] by (cases s) auto
qed simp

function trim_rev :: "string \<Rightarrow> string" where
  "trim_rev s = (if ws_len_rev s = 0 then s else trim_rev (drop (ws_len_rev s) s))"
  by pat_completeness auto
termination
proof (relation "measure length")
  fix s :: string assume "ws_len_rev s \<noteq> 0"
  then show "(drop (ws_len_rev s) s, s) \<in> measure length" using ws_len_rev_le [of s] by (cases s) auto
qed simp

declare trim_start.simps [simp del] trim_rev.simps [simp del] ws_len.simps [simp del] ws_len_rev.simps [simp del]

definition trim_end :: "string \<Rightarrow> string" where
  "trim_end s = rev (trim_rev (rev s))"

definition trim :: "string \<Rightarrow> string" where
  "trim s = trim_end (trim_start s)"

lemma trim_start_suffix: "suffix (trim_start s) s"
proof (induction s rule: trim_start.induct)
  case (1 s)
  show ?case
  proof (cases "ws_len s = 0")
    case False
    with 1 have "suffix (trim_start (drop (ws_len s) s)) (drop (ws_len s) s)" by simp
    then show ?thesis
      using False by (simp add: trim_start.simps [of s]) (meson suffix_drop suffix_order.trans)
  qed (simp add: trim_start.simps [of s])
qed

lemma trim_rev_suffix: "suffix (trim_rev s) s"
proof (induction s rule: trim_rev.induct)
  case (1 s)
  show ?case
  proof (cases "ws_len_rev s = 0")
    case False
    with 1 have "suffix (trim_rev (drop (ws_len_rev s) s)) (drop (ws_len_rev s) s)" by simp
    then show ?thesis
      using False by (simp add: trim_rev.simps [of s]) (meson suffix_drop suffix_order.trans)
  qed (simp add: trim_rev.simps [of s])
qed

lemma length_trim: "length (trim s) \<le> length s"
  using trim_start_suffix [of s] trim_rev_suffix [of "rev (trim_start s)"]
  by (auto simp: trim_def trim_end_def dest!: suffix_length_le)

text \<open>An ASCII byte that is not white space is never trimmed, and never part of a longer character.\<close>

definition ascii_black :: "char \<Rightarrow> bool" where
  "ascii_black c \<longleftrightarrow> byte c < 128 \<and> byte c \<notin> {9, 10, 11, 12, 13, 32}"

lemma ws_len_black: "ascii_black c \<Longrightarrow> ws_len (c # s) = 0"
  by (auto simp: ascii_black_def ws_len.simps split: list.splits)

lemma trim_start_black: "ascii_black c \<Longrightarrow> trim_start (c # s) = c # s"
  by (simp add: trim_start.simps [of "c # s"] ws_len_black)

lemma trim_rev_black: "ascii_black c \<Longrightarrow> trim_rev (c # s) = c # s"
proof -
  assume c: "ascii_black c"
  then have "ws_len_rev (c # s) = 0"
    by (auto simp: ws_len_rev.simps ws_len.simps ascii_black_def split: list.splits)
  then show ?thesis by (simp add: trim_rev.simps [of "c # s"])
qed

lemma trim_black: "s \<noteq> [] \<Longrightarrow> ascii_black (hd s) \<Longrightarrow> ascii_black (last s) \<Longrightarrow> trim s = s"
proof -
  assume s: "s \<noteq> []" "ascii_black (hd s)" "ascii_black (last s)"
  then have "trim_start s = s" by (cases s) (simp_all add: trim_start_black)
  moreover have "trim_rev (rev s) = rev s"
    using s by (cases s rule: rev_cases) (simp_all add: trim_rev_black)
  ultimately show ?thesis by (simp add: trim_def trim_end_def)
qed

lemma ws_len_rev_black: "ascii_black c \<Longrightarrow> ws_len_rev (xs @ [c]) \<le> length xs"
  by (cases xs rule: list.exhaust; cases "tl xs"; cases "tl (tl xs)")
    (auto simp: ws_len_rev.simps ws_len.simps ascii_black_def split: list.splits)

lemma trim_rev_keeps: "ascii_black c \<Longrightarrow> trim_rev (xs @ [c]) \<noteq> []"
proof (induction "length xs" arbitrary: xs rule: less_induct)
  case less
  let ?k = "ws_len_rev (xs @ [c])"
  show ?case
  proof (cases "?k = 0")
    case False
    have le: "?k \<le> length xs" by (rule ws_len_rev_black [OF less(2)])
    then have "trim_rev (xs @ [c]) = trim_rev (drop ?k xs @ [c])" using False by (simp add: trim_rev.simps [of "xs @ [c]"])
    moreover have "length (drop ?k xs) < length xs" using False le by simp
    ultimately show ?thesis using less by simp
  qed (simp add: trim_rev.simps [of "xs @ [c]"])
qed

lemma trim_nonempty: "ascii_black c \<Longrightarrow> trim (c # s) \<noteq> []"
  using trim_rev_keeps [of c "rev s"] by (simp add: trim_def trim_end_def trim_start_black)

lemma trim_Nil [simp]: "trim [] = []"
proof -
  have "trim_start [] = []" by (subst trim_start.simps) (simp add: ws_len.simps)
  moreover have "trim_rev [] = []" by (subst trim_rev.simps) (simp add: ws_len_rev.simps)
  ultimately show ?thesis by (simp add: trim_def trim_end_def)
qed

lemma trim_space: "trim (CHR '' '' # s) = trim s"
  by (simp add: trim_def trim_start.simps [of "CHR '' '' # s"] ws_len.simps byte_def)

lemma ws_len_append: "ws_len xs \<noteq> 0 \<Longrightarrow> ws_len (xs @ ys) = ws_len xs"
proof -
  assume ws: "ws_len xs \<noteq> 0"
  consider "xs = []" | a where "xs = [a]" | a b where "xs = [a, b]" | a b c zs where "xs = a # b # c # zs"
    by (metis neq_Nil_conv)
  then show ?thesis
    by cases (use ws in \<open>simp_all add: ws_len.simps split: if_splits\<close>, blast+)
qed

lemma ws_len_trim_start: "ws_len (trim_start s) = 0"
  by (induction s rule: trim_start.induct) (metis trim_start.simps)

lemma ws_len_trim_rev: "ws_len_rev (trim_rev s) = 0"
  by (induction s rule: trim_rev.induct) (metis trim_rev.simps)

lemma trim_trim [simp]: "trim (trim s) = trim s"
proof -
  obtain t where t: "trim_start s = trim s @ t"
    using trim_rev_suffix [of "rev (trim_start s)"] by (auto simp: trim_def trim_end_def suffix_def) (metis rev_append rev_rev_ident)
  have "ws_len (trim s) = 0" using ws_len_append [of "trim s" t] ws_len_trim_start [of s] t by auto
  then have "trim_start (trim s) = trim s" by (simp add: trim_start.simps [of "trim s"])
  moreover have "trim_rev (rev (trim s)) = rev (trim s)"
    using ws_len_trim_rev [of "rev (trim_start s)"] by (simp add: trim_def trim_end_def trim_rev.simps [of "trim_rev (rev (trim_start s))"])
  ultimately show ?thesis by (simp add: trim_def [of "trim s"] trim_end_def)
qed

lemma trim_infix: "set (trim s) \<subseteq> set s"
  using trim_start_suffix [of s] trim_rev_suffix [of "rev (trim_start s)"]
  by (auto simp: trim_def trim_end_def suffix_def dest: arg_cong [of _ _ set]) (metis UnCI set_append set_rev)

text \<open>\<^verbatim>\<open>split_whitespace\<close>: the maximal runs without white space.\<close>

fun split_ws_aux :: "nat \<Rightarrow> string \<Rightarrow> string \<Rightarrow> string list" where
  "split_ws_aux k acc [] = (if acc = [] then [] else [rev acc])"
| "split_ws_aux (Suc k) acc (c # cs) = split_ws_aux k acc cs"
| "split_ws_aux 0 acc (c # cs) =
     (if ws_len (c # cs) = 0 then split_ws_aux 0 (c # acc) cs
      else (if acc = [] then [] else [rev acc]) @ split_ws_aux (ws_len (c # cs) - 1) [] cs)"

definition split_whitespace :: "string \<Rightarrow> string list" where
  "split_whitespace s = split_ws_aux 0 [] s"

section \<open>Splitting and joining\<close>

fun split_char :: "char \<Rightarrow> string \<Rightarrow> string list" where
  "split_char d [] = [[]]"
| "split_char d (c # cs) =
     (if c = d then [] # split_char d cs
      else case split_char d cs of [] \<Rightarrow> [[c]] | p # ps \<Rightarrow> (c # p) # ps)"

fun join_with :: "string \<Rightarrow> string list \<Rightarrow> string" where
  "join_with sep [] = []"
| "join_with sep [p] = p"
| "join_with sep (p # q # ps) = p @ sep @ join_with sep (q # ps)"

lemma split_char_nonempty [simp]: "split_char d s \<noteq> []"
  by (induction s) (auto split: list.splits)

lemma split_char_append: "d \<notin> set a \<Longrightarrow> split_char d (a @ d # b) = a # split_char d b"
  by (induction a) auto

lemma join_split_char: "join_with [d] (split_char d s) = s"
proof (induction s)
  case (Cons c cs)
  then show ?case
    by (cases "split_char d cs"; cases "tl (split_char d cs)") (auto split: list.splits)
qed simp

lemma split_char_pieces: "p \<in> set (split_char d s) \<Longrightarrow> d \<notin> set p"
  by (induction s arbitrary: p) (auto split: list.splits if_splits)

lemma split_char_none: "d \<notin> set s \<Longrightarrow> split_char d s = [s]"
  by (induction s) auto

lemma split_char_join_space:
  "d \<noteq> CHR '' '' \<Longrightarrow> \<forall>x \<in> set (x # xs). d \<notin> set x \<Longrightarrow> split_char d (join_with [d, CHR '' ''] (x # xs)) = x # map ((#) CHR '' '') xs"
proof (induction xs arbitrary: x)
  case (Cons y ys)
  have "split_char d (CHR '' '' # join_with [d, CHR '' ''] (y # ys)) = (CHR '' '' # y) # map ((#) CHR '' '') ys"
    using Cons.IH [of y] Cons.prems by simp
  then show ?case using Cons.prems by (simp add: split_char_append)
qed (simp add: split_char_none)

text \<open>\<^verbatim>\<open>split_once\<close> at the first occurrence of a character; \<^verbatim>\<open>strip_prefix\<close> and \<^verbatim>\<open>strip_suffix\<close> of one.\<close>

definition split_once :: "char \<Rightarrow> string \<Rightarrow> (string \<times> string) option" where
  "split_once d s = (if d \<in> set s then Some (takeWhile (\<lambda>c. c \<noteq> d) s, tl (dropWhile (\<lambda>c. c \<noteq> d) s)) else None)"

definition strip_first :: "char \<Rightarrow> string \<Rightarrow> string" where
  "strip_first d s = (case s of c # cs \<Rightarrow> if c = d then cs else s | [] \<Rightarrow> s)"

definition strip_last :: "char \<Rightarrow> string \<Rightarrow> string" where
  "strip_last d s = (if s \<noteq> [] \<and> last s = d then butlast s else s)"

lemma strip_last_snoc [simp]: "strip_last c (s @ [c]) = s"
  by (simp add: strip_last_def)

lemma split_once_append: "d \<notin> set a \<Longrightarrow> split_once d (a @ d # b) = Some (a, b)"
  by (induction a) (auto simp: split_once_def)

section \<open>Decimal numbers\<close>

definition digit_char :: "nat \<Rightarrow> char" where
  "digit_char d = char_of (48 + d)"

definition is_digit :: "char \<Rightarrow> bool" where
  "is_digit c \<longleftrightarrow> 48 \<le> byte c \<and> byte c \<le> 57"

definition digit_val :: "char \<Rightarrow> nat" where
  "digit_val c = byte c - 48"

fun show_nat :: "nat \<Rightarrow> string" where
  "show_nat n = (if n < 10 then [digit_char n] else show_nat (n div 10) @ [digit_char (n mod 10)])"

declare show_nat.simps [simp del]

definition show_int :: "int \<Rightarrow> string" where
  "show_int i = (if i < 0 then CHR ''-'' # show_nat (nat (- i)) else show_nat (nat i))"

definition read_digits :: "string \<Rightarrow> nat" where
  "read_digits s = foldl (\<lambda>n c. 10 * n + digit_val c) 0 s"

text \<open>\<^verbatim>\<open>parse::<uN>\<close> with \<open>hi\<close> the maximum of the type: an optional plus sign, then digits only.\<close>

definition parse_unsigned :: "nat \<Rightarrow> string \<Rightarrow> nat option" where
  "parse_unsigned hi s =
     (let ds = (case s of c # cs \<Rightarrow> if c = CHR ''+'' then cs else s | [] \<Rightarrow> s)
      in if ds \<noteq> [] \<and> list_all is_digit ds \<and> read_digits ds \<le> hi then Some (read_digits ds) else None)"

text \<open>\<^verbatim>\<open>parse::<i64>\<close>.\<close>

definition parse_i64 :: "string \<Rightarrow> int option" where
  "parse_i64 s =
     (case s of
        [] \<Rightarrow> None
      | c # cs \<Rightarrow>
          (if c = CHR ''-''
           then (if cs \<noteq> [] \<and> list_all is_digit cs \<and> read_digits cs \<le> 2 ^ 63 then Some (- int (read_digits cs)) else None)
           else map_option int (parse_unsigned (2 ^ 63 - 1) s)))"

lemma byte_digit_char [simp]: "d < 10 \<Longrightarrow> byte (digit_char d) = 48 + d"
  by (simp add: byte_def digit_char_def)

lemma show_nat_digits: "list_all is_digit (show_nat n) \<and> show_nat n \<noteq> []"
proof (induction n rule: show_nat.induct)
  case (1 n)
  then show ?case by (cases "n < 10") (simp_all add: show_nat.simps [of n] is_digit_def)
qed

lemma read_digits_snoc: "read_digits (s @ [c]) = 10 * read_digits s + digit_val c"
  by (simp add: read_digits_def)

lemma read_show_nat: "read_digits (show_nat n) = n"
proof (induction n rule: show_nat.induct)
  case (1 n)
  show ?case
  proof (cases "n < 10")
    case True
    then show ?thesis by (simp add: show_nat.simps [of n] read_digits_def digit_val_def)
  next
    case False
    with 1 show ?thesis by (simp add: show_nat.simps [of n] read_digits_snoc digit_val_def)
  qed
qed

lemma show_nat_no_plus: "show_nat n = c # cs \<Longrightarrow> c \<noteq> CHR ''+'' \<and> c \<noteq> CHR ''-''"
  using show_nat_digits [of n] by (auto simp: is_digit_def byte_def)

lemma parse_unsigned_show [simp]: "n \<le> hi \<Longrightarrow> parse_unsigned hi (show_nat n) = Some n"
  using show_nat_digits [of n] read_show_nat [of n] show_nat_no_plus [of n]
  by (auto simp: parse_unsigned_def split: list.splits)

section \<open>Hexadecimal\<close>

definition hex_digit :: "nat \<Rightarrow> char" where
  "hex_digit n = (if n < 10 then char_of (48 + n) else char_of (87 + n))"

fun show_hex :: "nat \<Rightarrow> string" where
  "show_hex n = (if n < 16 then [hex_digit n] else show_hex (n div 16) @ [hex_digit (n mod 16)])"

declare show_hex.simps [simp del]

section \<open>UTF-8\<close>

text \<open>
  The sequence at the head of a byte string: whether it is a character, and its length.  An
  invalid sequence is the longest prefix of a character that is there, or one byte.
\<close>

definition in_range :: "nat \<Rightarrow> nat \<Rightarrow> string \<Rightarrow> nat \<Rightarrow> bool" where
  "in_range lo hi s i \<longleftrightarrow> i < length s \<and> lo \<le> byte (s ! i) \<and> byte (s ! i) \<le> hi"

definition utf8_head :: "string \<Rightarrow> bool \<times> nat" where
  "utf8_head s =
     (let b = byte (hd s);
          second = (if b = 224 then in_range 160 191 s 1 else if b = 237 then in_range 128 159 s 1
                    else if b = 240 then in_range 144 191 s 1 else if b = 244 then in_range 128 143 s 1
                    else in_range 128 191 s 1)
      in if b < 128 then (True, 1)
         else if 194 \<le> b \<and> b \<le> 223 then (if second then (True, 2) else (False, 1))
         else if 224 \<le> b \<and> b \<le> 239 then
           (if \<not> second then (False, 1) else if in_range 128 191 s 2 then (True, 3) else (False, 2))
         else if 240 \<le> b \<and> b \<le> 244 then
           (if \<not> second then (False, 1) else if \<not> in_range 128 191 s 2 then (False, 2)
            else if in_range 128 191 s 3 then (True, 4) else (False, 3))
         else (False, 1))"

lemma utf8_head_pos: "0 < snd (utf8_head s)"
  by (auto simp: utf8_head_def Let_def)

lemma utf8_head_posD: "(ok, n) = utf8_head s \<Longrightarrow> 0 < n"
  by (metis utf8_head_pos snd_conv)

definition REPLACEMENT :: string where
  "REPLACEMENT = [CHR 0xEF, CHR 0xBF, CHR 0xBD]"

function from_utf8_lossy :: "string \<Rightarrow> string" where
  "from_utf8_lossy s =
     (if s = [] then []
      else case utf8_head s of (ok, n) \<Rightarrow> (if ok then take n s else REPLACEMENT) @ from_utf8_lossy (drop n s))"
  by pat_completeness auto
termination
  by (relation "measure length") (auto dest!: utf8_head_posD)

function is_utf8 :: "string \<Rightarrow> bool" where
  "is_utf8 s = (if s = [] then True else case utf8_head s of (ok, n) \<Rightarrow> ok \<and> is_utf8 (drop n s))"
  by pat_completeness auto
termination
  by (relation "measure length") (auto dest!: utf8_head_posD)

declare from_utf8_lossy.simps [simp del] is_utf8.simps [simp del]

lemma from_utf8_lossy_Nil [simp]: "from_utf8_lossy [] = []"
  by (simp add: from_utf8_lossy.simps)

lemma from_utf8_lossy_eq_Nil [simp]: "from_utf8_lossy s = [] \<longleftrightarrow> s = []"
  using utf8_head_pos [of s]
  by (subst from_utf8_lossy.simps) (auto simp: REPLACEMENT_def split: prod.splits)

lemma from_utf8_lossy_valid: "is_utf8 s \<Longrightarrow> from_utf8_lossy s = s"
proof (induction s rule: is_utf8.induct)
  case (1 s)
  show ?case
  proof (cases "s = []")
    case False
    obtain ok n where h: "utf8_head s = (ok, n)" by fastforce
    from 1(2) False h have "ok" "is_utf8 (drop n s)" by (auto simp: is_utf8.simps [of s])
    with 1(1) [OF False h [symmetric]] h False show ?thesis
      by (subst from_utf8_lossy.simps) simp
  qed simp
qed

lemma is_utf8_Cons: "byte c < 128 \<Longrightarrow> is_utf8 (c # s) = is_utf8 s"
  by (subst is_utf8.simps) (simp add: utf8_head_def)

lemma is_utf8_ascii: "list_all (\<lambda>c. byte c < 128) s \<Longrightarrow> is_utf8 s"
proof (induction s)
  case Nil
  then show ?case by (simp add: is_utf8.simps)
next
  case (Cons c s)
  then show ?case by (subst is_utf8.simps) (simp add: utf8_head_def)
qed

end
