(* ===== verification/Vars.thy ===== *)
theory Vars
  imports Evidence Rust_Text
begin

text \<open>
  Variable resolution (\<^verbatim>\<open>crates/anvil-engine/src/vars.rs\<close>): the layered lookup, the recursive
  expansion of \<^verbatim>\<open>{{name}}\<close> references with its cycle, depth, count and size limits, vault
  variables that are read once and then frozen, and the dynamic helpers.

  The vault is the trait \<^verbatim>\<open>SecretResolver\<close>; the random generator, UUIDs and the wall clock belong
  to other crates.  They are fields of the record \<open>resolver\<close>: functions of a world state \<open>'w\<close> that
  every call may change, so nothing is assumed about two reads giving the same answer.  The
  mutexes and atomic counters of \<^verbatim>\<open>Resolver\<close> are the fields of the state \<open>vstate\<close>.

  \<^verbatim>\<open>resolve_inner\<close> takes the number of levels left, \<open>MAX_DEPTH + 1 - depth\<close>, instead of the depth.
\<close>

section \<open>State\<close>

definition MAX_DEPTH :: nat where "MAX_DEPTH = 16"
definition MAX_OUTPUT :: nat where "MAX_OUTPUT = 8 * 1024 * 1024"
definition MAX_EXPANSIONS :: nat where "MAX_EXPANSIONS = 16384"

definition DEFERRED_SECRET_VALUE :: string where
  "DEFERRED_SECRET_VALUE = CHR 0x00 # ''anvil-deferred-vault-variable'' @ [CHR 0x00]"

definition DEFERRED_SECRET_FIELD :: string where
  "DEFERRED_SECRET_FIELD = ''variables.deferred''"

definition is_deferred_secret :: "transport_failure \<Rightarrow> bool" where
  "is_deferred_secret f \<longleftrightarrow> tf_field f = Some DEFERRED_SECRET_FIELD"

record var_entry =
  ve_name :: string
  ve_value :: string
  ve_secret :: bool
  ve_literal :: bool

record var_layer =
  vl_label :: string
  vl_vars :: "var_entry list"

record ('r, 'w) resolver =
  layers :: "var_layer list"
  secrets :: "(nat \<Rightarrow> nat \<Rightarrow> 'r option) option"
  read_secret :: "'r \<Rightarrow> 'w \<Rightarrow> string option \<times> 'w"
  value_transform :: "(string \<Rightarrow> string) option"
  new_uuid :: "'w \<Rightarrow> string \<times> 'w"
  now_timestamp :: "'w \<Rightarrow> string \<times> 'w"
  now_timestamp_ms :: "'w \<Rightarrow> string \<times> 'w"
  now_iso :: "'w \<Rightarrow> string \<times> 'w"
  random_range :: "int \<Rightarrow> int \<Rightarrow> 'w \<Rightarrow> int \<times> 'w"
  random_choice :: "string list \<Rightarrow> 'w \<Rightarrow> string \<times> 'w"

record 'w vstate =
  st_values :: "nat \<times> nat \<Rightarrow> string option"
  st_expansions :: nat
  st_counter :: "64 word"
  st_secret_subs :: nat
  st_used_secrets :: "string list"
  st_used :: "(string \<times> string) list"
  st_names :: "string list"
  st_world :: 'w

definition new_state :: "64 word \<Rightarrow> 'w \<Rightarrow> 'w vstate" where
  "new_state n w = \<lparr>st_values = (\<lambda>_. None), st_expansions = 0, st_counter = n, st_secret_subs = 0,
     st_used_secrets = [], st_used = [], st_names = [], st_world = w\<rparr>"

definition mark_sensitive :: "string \<Rightarrow> string \<Rightarrow> 'w vstate \<Rightarrow> 'w vstate" where
  "mark_sensitive name val st =
     (let st1 = (if val \<noteq> [] then st\<lparr>st_used_secrets := st_used_secrets st @ [val]\<rparr> else st)
      in if name \<noteq> [] \<and> \<not> list_ex (\<lambda>n. eq_ignore_ascii_case n name) (st_names st1)
         then st1\<lparr>st_names := st_names st1 @ [name]\<rparr> else st1)"

section \<open>References\<close>

text \<open>One step of the scan for \<^verbatim>\<open>{{\<close> and the first \<^verbatim>\<open>}}\<close> after it.\<close>

datatype scan =
    NoRef
  | Unterminated string string
  | Reference string string string

definition scan_ref :: "string \<Rightarrow> scan" where
  "scan_ref s =
     (case str_find ''{{'' s of
        None \<Rightarrow> NoRef
      | Some i \<Rightarrow>
          (let after = drop (i + 2) s
           in case str_find ''}}'' after of
                None \<Rightarrow> Unterminated (take i s) (drop i s)
              | Some c \<Rightarrow> Reference (take i s) (take c after) (drop (c + 2) after)))"

lemma scan_ref_shrinks [termination_simp]: "scan_ref s = Reference b e r \<Longrightarrow> length r < length s"
  by (auto simp: scan_ref_def Let_def split: option.splits dest!: str_find_SomeD)

definition is_dynamic :: "string \<Rightarrow> bool" where
  "is_dynamic e \<longleftrightarrow> is_prefix_of ''$'' e"

fun mask_dynamic :: "string \<Rightarrow> string \<Rightarrow> string" where
  "mask_dynamic s stand_in =
     (case scan_ref s of
        NoRef \<Rightarrow> s
      | Unterminated b t \<Rightarrow> b @ t
      | Reference b e r \<Rightarrow>
          b @ (if is_dynamic (trim e) then stand_in else ''{{'' @ e @ ''}}'') @ mask_dynamic r stand_in)"

declare mask_dynamic.simps [simp del]

section \<open>Lookup\<close>

definition named :: "string \<Rightarrow> var_entry \<Rightarrow> bool" where
  "named name v \<longleftrightarrow> ve_name v = name"

definition lookup :: "var_layer list \<Rightarrow> string \<Rightarrow> (var_entry \<times> string \<times> nat \<times> nat) option" where
  "lookup ls name =
     (case rposition (\<lambda>l. rposition (named name) (vl_vars l) \<noteq> None) ls of
        None \<Rightarrow> None
      | Some li \<Rightarrow>
          (case rposition (named name) (vl_vars (ls ! li)) of
             None \<Rightarrow> None
           | Some vi \<Rightarrow> Some (vl_vars (ls ! li) ! vi, vl_label (ls ! li), li, vi)))"

definition scopes_searched :: "var_layer list \<Rightarrow> string list" where
  "scopes_searched ls = map vl_label ls"

section \<open>Values\<close>

definition prep_failure :: "failure_kind \<Rightarrow> string \<Rightarrow> string \<Rightarrow> transport_failure" where
  "prep_failure k m field = with_field (new_failure Prepare k m) field"

definition apply_transform :: "('r, 'w) resolver \<Rightarrow> string \<Rightarrow> string" where
  "apply_transform R v = (case value_transform R of Some f \<Rightarrow> f v | None \<Rightarrow> v)"

definition vault_ref :: "('r, 'w) resolver \<Rightarrow> nat \<Rightarrow> nat \<Rightarrow> 'r option" where
  "vault_ref R li vi = (case secrets R of None \<Rightarrow> None | Some f \<Rightarrow> f li vi)"

text \<open>
  \<^verbatim>\<open>variable_value\<close>, for indices in range: they come from \<open>lookup\<close> or from enumerating the layers.
\<close>

definition variable_value :: "('r, 'w) resolver \<Rightarrow> nat \<Rightarrow> nat \<Rightarrow> 'w vstate \<Rightarrow> (transport_failure + string) \<times> 'w vstate" where
  "variable_value R li vi st =
     (let en = vl_vars (layers R ! li) ! vi
      in case vault_ref R li vi of
           Some r \<Rightarrow>
             (case st_values st (li, vi) of
                Some v \<Rightarrow> (Inr (apply_transform R v), st)
              | None \<Rightarrow>
                  (case read_secret R r (st_world st) of
                     (None, w) \<Rightarrow>
                       (Inl (prep_failure AuthPreparationFailed
                          ''could not resolve a secret variable; check the vault and active variables'' ''variables''),
                        st\<lparr>st_world := w\<rparr>)
                   | (Some v, w) \<Rightarrow>
                       (Inr (apply_transform R v),
                        st\<lparr>st_values := (st_values st)((li, vi) \<mapsto> v), st_world := w\<rparr>)))
         | None \<Rightarrow>
             (if ve_value en = DEFERRED_SECRET_VALUE
              then (Inl (prep_failure UnresolvedVariable
                     ''a vault variable resolves only when the request is sent, after its OAuth token endpoint is validated''
                     DEFERRED_SECRET_FIELD), st)
              else (Inr (apply_transform R (ve_value en)), st)))"

fun materialize_list :: "('r, 'w) resolver \<Rightarrow> (nat \<times> nat) list \<Rightarrow> 'w vstate \<Rightarrow> (transport_failure + unit) \<times> 'w vstate" where
  "materialize_list R [] st = (Inr (), st)"
| "materialize_list R ((li, vi) # ps) st =
     (if vault_ref R li vi \<noteq> None
      then (case variable_value R li vi st of
              (Inl f, st') \<Rightarrow> (Inl f, st')
            | (Inr _, st') \<Rightarrow> materialize_list R ps st')
      else materialize_list R ps st)"

definition all_positions :: "var_layer list \<Rightarrow> (nat \<times> nat) list" where
  "all_positions ls = concat (map (\<lambda>li. map (\<lambda>vi. (li, vi)) [0..<length (vl_vars (ls ! li))]) [0..<length ls])"

definition materialize_variables :: "('r, 'w) resolver \<Rightarrow> 'w vstate \<Rightarrow> (transport_failure + unit) \<times> 'w vstate" where
  "materialize_variables R st =
     (if secrets R = None then (Inr (), st) else materialize_list R (all_positions (layers R)) st)"

section \<open>Dynamic helpers\<close>

definition from_world :: "('w \<Rightarrow> string \<times> 'w) \<Rightarrow> 'w vstate \<Rightarrow> (transport_failure + string) \<times> 'w vstate" where
  "from_world f st = (case f (st_world st) of (v, w) \<Rightarrow> (Inr v, st\<lparr>st_world := w\<rparr>))"

definition random_bounds :: "string list \<Rightarrow> int \<times> int" where
  "random_bounds args =
     (case args of
        [a, b] \<Rightarrow> (case parse_i64 a of Some x \<Rightarrow> x | None \<Rightarrow> 0, case parse_i64 b of Some x \<Rightarrow> x | None \<Rightarrow> 1000)
      | _ \<Rightarrow> (0, 1000))"

definition dynamic :: "('r, 'w) resolver \<Rightarrow> string \<Rightarrow> string \<Rightarrow> 'w vstate \<Rightarrow> (transport_failure + string) \<times> 'w vstate" where
  "dynamic R expr field st =
     (let parts = split_whitespace expr; name = (case parts of [] \<Rightarrow> [] | p # _ \<Rightarrow> p); args = tl parts
      in if name \<in> {''uuid'', ''randomUUID'', ''guid''} then from_world (new_uuid R) st
         else if name = ''timestamp'' then from_world (now_timestamp R) st
         else if name = ''timestampMs'' then from_world (now_timestamp_ms R) st
         else if name = ''isoTimestamp'' then from_world (now_iso R) st
         else if name = ''counter'' then
           (Inr (show_nat (unat (st_counter st + 1))), st\<lparr>st_counter := st_counter st + 1\<rparr>)
         else if name = ''randomInt'' then
           (case random_bounds args of (lo, hi) \<Rightarrow>
              if hi < lo then
                (Inl (prep_failure UnresolvedVariable
                   (''$randomInt range '' @ show_int lo @ ''..'' @ show_int hi @ '' is empty in '' @ field) field), st)
              else from_world (\<lambda>w. case random_range R lo hi w of (i, w') \<Rightarrow> (show_int i, w')) st)
         else if name = ''randomFrom'' then
           (let choices = take 1000 (filter (\<lambda>s. s \<noteq> []) (split_char CHR ''|'' (join_with '' '' args)))
            in if choices = [] then
                 (Inl (prep_failure UnresolvedVariable (''$randomFrom needs choices a|b|c in '' @ field) field), st)
               else from_world (random_choice R choices) st)
         else (Inl (prep_failure UnresolvedVariable
                 (''unknown dynamic variable '' @ [CHR 0x27, CHR ''$''] @ name @ [CHR 0x27] @ '' in '' @ field) field), st))"

section \<open>Expansion\<close>

definition arrow :: string where
  "arrow = '' '' @ [CHR 0xE2, CHR 0x86, CHR 0x92] @ '' ''"

definition quoted :: "string \<Rightarrow> string" where
  "quoted s = [CHR 0x27] @ s @ [CHR 0x27]"

type_synonym 'w expander = "string list \<Rightarrow> string \<Rightarrow> 'w vstate \<Rightarrow> (transport_failure + string) \<times> 'w vstate"

text \<open>
  The substitution of one reference.  \<open>expand\<close> is the recursive call of \<^verbatim>\<open>resolve_inner\<close> at the
  next depth; the variable stack is kept with its newest name first.
\<close>

definition resolve_var :: "'w expander \<Rightarrow> ('r, 'w) resolver \<Rightarrow> string \<Rightarrow> string list \<Rightarrow> string \<Rightarrow> 'w vstate \<Rightarrow> (transport_failure + string) \<times> 'w vstate" where
  "resolve_var expand R field stack name st =
     (if name = [] then
        (Inl (prep_failure UnresolvedVariable (''empty variable reference {{}} in '' @ field @ ''.'') field), st)
      else if name \<in> set stack then
        (Inl (prep_failure VariableCycle
           (''variables reference each other in a cycle: '' @ join_with arrow (rev stack @ [name])) field), st)
      else case lookup (layers R) name of
        None \<Rightarrow>
          (Inl (prep_failure UnresolvedVariable
             (''variable '' @ quoted name @ '' used in '' @ field @ '' is not defined in any active scope ('' @
              join_with '', '' (scopes_searched (layers R)) @ '').'') field), st)
      | Some (en, scope, li, vi) \<Rightarrow>
          (let st1 = st\<lparr>st_expansions := st_expansions st + 1\<rparr>
           in if MAX_EXPANSIONS \<le> st_expansions st then
                (Inl (prep_failure VariableCycle
                   (''variable expansion in '' @ field @ '' exceeded '' @ show_nat MAX_EXPANSIONS @ '' references'') field), st1)
              else
                (case variable_value R li vi (st1\<lparr>st_used := st_used st1 @ [(name, scope)]\<rparr>) of
                   (Inl f, st2) \<Rightarrow> (Inl f, st2)
                 | (Inr raw, st2) \<Rightarrow>
                     (case (if ve_literal en then (Inr raw, st2) else expand (name # stack) raw st2) of
                        (Inl f, st3) \<Rightarrow>
                          (Inl (if ve_secret en
                                then f\<lparr>tf_message := ''could not resolve a secret variable; check the vault and active variables''\<rparr>
                                else f), st3)
                      | (Inr v, st3) \<Rightarrow>
                          (Inr v, if ve_secret en \<and> v \<noteq> []
                             then st3\<lparr>st_secret_subs := st_secret_subs st3 + 1, st_used_secrets := st_used_secrets st3 @ [v]\<rparr>
                             else st3)))))"

definition resolve_ref :: "'w expander \<Rightarrow> ('r, 'w) resolver \<Rightarrow> string \<Rightarrow> string list \<Rightarrow> string \<Rightarrow> 'w vstate \<Rightarrow> (transport_failure + string) \<times> 'w vstate" where
  "resolve_ref expand R field stack expr st =
     (if is_dynamic expr then dynamic R (tl expr) field st else resolve_var expand R field stack expr st)"

fun resolve_loop :: "'w expander \<Rightarrow> ('r, 'w) resolver \<Rightarrow> string \<Rightarrow> string list \<Rightarrow> string \<Rightarrow> string \<Rightarrow> 'w vstate \<Rightarrow> (transport_failure + string) \<times> 'w vstate" where
  "resolve_loop expand R field stack out rest st =
     (case scan_ref rest of
        NoRef \<Rightarrow> (Inr (out @ rest), st)
      | Unterminated b t \<Rightarrow> (Inr (out @ b @ t), st)
      | Reference b e r \<Rightarrow>
          (case resolve_ref expand R field stack (trim e) st of
             (Inl f, st') \<Rightarrow> (Inl f, st')
           | (Inr v, st') \<Rightarrow>
               (if MAX_OUTPUT < length (out @ b @ v) then
                  (Inl (prep_failure VariableCycle
                     (''variable expansion in '' @ field @ '' exceeded '' @ show_nat MAX_OUTPUT @ '' bytes'') field), st')
                else resolve_loop expand R field stack (out @ b @ v) r st')))"

declare resolve_loop.simps [simp del]

primrec resolve_inner :: "('r, 'w) resolver \<Rightarrow> string \<Rightarrow> nat \<Rightarrow> 'w expander" where
  "resolve_inner R field 0 = (\<lambda>stack input st.
     if str_find ''{{'' input = None then (Inr input, st)
     else (Inl (prep_failure VariableCycle
            (''variable expansion in '' @ field @ '' exceeded '' @ show_nat MAX_DEPTH @ '' levels ('' @
             join_with arrow (rev stack) @ '')'') field), st))"
| "resolve_inner R field (Suc n) = (\<lambda>stack input st.
     if str_find ''{{'' input = None then (Inr input, st)
     else resolve_loop (resolve_inner R field n) R field stack [] input st)"

definition resolve :: "('r, 'w) resolver \<Rightarrow> string \<Rightarrow> string \<Rightarrow> 'w vstate \<Rightarrow> (transport_failure + string) \<times> 'w vstate" where
  "resolve R input field st = resolve_inner R field (MAX_DEPTH + 1) [] input st"

section \<open>Reference semantics\<close>

text \<open>
  What an expansion means, without limits: \<open>raw_value\<close> is a variable's value under a valuation of
  the vault variables, and \<open>expands R m stk s out secs\<close> says that \<open>s\<close> expands to \<open>out\<close> under the
  pending variables \<open>stk\<close>, substituting the secret values \<open>secs\<close> (in the order of completion).  A
  dynamic helper may produce any text.
\<close>

definition raw_value :: "('r, 'w) resolver \<Rightarrow> (nat \<times> nat \<Rightarrow> string option) \<Rightarrow> nat \<Rightarrow> nat \<Rightarrow> string option" where
  "raw_value R m li vi =
     map_option (apply_transform R)
       (case vault_ref R li vi of
          Some _ \<Rightarrow> m (li, vi)
        | None \<Rightarrow>
            (let v = ve_value (vl_vars (layers R ! li) ! vi)
             in if v = DEFERRED_SECRET_VALUE then None else Some v))"

definition secret_sub :: "var_entry \<Rightarrow> string \<Rightarrow> string list" where
  "secret_sub en v = (if ve_secret en \<and> v \<noteq> [] then [v] else [])"

inductive expands :: "('r, 'w) resolver \<Rightarrow> (nat \<times> nat \<Rightarrow> string option) \<Rightarrow> string list \<Rightarrow> string \<Rightarrow> string \<Rightarrow> string list \<Rightarrow> bool"
  for R :: "('r, 'w) resolver" and m :: "nat \<times> nat \<Rightarrow> string option" where
  plain: "scan_ref s = NoRef \<Longrightarrow> expands R m stk s s []"
| unterminated: "scan_ref s = Unterminated b t \<Longrightarrow> expands R m stk s (b @ t) []"
| dynamic_helper: "scan_ref s = Reference b e r \<Longrightarrow> is_dynamic (trim e) \<Longrightarrow> expands R m stk r out secs \<Longrightarrow>
     expands R m stk s (b @ v @ out) secs"
| literal: "scan_ref s = Reference b e r \<Longrightarrow> \<not> is_dynamic (trim e) \<Longrightarrow> trim e \<noteq> [] \<Longrightarrow> trim e \<notin> set stk \<Longrightarrow>
     lookup (layers R) (trim e) = Some (en, scope, li, vi) \<Longrightarrow> raw_value R m li vi = Some raw \<Longrightarrow> ve_literal en \<Longrightarrow>
     expands R m stk r out secs \<Longrightarrow> expands R m stk s (b @ raw @ out) (secret_sub en raw @ secs)"
| template: "scan_ref s = Reference b e r \<Longrightarrow> \<not> is_dynamic (trim e) \<Longrightarrow> trim e \<noteq> [] \<Longrightarrow> trim e \<notin> set stk \<Longrightarrow>
     lookup (layers R) (trim e) = Some (en, scope, li, vi) \<Longrightarrow> raw_value R m li vi = Some raw \<Longrightarrow> \<not> ve_literal en \<Longrightarrow>
     expands R m (trim e # stk) raw v secs1 \<Longrightarrow> expands R m stk r out secs2 \<Longrightarrow>
     expands R m stk s (b @ v @ out) (secs1 @ secret_sub en v @ secs2)"

lemma raw_value_mono: "m \<subseteq>\<^sub>m m' \<Longrightarrow> raw_value R m li vi = Some v \<Longrightarrow> raw_value R m' li vi = Some v"
  by (auto simp: raw_value_def map_le_def dom_def split: option.splits)

lemma expands_mono: "expands R m stk s out secs \<Longrightarrow> m \<subseteq>\<^sub>m m' \<Longrightarrow> expands R m' stk s out secs"
  by (induction rule: expands.induct) (auto intro: expands.intros raw_value_mono)

lemma variable_value_spec:
  assumes "variable_value R li vi st = (Inr raw, st')"
  shows "raw_value R (st_values st') li vi = Some raw \<and> st_values st \<subseteq>\<^sub>m st_values st' \<and>
    st_used_secrets st' = st_used_secrets st \<and> st_used st' = st_used st \<and> st_expansions st' = st_expansions st"
  using assms
  by (auto simp: variable_value_def raw_value_def Let_def map_le_def split: option.splits prod.splits if_splits)

lemma dynamic_state:
  assumes "dynamic R e field st = (res, st')"
  shows "st_values st' = st_values st \<and> st_used_secrets st' = st_used_secrets st \<and> st_used st' = st_used st \<and>
    st_expansions st' = st_expansions st"
  using assms by (auto simp: dynamic_def from_world_def Let_def split: if_splits prod.splits)

text \<open>What a level of expansion must do for the level above it: the contract of the recursive call.\<close>

definition expander_ok :: "('r, 'w) resolver \<Rightarrow> 'w expander \<Rightarrow> bool" where
  "expander_ok R ex \<longleftrightarrow>
     (\<forall>stk s st out st'. ex stk s st = (Inr out, st') \<longrightarrow>
        st_values st \<subseteq>\<^sub>m st_values st' \<and>
        (\<exists>secs. expands R (st_values st') stk s out secs \<and> st_used_secrets st' = st_used_secrets st @ secs))"

lemma resolve_var_ok:
  assumes "expander_ok R ex" and "resolve_var ex R field stk name st = (Inr v, st')"
  obtains en scope li vi raw secs where "name \<noteq> []" "name \<notin> set stk" "lookup (layers R) name = Some (en, scope, li, vi)"
    "st_values st \<subseteq>\<^sub>m st_values st'" "raw_value R (st_values st') li vi = Some raw"
    "if ve_literal en then v = raw \<and> secs = [] else expands R (st_values st') (name # stk) raw v secs"
    "st_used_secrets st' = st_used_secrets st @ secs @ secret_sub en v"
proof -
  define st0 where "st0 scope = st\<lparr>st_expansions := st_expansions st + 1, st_used := st_used st @ [(name, scope)]\<rparr>" for scope
  from assms(2) obtain en scope li vi raw st2 st3 where n: "name \<noteq> []" "name \<notin> set stk"
    and lk: "lookup (layers R) name = Some (en, scope, li, vi)"
    and vv: "variable_value R li vi (st0 scope) = (Inr raw, st2)"
    and ex: "(if ve_literal en then (Inr raw, st2) else ex (name # stk) raw st2) = (Inr v, st3)"
    and st': "st' = (if ve_secret en \<and> v \<noteq> []
       then st3\<lparr>st_secret_subs := st_secret_subs st3 + 1, st_used_secrets := st_used_secrets st3 @ [v]\<rparr> else st3)"
    by (auto simp: resolve_var_def Let_def st0_def split: if_splits option.splits sum.splits prod.splits)
  from variable_value_spec [OF vv] have raw: "raw_value R (st_values st2) li vi = Some raw"
    and m2: "st_values st \<subseteq>\<^sub>m st_values st2" and us2: "st_used_secrets st2 = st_used_secrets st"
    by (auto simp: st0_def)
  have v': "st_values st' = st_values st3" and us': "st_used_secrets st' = st_used_secrets st3 @ secret_sub en v"
    by (simp_all add: st' secret_sub_def)
  show thesis
  proof (cases "ve_literal en")
    case True
    with ex have "v = raw" "st3 = st2" by auto
    with n lk m2 raw us2 v' us' True show thesis by (intro that [of en scope li vi raw "[]"]) auto
  next
    case False
    with ex assms(1) obtain secs where m3: "st_values st2 \<subseteq>\<^sub>m st_values st3"
      and e: "expands R (st_values st3) (name # stk) raw v secs" and us3: "st_used_secrets st3 = st_used_secrets st2 @ secs"
      by (fastforce simp: expander_ok_def)
    from m2 m3 have "st_values st \<subseteq>\<^sub>m st_values st3" by (rule map_le_trans)
    with n lk raw_value_mono [OF m3 raw] e us2 us3 v' us' False show thesis
      by (intro that [of en scope li vi raw secs]) auto
  qed
qed

lemma resolve_loop_ok:
  assumes "expander_ok R ex" and "resolve_loop ex R field stk out rest st = (Inr res, st')"
  shows "st_values st \<subseteq>\<^sub>m st_values st' \<and> (\<exists>tail secs. res = out @ tail \<and>
    expands R (st_values st') stk rest tail secs \<and> st_used_secrets st' = st_used_secrets st @ secs)"
  using assms
proof (induction ex R field stk out rest st rule: resolve_loop.induct)
  case (1 ex R field stk out rest st)
  note eq = resolve_loop.simps [of ex R field stk out rest st]
  show ?case
  proof (cases "scan_ref rest")
    case NoRef
    with 1(3) show ?thesis by (auto simp: eq intro: expands.plain)
  next
    case (Unterminated b t)
    with 1(3) show ?thesis by (auto simp: eq intro: expands.unterminated)
  next
    case (Reference b e r)
    with 1(3) obtain v st1 where ref: "resolve_ref ex R field stk (trim e) st = (Inr v, st1)"
      and short: "\<not> MAX_OUTPUT < length (out @ b @ v)"
      and rec: "resolve_loop ex R field stk (out @ b @ v) r st1 = (Inr res, st')"
      by (auto simp: eq split: prod.splits sum.splits if_splits)
    from 1(1) [OF Reference ref [symmetric] refl short 1(2) rec]
    obtain tail secs where m: "st_values st1 \<subseteq>\<^sub>m st_values st'" and res: "res = (out @ b @ v) @ tail"
      and ex: "expands R (st_values st') stk r tail secs" and us: "st_used_secrets st' = st_used_secrets st1 @ secs"
      by auto
    show ?thesis
    proof (cases "is_dynamic (trim e)")
      case True
      with ref have "dynamic R (tl (trim e)) field st = (Inr v, st1)" by (simp add: resolve_ref_def)
      from dynamic_state [OF this] have "st_values st1 = st_values st" "st_used_secrets st1 = st_used_secrets st" by auto
      with m res us expands.dynamic_helper [OF Reference True ex] show ?thesis by auto
    next
      case False
      with ref have "resolve_var ex R field stk (trim e) st = (Inr v, st1)" by (simp add: resolve_ref_def)
      with 1(2) obtain en scope li vi raw secs1 where n: "trim e \<noteq> []" "trim e \<notin> set stk"
        and lk: "lookup (layers R) (trim e) = Some (en, scope, li, vi)" and m1: "st_values st \<subseteq>\<^sub>m st_values st1"
        and raw: "raw_value R (st_values st1) li vi = Some raw"
        and v: "if ve_literal en then v = raw \<and> secs1 = [] else expands R (st_values st1) (trim e # stk) raw v secs1"
        and us1: "st_used_secrets st1 = st_used_secrets st @ secs1 @ secret_sub en v"
        by (rule resolve_var_ok)
      have "expands R (st_values st') stk rest (b @ v @ tail) (secs1 @ secret_sub en v @ secs)"
      proof (cases "ve_literal en")
        case True
        with v expands.literal [OF Reference False n lk raw_value_mono [OF m raw] True ex] show ?thesis by simp
      next
        case nl: False
        with v have "expands R (st_values st1) (trim e # stk) raw v secs1" by simp
        from expands.template [OF Reference False n lk raw_value_mono [OF m raw] nl expands_mono [OF this m] ex]
        show ?thesis .
      qed
      with map_le_trans [OF m1 m] res us us1 show ?thesis by (metis append.assoc)
    qed
  qed
qed

lemma resolve_inner_ok: "expander_ok R (resolve_inner R field n)"
proof (induction n)
  case 0
  have "scan_ref s = NoRef" if "str_find ''{{'' s = None" for s using that by (simp add: scan_ref_def)
  then show ?case by (auto simp: expander_ok_def intro: expands.plain split: if_splits)
next
  case (Suc n)
  have plain: "scan_ref s = NoRef" if "str_find ''{{'' s = None" for s using that by (simp add: scan_ref_def)
  show ?case
    unfolding expander_ok_def
  proof (intro allI impI)
    fix stk s st out st'
    assume "resolve_inner R field (Suc n) stk s st = (Inr out, st')"
    with resolve_loop_ok [OF Suc, of field stk "[]" s st] plain
    show "st_values st \<subseteq>\<^sub>m st_values st' \<and>
      (\<exists>secs. expands R (st_values st') stk s out secs \<and> st_used_secrets st' = st_used_secrets st @ secs)"
      by (auto split: if_splits intro: expands.plain)
  qed
qed

section \<open>Cycles\<close>

text \<open>The variables a text refers to, and the graph of references between variables.\<close>

fun ref_names :: "string \<Rightarrow> string list" where
  "ref_names s =
     (case scan_ref s of
        Reference b e r \<Rightarrow> (if is_dynamic (trim e) then [] else [trim e]) @ ref_names r
      | _ \<Rightarrow> [])"

declare ref_names.simps [simp del]

definition refers :: "('r, 'w) resolver \<Rightarrow> (nat \<times> nat \<Rightarrow> string option) \<Rightarrow> (string \<times> string) set" where
  "refers R m = {(x, y). \<exists>en scope li vi raw. lookup (layers R) x = Some (en, scope, li, vi) \<and> \<not> ve_literal en \<and>
     raw_value R m li vi = Some raw \<and> y \<in> set (ref_names raw)}"

lemma expands_acyclic:
  "expands R m stk s out secs \<Longrightarrow> x \<in> set (ref_names s) \<Longrightarrow> (x, y) \<in> (refers R m)\<^sup>* \<Longrightarrow>
     y \<notin> set stk \<and> (y, y) \<notin> (refers R m)\<^sup>+"
proof (induction arbitrary: x y rule: expands.induct)
  case (plain s stk)
  then show ?case by (simp add: ref_names.simps [of s])
next
  case (unterminated s b t stk)
  then show ?case by (simp add: ref_names.simps [of s])
next
  case (dynamic_helper s b e r stk out secs v)
  then show ?case by (simp add: ref_names.simps [of s])
next
  case (literal s b e r stk en scope li vi raw out secs)
  have sink: "(trim e, z) \<notin> refers R m" for z using literal(5,7) by (auto simp: refers_def)
  show ?case
  proof (cases "x = trim e")
    case True
    then have "y = trim e" using literal.prems(2) sink by (metis converse_rtranclE)
    then show ?thesis using literal(4) sink by (metis converse_tranclE)
  next
    case False
    with literal show ?thesis by (simp add: ref_names.simps [of s])
  qed
next
  case (template s b e r stk en scope li vi raw v secs1 out secs2)
  have succ: "z \<in> set (ref_names raw)" if "(trim e, z) \<in> refers R m" for z
    using that template(5,6) by (auto simp: refers_def)
  show ?case
  proof (cases "x = trim e")
    case True
    show ?thesis
    proof (cases "y = trim e")
      case y: True
      have "(trim e, trim e) \<notin> (refers R m)\<^sup>+"
      proof
        assume "(trim e, trim e) \<in> (refers R m)\<^sup>+"
        then obtain z where "(trim e, z) \<in> refers R m" "(z, trim e) \<in> (refers R m)\<^sup>*" by (meson tranclD)
        with succ template.IH(1) show False by fastforce
      qed
      with y template(4) show ?thesis by simp
    next
      case False
      with template.prems(2) True obtain z where "(trim e, z) \<in> refers R m" "(z, y) \<in> (refers R m)\<^sup>*"
        by (metis converse_rtranclE)
      with succ template.IH(1) show ?thesis by fastforce
    qed
  next
    case False
    with template show ?thesis by (simp add: ref_names.simps [of s])
  qed
qed

section \<open>Limits and frozen values\<close>

text \<open>
  Whatever a call returns, the state only moves in one direction: a vault value once read stays,
  and no more than \<open>MAX_EXPANSIONS\<close> variables are ever substituted.
\<close>

definition count_ok :: "'w vstate \<Rightarrow> bool" where
  "count_ok st \<longleftrightarrow> length (st_used st) \<le> MAX_EXPANSIONS \<and> length (st_used st) \<le> st_expansions st"

definition advances :: "'w vstate \<Rightarrow> 'w vstate \<Rightarrow> bool" where
  "advances st st' \<longleftrightarrow> st_values st \<subseteq>\<^sub>m st_values st' \<and> (count_ok st \<longrightarrow> count_ok st')"

lemma advances_refl [simp]: "advances st st"
  by (simp add: advances_def)

lemma advances_trans [trans]: "advances a b \<Longrightarrow> advances b c \<Longrightarrow> advances a c"
  unfolding advances_def by (meson map_le_trans)

lemma advances_secret [simp]: "advances st (st'\<lparr>st_secret_subs := a, st_used_secrets := b\<rparr>) = advances st st'"
  by (simp add: advances_def count_ok_def)

lemma variable_value_advances: "variable_value R li vi st = (res, st') \<Longrightarrow> advances st st'"
  by (auto simp: variable_value_def Let_def advances_def count_ok_def map_le_def
      split: option.splits prod.splits if_splits)

lemma dynamic_advances: "dynamic R e field st = (res, st') \<Longrightarrow> advances st st'"
  using dynamic_state [of R e field st res st'] by (auto simp: advances_def count_ok_def)

lemma resolve_var_advances:
  assumes ex: "\<And>stk s st. advances st (snd (ex stk s st))"
  shows "advances st (snd (resolve_var ex R field stk name st))"
proof (cases "lookup (layers R) name")
  case None
  then show ?thesis by (simp add: resolve_var_def)
next
  case (Some q)
  obtain en scope li vi where q: "q = (en, scope, li, vi)" by (cases q)
  show ?thesis
  proof (cases "MAX_EXPANSIONS \<le> st_expansions st")
    case True
    with Some q show ?thesis by (simp add: resolve_var_def Let_def advances_def count_ok_def)
  next
    case False
    let ?st0 = "st\<lparr>st_expansions := Suc (st_expansions st), st_used := st_used st @ [(name, scope)]\<rparr>"
    obtain res st2 where vv: "variable_value R li vi ?st0 = (res, st2)" by fastforce
    have "advances st ?st0" using False by (simp add: advances_def count_ok_def)
    also have "advances ?st0 st2" by (rule variable_value_advances [OF vv])
    finally have st2: "advances st st2" .
    show ?thesis
    proof (cases res)
      case (Inl f)
      with st2 False Some q vv show ?thesis by (simp add: resolve_var_def Let_def)
    next
      case (Inr raw)
      obtain r3 st3 where r3: "(if ve_literal en then (Inr raw, st2) else ex (name # stk) raw st2) = (r3, st3)" by fastforce
      have "advances st2 st3" using ex [of st2 "name # stk" raw] r3 by (auto split: if_splits)
      with st2 have "advances st st3" by (rule advances_trans)
      with Inr r3 False Some q vv show ?thesis by (cases r3) (simp_all add: resolve_var_def Let_def)
    qed
  qed
qed

lemma resolve_ref_advances:
  assumes "\<And>stk s st. advances st (snd (ex stk s st))"
  shows "advances st (snd (resolve_ref ex R field stk e st))"
proof (cases "is_dynamic e")
  case True
  then show ?thesis by (simp add: resolve_ref_def dynamic_advances [OF prod.collapse [symmetric]])
next
  case False
  then show ?thesis using resolve_var_advances [OF assms] by (simp add: resolve_ref_def)
qed

lemma resolve_loop_advances:
  assumes "\<And>stk s st. advances st (snd (ex stk s st))"
  shows "advances st (snd (resolve_loop ex R field stk out rest st))"
  using assms
proof (induction ex R field stk out rest st rule: resolve_loop.induct)
  case (1 ex R field stk out rest st)
  note eq = resolve_loop.simps [of ex R field stk out rest st]
  show ?case
  proof (cases "scan_ref rest")
    case (Reference b e r)
    obtain res st1 where ref: "resolve_ref ex R field stk (trim e) st = (res, st1)" by fastforce
    have st1: "advances st st1" using resolve_ref_advances [of ex st R field stk "trim e", OF 1(2)] ref by simp
    show ?thesis
    proof (cases res)
      case (Inl f)
      with Reference ref st1 show ?thesis by (simp add: eq)
    next
      case (Inr v)
      show ?thesis
      proof (cases "MAX_OUTPUT < length (out @ b @ v)")
        case False
        from st1 1(1) [OF Reference ref [symmetric] Inr False 1(2)]
        have "advances st (snd (resolve_loop ex R field stk (out @ b @ v) r st1))" by (rule advances_trans)
        with False show ?thesis using Reference ref Inr by (simp add: eq)
      qed (use Reference ref Inr st1 in \<open>simp add: eq\<close>)
    qed
  qed (simp_all add: eq)
qed

lemma resolve_inner_advances: "advances st (snd (resolve_inner R field n stk s st))"
  by (induction n arbitrary: stk s st) (simp_all add: resolve_loop_advances)

lemma materialize_list_advances: "materialize_list R ps st = (res, st') \<Longrightarrow> advances st st'"
  by (induction R ps st rule: materialize_list.induct)
    (auto split: if_splits prod.splits sum.splits dest!: variable_value_advances intro: advances_trans)

datatype resolver_op =
    Resolve string string
  | MarkSensitive string string
  | MaterializeVariables

definition resolver_step :: "('r, 'w) resolver \<Rightarrow> resolver_op \<Rightarrow> 'w vstate \<Rightarrow> 'w vstate" where
  "resolver_step R op st =
     (case op of
        Resolve s field \<Rightarrow> snd (resolve R s field st)
      | MarkSensitive n v \<Rightarrow> mark_sensitive n v st
      | MaterializeVariables \<Rightarrow> snd (materialize_variables R st))"

lemma resolver_step_advances: "advances st (resolver_step R op st)"
proof (cases op)
  case (Resolve s field)
  then show ?thesis by (simp add: resolver_step_def resolve_def resolve_inner_advances del: resolve_inner.simps)
next
  case (MarkSensitive n v)
  then show ?thesis by (simp add: resolver_step_def mark_sensitive_def Let_def advances_def count_ok_def)
next
  case MaterializeVariables
  then show ?thesis
    by (simp add: resolver_step_def materialize_variables_def materialize_list_advances [OF prod.collapse [symmetric]])
qed

interpretation resolver: guarded_machine count_ok "\<lambda>op st. Some (resolver_step R op st)" for R :: "('r, 'w) resolver"
  by unfold_locales (use resolver_step_advances [where R = R] in \<open>auto simp: advances_def\<close>)

lemma resolve_loop_length:
  assumes "resolve_loop ex R field stk out rest st = (Inr res, st')" and "length out \<le> MAX_OUTPUT"
  shows "length res \<le> MAX_OUTPUT + length rest"
  using assms
proof (induction ex R field stk out rest st rule: resolve_loop.induct)
  case (1 ex R field stk out rest st)
  note eq = resolve_loop.simps [of ex R field stk out rest st]
  show ?case
  proof (cases "scan_ref rest")
    case NoRef
    with 1(2,3) show ?thesis by (auto simp: eq)
  next
    case (Unterminated b t)
    then have "b @ t = rest" by (auto simp: scan_ref_def Let_def split: option.splits)
    with Unterminated 1(2,3) show ?thesis by (auto simp: eq)
  next
    case (Reference b e r)
    with 1(2) obtain v st1 where ref: "resolve_ref ex R field stk (trim e) st = (Inr v, st1)"
      and short: "\<not> MAX_OUTPUT < length (out @ b @ v)"
      and rec: "resolve_loop ex R field stk (out @ b @ v) r st1 = (Inr res, st')"
      by (auto simp: eq split: prod.splits sum.splits if_splits)
    have "length res \<le> MAX_OUTPUT + length r"
      using 1(1) [OF Reference ref [symmetric] refl short rec] short by simp
    with scan_ref_shrinks [OF Reference] show ?thesis by simp
  qed
qed

section \<open>Properties\<close>

text \<open>
  A name is looked up in the last layer that defines it, and there in its last entry: the
  result is an entry with that name which no later entry and no later layer shadows, with its
  scope and its position.
\<close>

lemma lookup_last_wins:
  "lookup ls name = Some (en, scope, li, vi) \<longleftrightarrow>
     li < length ls \<and> vi < length (vl_vars (ls ! li)) \<and> en = vl_vars (ls ! li) ! vi \<and> scope = vl_label (ls ! li) \<and>
     ve_name en = name \<and> name \<notin> ve_name ` set (drop (Suc vi) (vl_vars (ls ! li))) \<and>
     name \<notin> ve_name ` (\<Union>l \<in> set (drop (Suc li) ls). set (vl_vars l))"
proof -
  have "lookup ls name = Some (en, scope, li, vi) \<longleftrightarrow>
    rposition (\<lambda>l. rposition (named name) (vl_vars l) \<noteq> None) ls = Some li \<and>
    rposition (named name) (vl_vars (ls ! li)) = Some vi \<and> en = vl_vars (ls ! li) ! vi \<and> scope = vl_label (ls ! li)"
    by (auto simp: lookup_def split: option.splits)
  also have "\<dots> \<longleftrightarrow> li < length ls \<and> (\<forall>l \<in> set (drop (Suc li) ls). rposition (named name) (vl_vars l) = None) \<and>
    rposition (named name) (vl_vars (ls ! li)) = Some vi \<and> en = vl_vars (ls ! li) ! vi \<and> scope = vl_label (ls ! li)"
    by (auto simp: rposition_Some [of _ ls])
  finally show ?thesis
    by (auto simp: rposition_None rposition_Some named_def image_iff) blast
qed

text \<open>
  C14. Resolution is sound, and misses no secret: when \<^verbatim>\<open>resolve\<close> succeeds, its result is an
  expansion of the input under the values now frozen; the secret values substituted anywhere in
  that expansion, at any depth, are exactly what was appended to the list used for redaction; and
  no value frozen before has changed.
\<close>

theorem resolve_sound:
  assumes "resolve R input field st = (Inr out, st')"
  shows "st_values st \<subseteq>\<^sub>m st_values st' \<and>
    (\<exists>secs. expands R (st_values st') [] input out secs \<and> st_used_secrets st' = st_used_secrets st @ secs)"
  using resolve_inner_ok [of R field "MAX_DEPTH + 1"] assms unfolding expander_ok_def resolve_def by blast

text \<open>
  C17. Resolution succeeds only on references without a cycle: no variable reachable from the
  input through variable values reaches itself.
\<close>

theorem resolve_acyclic:
  assumes "resolve R input field st = (Inr out, st')" and "x \<in> set (ref_names input)"
    and "(x, y) \<in> (refers R (st_values st'))\<^sup>*"
  shows "(y, y) \<notin> (refers R (st_values st'))\<^sup>+"
proof -
  from resolve_inner_ok [of R field "MAX_DEPTH + 1"] assms(1)
  obtain secs where "expands R (st_values st') [] input out secs"
    unfolding expander_ok_def resolve_def by blast
  from expands_acyclic [OF this assms(2,3)] show ?thesis by simp
qed

text \<open>
  Expansion is bounded: whatever calls a resolver serves, in whatever order and with
  whatever results, at most \<open>MAX_EXPANSIONS\<close> variables are ever substituted.
\<close>

lemma resolver_bounded:
  "\<exists>st. run_ops (\<lambda>op st. Some (resolver_step R op st)) ops (new_state n w) = Some st \<and>
     length (st_used st) \<le> MAX_EXPANSIONS"
  using resolver.run_ok [of "new_state n w" R ops] by (auto simp: count_ok_def new_state_def)

text \<open>
  A resolved text is at most \<open>MAX_OUTPUT\<close> bytes longer than its template, whatever the values
  substituted.
\<close>

lemma resolve_output_bound:
  assumes "resolve R input field st = (Inr out, st')"
  shows "length out \<le> MAX_OUTPUT + length input"
  using assms resolve_loop_length [of "resolve_inner R field MAX_DEPTH" R field "[]" "[]" input st out st']
  by (auto simp: resolve_def split: if_splits)

text \<open>
  A vault variable is frozen: once it has been read, every later read gives the same value
  and leaves the vault alone, whatever calls happened in between.
\<close>

lemma variable_value_frozen:
  assumes "variable_value R li vi st = (Inr v, st1)" and "vault_ref R li vi \<noteq> None"
    and "run_ops (\<lambda>op st. Some (resolver_step R op st)) ops st1 = Some st2"
  shows "variable_value R li vi st2 = (Inr v, st2)"
proof -
  have "st_values st1 \<subseteq>\<^sub>m st_values st2" using assms(3)
  proof (induction ops arbitrary: st1)
    case (Cons x xs)
    from Cons.prems have "st_values (resolver_step R x st1) \<subseteq>\<^sub>m st_values st2" by (auto intro: Cons.IH)
    with resolver_step_advances [of st1 R x] show ?case by (auto simp: advances_def intro: map_le_trans)
  qed simp
  moreover from assms(1,2) obtain u where "st_values st1 (li, vi) = Some u" "v = apply_transform R u"
    by (auto simp: variable_value_def split: option.splits prod.splits)
  ultimately show ?thesis using assms(2) by (auto simp: variable_value_def map_le_def dom_def)
qed

section \<open>Witnesses\<close>

text \<open>A vault secret with a shadowed namesake; the world counts the reads of the vault.\<close>

definition demo_resolver :: "(string, nat) resolver" where
  "demo_resolver =
     \<lparr>layers = [\<lparr>vl_label = ''ws'', vl_vars = [\<lparr>ve_name = ''k'', ve_value = ''old'', ve_secret = False, ve_literal = False\<rparr>]\<rparr>,
                \<lparr>vl_label = ''env'', vl_vars = [\<lparr>ve_name = ''k'', ve_value = DEFERRED_SECRET_VALUE, ve_secret = True, ve_literal = False\<rparr>]\<rparr>],
      secrets = Some (\<lambda>li vi. if li = 1 then Some ''ref'' else None),
      read_secret = (\<lambda>r n. (Some ''s3'', n + 1)), value_transform = None,
      new_uuid = (\<lambda>n. ([], n)), now_timestamp = (\<lambda>n. ([], n)), now_timestamp_ms = (\<lambda>n. ([], n)), now_iso = (\<lambda>n. ([], n)),
      random_range = (\<lambda>lo hi n. (lo, n)), random_choice = (\<lambda>cs n. (hd cs, n))\<rparr>"

definition demo_after :: "nat vstate" where
  "demo_after = \<lparr>st_values = [(Suc 0, 0) \<mapsto> ''s3''], st_expansions = 1, st_counter = 0, st_secret_subs = 1,
     st_used_secrets = [''s3''], st_used = [(''k'', ''env'')], st_names = [], st_world = 1\<rparr>"

lemma demo_scan:
  "scan_ref ''u={{ k }}!'' = Reference ''u='' '' k '' ''!''" "scan_ref ''!'' = NoRef"
  "trim '' k '' = ''k''" "is_dynamic ''k'' = False" "str_find ''{{'' ''u={{ k }}!'' = Some 2" "str_find ''{{'' ''s3'' = None"
  by code_simp+

lemma demo_lookup:
  "lookup (layers demo_resolver) ''k'' =
     Some (\<lparr>ve_name = ''k'', ve_value = DEFERRED_SECRET_VALUE, ve_secret = True, ve_literal = False\<rparr>, ''env'', Suc 0, 0)"
  by (simp add: lookup_def demo_resolver_def named_def)

lemma demo_value:
  "variable_value demo_resolver (Suc 0) 0 st =
     (case st_values st (Suc 0, 0) of
        Some v \<Rightarrow> (Inr v, st)
      | None \<Rightarrow> (Inr ''s3'', st\<lparr>st_values := (st_values st)((Suc 0, 0) \<mapsto> ''s3''), st_world := Suc (st_world st)\<rparr>))"
  by (simp add: variable_value_def vault_ref_def apply_transform_def demo_resolver_def split: option.split)

lemma demo_var:
  "resolve_var (resolve_inner demo_resolver ''url'' n) demo_resolver ''url'' [] ''k'' (new_state 0 0) = (Inr ''s3'', demo_after)"
  by (cases n) (simp_all add: resolve_var_def demo_lookup demo_value demo_scan new_state_def demo_after_def MAX_EXPANSIONS_def
      del: str_find.simps)

lemma demo_resolve:
  "resolve demo_resolver ''u={{ k }}!'' ''url'' (new_state 0 0) = (Inr ''u=s3!'', demo_after)"
proof -
  have "resolve demo_resolver ''u={{ k }}!'' ''url'' (new_state 0 0) =
    resolve_loop (resolve_inner demo_resolver ''url'' MAX_DEPTH) demo_resolver ''url'' [] [] ''u={{ k }}!'' (new_state 0 0)"
    by (simp add: resolve_def demo_scan del: str_find.simps)
  also have "\<dots> = resolve_loop (resolve_inner demo_resolver ''url'' MAX_DEPTH) demo_resolver ''url'' [] ''u=s3'' ''!'' demo_after"
    by (subst resolve_loop.simps) (simp add: demo_scan resolve_ref_def demo_var MAX_OUTPUT_def)
  also have "\<dots> = (Inr ''u=s3!'', demo_after)"
    by (subst resolve_loop.simps) (simp add: demo_scan)
  finally show ?thesis .
qed

theorem resolve_sound_witness:
  "st_values (new_state 0 (0 :: nat)) \<subseteq>\<^sub>m st_values demo_after \<and>
    (\<exists>secs. expands demo_resolver (st_values demo_after) [] ''u={{ k }}!'' ''u=s3!'' secs \<and>
       st_used_secrets demo_after = st_used_secrets (new_state 0 (0 :: nat)) @ secs)"
  by (rule resolve_sound [OF demo_resolve])

theorem resolve_acyclic_witness: "(''k'', ''k'') \<notin> (refers demo_resolver (st_values demo_after))\<^sup>+"
proof -
  have "''k'' \<in> set (ref_names ''u={{ k }}!'')" by (subst ref_names.simps) (simp add: demo_scan)
  from resolve_acyclic [OF demo_resolve this rtrancl_refl] show ?thesis .
qed

end
