(* ===== verification/Framing.thy ===== *)
theory Framing
  imports Evidence Rust_Text
begin

text \<open>
  Length-framed byte streams: the \<^verbatim>\<open>[u16 length][payload]\<close> records of a mesh datagram tunnel
  (\<^verbatim>\<open>crates/anvil-transport/src/hbone_udp.rs\<close>), QUIC variable-length integers, HTTP Datagrams and
  RFC 9297 capsules (\<^verbatim>\<open>crates/anvil-transport/src/masque.rs\<close>), each with its encoder, its incremental
  decoder and the loop that drains the decoder when bytes arrive.

  The locale \<open>stream_decoder\<close> is what an incremental decoder promises: bytes that arrive later
  never change a frame, an error or a wait already decided.  Splitting a stream into chunks then
  has no effect on what is decoded.
\<close>

unbundle bit_operations_syntax

type_synonym octet = "8 word"

section \<open>Incremental decoders\<close>

text \<open>Chunks that arrive one after the other, each followed by a drain.\<close>

fun feed_chunks :: "('b list \<Rightarrow> 's \<Rightarrow> 's) \<Rightarrow> ('s \<Rightarrow> 'f list \<times> ('e + 's)) \<Rightarrow> 'b list list \<Rightarrow> 's \<Rightarrow> 'f list \<times> ('e + 's)" where
  "feed_chunks push drain [] s = ([], Inr s)"
| "feed_chunks push drain (c # cs) s =
     (case drain (push c s) of
        (fs, Inl e) \<Rightarrow> (fs, Inl e)
      | (fs, Inr s') \<Rightarrow> (case feed_chunks push drain cs s' of (gs, r) \<Rightarrow> (fs @ gs, r)))"

text \<open>
  \<open>next\<close> returns an error, or the next frame if it is complete and the state after it.  \<open>drain\<close> is
  the loop that takes frames until none is complete; its result is the frames and the error that
  ended it or the state it waits in.
\<close>

locale stream_decoder =
  fixes push :: "'b list \<Rightarrow> 's \<Rightarrow> 's"
    and "next" :: "'s \<Rightarrow> 'e + 'f option \<times> 's"
    and drain :: "'s \<Rightarrow> 'f list \<times> ('e + 's)"
    and room :: "'s \<Rightarrow> nat"
  assumes push_push: "push b (push a s) = push (a @ b) s"
    and next_frame_stable: "next s = Inr (Some f, s') \<Longrightarrow> \<exists>t. next (push b s) = Inr (Some f, t) \<and> next t = next (push b s')"
    and next_wait_stable: "next s = Inr (None, s') \<Longrightarrow> next (push b s') = next (push b s)"
    and next_error_stable: "next s = Inl e \<Longrightarrow> next (push b s) = Inl e"
    and next_progress: "next s = Inr (Some f, s') \<Longrightarrow> room s' < room s"
    and drain_unfold: "drain s = (case next s of
       Inl e \<Rightarrow> ([], Inl e)
     | Inr (None, s') \<Rightarrow> ([], Inr s')
     | Inr (Some f, s') \<Rightarrow> (case drain s' of (fs, r) \<Rightarrow> (f # fs, r)))"
begin

lemma drain_push:
  "drain (push b s) = (case drain s of
     (fs, Inl e) \<Rightarrow> (fs, Inl e)
   | (fs, Inr s') \<Rightarrow> (case drain (push b s') of (gs, r) \<Rightarrow> (fs @ gs, r)))"
proof (induction "room s" arbitrary: s rule: less_induct)
  case less
  show ?case
  proof (cases "next s")
    case (Inl e)
    then show ?thesis by (simp add: drain_unfold [of s] drain_unfold [of "push b s"] next_error_stable)
  next
    case (Inr q)
    obtain fo s' where q: "q = (fo, s')" by (cases q)
    show ?thesis
    proof (cases fo)
      case None
      with Inr q have "next s = Inr (None, s')" by simp
      then show ?thesis
        by (simp add: drain_unfold [of s] drain_unfold [of "push b s"] drain_unfold [of "push b s'"] next_wait_stable
            split: sum.splits option.splits prod.splits)
    next
      case (Some f)
      with Inr q have n: "next s = Inr (Some f, s')" by simp
      from next_frame_stable [OF this] obtain t where t: "next (push b s) = Inr (Some f, t)" "next t = next (push b s')" by blast
      from t(2) have "drain t = drain (push b s')" by (simp add: drain_unfold [of t] drain_unfold [of "push b s'"])
      with less [OF next_progress [OF n]] n t show ?thesis
        by (simp add: drain_unfold [of s] drain_unfold [of "push b s"] split: sum.splits prod.splits)
    qed
  qed
qed

lemma feed_chunks_concat: "cs \<noteq> [] \<Longrightarrow> feed_chunks push drain cs s = drain (push (concat cs) s)"
proof (induction cs arbitrary: s)
  case (Cons c cs)
  show ?case
  proof (cases cs)
    case Nil
    then show ?thesis by (simp split: sum.splits prod.splits)
  next
    case (Cons c' cs')
    then have "feed_chunks push drain cs s' = drain (push (concat cs) s')" for s' using Cons.IH by simp
    then have "feed_chunks push drain (c # cs) s = drain (push (concat cs) (push c s))"
      by (simp add: drain_push [of "concat cs" "push c s"] split: sum.splits prod.splits)
    then show ?thesis by (simp add: push_push)
  qed
qed simp

end

section \<open>Datagram records\<close>

definition MAX_RECORD_PAYLOAD :: nat where "MAX_RECORD_PAYLOAD = 65535"
definition RECORD_PREFIX :: nat where "RECORD_PREFIX = 2"

text \<open>Big-endian integers: \<^verbatim>\<open>from_be_bytes\<close>, and \<^verbatim>\<open>put_u16\<close>, \<^verbatim>\<open>put_u32\<close>, \<^verbatim>\<open>put_u64\<close> by their width in bytes.\<close>

definition from_be :: "octet list \<Rightarrow> nat" where
  "from_be bs = foldl (\<lambda>a b. 256 * a + unat b) 0 bs"

definition to_be :: "nat \<Rightarrow> 'a::len word \<Rightarrow> octet list" where
  "to_be n w = map (\<lambda>i. ucast (drop_bit (8 * i) w)) (rev [0..<n])"

lemma length_to_be [simp]: "length (to_be n w) = n"
  by (simp add: to_be_def)

lemma from_be_Cons: "from_be (b # bs) = unat b * 256 ^ length bs + from_be bs"
proof -
  have "foldl (\<lambda>a b. 256 * a + unat b) k bs = k * 256 ^ length bs + foldl (\<lambda>a b. 256 * a + unat b) 0 bs" for k :: nat
  proof (induction bs arbitrary: k)
    case (Cons x xs)
    show ?case using Cons [of "256 * k + unat x"] Cons [of "unat x"] by (simp add: algebra_simps)
  qed simp
  from this [of "unat b"] show ?thesis by (simp add: from_be_def)
qed

lemma from_be_Nil [simp]: "from_be [] = 0"
  by (simp add: from_be_def)

lemma from_to_be: "from_be (to_be n w) = unat w mod 256 ^ n"
proof (induction n)
  case (Suc n)
  have "unat (drop_bit (8 * n) w) = unat w div 256 ^ n"
    unfolding unat_drop_bit_eq by (simp add: drop_bit_eq_div power_mult)
  then have "unat (ucast (drop_bit (8 * n) w) :: octet) = (unat w div 256 ^ n) mod 256"
    by (simp add: unsigned_ucast_eq take_bit_eq_mod)
  moreover have "unat w mod 256 ^ Suc n = (unat w div 256 ^ n) mod 256 * 256 ^ n + unat w mod 256 ^ n"
    using mod_mult2_eq [of "unat w" "256 ^ n" 256] by (simp add: mult.commute)
  ultimately show ?case using Suc by (simp add: to_be_def from_be_Cons)
qed (simp add: to_be_def)

definition encode_record :: "octet list \<Rightarrow> octet list option" where
  "encode_record payload =
     (if MAX_RECORD_PAYLOAD < length payload then None
      else Some (to_be 2 (of_nat (length payload) :: 16 word) @ payload))"

text \<open>The decoder's state is its buffer; \<^verbatim>\<open>push\<close> appends to it.\<close>

type_synonym record_decoder = "octet list"

definition record_push :: "octet list \<Rightarrow> record_decoder \<Rightarrow> record_decoder" where
  "record_push chunk buf = buf @ chunk"

definition next_record :: "record_decoder \<Rightarrow> octet list option \<times> record_decoder" where
  "next_record buf =
     (if length buf < RECORD_PREFIX then (None, buf)
      else let len = from_be [buf ! 0, buf ! 1]
           in if length buf < RECORD_PREFIX + len then (None, buf)
              else (Some (take len (drop RECORD_PREFIX buf)), drop len (drop RECORD_PREFIX buf)))"

definition pending :: "record_decoder \<Rightarrow> nat" where
  "pending buf = length buf"

lemma next_record_shrinks [termination_simp]: "next_record buf = (Some p, buf') \<Longrightarrow> length buf' < length buf"
  by (auto simp: next_record_def Let_def RECORD_PREFIX_def split: if_splits)

lemma next_record_shrinks' [termination_simp]: "(Some p, buf') = next_record buf \<Longrightarrow> length buf' < length buf"
  by (metis next_record_shrinks)

text \<open>The loop of \<^verbatim>\<open>HboneChannel::on_data\<close> over the decoder.\<close>

fun take_records :: "record_decoder \<Rightarrow> octet list list \<times> record_decoder" where
  "take_records buf =
     (case next_record buf of
        (None, buf') \<Rightarrow> ([], buf')
      | (Some p, buf') \<Rightarrow> (case take_records buf' of (ps, buf'') \<Rightarrow> (p # ps, buf'')))"

declare take_records.simps [simp del]

definition drain_records :: "record_decoder \<Rightarrow> octet list list \<times> (unit + record_decoder)" where
  "drain_records buf = (case take_records buf of (ps, buf') \<Rightarrow> (ps, Inr buf'))"

interpretation records: stream_decoder record_push "\<lambda>buf. Inr (next_record buf) :: unit + _" drain_records length
proof
  show "record_push b (record_push a s) = record_push (a @ b) s" for a b s
    by (simp add: record_push_def)
  show "\<exists>t. Inr (next_record (record_push b s)) = (Inr (Some f, t) :: unit + _) \<and>
      (Inr (next_record t) :: unit + _) = Inr (next_record (record_push b s'))"
    if "Inr (next_record s) = (Inr (Some f, s') :: unit + _)" for s f s' b
    using that
    by (intro exI [of _ "record_push b s'"])
      (auto simp: next_record_def record_push_def Let_def nth_append RECORD_PREFIX_def split: if_splits)
  show "(Inr (next_record (record_push b s')) :: unit + _) = Inr (next_record (record_push b s))"
    if "Inr (next_record s) = (Inr (None, s') :: unit + _)" for s s' b
    using that by (auto simp: next_record_def Let_def split: if_splits)
  show "length s' < length s" if "Inr (next_record s) = (Inr (Some f, s') :: unit + _)" for s f s'
    using that by (auto dest: next_record_shrinks)
  show "drain_records s = (case (Inr (next_record s) :: unit + _) of
       Inl e \<Rightarrow> ([], Inl e)
     | Inr (None, s') \<Rightarrow> ([], Inr s')
     | Inr (Some f, s') \<Rightarrow> (case drain_records s' of (fs, r) \<Rightarrow> (f # fs, r)))" for s
    by (simp add: drain_records_def take_records.simps [of s] split: prod.splits option.splits)
qed simp

lemma take_records_encoded:
  assumes "encode_record p = Some r"
  shows "take_records (r @ rest) = (case take_records rest of (ps, buf) \<Rightarrow> (p # ps, buf))"
proof -
  from assms have len: "length p \<le> 65535" and r: "r = to_be 2 (of_nat (length p) :: 16 word) @ p"
    by (auto simp: encode_record_def MAX_RECORD_PAYLOAD_def split: if_splits)
  obtain a b where ab: "to_be 2 (of_nat (length p) :: 16 word) = [a, b]" by (simp add: to_be_def numeral_2_eq_2)
  have "unat (of_nat (length p) :: 16 word) = length p" using len by (simp add: unat_of_nat)
  with len from_to_be [of 2 "of_nat (length p) :: 16 word"] ab have "from_be [a, b] = length p" by simp
  with r ab have "next_record (r @ rest) = (Some p, rest)"
    by (simp add: next_record_def RECORD_PREFIX_def)
  then show ?thesis by (simp add: take_records.simps [of "r @ rest"])
qed

section \<open>The datagram tunnel of a mesh endpoint\<close>

datatype closed_by = Peer | Client | Abnormal | Timeout | NotClosed

datatype inbound =
    Datagram "octet list"
  | PortUnreachable
  | RecvError
  | Dropped string
  | Ended "transport_failure option" string

definition is_datagram :: "inbound \<Rightarrow> bool" where
  "is_datagram i = (case i of Datagram _ \<Rightarrow> True | _ \<Rightarrow> False)"

datatype sent_result = SentOk "string option" | NotSent string

record hbone_facts =
  records_sent :: nat
  records_received :: nat
  oversize_refused :: nat
  truncated_tail_bytes :: nat
  hb_closed_by :: closed_by
  reset_code :: "string option"

definition new_facts :: hbone_facts where
  "new_facts = \<lparr>records_sent = 0, records_received = 0, oversize_refused = 0, truncated_tail_bytes = 0,
     hb_closed_by = NotClosed, reset_code = None\<rparr>"

text \<open>
  \<^verbatim>\<open>HboneChannel\<close> without its connection handles.  What the h2 stream yields is an event: a DATA
  chunk, the end of the stream, or an error with the failure \<^verbatim>\<open>classify_h2\<close> makes of it, its
  description and its code.
\<close>

record hbone_channel =
  hc_facts :: hbone_facts
  hc_decoder :: record_decoder
  hc_queue :: "inbound list"
  hc_stream_open :: bool
  hc_send_closed :: "string option"

definition hbone_new :: hbone_channel where
  "hbone_new = \<lparr>hc_facts = new_facts, hc_decoder = [], hc_queue = [], hc_stream_open = True, hc_send_closed = None\<rparr>"

datatype h2_event =
    H2Data "octet list"
  | H2End
  | H2Error transport_failure string "string option"

definition set_closed_by :: "closed_by \<Rightarrow> hbone_channel \<Rightarrow> hbone_channel" where
  "set_closed_by by c =
     (if hb_closed_by (hc_facts c) = NotClosed then c\<lparr>hc_facts := (hc_facts c)\<lparr>hb_closed_by := by\<rparr>\<rparr> else c)"

definition hbone_end :: "closed_by \<Rightarrow> transport_failure option \<Rightarrow> string \<Rightarrow> hbone_channel \<Rightarrow> hbone_channel" where
  "hbone_end by failure note c =
     c\<lparr>hc_stream_open := False, hc_facts := (hc_facts c)\<lparr>hb_closed_by := by\<rparr>, hc_queue := hc_queue c @ [Ended failure note]\<rparr>"

definition on_data :: "h2_event \<Rightarrow> hbone_channel \<Rightarrow> hbone_channel" where
  "on_data d c =
     (case d of
        H2Data chunk \<Rightarrow>
          (case take_records (record_push chunk (hc_decoder c)) of
             (ps, buf) \<Rightarrow> c\<lparr>hc_decoder := buf, hc_queue := hc_queue c @ map Datagram ps\<rparr>)
      | H2End \<Rightarrow>
          (let tail = pending (hc_decoder c)
           in if 0 < tail
              then hbone_end Abnormal
                (Some (new_failure Session BodyIncomplete
                   (''the HBONE endpoint ended the datagram tunnel inside a record: '' @ show_nat tail @
                    '' byte(s) of an incomplete [u16 length][payload] record were discarded'')))
                (''the HBONE endpoint ended the tunnel inside a datagram record; '' @ show_nat tail @
                 '' byte(s) of the incomplete record were discarded'')
                (c\<lparr>hc_facts := (hc_facts c)\<lparr>truncated_tail_bytes := tail\<rparr>\<rparr>)
              else hbone_end Peer None
                ''the HBONE endpoint ended the datagram tunnel (END_STREAM on the CONNECT stream)'' c)
      | H2Error f how code \<Rightarrow>
          hbone_end Abnormal
            (Some (f\<lparr>tf_phase := Session, tf_message := ''the datagram tunnel ended abnormally: '' @ how\<rparr>)) how
            (c\<lparr>hc_facts := (hc_facts c)\<lparr>reset_code := code\<rparr>\<rparr>))"

text \<open>\<^verbatim>\<open>send\<close>; \<open>written\<close> is the result of \<^verbatim>\<open>write_record\<close>, the reason when the stream takes no more data.\<close>

definition hbone_send :: "octet list \<Rightarrow> string option \<Rightarrow> hbone_channel \<Rightarrow> sent_result \<times> hbone_channel" where
  "hbone_send payload written c =
     (case encode_record payload of
        None \<Rightarrow>
          (NotSent (''a '' @ show_nat (length payload) @ ''-byte datagram exceeds the '' @ show_nat MAX_RECORD_PAYLOAD @
             '' bytes one HBONE datagram record can carry; it was refused locally and not sent''),
           c\<lparr>hc_facts := (hc_facts c)\<lparr>oversize_refused := oversize_refused (hc_facts c) + 1\<rparr>\<rparr>)
      | Some record \<Rightarrow>
          (case hc_send_closed c of
             Some why \<Rightarrow> (NotSent (''a '' @ show_nat (length payload) @ ''-byte datagram was not sent: '' @ why), c)
           | None \<Rightarrow>
               (case written of
                  None \<Rightarrow> (SentOk None, c\<lparr>hc_facts := (hc_facts c)\<lparr>records_sent := records_sent (hc_facts c) + 1\<rparr>\<rparr>)
                | Some why \<Rightarrow>
                    (NotSent (''a '' @ show_nat (length payload) @ ''-byte datagram was not sent: '' @ why),
                     c\<lparr>hc_send_closed := Some why\<rparr>))))"

text \<open>
  \<^verbatim>\<open>recv\<close> over the events the stream will yield: the item it returns with the events left, or \<open>None\<close>
  when it waits (for a stream that ended, or one that yields nothing more).
\<close>

fun hbone_recv :: "h2_event list \<Rightarrow> hbone_channel \<Rightarrow> inbound option \<times> h2_event list \<times> hbone_channel" where
  "hbone_recv evs c =
     (case hc_queue c of
        i # q \<Rightarrow>
          (Some i, evs, c\<lparr>hc_queue := q, hc_facts := (if is_datagram i
             then (hc_facts c)\<lparr>records_received := records_received (hc_facts c) + 1\<rparr> else hc_facts c)\<rparr>)
      | [] \<Rightarrow>
          (if \<not> hc_stream_open c then (None, evs, c)
           else case evs of [] \<Rightarrow> (None, [], c) | d # evs' \<Rightarrow> hbone_recv evs' (on_data d c)))"

declare hbone_recv.simps [simp del]

text \<open>The items \<open>n\<close> calls of \<^verbatim>\<open>recv\<close> deliver, in order.\<close>

fun hbone_deliver :: "nat \<Rightarrow> h2_event list \<Rightarrow> hbone_channel \<Rightarrow> inbound list \<times> hbone_channel" where
  "hbone_deliver 0 evs c = ([], c)"
| "hbone_deliver (Suc n) evs c =
     (case hbone_recv evs c of
        (None, evs', c') \<Rightarrow> ([], c')
      | (Some i, evs', c') \<Rightarrow> (case hbone_deliver n evs' c' of (xs, c'') \<Rightarrow> (i # xs, c'')))"

text \<open>
  What a tunnel delivers, read off the stream alone: the records of the bytes that arrived, then
  the end.
\<close>

definition end_item :: "record_decoder \<Rightarrow> h2_event \<Rightarrow> inbound" where
  "end_item buf d = last (hc_queue (on_data d (hbone_new\<lparr>hc_decoder := buf\<rparr>)))"

fun arrivals :: "record_decoder \<Rightarrow> h2_event list \<Rightarrow> inbound list" where
  "arrivals buf [] = []"
| "arrivals buf (H2Data chunk # evs) =
     (case take_records (record_push chunk buf) of (ps, buf') \<Rightarrow> map Datagram ps @ arrivals buf' evs)"
| "arrivals buf (H2End # evs) = [end_item buf H2End]"
| "arrivals buf (H2Error f how code # evs) = [end_item buf (H2Error f how code)]"

definition outstanding :: "hbone_channel \<Rightarrow> h2_event list \<Rightarrow> inbound list" where
  "outstanding c evs = hc_queue c @ (if hc_stream_open c then arrivals (hc_decoder c) evs else [])"

lemma outstanding_on_data: "hc_stream_open c \<Longrightarrow> outstanding (on_data d c) evs = outstanding c (d # evs)"
  by (cases d) (auto simp: outstanding_def on_data_def end_item_def hbone_end_def hbone_new_def Let_def split: prod.splits)

lemma records_received_on_data [simp]: "records_received (hc_facts (on_data d c)) = records_received (hc_facts c)"
  by (auto simp: on_data_def hbone_end_def Let_def split: h2_event.splits prod.splits)

lemma hbone_recv_spec:
  assumes "hbone_recv evs c = (r, evs', c')"
  shows "(case r of None \<Rightarrow> outstanding c evs = [] \<and> records_received (hc_facts c') = records_received (hc_facts c)
    | Some i \<Rightarrow> outstanding c evs = i # outstanding c' evs' \<and>
        records_received (hc_facts c') = records_received (hc_facts c) + (if is_datagram i then 1 else 0))"
  using assms
proof (induction evs c rule: hbone_recv.induct)
  case (1 evs c)
  note eq = hbone_recv.simps [of evs c]
  show ?case
  proof (cases "hc_queue c")
    case (Cons i q)
    with 1(2) show ?thesis by (auto simp: eq outstanding_def)
  next
    case Nil
    show ?thesis
    proof (cases "hc_stream_open c")
      case False
      with Nil 1(2) show ?thesis by (auto simp: eq outstanding_def)
    next
      case True
      show ?thesis
      proof (cases evs)
        case e: Nil
        with True Nil 1(2) show ?thesis by (auto simp: hbone_recv.simps [of "[]" c] outstanding_def)
      next
        case (Cons d evs1)
        with True Nil 1(2) have "hbone_recv evs1 (on_data d c) = (r, evs', c')"
          by (simp add: hbone_recv.simps [of "d # evs1" c])
        from 1(1) [OF Nil _ Cons this] True Cons show ?thesis by (cases r) (simp_all add: outstanding_on_data)
      qed
    qed
  qed
qed

lemma hbone_deliver_spec:
  "hbone_deliver n evs c = (xs, c') \<Longrightarrow> xs = take n (outstanding c evs) \<and>
     records_received (hc_facts c') = records_received (hc_facts c) + length (filter is_datagram xs)"
proof (induction n arbitrary: evs c xs)
  case (Suc n)
  obtain r evs1 c1 where r: "hbone_recv evs c = (r, evs1, c1)" by (metis prod_cases3)
  from hbone_recv_spec [OF r] Suc r show ?case
    by (cases r) (fastforce split: prod.splits)+
qed simp

lemma take_records_append:
  "take_records (buf @ b) = (case take_records buf of (ps, buf') \<Rightarrow> (case take_records (buf' @ b) of (qs, buf'') \<Rightarrow> (ps @ qs, buf'')))"
  using records.drain_push [of b buf] by (auto simp: drain_records_def record_push_def split: prod.splits)

lemma take_records_settled: "take_records buf = (ps, buf') \<Longrightarrow> take_records buf' = ([], buf')"
proof (induction buf arbitrary: ps rule: take_records.induct)
  case (1 buf)
  note eq = take_records.simps [of buf]
  show ?case
  proof (cases "next_record buf")
    case (Pair fo buf1)
    show ?thesis
    proof (cases fo)
      case None
      with Pair have "buf1 = buf" by (auto simp: next_record_def Let_def split: if_splits)
      with None Pair 1(2) have "buf' = buf" by (simp add: eq)
      with None Pair \<open>buf1 = buf\<close> show ?thesis by (simp add: eq)
    next
      case (Some p)
      obtain qs b2 where "take_records buf1 = (qs, b2)" by fastforce
      with Some Pair 1(1) [OF Pair [symmetric] Some] 1(2) show ?thesis by (simp add: eq)
    qed
  qed
qed

lemma arrivals_chunks:
  "take_records buf = ([], buf) \<Longrightarrow> arrivals buf (map H2Data chunks @ evs) =
     (case take_records (buf @ concat chunks) of (ps, buf') \<Rightarrow> map Datagram ps @ arrivals buf' evs)"
proof (induction chunks arbitrary: buf)
  case (Cons ch chunks)
  obtain ps b1 where b1: "take_records (buf @ ch) = (ps, b1)" by fastforce
  from Cons.IH [OF take_records_settled [OF b1]] b1 show ?case
    using take_records_append [of "buf @ ch" "concat chunks"]
    by (simp add: record_push_def split: prod.splits)
qed simp

lemma take_records_encoded_list:
  "list_all2 (\<lambda>p r. encode_record p = Some r) ds rs \<Longrightarrow>
     take_records (concat rs @ rest) = (case take_records rest of (ps, buf) \<Rightarrow> (ds @ ps, buf))"
  by (induction ds rs rule: list_all2_induct) (simp_all add: take_records_encoded split: prod.splits)

section \<open>Variable-length integers\<close>

definition put_varint :: "64 word \<Rightarrow> octet list" where
  "put_varint v =
     (if v < push_bit 6 1 then to_be 1 (ucast v :: 8 word)
      else if v < push_bit 14 1 then to_be 2 (0x4000 OR ucast v :: 16 word)
      else if v < push_bit 30 1 then to_be 4 (0x80000000 OR ucast v :: 32 word)
      else to_be 8 (0xc000000000000000 OR v))"

text \<open>\<^verbatim>\<open>read_varint\<close> at a position: the value and the position after it.\<close>

definition read_varint :: "octet list \<Rightarrow> nat \<Rightarrow> (64 word \<times> nat) option" where
  "read_varint buf pos =
     (if length buf \<le> pos then None
      else let first = buf ! pos; len = 2 ^ unat (drop_bit 6 first)
           in if length buf - pos < len then None
              else Some (foldl (\<lambda>v b. push_bit 8 v OR ucast b) (ucast (first AND 0x3f)) (take (len - 1) (drop (pos + 1) buf)),
                         pos + len))"

lemma varint_step:
  assumes "unat v < 2 ^ 56"
  shows "unat (push_bit 8 v OR ucast (b :: octet) :: 64 word) = 256 * unat v + unat b"
proof -
  have "push_bit 8 v OR (ucast b :: 64 word) = push_bit 8 v + ucast b"
    by (rule disjunctive_add [symmetric]) (auto simp: bit_simps dest: bit_imp_le_length)
  also have "unat \<dots> = 256 * unat v + unat b"
  proof -
    have "unat (push_bit 8 v) = 256 * unat v" using assms
      by (simp add: push_bit_eq_mult unat_word_ariths)
    moreover have b: "unat b < 256" using unsigned_less [of b] by simp
    moreover have "unat (ucast b :: 64 word) = unat b" using b by (simp add: unsigned_ucast_eq take_bit_nat_eq_self)
    ultimately show ?thesis using assms by (simp add: unat_word_ariths)
  qed
  finally show ?thesis .
qed

lemma varint_fold:
  "unat v * 256 ^ length bs + from_be bs < 2 ^ 64 \<Longrightarrow>
     unat (foldl (\<lambda>v b. push_bit 8 v OR ucast b) v bs :: 64 word) = unat v * 256 ^ length bs + from_be bs"
proof (induction bs arbitrary: v)
  case (Cons b bs)
  have "unat v < 2 ^ 56"
  proof (rule ccontr)
    assume "\<not> unat v < 2 ^ 56"
    then have "2 ^ 64 \<le> unat v * 256 * 1" by simp
    also have "\<dots> \<le> unat v * 256 * 256 ^ length bs" by (rule mult_le_mono2) simp
    finally show False using Cons.prems by (simp add: mult.assoc)
  qed
  then have u: "unat (push_bit 8 v OR ucast b :: 64 word) = 256 * unat v + unat b" by (rule varint_step)
  with Cons.prems Cons.IH [of "push_bit 8 v OR ucast b"] show ?case
    by (simp add: from_be_Cons algebra_simps)
qed simp

lemma bit_word_less:
  assumes "unat v < 2 ^ k" and "bit v n"
  shows "n < k"
proof -
  have "bit (unat v) n" using assms(2) by (simp add: bit_unsigned_iff)
  then have "bit (take_bit k (unat v)) n" using assms(1) by (simp add: take_bit_nat_eq_self)
  then show ?thesis by (simp add: bit_take_bit_iff)
qed

lemma ucast_small:
  assumes "unat v < 2 ^ k" and "k \<le> LENGTH('b)"
  shows "unat (ucast v :: 'b::len word) = unat v"
proof -
  have "(2 :: nat) ^ k \<le> 2 ^ LENGTH('b)" using assms(2) by simp
  with assms(1) have "unat v < 2 ^ LENGTH('b)" by linarith
  then show ?thesis by (simp add: unsigned_ucast_eq take_bit_nat_eq_self)
qed

lemma or_tag: "unat v < 2 ^ k \<Longrightarrow> push_bit k t OR v = push_bit k t + v" for v :: "'a::len word"
  by (rule disjunctive_add [symmetric]) (auto simp: bit_simps dest: bit_word_less)

lemma tag_split:
  fixes b r t v M :: nat
  assumes eq: "b * M + r = t * 64 * M + v" and r: "r < M" and v: "v < 64 * M"
  shows "b div 64 = t \<and> (b mod 64) * M + r = v"
proof -
  have "b = (b * M + r) div M" using r by simp
  also have "\<dots> = t * 64 + v div M" using r by (simp add: eq)
  finally have b: "b = t * 64 + v div M" .
  moreover have "v div M < 64" using v by (simp add: less_mult_imp_div_less)
  moreover have "r = v mod M" using arg_cong [OF eq, of "\<lambda>x. x mod M"] r by simp
  ultimately show ?thesis by simp
qed

lemma from_be_less: "from_be bs < 256 ^ length bs"
proof (induction bs)
  case (Cons b bs)
  have b: "unat b < 256" using unsigned_less [of b] by simp
  have "unat b * 256 ^ length bs + from_be bs < Suc (unat b) * 256 ^ length bs" using Cons by simp
  also have "\<dots> \<le> 256 * 256 ^ length bs" using b by (intro mult_le_mono1) simp
  finally show ?case by (simp add: from_be_Cons)
qed simp

lemma read_tagged:
  assumes n: "n = 2 ^ t" and bs: "length bs = n" and be: "from_be bs = t * 64 * 256 ^ (n - 1) + unat v"
    and v: "unat v < 64 * 256 ^ (n - 1)"
  shows "read_varint (pre @ bs @ rest) (length pre) = Some (v, length pre + n)"
proof -
  have "0 < n" by (simp add: n)
  with bs obtain b cs where bc: "bs = b # cs" and cs: "length cs = n - 1" by (cases bs) auto
  from be bc cs have "unat b * 256 ^ (n - 1) + from_be cs = t * 64 * 256 ^ (n - 1) + unat v"
    by (simp add: from_be_Cons)
  from tag_split [OF this _ v] from_be_less [of cs] cs
  have t: "unat b div 64 = t" and val: "(unat b mod 64) * 256 ^ (n - 1) + from_be cs = unat v" by auto
  have "unat (drop_bit 6 b) = t" unfolding unat_drop_bit_eq by (simp add: drop_bit_eq_div t)
  moreover have "unat (ucast (b AND 0x3f) :: 64 word) = unat b mod 64"
  proof -
    have "b AND 0x3f = take_bit 6 b" by (simp add: take_bit_eq_mask mask_eq_exp_minus_1)
    then have "unat (b AND 0x3f) = unat b mod 64" by (simp add: take_bit_eq_mod unat_mod)
    then show ?thesis by (simp add: unsigned_ucast_eq take_bit_nat_eq_self)
  qed
  then have "unat (foldl (\<lambda>v b. push_bit 8 v OR ucast b) (ucast (b AND 0x3f)) cs :: 64 word) = unat v"
    using varint_fold [of "ucast (b AND 0x3f)" cs] val cs unsigned_less [of v] by simp
  then have "foldl (\<lambda>v b. push_bit 8 v OR ucast b) (ucast (b AND 0x3f)) cs = v"
    by (simp add: word_unat_eq_iff)
  ultimately show ?thesis using n cs bc by (simp add: read_varint_def nth_append)
qed

lemma read_put_varint:
  assumes "unat v < 2 ^ 62"
  shows "read_varint (pre @ put_varint v @ rest) (length pre) = Some (v, length pre + length (put_varint v))"
proof -
  consider "unat v < 2 ^ 6" | "2 ^ 6 \<le> unat v" "unat v < 2 ^ 14" | "2 ^ 14 \<le> unat v" "unat v < 2 ^ 30" | "2 ^ 30 \<le> unat v"
    by linarith
  then show ?thesis
  proof cases
    case 1
    then have p: "put_varint v = to_be 1 (ucast v :: 8 word)" by (simp add: put_varint_def word_less_nat_alt)
    have "from_be (put_varint v) = unat v" using 1 ucast_small [of v 6, where 'b = 8] by (simp add: p from_to_be)
    then show ?thesis using read_tagged [of 1 0 "put_varint v" v pre rest] 1 by (simp add: p)
  next
    case 2
    have "(0x4000 :: 16 word) = push_bit 14 1" by simp
    then have p: "put_varint v = to_be 2 (0x4000 + ucast v :: 16 word)"
      using 2 or_tag [of "ucast v :: 16 word" 14 1] ucast_small [of v 14, where 'b = 16]
      by (simp add: put_varint_def word_less_nat_alt)
    have "from_be (put_varint v) = 64 * 256 + unat v"
      using 2 ucast_small [of v 14, where 'b = 16] by (simp add: p from_to_be unat_word_ariths)
    then show ?thesis using read_tagged [of 2 1 "put_varint v" v pre rest] 2 by (simp add: p)
  next
    case 3
    have "(0x80000000 :: 32 word) = push_bit 30 2" by simp
    then have p: "put_varint v = to_be 4 (0x80000000 + ucast v :: 32 word)"
      using 3 or_tag [of "ucast v :: 32 word" 30 2] ucast_small [of v 30, where 'b = 32]
      by (simp add: put_varint_def word_less_nat_alt)
    have "from_be (put_varint v) = 2 * 64 * 256 ^ 3 + unat v"
      using 3 ucast_small [of v 30, where 'b = 32] by (simp add: p from_to_be unat_word_ariths)
    then show ?thesis using read_tagged [of 4 2 "put_varint v" v pre rest] 3 by (simp add: p)
  next
    case 4
    have "(0xc000000000000000 :: 64 word) = push_bit 62 3" by simp
    then have p: "put_varint v = to_be 8 (0xc000000000000000 + v)"
      using 4 or_tag [of v 62 3] assms by (simp add: put_varint_def word_less_nat_alt)
    have "from_be (put_varint v) = 3 * 64 * 256 ^ 7 + unat v"
      using 4 assms by (simp add: p from_to_be unat_word_ariths)
    then show ?thesis using read_tagged [of 8 3 "put_varint v" v pre rest] 4 assms by (simp add: p)
  qed
qed

section \<open>HTTP Datagrams and capsules\<close>

definition CAPSULE_DATAGRAM :: "64 word" where "CAPSULE_DATAGRAM = 0"
definition MAX_UDP_PAYLOAD :: nat where "MAX_UDP_PAYLOAD = 65527"
definition MAX_CAPSULE_HEADER :: nat where "MAX_CAPSULE_HEADER = 16"
definition CONTEXT_ID_SLACK :: nat where "CONTEXT_ID_SLACK = 8"

definition encode_capsule :: "octet list \<Rightarrow> octet list" where
  "encode_capsule payload =
     put_varint CAPSULE_DATAGRAM @ put_varint (1 + of_nat (length payload)) @ put_varint 0 @ payload"

definition encode_quic_datagram :: "64 word \<Rightarrow> octet list \<Rightarrow> octet list" where
  "encode_quic_datagram quarter_stream_id payload = put_varint quarter_stream_id @ put_varint 0 @ payload"

datatype quic_datagram =
    QuicUdp "octet list"
  | QuicUnregisteredContext "64 word"
  | OtherStream "64 word"
  | Malformed

definition decode_quic_datagram :: "octet list \<Rightarrow> 64 word \<Rightarrow> quic_datagram" where
  "decode_quic_datagram d quarter_stream_id =
     (case read_varint d 0 of
        None \<Rightarrow> Malformed
      | Some (q, pos) \<Rightarrow>
          (if q \<noteq> quarter_stream_id then OtherStream q
           else case read_varint d pos of
                  None \<Rightarrow> Malformed
                | Some (ctx, pos') \<Rightarrow> (if ctx \<noteq> 0 then QuicUnregisteredContext ctx else QuicUdp (drop pos' d))))"

datatype capsule =
    CapsuleUdp "octet list"
  | CapsuleUnregisteredContext "64 word"
  | CapsuleUnknown "64 word"

datatype capsule_error = TooLarge | Truncated | EndedInsideCapsule

definition describe :: "capsule_error \<Rightarrow> string" where
  "describe e = (case e of
     TooLarge \<Rightarrow> ''a DATAGRAM capsule declared a length larger than any UDP payload''
   | Truncated \<Rightarrow> ''a DATAGRAM capsule was too short to hold a Context ID''
   | EndedInsideCapsule \<Rightarrow>
       ''the stream ended inside a capsule, which RFC 9297 '' @ [CHR 0xC2, CHR 0xA7] @ ''3.3 defines as malformed'')"

record capsule_decoder =
  cd_buf :: "octet list"
  cd_skip :: nat

text \<open>\<^verbatim>\<open>skip\<close> is a \<^verbatim>\<open>u64\<close> that only counts down from a varint, so it is a natural number here.\<close>

definition new_decoder :: capsule_decoder where
  "new_decoder = \<lparr>cd_buf = [], cd_skip = 0\<rparr>"

definition max_value :: nat where
  "max_value = MAX_UDP_PAYLOAD + CONTEXT_ID_SLACK"

definition feed_limit :: nat where
  "feed_limit = max_value + MAX_CAPSULE_HEADER"

definition capsule_push :: "octet list \<Rightarrow> capsule_decoder \<Rightarrow> capsule_decoder" where
  "capsule_push chunk d = d\<lparr>cd_buf := cd_buf d @ chunk\<rparr>"

definition advance_skip :: "capsule_decoder \<Rightarrow> bool \<times> capsule_decoder" where
  "advance_skip d =
     (let t = min (cd_skip d) (length (cd_buf d)); d' = d\<lparr>cd_buf := drop t (cd_buf d), cd_skip := cd_skip d - t\<rparr>
      in (cd_skip d' = 0, d'))"

text \<open>\<^verbatim>\<open>decode_next\<close>, in two parts: what it does once no value is left to skip, and the whole.\<close>

definition decode_ready :: "capsule_decoder \<Rightarrow> capsule_error + capsule option \<times> capsule_decoder" where
  "decode_ready d =
     (case read_varint (cd_buf d) 0 of
        None \<Rightarrow> Inr (None, d)
      | Some (ty, pos1) \<Rightarrow>
          (case read_varint (cd_buf d) pos1 of
             None \<Rightarrow> Inr (None, d)
           | Some (len, pos) \<Rightarrow>
               (if ty \<noteq> CAPSULE_DATAGRAM
                then Inr (Some (CapsuleUnknown ty), snd (advance_skip (d\<lparr>cd_buf := drop pos (cd_buf d), cd_skip := unat len\<rparr>)))
                else if max_value < unat len then Inl TooLarge
                else if length (cd_buf d) - pos < unat len then Inr (None, d)
                else let val = take (unat len) (drop pos (cd_buf d)); d' = d\<lparr>cd_buf := drop (unat len) (drop pos (cd_buf d))\<rparr>
                     in case read_varint val 0 of
                          None \<Rightarrow> Inl Truncated
                        | Some (ctx, vp) \<Rightarrow>
                            (if ctx \<noteq> 0 then Inr (Some (CapsuleUnregisteredContext ctx), d')
                             else Inr (Some (CapsuleUdp (drop vp val)), d')))))"

definition decode_next :: "capsule_decoder \<Rightarrow> capsule_error + capsule option \<times> capsule_decoder" where
  "decode_next d0 = (case advance_skip d0 of (ready, d) \<Rightarrow> if ready then decode_ready d else Inr (None, d))"

definition capsule_finish :: "capsule_decoder \<Rightarrow> capsule_error option" where
  "capsule_finish d = (if cd_buf d = [] \<and> cd_skip d = 0 then None else Some EndedInsideCapsule)"

lemma varint_length: "(2 :: nat) ^ unat (drop_bit 6 (b :: octet)) \<le> 8"
proof -
  have "unat b < 256" using unsigned_less [of b, where 'a = nat] by simp
  then have "unat (drop_bit 6 b) \<le> 3" unfolding unat_drop_bit_eq by (simp add: drop_bit_eq_div)
  then have "(2 :: nat) ^ unat (drop_bit 6 b) \<le> 2 ^ 3" by (intro power_increasing) auto
  then show ?thesis by simp
qed

lemma read_varint_bounds: "read_varint buf pos = Some (v, pos') \<Longrightarrow> pos < pos' \<and> pos' \<le> length buf \<and> pos' \<le> pos + 8"
  using varint_length [of "buf ! pos"] by (auto simp: read_varint_def Let_def split: if_splits)

lemma read_varint_append: "read_varint buf pos = Some r \<Longrightarrow> read_varint (buf @ b) pos = Some r"
  by (auto simp: read_varint_def Let_def nth_append split: if_splits)

lemma read_varint_wait: "read_varint buf pos = None \<Longrightarrow> length buf < pos + 8"
  using varint_length [of "buf ! pos"] by (auto simp: read_varint_def Let_def split: if_splits)

lemma advance_skip_push: "advance_skip (capsule_push b (snd (advance_skip d))) = advance_skip (capsule_push b d)"
  by (auto simp: advance_skip_def capsule_push_def Let_def min_def)

lemma advance_skip_ready:
  "advance_skip d = (True, e) \<Longrightarrow> advance_skip (capsule_push b d) = (True, capsule_push b e)"
  by (auto simp: advance_skip_def capsule_push_def Let_def min_def split: if_splits)

lemma advance_skip_idem: "advance_skip (snd (advance_skip d)) = advance_skip d"
  by (auto simp: advance_skip_def Let_def min_def)

lemma decode_next_skip: "advance_skip d = advance_skip d' \<Longrightarrow> decode_next d = decode_next d'"
  by (simp add: decode_next_def)

lemma decode_ready_waitD: "decode_ready d = Inr (None, d') \<Longrightarrow> d' = d"
  by (auto simp: decode_ready_def Let_def split: prod.splits if_splits option.splits)

lemma decode_next_waitD: "decode_next d = Inr (None, d') \<Longrightarrow> d' = snd (advance_skip d)"
  by (auto simp: decode_next_def split: prod.splits if_splits dest: decode_ready_waitD)

lemma decode_ready_headD:
  assumes "decode_ready e \<noteq> Inr (None, e)"
  shows "\<exists>ty pos1 len pos. read_varint (cd_buf e) 0 = Some (ty, pos1) \<and> read_varint (cd_buf e) pos1 = Some (len, pos) \<and>
    (ty \<noteq> CAPSULE_DATAGRAM \<or> max_value < unat len \<or> unat len \<le> length (cd_buf e) - pos)"
  using assms by (auto simp: decode_ready_def Let_def not_less split: option.splits prod.splits if_splits)

lemma take_drop_push:
  "pos \<le> length buf \<Longrightarrow> n \<le> length buf - pos \<Longrightarrow>
     take n (drop pos (buf @ b)) = take n (drop pos buf) \<and> drop n (drop pos (buf @ b)) = drop n (drop pos buf) @ b"
  by simp

lemma decode_ready_push:
  assumes wait: "decode_ready e \<noteq> Inr (None, e)"
  shows "case decode_ready e of
    Inl x \<Rightarrow> decode_ready (capsule_push b e) = Inl x
  | Inr (fo, d') \<Rightarrow> \<exists>t. decode_ready (capsule_push b e) = Inr (fo, t) \<and> decode_next t = decode_next (capsule_push b d')"
proof -
  from decode_ready_headD [OF wait] obtain ty pos1 len pos where ty: "read_varint (cd_buf e) 0 = Some (ty, pos1)"
    and len: "read_varint (cd_buf e) pos1 = Some (len, pos)"
    and ok: "ty \<noteq> CAPSULE_DATAGRAM \<or> max_value < unat len \<or> unat len \<le> length (cd_buf e) - pos"
    by blast
  note pos = read_varint_bounds [OF len]
  note app = read_varint_append [OF ty, of b] read_varint_append [OF len, of b]
  show ?thesis
  proof (cases "ty = CAPSULE_DATAGRAM")
    case False
    let ?x = "e\<lparr>cd_buf := drop pos (cd_buf e), cd_skip := unat len\<rparr>"
    have x: "capsule_push b ?x = e\<lparr>cd_buf := drop pos (cd_buf e @ b), cd_skip := unat len\<rparr>"
      using pos by (simp add: capsule_push_def)
    have "decode_next (snd (advance_skip (capsule_push b ?x))) = decode_next (capsule_push b (snd (advance_skip ?x)))"
      by (rule decode_next_skip) (simp add: advance_skip_push advance_skip_idem)
    moreover have "decode_ready (capsule_push b e) = Inr (Some (CapsuleUnknown ty), snd (advance_skip (capsule_push b ?x)))"
      using False unfolding x by (simp add: decode_ready_def app) (simp add: capsule_push_def app)
    moreover have "decode_ready e = Inr (Some (CapsuleUnknown ty), snd (advance_skip ?x))"
      using False by (simp add: decode_ready_def ty len)
    ultimately show ?thesis by simp
  next
    case True
    show ?thesis
    proof (cases "max_value < unat len")
      case large: True
      with True show ?thesis by (simp add: decode_ready_def capsule_push_def ty len app)
    next
      case False
      with ok True have n: "unat len \<le> length (cd_buf e) - pos" by simp
      have td: "take (unat len) (drop pos (cd_buf e @ b)) = take (unat len) (drop pos (cd_buf e))"
        "drop (unat len) (drop pos (cd_buf e @ b)) = drop (unat len) (drop pos (cd_buf e)) @ b"
        using take_drop_push [OF _ n, of b] pos by auto
      from n have n': "\<not> length (cd_buf e) + length b - pos < unat len" "\<not> length (cd_buf e) - pos < unat len" by auto
      show ?thesis
      proof (cases "read_varint (take (unat len) (drop pos (cd_buf e))) 0")
        case None
        with True False n' show ?thesis
          by (simp add: decode_ready_def capsule_push_def ty len app td del: drop_append take_append drop_drop)
      next
        case (Some q)
        with True False n' show ?thesis
          by (cases q; cases "fst q = 0")
            (simp_all add: decode_ready_def capsule_push_def ty len app td Let_def del: drop_append take_append drop_drop)
      qed
    qed
  qed
qed

lemma decode_next_push:
  assumes "decode_next d \<noteq> Inr (None, snd (advance_skip d))"
  shows "case decode_next d of
    Inl x \<Rightarrow> decode_next (capsule_push b d) = Inl x
  | Inr (fo, d') \<Rightarrow> \<exists>t. decode_next (capsule_push b d) = Inr (fo, t) \<and> decode_next t = decode_next (capsule_push b d')"
proof -
  obtain ready e where e: "advance_skip d = (ready, e)" by fastforce
  with assms have r: "ready" "decode_ready e \<noteq> Inr (None, e)" by (auto simp: decode_next_def split: if_splits)
  from e r(1) have "decode_next d = decode_ready e" "decode_next (capsule_push b d) = decode_ready (capsule_push b e)"
    using advance_skip_ready [of d e b] by (simp_all add: decode_next_def)
  with decode_ready_push [OF r(2), of b] show ?thesis by (simp split: sum.splits prod.splits)
qed

lemma decode_ready_shrinks:
  assumes "decode_ready e = Inr (Some f, d')"
  shows "length (cd_buf d') < length (cd_buf e)"
proof -
  from assms decode_ready_headD [of e] obtain ty pos1 len pos where ty: "read_varint (cd_buf e) 0 = Some (ty, pos1)"
    and len: "read_varint (cd_buf e) pos1 = Some (len, pos)" by auto
  from read_varint_bounds [OF ty] read_varint_bounds [OF len] assms show ?thesis
    by (auto simp: decode_ready_def ty len Let_def advance_skip_def split: if_splits option.splits)
qed

lemma decode_next_shrinks [termination_simp]:
  assumes "decode_next d = Inr (Some f, d')"
  shows "length (cd_buf d') < length (cd_buf d)"
proof -
  obtain ready e where e: "advance_skip d = (ready, e)" by fastforce
  then have "length (cd_buf e) \<le> length (cd_buf d)" by (auto simp: advance_skip_def Let_def)
  with e assms show ?thesis by (auto simp: decode_next_def split: if_splits dest: decode_ready_shrinks)
qed

lemma decode_next_shrinks' [termination_simp]: "Inr (Some f, d') = decode_next d \<Longrightarrow> length (cd_buf d') < length (cd_buf d)"
  using decode_next_shrinks [of d f d'] by simp

text \<open>The inner loop of \<^verbatim>\<open>MasqueChannel::on_stream\<close>: capsules until the decoder needs more bytes or fails.\<close>

function take_capsules :: "capsule_decoder \<Rightarrow> capsule list \<times> (capsule_error + capsule_decoder)" where
  "take_capsules d =
     (case decode_next d of
        Inl e \<Rightarrow> ([], Inl e)
      | Inr (None, d') \<Rightarrow> ([], Inr d')
      | Inr (Some c, d') \<Rightarrow> (case take_capsules d' of (cs, r) \<Rightarrow> (c # cs, r)))"
  by pat_completeness auto
termination
  by (relation "measure (length \<circ> cd_buf)") (auto intro: decode_next_shrinks)

declare take_capsules.simps [simp del]

interpretation capsules: stream_decoder capsule_push decode_next take_capsules "length \<circ> cd_buf"
proof
  show "capsule_push b (capsule_push a s) = capsule_push (a @ b) s" for a b s
    by (simp add: capsule_push_def)
  show "\<exists>t. decode_next (capsule_push b s) = Inr (Some f, t) \<and> decode_next t = decode_next (capsule_push b s')"
    if "decode_next s = Inr (Some f, s')" for s f s' b
    using decode_next_push [of s b] that by simp
  show "decode_next (capsule_push b s') = decode_next (capsule_push b s)" if "decode_next s = Inr (None, s')" for s s' b
    unfolding decode_next_waitD [OF that] by (rule decode_next_skip) (rule advance_skip_push)
  show "decode_next (capsule_push b s) = Inl e" if "decode_next s = Inl e" for s e b
    using decode_next_push [of s b] that by simp
  show "(length \<circ> cd_buf) s' < (length \<circ> cd_buf) s" if "decode_next s = Inr (Some f, s')" for s f s'
    using decode_next_shrinks [OF that] by simp
qed (rule take_capsules.simps)

lemma decode_next_waiting: "decode_next d = Inr (None, d') \<Longrightarrow> decode_next d' = Inr (None, d')"
  using decode_next_waitD [of d d'] decode_next_skip [OF advance_skip_idem, of d] by simp

lemma take_capsules_settled: "take_capsules d = (ks, Inr d') \<Longrightarrow> take_capsules d' = ([], Inr d')"
proof (induction d arbitrary: ks rule: take_capsules.induct)
  case (1 d)
  note eq = take_capsules.simps [of d]
  show ?case
  proof (cases "decode_next d")
    case (Inl e)
    with 1(2) show ?thesis by (simp add: eq)
  next
    case (Inr q)
    obtain fo d1 where q: "q = (fo, d1)" by (cases q)
    show ?thesis
    proof (cases fo)
      case None
      with Inr q 1(2) have "decode_next d = Inr (None, d')" by (simp add: eq)
      from decode_next_waiting [OF this] show ?thesis by (simp add: take_capsules.simps [of d'])
    next
      case (Some k)
      obtain ks1 r1 where "take_capsules d1 = (ks1, r1)" by fastforce
      with 1(1) [OF Inr q [symmetric] Some] Inr q Some 1(2) show ?thesis by (simp add: eq)
    qed
  qed
qed

lemma take_capsules_encoded:
  assumes "length p \<le> MAX_UDP_PAYLOAD" and "cd_skip d = 0"
  shows "take_capsules (d\<lparr>cd_buf := encode_capsule p @ rest\<rparr>) =
    (case take_capsules (d\<lparr>cd_buf := rest\<rparr>) of (cs, r) \<Rightarrow> (CapsuleUdp p # cs, r))"
proof -
  let ?n = "1 + of_nat (length p) :: 64 word"
  have n: "unat ?n = Suc (length p)" using assms(1) by (simp add: MAX_UDP_PAYLOAD_def unat_word_ariths unat_of_nat)
  have z: "put_varint 0 = [0]" by (simp add: put_varint_def to_be_def)
  let ?b = "encode_capsule p @ rest"
  let ?pos = "Suc (length (put_varint ?n))"
  have b: "?b = [0] @ put_varint ?n @ (0 # p) @ rest" by (simp add: encode_capsule_def CAPSULE_DATAGRAM_def z)
  have ty: "read_varint ?b 0 = Some (0, Suc 0)"
    using read_put_varint [of 0 "[]" "put_varint ?n @ 0 # p @ rest"] z by (simp add: b)
  have len: "read_varint ?b (Suc 0) = Some (?n, ?pos)"
    using read_put_varint [of ?n "[0]" "0 # p @ rest"] n assms(1) by (simp add: b MAX_UDP_PAYLOAD_def)
  have dr: "drop ?pos ?b = 0 # p @ rest" by (simp add: b)
  have td: "take (length p) (p @ rest) = p" "drop (length p) (p @ rest) = rest" by simp_all
  have ctx: "read_varint (0 # p) 0 = Some (0, Suc 0)" using read_put_varint [of 0 "[]" p] z by simp
  have "advance_skip (d\<lparr>cd_buf := ?b\<rparr>) = (True, d\<lparr>cd_buf := ?b\<rparr>)"
    using assms(2) by (simp add: advance_skip_def)
  moreover have "\<not> length ?b - ?pos < unat ?n" "\<not> max_value < unat ?n"
    using assms(1) n by (simp_all add: b max_value_def MAX_UDP_PAYLOAD_def CONTEXT_ID_SLACK_def)
  ultimately have "decode_next (d\<lparr>cd_buf := ?b\<rparr>) = Inr (Some (CapsuleUdp p), d\<lparr>cd_buf := rest\<rparr>)"
    by (simp add: decode_next_def decode_ready_def ty len dr ctx CAPSULE_DATAGRAM_def n td Let_def
        del: drop_append take_append drop_drop)
  then show ?thesis by (simp add: take_capsules.simps [of "d\<lparr>cd_buf := ?b\<rparr>"])
qed

section \<open>The CONNECT-UDP tunnel\<close>

datatype masque_encoding = EncQuicDatagram | EncCapsule

datatype queued =
    QueuedUdp "octet list" masque_encoding
  | QueuedDropped string
  | QueuedEnded "transport_failure option" string

text \<open>
  \<^verbatim>\<open>MasqueChannel\<close> without its connection handles.  The failures made from QUIC and HTTP/3 errors
  are arguments of the events.
\<close>

record masque_channel =
  mc_quarter :: "64 word"
  mc_decoder :: capsule_decoder
  mc_queue :: "queued list"
  mc_stream_open :: bool
  mc_ended :: bool
  received_quic_datagrams :: nat
  received_capsules :: nat
  mc_dropped :: nat
  mc_closed_by :: closed_by

definition masque_end :: "transport_failure option \<Rightarrow> string \<Rightarrow> masque_channel \<Rightarrow> masque_channel" where
  "masque_end failure note c =
     c\<lparr>mc_stream_open := False, mc_closed_by := (if failure \<noteq> None then Abnormal else Peer),
       mc_queue := mc_queue c @ [QueuedEnded failure note]\<rparr>"

definition masque_set_closed_by :: "closed_by \<Rightarrow> masque_channel \<Rightarrow> masque_channel" where
  "masque_set_closed_by by c = (if mc_closed_by c = NotClosed then c\<lparr>mc_closed_by := by\<rparr> else c)"

datatype quic_event = QuicDatagramIn "octet list" | QuicLost transport_failure

definition on_quic :: "quic_event \<Rightarrow> masque_channel \<Rightarrow> masque_channel" where
  "on_quic ev c =
     (case ev of
        QuicDatagramIn d \<Rightarrow>
          c\<lparr>mc_queue := mc_queue c @ [case decode_quic_datagram d (mc_quarter c) of
             QuicUdp p \<Rightarrow> QueuedUdp p EncQuicDatagram
           | QuicUnregisteredContext x \<Rightarrow> QueuedDropped (''an HTTP Datagram with unregistered context ID '' @ show_nat (unat x))
           | OtherStream q \<Rightarrow>
               QueuedDropped (''a QUIC DATAGRAM frame for another request stream (quarter ID '' @ show_nat (unat q) @ '')'')
           | Malformed \<Rightarrow> QueuedDropped ''a malformed QUIC DATAGRAM frame'']\<rparr>
      | QuicLost f \<Rightarrow>
          masque_end (Some (f\<lparr>tf_phase := Session,
              tf_message := ''the QUIC connection to the MASQUE proxy ended during the tunnel: '' @ tf_message f\<rparr>))
            ''the QUIC connection to the proxy ended'' c)"

definition queued_capsule :: "capsule \<Rightarrow> queued" where
  "queued_capsule k =
     (case k of
        CapsuleUdp p \<Rightarrow> QueuedUdp p EncCapsule
      | CapsuleUnregisteredContext x \<Rightarrow> QueuedDropped (''a DATAGRAM capsule with unregistered context ID '' @ show_nat (unat x))
      | CapsuleUnknown ty \<Rightarrow> QueuedDropped (''a capsule of unknown type 0x'' @ show_hex (unat ty)))"

text \<open>
  The outer loop of \<^verbatim>\<open>on_stream\<close>: slices of at most \<^verbatim>\<open>feed_limit\<close> bytes.  After an error the decoder is
  not used again.
\<close>

definition malformed_capsules :: "capsule_error \<Rightarrow> masque_channel \<Rightarrow> masque_channel" where
  "malformed_capsules e c =
     masque_end (Some (new_failure Session HttpProtocolError (''the proxy'' @ [CHR 0x27] @ ''s capsule stream is malformed: '' @ describe e)))
       (''the proxy'' @ [CHR 0x27] @ ''s capsule stream is malformed'') c"

function feed_slices :: "octet list \<Rightarrow> masque_channel \<Rightarrow> masque_channel" where
  "feed_slices rest c =
     (if rest = [] then c
      else let n = min (length rest) feed_limit
           in case take_capsules (capsule_push (take n rest) (mc_decoder c)) of
                (ks, Inr d) \<Rightarrow> feed_slices (drop n rest) (c\<lparr>mc_decoder := d, mc_queue := mc_queue c @ map queued_capsule ks\<rparr>)
              | (ks, Inl e) \<Rightarrow> malformed_capsules e (c\<lparr>mc_queue := mc_queue c @ map queued_capsule ks\<rparr>))"
  by pat_completeness auto
termination
  by (relation "measure (length \<circ> fst)") (auto simp: feed_limit_def MAX_CAPSULE_HEADER_def)

declare feed_slices.simps [simp del]

datatype stream_event = StreamData "octet list" | StreamFin | StreamReset transport_failure

definition on_stream :: "stream_event \<Rightarrow> masque_channel \<Rightarrow> masque_channel" where
  "on_stream ev c =
     (case ev of
        StreamData bytes \<Rightarrow> feed_slices bytes c
      | StreamFin \<Rightarrow>
          (case capsule_finish (mc_decoder c) of
             None \<Rightarrow> masque_end None ''the proxy closed the tunnel (FIN on the CONNECT stream)'' c
           | Some e \<Rightarrow>
               masque_end (Some (new_failure Session BodyIncomplete
                   (''the proxy ended the CONNECT-UDP stream abnormally: '' @ describe e)))
                 ''the proxy ended the CONNECT-UDP stream inside a capsule'' c)
      | StreamReset f \<Rightarrow> masque_end (Some f) ''the proxy reset the CONNECT-UDP stream'' c)"

text \<open>The delivery of one queued item by \<^verbatim>\<open>recv\<close>.\<close>

definition masque_pop :: "masque_channel \<Rightarrow> inbound option \<times> masque_channel" where
  "masque_pop c =
     (case mc_queue c of
        [] \<Rightarrow> (None, c)
      | QueuedUdp p EncQuicDatagram # q \<Rightarrow>
          (Some (Datagram p), c\<lparr>mc_queue := q, received_quic_datagrams := received_quic_datagrams c + 1\<rparr>)
      | QueuedUdp p EncCapsule # q \<Rightarrow>
          (Some (Datagram p), c\<lparr>mc_queue := q, received_capsules := received_capsules c + 1\<rparr>)
      | QueuedDropped what # q \<Rightarrow> (Some (Dropped what), c\<lparr>mc_queue := q, mc_dropped := mc_dropped c + 1\<rparr>)
      | QueuedEnded failure note # q \<Rightarrow> (Some (Ended failure note), c\<lparr>mc_queue := q, mc_ended := True\<rparr>))"

lemma take_capsules_encoded_list:
  assumes "list_all (\<lambda>p. length p \<le> MAX_UDP_PAYLOAD) ds" and "cd_skip d = 0"
  shows "take_capsules (d\<lparr>cd_buf := concat (map encode_capsule ds) @ rest\<rparr>) =
    (case take_capsules (d\<lparr>cd_buf := rest\<rparr>) of (cs, r) \<Rightarrow> (map CapsuleUdp ds @ cs, r))"
  using assms by (induction ds) (simp_all add: take_capsules_encoded split: prod.splits)

lemma decode_next_wait_bound:
  assumes "decode_next d = Inr (None, d')"
  shows "length (cd_buf d') < feed_limit"
proof -
  obtain ready e where e: "advance_skip d = (ready, e)" by fastforce
  with decode_next_waitD [OF assms] have d': "d' = e" by simp
  have lim: "16 + max_value = feed_limit" by (simp add: feed_limit_def MAX_CAPSULE_HEADER_def)
  show ?thesis
  proof (cases ready)
    case False
    with e have "cd_buf e = []" by (auto simp: advance_skip_def Let_def min_def split: if_splits)
    with d' show ?thesis by (simp add: feed_limit_def MAX_CAPSULE_HEADER_def)
  next
    case True
    with assms e have w: "decode_ready e = Inr (None, e)" by (auto simp: decode_next_def d' dest: decode_ready_waitD)
    show ?thesis
    proof (cases "read_varint (cd_buf e) 0")
      case None
      from read_varint_wait [OF this] lim d' show ?thesis by simp
    next
      case (Some q)
      then obtain ty pos1 where ty: "read_varint (cd_buf e) 0 = Some (ty, pos1)" by (cases q) auto
      show ?thesis
      proof (cases "read_varint (cd_buf e) pos1")
        case None
        from read_varint_wait [OF this] read_varint_bounds [OF ty] lim d' show ?thesis by simp
      next
        case (Some q2)
        then obtain len pos where len: "read_varint (cd_buf e) pos1 = Some (len, pos)" by (cases q2) auto
        from w have "unat len \<le> max_value" "length (cd_buf e) - pos < unat len"
          by (auto simp: decode_ready_def ty len Let_def split: if_splits option.splits)
        moreover from read_varint_bounds [OF ty] read_varint_bounds [OF len] have "pos \<le> 16" by simp
        ultimately have "length (cd_buf e) < 16 + max_value" by simp
        with lim d' show ?thesis by simp
      qed
    qed
  qed
qed

lemma take_capsules_wait_bound: "take_capsules d = (ks, Inr d') \<Longrightarrow> length (cd_buf d') < feed_limit"
proof (induction d arbitrary: ks rule: take_capsules.induct)
  case (1 d)
  note eq = take_capsules.simps [of d]
  show ?case
  proof (cases "decode_next d")
    case (Inl e)
    with 1(2) show ?thesis by (simp add: eq)
  next
    case (Inr q)
    obtain fo d1 where q: "q = (fo, d1)" by (cases q)
    show ?thesis
    proof (cases fo)
      case None
      with Inr q 1(2) decode_next_wait_bound [of d d1] show ?thesis by (simp add: eq)
    next
      case (Some k)
      obtain ks1 r1 where "take_capsules d1 = (ks1, r1)" by fastforce
      with 1(1) [OF Inr q [symmetric] Some] Inr q Some 1(2) show ?thesis by (simp add: eq)
    qed
  qed
qed

text \<open>One slice or all at once: feeding slices does what a single drain would.\<close>

lemma feed_slices_drain:
  "bytes \<noteq> [] \<Longrightarrow> (case take_capsules (capsule_push bytes (mc_decoder c)) of
     (ks, Inr d) \<Rightarrow> feed_slices bytes c = c\<lparr>mc_decoder := d, mc_queue := mc_queue c @ map queued_capsule ks\<rparr>
   | (ks, Inl e) \<Rightarrow> (\<exists>d. feed_slices bytes c =
       malformed_capsules e (c\<lparr>mc_decoder := d, mc_queue := mc_queue c @ map queued_capsule ks\<rparr>)))"
proof (induction "length bytes" arbitrary: bytes c rule: less_induct)
  case less
  let ?n = "min (length bytes) feed_limit"
  let ?a = "take ?n bytes" and ?b = "drop ?n bytes"
  have lim: "0 < feed_limit" by (simp add: feed_limit_def MAX_CAPSULE_HEADER_def)
  obtain ks r where kr: "take_capsules (capsule_push ?a (mc_decoder c)) = (ks, r)" by fastforce
  have split: "take_capsules (capsule_push bytes (mc_decoder c)) = (case r of
      Inl e \<Rightarrow> (ks, Inl e) | Inr d \<Rightarrow> (case take_capsules (capsule_push ?b d) of (gs, r') \<Rightarrow> (ks @ gs, r')))"
    using capsules.drain_push [of ?b "capsule_push ?a (mc_decoder c)"] kr
    by (simp add: capsules.push_push split: sum.splits)
  note eq = feed_slices.simps [of bytes c]
  show ?case
  proof (cases r)
    case (Inl e)
    have "feed_slices bytes c = malformed_capsules e (c\<lparr>mc_queue := mc_queue c @ map queued_capsule ks\<rparr>)"
      using kr Inl less(2) by (simp add: eq Let_def)
    then show ?thesis using split Inl by (simp add: exI [of _ "mc_decoder c"])
  next
    case (Inr d)
    let ?c = "c\<lparr>mc_decoder := d, mc_queue := mc_queue c @ map queued_capsule ks\<rparr>"
    have rec: "feed_slices bytes c = feed_slices ?b ?c" using kr Inr less(2) by (simp add: eq Let_def)
    show ?thesis
    proof (cases "?b = []")
      case True
      have "?a = bytes" using True by simp
      with kr Inr have "take_capsules (capsule_push bytes (mc_decoder c)) = (ks, Inr d)" by simp
      with rec True show ?thesis by (simp add: feed_slices.simps [of "[]"])
    next
      case False
      have "length ?b < length bytes" using less(2) lim by simp
      from less(1) [OF this False, of ?c] rec split Inr show ?thesis
        by (simp split: prod.splits sum.splits)
    qed
  qed
qed

lemma on_stream_chunks:
  assumes "take_capsules (mc_decoder c) = ([], Inr (mc_decoder c))"
    and "take_capsules (capsule_push (concat chunks) (mc_decoder c)) = (ks, Inr d)"
  shows "fold (\<lambda>b. on_stream (StreamData b)) chunks c =
    c\<lparr>mc_decoder := d, mc_queue := mc_queue c @ map queued_capsule ks\<rparr>"
  using assms
proof (induction chunks arbitrary: c ks)
  case Nil
  then show ?case by (simp add: capsule_push_def)
next
  case (Cons b chunks)
  obtain ks1 r1 where b: "take_capsules (capsule_push b (mc_decoder c)) = (ks1, r1)" by fastforce
  from capsules.drain_push [of "concat chunks" "capsule_push b (mc_decoder c)"] b Cons.prems(2)
  obtain d1 gs where r1: "r1 = Inr d1" and gs: "take_capsules (capsule_push (concat chunks) d1) = (gs, Inr d)"
    and ks: "ks = ks1 @ gs"
    by (auto simp: capsules.push_push split: sum.splits prod.splits)
  let ?c = "c\<lparr>mc_decoder := d1, mc_queue := mc_queue c @ map queued_capsule ks1\<rparr>"
  have step: "on_stream (StreamData b) c = ?c"
  proof (cases "b = []")
    case True
    with b r1 Cons.prems(1) show ?thesis by (simp add: on_stream_def feed_slices.simps capsule_push_def)
  next
    case False
    from feed_slices_drain [OF this, of c] b r1 show ?thesis by (simp add: on_stream_def)
  qed
  have "take_capsules d1 = ([], Inr d1)" using take_capsules_settled b r1 by blast
  with Cons.IH [of ?c gs] gs ks step show ?case by simp
qed

section \<open>Properties\<close>

text \<open>
  C18. A mesh datagram tunnel delivers exactly what the endpoint framed: if the bytes of the
  stream, however split into DATA chunks, are the records of the datagrams \<open>ds\<close> and an incomplete
  rest, then calls of \<^verbatim>\<open>recv\<close> return \<open>ds\<close> in order and then the end, which is a failure exactly when
  the stream stopped inside a record; and the channel counts one received record per datagram.
\<close>

theorem hbone_delivers:
  assumes enc: "list_all2 (\<lambda>p r. encode_record p = Some r) ds rs"
    and bytes: "concat chunks = concat rs @ tail" and tail: "next_record tail = (None, tail)"
    and run: "hbone_deliver n (map H2Data chunks @ [H2End]) hbone_new = (xs, c)"
  shows "(\<exists>failure note. xs = take n (map Datagram ds @ [Ended failure note]) \<and> (failure = None \<longleftrightarrow> tail = [])) \<and>
    records_received (hc_facts c) = length (filter is_datagram xs)"
proof -
  have nil: "take_records [] = ([], [])" by (simp add: take_records.simps next_record_def RECORD_PREFIX_def)
  have t: "take_records tail = ([], tail)" using tail by (simp add: take_records.simps [of tail])
  have "arrivals [] (map H2Data chunks @ [H2End]) = map Datagram ds @ [end_item tail H2End]"
    using arrivals_chunks [OF nil, of chunks "[H2End]"] take_records_encoded_list [OF enc, of tail] bytes t by simp
  then have "outstanding hbone_new (map H2Data chunks @ [H2End]) = map Datagram ds @ [end_item tail H2End]"
    by (simp add: outstanding_def hbone_new_def)
  with hbone_deliver_spec [OF run] have xs: "xs = take n (map Datagram ds @ [end_item tail H2End])"
    and count: "records_received (hc_facts c) = length (filter is_datagram xs)"
    by (simp_all add: hbone_new_def new_facts_def)
  have "\<exists>failure note. end_item tail H2End = Ended failure note \<and> (failure = None \<longleftrightarrow> tail = [])"
    by (auto simp: end_item_def on_data_def hbone_end_def pending_def Let_def hbone_new_def)
  then obtain failure m where "end_item tail H2End = Ended failure m" "failure = None \<longleftrightarrow> tail = []" by blast
  with xs count show ?thesis by metis
qed

text \<open>
  Every value a QUIC variable-length integer can hold (below 2 to the 62) is read back from
  its encoding, wherever the encoding starts and whatever follows it.
\<close>

lemma varint_roundtrip:
  assumes "unat v < 2 ^ 62"
  shows "read_varint (pre @ put_varint v @ rest) (length pre) = Some (v, length pre + length (put_varint v))"
  by (rule read_put_varint [OF assms])

text \<open>
  C20. Chunk boundaries do not matter to the capsule reader: whatever bytes arrive, valid or not,
  draining it after each chunk gives the capsules, and the error or the waiting state, that
  draining it once after all of them gives.
\<close>

theorem capsule_chunks:
  assumes "chunks \<noteq> []"
  shows "feed_chunks capsule_push take_capsules chunks d = take_capsules (capsule_push (concat chunks) d)"
  using assms by (rule capsules.feed_chunks_concat)

text \<open>
  C19. UDP payloads sent as capsules arrive: if the bytes of a CONNECT stream, however split, are
  the capsules of \<open>ds\<close>, then handling them queues exactly those payloads, and the FIN that follows
  is a clean close by the peer.
\<close>

theorem capsule_tunnel_delivers:
  assumes payloads: "list_all (\<lambda>p. length p \<le> MAX_UDP_PAYLOAD) ds"
    and bytes: "concat chunks = concat (map encode_capsule ds)"
    and c: "mc_decoder c = new_decoder"
  shows "\<exists>note. on_stream StreamFin (fold (\<lambda>b. on_stream (StreamData b)) chunks c) =
    c\<lparr>mc_queue := mc_queue c @ map (\<lambda>p. QueuedUdp p EncCapsule) ds @ [QueuedEnded None note], mc_stream_open := False,
      mc_closed_by := Peer\<rparr>"
proof -
  have nil: "take_capsules new_decoder = ([], Inr new_decoder)"
    by (simp add: take_capsules.simps decode_next_def decode_ready_def advance_skip_def new_decoder_def read_varint_def)
  have buf: "new_decoder\<lparr>cd_buf := []\<rparr> = new_decoder" by (simp add: new_decoder_def)
  have "take_capsules (capsule_push (concat chunks) (mc_decoder c)) = (map CapsuleUdp ds, Inr (mc_decoder c))"
    using take_capsules_encoded_list [OF payloads, of new_decoder "[]"] nil
    by (simp add: bytes c capsule_push_def buf) (simp add: new_decoder_def)
  from on_stream_chunks [OF _ this] nil c
  have "fold (\<lambda>b. on_stream (StreamData b)) chunks c =
    c\<lparr>mc_decoder := mc_decoder c, mc_queue := mc_queue c @ map queued_capsule (map CapsuleUdp ds)\<rparr>" by simp
  moreover have "map queued_capsule (map CapsuleUdp ds) = map (\<lambda>p. QueuedUdp p EncCapsule) ds"
    by (simp add: queued_capsule_def)
  ultimately show ?thesis
    by (intro exI [of _ "''the proxy closed the tunnel (FIN on the CONNECT stream)''"])
      (simp add: on_stream_def capsule_finish_def c new_decoder_def masque_end_def)
qed

text \<open>
  The capsule reader's memory is bounded whatever the proxy sends: after a drain it holds less
  than \<^verbatim>\<open>feed_limit\<close> bytes, so with the next slice pushed it holds less than twice that.
\<close>

lemma capsule_buffer_bound:
  assumes "take_capsules d = (ks, Inr d')"
  shows "length (cd_buf (capsule_push (take (min (length rest) feed_limit) rest) d')) < 2 * feed_limit"
  using take_capsules_wait_bound [OF assms] by (simp add: capsule_push_def)

text \<open>A payload sent in a QUIC DATAGRAM frame of a tunnel is recognised as that payload of that tunnel.\<close>

lemma quic_datagram_roundtrip:
  assumes "unat q < 2 ^ 62"
  shows "decode_quic_datagram (encode_quic_datagram q payload) q = QuicUdp payload"
  using read_put_varint [OF assms, of "[]" "put_varint 0 @ payload"] read_put_varint [of 0 "put_varint q" payload]
  by (simp add: decode_quic_datagram_def encode_quic_datagram_def)

section \<open>Witnesses\<close>

theorem hbone_delivers_witness:
  "(\<exists>failure note. fst (hbone_deliver 5 (map H2Data [[0], [1, 7, 0], [0, 9]] @ [H2End]) hbone_new) =
      take 5 (map Datagram [[7], []] @ [Ended failure note]) \<and> (failure = None \<longleftrightarrow> [9 :: octet] = [])) \<and>
   records_received (hc_facts (snd (hbone_deliver 5 (map H2Data [[0], [1, 7, 0], [0, 9]] @ [H2End]) hbone_new))) =
     length (filter is_datagram (fst (hbone_deliver 5 (map H2Data [[0], [1, 7, 0], [0, 9]] @ [H2End]) hbone_new)))"
proof (rule hbone_delivers [where rs = "[[0, 1, 7], [0, 0]]"])
  show "list_all2 (\<lambda>p r. encode_record p = Some r) [[7], []] [[0, 1, 7], [0, 0]]"
    by (simp add: encode_record_def MAX_RECORD_PAYLOAD_def to_be_def numeral_2_eq_2)
  show "concat [[0], [1, 7, 0], [0, 9]] = concat [[0, 1, 7], [0, 0]] @ [9 :: octet]" by simp
  show "next_record [9] = (None, [9])" by (simp add: next_record_def RECORD_PREFIX_def)
qed simp

theorem capsule_chunks_witness:
  "feed_chunks capsule_push take_capsules [[0], [2, 0], [7]] new_decoder = take_capsules (capsule_push [0, 2, 0, 7] new_decoder)"
  using capsule_chunks [of "[[0], [2, 0], [7]]" new_decoder] by simp

definition demo_masque :: masque_channel where
  "demo_masque = \<lparr>mc_quarter = 0, mc_decoder = new_decoder, mc_queue = [], mc_stream_open = True, mc_ended = False,
     received_quic_datagrams = 0, received_capsules = 0, mc_dropped = 0, mc_closed_by = NotClosed\<rparr>"

theorem capsule_tunnel_delivers_witness:
  "\<exists>note. on_stream StreamFin (fold (\<lambda>b. on_stream (StreamData b)) [[0, 2], [0, 7, 0], [1, 0]] demo_masque) =
    demo_masque\<lparr>mc_queue := [QueuedUdp [7] EncCapsule, QueuedUdp [] EncCapsule, QueuedEnded None note],
      mc_stream_open := False, mc_closed_by := Peer\<rparr>"
  using capsule_tunnel_delivers [of "[[7], []]" "[[0, 2], [0, 7, 0], [1, 0]]" demo_masque]
  by (simp add: MAX_UDP_PAYLOAD_def demo_masque_def encode_capsule_def put_varint_def to_be_def CAPSULE_DATAGRAM_def)

end
