(* ===== verification/Sse.thy ===== *)
theory Sse
  imports Rust_Text
begin

text \<open>
  The incremental \<^verbatim>\<open>text/event-stream\<close> parser (\<^verbatim>\<open>crates/anvil-transport/src/sse.rs\<close>): lines ended by CR, LF
  or CRLF, a leading byte order mark wherever the transport splits it, the fields of an event, and
  the bounds on lines, event data and metadata.

  A method that takes \<^verbatim>\<open>&mut self\<close> and \<^verbatim>\<open>&mut out\<close> returns the error, if any, with the parser and the
  events after it.
\<close>

section \<open>State\<close>

definition MAX_EVENT_METADATA_BYTES :: nat where "MAX_EVENT_METADATA_BYTES = 4 * 1024"

record sse_event =
  ev_id :: "string option"
  ev_type :: string
  ev_data :: string

record sse_parser =
  sp_line :: string
  sp_data :: string
  sp_has_data :: bool
  sp_event_type :: string
  last_event_id :: "string option"
  retry_ms :: "nat option"
  bom_checked :: bool
  bom_matched :: nat
  pending_cr :: bool
  max_line :: nat

type_synonym fed = "string option \<times> sse_parser \<times> sse_event list"

definition BOM :: string where
  "BOM = [CHR 0xEF, CHR 0xBB, CHR 0xBF]"

definition CR :: char where "CR = CHR 0x0D"
definition LF :: char where "LF = CHR 0x0A"

definition new_parser :: "nat \<Rightarrow> sse_parser" where
  "new_parser n = \<lparr>sp_line = [], sp_data = [], sp_has_data = False, sp_event_type = [], last_event_id = None,
     retry_ms = None, bom_checked = False, bom_matched = 0, pending_cr = False, max_line = max n 1024\<rparr>"

definition max_event_data :: "sse_parser \<Rightarrow> nat" where
  "max_event_data p = min (4 * max_line p) u64_max"

definition reset_stream :: "sse_parser \<Rightarrow> sse_parser" where
  "reset_stream p = p\<lparr>sp_line := [], sp_data := [], sp_has_data := False, sp_event_type := [],
     bom_checked := False, bom_matched := 0, pending_cr := False\<rparr>"

definition metadata_error :: "string \<Rightarrow> string" where
  "metadata_error field =
     ''an event-stream '' @ field @ '' field exceeded '' @ show_nat MAX_EVENT_METADATA_BYTES @ '' bytes''"

definition oversized_field :: "string \<Rightarrow> string \<Rightarrow> bool" where
  "oversized_field line field \<longleftrightarrow>
     is_prefix_of (field @ '':'') line \<and>
     MAX_EVENT_METADATA_BYTES < length (strip_first CHR '' '' (drop (length field + 1) line))"

definition oversized_metadata :: "string \<Rightarrow> string option" where
  "oversized_metadata line = List.find (oversized_field line) [''id'', ''event'']"

definition drop_event :: "sse_parser \<Rightarrow> sse_parser" where
  "drop_event p = p\<lparr>sp_data := [], sp_has_data := False, sp_event_type := []\<rparr>"

section \<open>Operations\<close>

definition field_of :: "string \<Rightarrow> string \<times> string" where
  "field_of line =
     (case split_once CHR '':'' line of
        Some (f, v) \<Rightarrow> (f, strip_first CHR '' '' v)
      | None \<Rightarrow> (line, []))"

definition dispatch :: "sse_parser \<Rightarrow> sse_event list \<Rightarrow> sse_event list" where
  "dispatch p out =
     (if sp_has_data p
      then out @ [\<lparr>ev_id = last_event_id p,
                   ev_type = (if sp_event_type p = [] then ''message'' else sp_event_type p),
                   ev_data = strip_last LF (sp_data p)\<rparr>]
      else out)"

definition set_field :: "string \<Rightarrow> string \<Rightarrow> sse_parser \<Rightarrow> string option \<times> sse_parser" where
  "set_field field v p =
     (if field \<in> {''event'', ''id''} \<and> MAX_EVENT_METADATA_BYTES < length v
      then (Some (metadata_error field), drop_event p)
      else if field = ''event'' then (None, p\<lparr>sp_event_type := v\<rparr>)
      else if field = ''data'' then
        (if max_event_data p < length (sp_data p) + length v
         then (Some (''an event-stream event'' @ [CHR 0x27] @ ''s data exceeded '' @ show_nat (max_event_data p) @ '' bytes''), drop_event p)
         else (None, p\<lparr>sp_data := sp_data p @ v @ [LF], sp_has_data := True\<rparr>))
      else if field = ''id'' \<and> CHR 0x00 \<notin> set v then (None, p\<lparr>last_event_id := Some v\<rparr>)
      else if field = ''retry'' \<and> v \<noteq> [] \<and> list_all is_digit v then (None, p\<lparr>retry_ms := parse_unsigned u64_max v\<rparr>)
      else (None, p))"

definition end_line :: "sse_parser \<Rightarrow> sse_event list \<Rightarrow> fed" where
  "end_line p out =
     (let line = from_utf8_lossy (sp_line p); p1 = p\<lparr>sp_line := []\<rparr>
      in if line = [] then (None, drop_event p1, dispatch p1 out)
         else if is_prefix_of '':'' line then (None, p1, out)
         else case field_of line of (field, v) \<Rightarrow> (case set_field field v p1 of (err, p2) \<Rightarrow> (err, p2, out)))"

text \<open>One byte of \<^verbatim>\<open>feed_bytes\<close>, and the loop.\<close>

definition feed_byte :: "char \<Rightarrow> sse_parser \<Rightarrow> sse_event list \<Rightarrow> fed" where
  "feed_byte b p out =
     (let p1 = p\<lparr>pending_cr := False\<rparr>
      in if pending_cr p \<and> b = LF then (None, p1, out)
         else if b = LF then end_line p1 out
         else if b = CR then end_line (p1\<lparr>pending_cr := True\<rparr>) out
         else if max_line p1 \<le> length (sp_line p1)
         then (Some (''an event-stream line exceeded '' @ show_nat (max_line p1) @ '' bytes''), p1, out)
         else let p2 = p1\<lparr>sp_line := sp_line p1 @ [b]\<rparr>
              in case (if MAX_EVENT_METADATA_BYTES < length (sp_line p2) then oversized_metadata (sp_line p2) else None) of
                   Some field \<Rightarrow> (Some (metadata_error field), drop_event (p2\<lparr>sp_line := []\<rparr>), out)
                 | None \<Rightarrow> (None, p2, out))"

fun feed_bytes :: "string \<Rightarrow> nat \<Rightarrow> sse_parser \<Rightarrow> sse_event list \<Rightarrow> fed" where
  "feed_bytes [] limit p out = (None, p, out)"
| "feed_bytes (b # bs) limit p out =
     (if limit \<le> length out then (None, p, out)
      else case feed_byte b p out of
             (Some e, p', out') \<Rightarrow> (Some e, p', out')
           | (None, p', out') \<Rightarrow> feed_bytes bs limit p' out')"

text \<open>The scan of the byte order mark: how many more bytes of it a chunk matches.\<close>

fun bom_scan :: "string \<Rightarrow> nat \<Rightarrow> nat" where
  "bom_scan [] m = 0"
| "bom_scan (b # bs) m = (if m < length BOM \<and> b = BOM ! m then Suc (bom_scan bs (Suc m)) else 0)"

definition feed_limited :: "string \<Rightarrow> nat \<Rightarrow> sse_parser \<Rightarrow> sse_event list \<Rightarrow> fed" where
  "feed_limited chunk limit p out =
     (if limit \<le> length out then (None, p, out)
      else if bom_checked p then feed_bytes chunk limit p out
      else let i = bom_scan chunk (bom_matched p); m = bom_matched p + i
           in if m = length BOM then feed_bytes (drop i chunk) limit (p\<lparr>bom_checked := True, bom_matched := 0\<rparr>) out
              else if i = length chunk then (None, p\<lparr>bom_matched := m\<rparr>, out)
              else case feed_bytes (take m BOM) limit (p\<lparr>bom_checked := True, bom_matched := 0\<rparr>) out of
                     (Some e, p', out') \<Rightarrow> (Some e, p', out')
                   | (None, p', out') \<Rightarrow> feed_bytes (drop i chunk) limit p' out')"

definition feed :: "string \<Rightarrow> sse_parser \<Rightarrow> sse_event list \<Rightarrow> fed" where
  "feed chunk p out = feed_limited chunk u64_max p out"

lemma max_event_data_upd [simp]:
  "max_event_data (p\<lparr>sp_line := l\<rparr>) = max_event_data p" "max_event_data (p\<lparr>sp_data := d\<rparr>) = max_event_data p"
  "max_event_data (p\<lparr>sp_has_data := h\<rparr>) = max_event_data p" "max_event_data (p\<lparr>sp_event_type := t\<rparr>) = max_event_data p"
  "max_event_data (p\<lparr>last_event_id := i\<rparr>) = max_event_data p" "max_event_data (p\<lparr>pending_cr := c\<rparr>) = max_event_data p"
  by (simp_all add: max_event_data_def)

section \<open>Chunks\<close>

text \<open>Feeding a second chunk after a first: nothing is fed after an error.\<close>

definition then_feed :: "(sse_parser \<Rightarrow> sse_event list \<Rightarrow> fed) \<Rightarrow> fed \<Rightarrow> fed" where
  "then_feed f r = (case r of (Some e, p, out) \<Rightarrow> (Some e, p, out) | (None, p, out) \<Rightarrow> f p out)"

lemma feed_bytes_append: "feed_bytes (a @ b) limit p out = then_feed (feed_bytes b limit) (feed_bytes a limit p out)"
proof (induction a arbitrary: p out)
  case Nil
  then show ?case by (simp add: then_feed_def)
next
  case (Cons x a)
  show ?case
  proof (cases "limit \<le> length out")
    case True
    then show ?thesis by (cases b) (simp_all add: then_feed_def)
  next
    case False
    with Cons show ?thesis by (simp add: then_feed_def split: prod.splits option.splits)
  qed
qed

lemma bom_scan_le: "bom_scan c m \<le> length c" "m \<le> length BOM \<Longrightarrow> m + bom_scan c m \<le> length BOM"
  by (induction c m rule: bom_scan.induct) auto

lemma bom_scan_append:
  "bom_scan (a @ b) m = (if bom_scan a m = length a then length a + bom_scan b (m + length a) else bom_scan a m)"
  by (induction a m rule: bom_scan.induct) auto

lemma bom_scan_full: "bom_scan b (length BOM) = 0"
  by (cases b) auto

lemma set_field_bom: "set_field f v p = (e, p') \<Longrightarrow> bom_checked p' = bom_checked p \<and> bom_matched p' = bom_matched p \<and> max_line p' = max_line p"
  by (auto simp: set_field_def drop_event_def split: if_splits)

lemma end_line_bom: "end_line p out = (e, p', out') \<Longrightarrow> bom_checked p' = bom_checked p \<and> bom_matched p' = bom_matched p \<and> max_line p' = max_line p"
  by (auto simp: end_line_def Let_def drop_event_def split: if_splits prod.splits dest: set_field_bom)

lemma feed_byte_bom: "feed_byte b p out = (e, p', out') \<Longrightarrow> bom_checked p' = bom_checked p \<and> bom_matched p' = bom_matched p \<and> max_line p' = max_line p"
  by (auto simp: feed_byte_def Let_def drop_event_def split: if_splits option.splits dest: end_line_bom)

lemma feed_bytes_bom:
  "feed_bytes c limit p out = (e, p', out') \<Longrightarrow> bom_checked p' = bom_checked p \<and> bom_matched p' = bom_matched p \<and> max_line p' = max_line p"
proof (induction c arbitrary: p out)
  case (Cons b bs)
  obtain e1 p1 out1 where f: "feed_byte b p out = (e1, p1, out1)" by (metis prod_cases3)
  from feed_byte_bom [OF f] f Cons show ?case by (cases e1) (auto split: if_splits)
qed simp

lemma feed_limited_checked: "bom_checked p \<Longrightarrow> feed_limited c limit p out = feed_bytes c limit p out"
  by (cases c) (simp_all add: feed_limited_def)

lemma then_feed_checked:
  "bom_checked p \<Longrightarrow> then_feed (feed_limited b limit) (feed_bytes a limit p out) = feed_bytes (a @ b) limit p out"
  by (cases "feed_bytes a limit p out")
    (auto simp: feed_bytes_append then_feed_def feed_limited_checked dest: feed_bytes_bom split: option.splits)

lemma feed_limited_append:
  assumes "bom_matched p < length BOM"
  shows "feed_limited (a @ b) limit p out = then_feed (feed_limited b limit) (feed_limited a limit p out)"
proof (cases "limit \<le> length out")
  case True
  then show ?thesis by (simp add: feed_limited_def then_feed_def)
next
  case lim: False
  show ?thesis
  proof (cases "bom_checked p")
    case True
    then show ?thesis by (simp add: feed_limited_checked then_feed_checked)
  next
    case False
    let ?i = "bom_scan a (bom_matched p)" and ?q = "p\<lparr>bom_checked := True, bom_matched := 0\<rparr>"
    let ?m = "bom_matched p + ?i"
    have le: "?i \<le> length a" "?m \<le> length BOM" using bom_scan_le(1) [where c = a] bom_scan_le(2) [where m = "bom_matched p" and c = a] assms by auto
    consider "?m = length BOM" | "?m \<noteq> length BOM" "?i = length a" | "?m \<noteq> length BOM" "?i \<noteq> length a" by blast
    then show ?thesis
    proof cases
      case 1
      then have "bom_scan (a @ b) (bom_matched p) = ?i" by (auto simp: bom_scan_append bom_scan_full)
      with 1 lim False le show ?thesis
        by (simp add: feed_limited_def [of "a @ b"] feed_limited_def [of a] then_feed_checked)
    next
      case 2
      then have "bom_scan (a @ b) (bom_matched p) = length a + bom_scan b ?m" by (simp add: bom_scan_append)
      with 2 lim False show ?thesis
        by (simp add: feed_limited_def then_feed_def add.assoc Let_def split: prod.split option.split)
    next
      case 3
      then have i: "bom_scan (a @ b) (bom_matched p) = ?i" by (simp add: bom_scan_append)
      have "feed_limited (a @ b) limit p out = feed_bytes ((take ?m BOM @ drop ?i a) @ b) limit ?q out"
        using 3 lim False le i by (simp add: feed_limited_def feed_bytes_append then_feed_def Let_def split: prod.splits option.splits)
      moreover have "feed_limited a limit p out = feed_bytes (take ?m BOM @ drop ?i a) limit ?q out"
        using 3 lim False le by (simp add: feed_limited_def feed_bytes_append then_feed_def Let_def)
      ultimately show ?thesis by (simp add: then_feed_checked)
    qed
  qed
qed

section \<open>Bounds\<close>

definition opt_len :: "string option \<Rightarrow> nat" where
  "opt_len x = (case x of Some s \<Rightarrow> length s | None \<Rightarrow> 0)"

definition parser_ok :: "sse_parser \<Rightarrow> bool" where
  "parser_ok p \<longleftrightarrow> bom_matched p < length BOM \<and> length (sp_line p) \<le> max_line p \<and>
     length (sp_event_type p) \<le> MAX_EVENT_METADATA_BYTES \<and> opt_len (last_event_id p) \<le> MAX_EVENT_METADATA_BYTES \<and>
     (if sp_has_data p then sp_data p \<noteq> [] \<and> last (sp_data p) = LF \<and> length (sp_data p) \<le> max_event_data p + 1
      else sp_data p = [])"

definition event_ok :: "nat \<Rightarrow> sse_event \<Rightarrow> bool" where
  "event_ok limit e \<longleftrightarrow> length (ev_data e) \<le> limit \<and> length (ev_type e) \<le> MAX_EVENT_METADATA_BYTES \<and>
     opt_len (ev_id e) \<le> MAX_EVENT_METADATA_BYTES"

definition fed_ok :: "fed \<Rightarrow> bool" where
  "fed_ok r = (case r of (e, p, out) \<Rightarrow> parser_ok p \<and> list_all (event_ok (max_event_data p)) out)"

lemma set_field_ok: "set_field f v p = (e, p') \<Longrightarrow> parser_ok p \<Longrightarrow> parser_ok p' \<and> max_event_data p' = max_event_data p"
  by (auto simp: set_field_def parser_ok_def drop_event_def max_event_data_def opt_len_def split: if_splits)

lemma drop_event_ok: "parser_ok p \<Longrightarrow> parser_ok (drop_event p)"
  by (auto simp: parser_ok_def drop_event_def)

lemma event_data_bound: "s \<noteq> [] \<Longrightarrow> last s = LF \<Longrightarrow> length s \<le> n + 1 \<Longrightarrow> length (strip_last LF s) \<le> n"
  by (simp add: strip_last_def)

lemma end_line_ok:
  assumes "parser_ok p" and "list_all (event_ok (max_event_data p)) out"
  shows "fed_ok (end_line p out)"
proof -
  let ?p1 = "p\<lparr>sp_line := []\<rparr>"
  from assms(1) have p1: "parser_ok ?p1" by (auto simp: parser_ok_def max_event_data_def)
  have "list_all (event_ok (max_event_data p)) (dispatch ?p1 out)"
    using assms by (auto simp: dispatch_def event_ok_def parser_ok_def MAX_EVENT_METADATA_BYTES_def intro: event_data_bound split: if_splits)
  moreover have "max_event_data ?p1 = max_event_data p" "max_event_data (drop_event ?p1) = max_event_data p"
    by (simp_all add: max_event_data_def drop_event_def)
  ultimately show ?thesis using p1 assms(2) drop_event_ok [OF p1]
    by (auto simp: end_line_def fed_ok_def Let_def split: prod.splits dest: set_field_ok)
qed

lemma feed_byte_ok:
  assumes "parser_ok p" and "list_all (event_ok (max_event_data p)) out"
  shows "fed_ok (feed_byte b p out)"
proof -
  have up: "parser_ok (p\<lparr>pending_cr := x\<rparr>)" "max_event_data (p\<lparr>pending_cr := x\<rparr>) = max_event_data p" for x
    using assms(1) by (auto simp: parser_ok_def max_event_data_def)
  have "fed_ok (end_line (p\<lparr>pending_cr := x\<rparr>) out)" for x
    by (rule end_line_ok) (use up assms in auto)
  moreover have "parser_ok (p\<lparr>pending_cr := False, sp_line := sp_line p @ [b]\<rparr>)" if "\<not> max_line p \<le> length (sp_line p)"
    using assms(1) that by (auto simp: parser_ok_def max_event_data_def)
  ultimately show ?thesis using up assms
    by (auto simp: feed_byte_def Let_def fed_ok_def max_event_data_def drop_event_def parser_ok_def split: option.splits)
qed

lemma feed_bytes_ok: "parser_ok p \<Longrightarrow> list_all (event_ok (max_event_data p)) out \<Longrightarrow> fed_ok (feed_bytes c limit p out)"
proof (induction c limit p out rule: feed_bytes.induct)
  case (2 b bs limit p out)
  obtain e1 p1 out1 where f: "feed_byte b p out = (e1, p1, out1)" by (metis prod_cases3)
  from feed_byte_ok [OF 2(2,3), of b] f have "parser_ok p1" "list_all (event_ok (max_event_data p1)) out1" by (auto simp: fed_ok_def)
  with 2 f show ?case by (cases e1) (auto simp: fed_ok_def)
qed (simp add: fed_ok_def)

lemma then_feed_ok: "fed_ok r \<Longrightarrow> fed_ok (then_feed (feed_bytes y limit) r)"
proof -
  assume r: "fed_ok r"
  obtain e p out where e: "r = (e, p, out)" by (cases r)
  with r have "fed_ok (feed_bytes y limit p out)" by (intro feed_bytes_ok) (simp_all add: fed_ok_def)
  with r e show ?thesis by (cases e) (simp_all add: then_feed_def)
qed

lemma feed_limited_ok:
  assumes "parser_ok p" and "list_all (event_ok (max_event_data p)) out"
  shows "fed_ok (feed_limited c limit p out)"
proof -
  let ?q = "p\<lparr>bom_checked := True, bom_matched := 0\<rparr>"
  let ?i = "bom_scan c (bom_matched p)"
  let ?m = "bom_matched p + ?i"
  have q: "parser_ok ?q" "max_event_data ?q = max_event_data p"
    using assms(1) by (auto simp: parser_ok_def max_event_data_def BOM_def)
  have m: "?m \<le> length BOM" using assms(1) bom_scan_le(2) [where m = "bom_matched p" and c = c] by (simp add: parser_ok_def)
  have all: "fed_ok (feed_bytes x limit ?q out)" for x by (rule feed_bytes_ok) (use q assms in auto)
  from then_feed_ok [OF this]
  have two: "fed_ok (then_feed (feed_bytes y limit) (feed_bytes x limit ?q out))" for x y .
  consider "limit \<le> length out" | "bom_checked p" | "\<not> limit \<le> length out" "\<not> bom_checked p" "?m = length BOM"
    | "\<not> limit \<le> length out" "\<not> bom_checked p" "?m \<noteq> length BOM" "?i = length c"
    | "\<not> limit \<le> length out" "\<not> bom_checked p" "?m \<noteq> length BOM" "?i \<noteq> length c" by blast
  then show ?thesis
  proof cases
    case 1
    then show ?thesis using assms by (simp add: feed_limited_def fed_ok_def)
  next
    case 2
    then show ?thesis using assms by (simp add: feed_limited_checked feed_bytes_ok)
  next
    case 3
    then show ?thesis using all by (simp add: feed_limited_def)
  next
    case 4
    with m have "parser_ok (p\<lparr>bom_matched := ?m\<rparr>)" using assms(1) by (auto simp: parser_ok_def max_event_data_def)
    with 4 assms show ?thesis by (simp add: feed_limited_def fed_ok_def max_event_data_def)
  next
    case 5
    then show ?thesis using two [of "drop ?i c" "take ?m BOM"] by (simp add: feed_limited_def Let_def then_feed_def)
  qed
qed

section \<open>Lines and events\<close>

definition plain :: "string \<Rightarrow> bool" where
  "plain s \<longleftrightarrow> CR \<notin> set s \<and> LF \<notin> set s"

definition short_metadata :: "string \<Rightarrow> bool" where
  "short_metadata line \<longleftrightarrow> length line \<le> MAX_EVENT_METADATA_BYTES \<or> hd line \<notin> {CHR ''i'', CHR ''e''}"

lemma oversized_none: "line \<noteq> [] \<Longrightarrow> hd line \<notin> {CHR ''i'', CHR ''e''} \<Longrightarrow> oversized_metadata line = None"
  by (cases line) (auto simp: oversized_metadata_def oversized_field_def is_prefix_of_def)

lemma feed_partial_line:
  assumes "plain w" and "length (sp_line p) + length w \<le> max_line p" and "length out < limit"
    and "short_metadata (sp_line p @ w)" and "w \<noteq> []"
  shows "feed_bytes w limit p out = (None, p\<lparr>pending_cr := False, sp_line := sp_line p @ w\<rparr>, out)"
  using assms
proof (induction w arbitrary: p)
  case (Cons b w)
  let ?p = "p\<lparr>pending_cr := False, sp_line := sp_line p @ [b]\<rparr>"
  have "b \<noteq> LF" "b \<noteq> CR" using Cons.prems(1) by (auto simp: plain_def)
  moreover have "\<not> max_line p \<le> length (sp_line p)" using Cons.prems(2) by simp
  moreover have "oversized_metadata (sp_line p @ [b]) = None" if "MAX_EVENT_METADATA_BYTES < Suc (length (sp_line p))"
  proof (rule oversized_none)
    have "hd (sp_line p @ [b]) = hd (sp_line p @ b # w)" by (cases "sp_line p") auto
    then show "hd (sp_line p @ [b]) \<notin> {CHR ''i'', CHR ''e''}" using Cons.prems(4) that by (auto simp: short_metadata_def)
  qed simp
  ultimately have step: "feed_byte b p out = (None, ?p, out)" by (simp add: feed_byte_def Let_def)
  show ?case
  proof (cases "w = []")
    case True
    with step Cons.prems(3) show ?thesis by simp
  next
    case False
    have "feed_bytes w limit ?p out = (None, ?p\<lparr>pending_cr := False, sp_line := sp_line ?p @ w\<rparr>, out)"
      by (rule Cons.IH) (use Cons.prems False in \<open>auto simp: plain_def short_metadata_def\<close>)
    with step Cons.prems(3) show ?thesis by simp
  qed
qed simp

lemma feed_line:
  assumes "plain w" and "length w \<le> max_line p" and "length out < limit" and "short_metadata w"
    and "w \<noteq> []" and "sp_line p = []"
  shows "feed_bytes (w @ [LF]) limit p out = end_line (p\<lparr>sp_line := w, pending_cr := False\<rparr>) out"
proof -
  have "feed_bytes w limit p out = (None, p\<lparr>pending_cr := False, sp_line := w\<rparr>, out)"
    using feed_partial_line [of w p out limit] assms by simp
  then show ?thesis using assms(3)
    by (auto simp: feed_bytes_append then_feed_def feed_byte_def split: prod.splits option.splits)
qed

text \<open>A field line \<^verbatim>\<open>name: value\<close>, ended by LF.\<close>

definition field_line :: "string \<Rightarrow> string \<Rightarrow> string" where
  "field_line name v = name @ '': '' @ v"

lemma field_line_of: "CHR '':'' \<notin> set name \<Longrightarrow> field_of (field_line name v) = (name, v)"
  using split_once_append [of "CHR '':''" name "CHR '' '' # v"] by (simp add: field_of_def field_line_def strip_first_def)

lemma end_field_line:
  assumes "is_utf8 v" and "name \<in> {''id'', ''event'', ''data''}"
    and "sp_line p = field_line name v"
  shows "end_line p out = (case set_field name v (p\<lparr>sp_line := []\<rparr>) of (e, p') \<Rightarrow> (e, p', out))"
proof -
  have "is_utf8 (field_line name v)" using assms by (auto simp: field_line_def is_utf8_Cons byte_def)
  then have u: "from_utf8_lossy (field_line name v) = field_line name v" by (rule from_utf8_lossy_valid)
  have "field_of (field_line name v) = (name, v)" by (rule field_line_of) (use assms(2) in auto)
  moreover have "field_line name v \<noteq> []" "\<not> is_prefix_of '':'' (field_line name v)"
    using assms(2) by (auto simp: field_line_def is_prefix_of_def)
  ultimately show ?thesis using assms(3) by (simp add: end_line_def u)
qed

lemma feed_field_line:
  assumes "plain v" and "length (field_line name v) \<le> max_line p" and "length out < limit" and "is_utf8 v"
    and "name \<in> {''id'', ''event'', ''data''}" and "name = ''data'' \<or> length (field_line name v) \<le> MAX_EVENT_METADATA_BYTES"
    and "sp_line p = []" and "set_field name v (p\<lparr>pending_cr := False\<rparr>) = (None, p')"
  shows "feed_bytes (field_line name v @ [LF]) limit p out = (None, p', out)"
proof -
  have "plain (field_line name v)" using assms(1,5) by (auto simp: plain_def field_line_def CR_def LF_def)
  moreover have "short_metadata (field_line name v)" using assms(6) by (auto simp: short_metadata_def field_line_def)
  moreover have "field_line name v \<noteq> []" by (simp add: field_line_def)
  ultimately have "feed_bytes (field_line name v @ [LF]) limit p out =
    end_line (p\<lparr>sp_line := field_line name v, pending_cr := False\<rparr>) out"
    using assms(2,3,7) by (intro feed_line) auto
  also have "\<dots> = (None, p', out)"
  proof -
    let ?q = "p\<lparr>sp_line := field_line name v, pending_cr := False\<rparr>"
    have "?q\<lparr>sp_line := []\<rparr> = p\<lparr>pending_cr := False\<rparr>" using assms(7) by (cases p) simp
    with end_field_line [OF assms(4,5), of ?q out] assms(8) show ?thesis by simp
  qed
  finally show ?thesis .
qed

lemma feed_data_lines:
  assumes "list_all (\<lambda>v. plain v \<and> is_utf8 v \<and> length v + 6 \<le> max_line p) ls" and "length out < limit" and "sp_line p = []"
    and "length (sp_data p) + length (concat (map (\<lambda>v. v @ [LF]) ls)) \<le> max_event_data p + 1" and "ls \<noteq> []"
  shows "feed_bytes (concat (map (\<lambda>v. field_line ''data'' v @ [LF]) ls)) limit p out =
    (None, p\<lparr>pending_cr := False, sp_data := sp_data p @ concat (map (\<lambda>v. v @ [LF]) ls), sp_has_data := True\<rparr>, out)"
  using assms
proof (induction ls arbitrary: p)
  case (Cons v ls)
  let ?p = "p\<lparr>pending_cr := False, sp_data := sp_data p @ v @ [LF], sp_has_data := True\<rparr>"
  have "set_field ''data'' v (p\<lparr>pending_cr := False\<rparr>) = (None, ?p)"
    using Cons.prems(4) by (simp add: set_field_def)
  then have step: "feed_bytes (field_line ''data'' v @ [LF]) limit p out = (None, ?p, out)"
    using Cons.prems by (intro feed_field_line) (auto simp: field_line_def)
  show ?case
  proof (cases "ls = []")
    case True
    with step show ?thesis by simp
  next
    case False
    have "feed_bytes (concat (map (\<lambda>v. field_line ''data'' v @ [LF]) ls)) limit ?p out =
      (None, ?p\<lparr>pending_cr := False, sp_data := sp_data ?p @ concat (map (\<lambda>v. v @ [LF]) ls), sp_has_data := True\<rparr>, out)"
      by (rule Cons.IH) (use Cons.prems False in auto)
    with step show ?thesis
      using feed_bytes_append [of "field_line ''data'' v @ [LF]" "concat (map (\<lambda>v. field_line ''data'' v @ [LF]) ls)" limit p out]
      by (simp add: then_feed_def)
  qed
qed simp

lemma join_lines: "ls \<noteq> [] \<Longrightarrow> concat (map (\<lambda>v. v @ [LF]) ls) = join_with [LF] ls @ [LF]"
  by (induction ls rule: induct_list012) auto

section \<open>Properties\<close>

text \<open>
  C21. Chunk boundaries do not matter to the event-stream parser, wherever they fall: inside a
  line ending, a character or the byte order mark.  Feeding two chunks one after the other
  (nothing after an error) gives the parser, the events and the error of feeding them at once.
\<close>

theorem sse_chunks:
  assumes "parser_ok p"
  shows "feed_limited (a @ b) limit p out = then_feed (feed_limited b limit) (feed_limited a limit p out)"
  using assms by (intro feed_limited_append) (simp add: parser_ok_def)

text \<open>
  C22. Whatever bytes a server sends, in whatever chunks, and whatever the result, the parser's
  buffers stay within their bounds, and so does every event handed out: data of at most
  \<^verbatim>\<open>max_event_data\<close> bytes, id and type of at most \<^verbatim>\<open>MAX_EVENT_METADATA_BYTES\<close>.
\<close>

theorem sse_bounded:
  assumes "parser_ok p" and "list_all (event_ok (max_event_data p)) out"
  shows "fed_ok (feed_limited chunk limit p out)"
  using assms by (rule feed_limited_ok)

text \<open>
  An event that fits the bounds is parsed as sent: its id, its type and its data lines,
  written as the fields of an event stream and ended by an empty line, are dispatched as one event
  whose data is the lines joined by newlines.
\<close>

lemma sse_event_roundtrip:
  assumes p: "parser_ok p" "bom_checked p" "sp_line p = []" "\<not> sp_has_data p" "length out < limit" "\<not> pending_cr p"
    and i: "plain i" "is_utf8 i" "CHR 0x00 \<notin> set i" "length i + 4 \<le> min (max_line p) MAX_EVENT_METADATA_BYTES"
    and t: "plain t" "is_utf8 t" "t \<noteq> []" "length t + 7 \<le> min (max_line p) MAX_EVENT_METADATA_BYTES"
    and ls: "ls \<noteq> []" "list_all (\<lambda>v. plain v \<and> is_utf8 v \<and> length v + 6 \<le> max_line p) ls"
      "length (join_with [LF] ls) \<le> max_event_data p"
  shows "feed_limited (field_line ''id'' i @ [LF] @ field_line ''event'' t @ [LF] @
      concat (map (\<lambda>v. field_line ''data'' v @ [LF]) ls) @ [LF]) limit p out =
    (None, p\<lparr>last_event_id := Some i, sp_event_type := []\<rparr>,
     out @ [\<lparr>ev_id = Some i, ev_type = t, ev_data = join_with [LF] ls\<rparr>])"
proof -
  let ?p1 = "p\<lparr>last_event_id := Some i\<rparr>" and ?p2 = "p\<lparr>last_event_id := Some i, sp_event_type := t\<rparr>"
  let ?p3 = "?p2\<lparr>sp_data := join_with [LF] ls @ [LF], sp_has_data := True\<rparr>"
  have cr: "p\<lparr>pending_cr := False\<rparr> = p" using p(6) by (cases p) simp
  have d: "sp_data p = []" using p by (simp add: parser_ok_def)
  have 1: "feed_bytes (field_line ''id'' i @ [LF]) limit p out = (None, ?p1, out)"
    using p i cr by (intro feed_field_line) (auto simp: field_line_def set_field_def)
  have 2: "feed_bytes (field_line ''event'' t @ [LF]) limit ?p1 out = (None, ?p2, out)"
    using p t cr by (intro feed_field_line) (auto simp: field_line_def set_field_def)
  have "?p2\<lparr>pending_cr := False, sp_data := sp_data ?p2 @ concat (map (\<lambda>v. v @ [LF]) ls), sp_has_data := True\<rparr> = ?p3"
    using p(6) d by (cases p) (simp add: join_lines [OF ls(1)])
  moreover have "feed_bytes (concat (map (\<lambda>v. field_line ''data'' v @ [LF]) ls)) limit ?p2 out =
      (None, ?p2\<lparr>pending_cr := False, sp_data := sp_data ?p2 @ concat (map (\<lambda>v. v @ [LF]) ls), sp_has_data := True\<rparr>, out)"
    by (rule feed_data_lines) (use p ls d in \<open>auto simp: join_lines\<close>)
  ultimately have 3: "feed_bytes (concat (map (\<lambda>v. field_line ''data'' v @ [LF]) ls)) limit ?p2 out = (None, ?p3, out)"
    by simp
  have 4: "feed_bytes [LF] limit ?p3 out =
    (None, p\<lparr>last_event_id := Some i, sp_event_type := []\<rparr>, out @ [\<lparr>ev_id = Some i, ev_type = t, ev_data = join_with [LF] ls\<rparr>])"
    using p t(3) d by (cases p) (simp add: feed_byte_def end_line_def Let_def dispatch_def drop_event_def strip_last_def)
  have "feed_bytes ((field_line ''id'' i @ [LF]) @ (field_line ''event'' t @ [LF]) @
      concat (map (\<lambda>v. field_line ''data'' v @ [LF]) ls) @ [LF]) limit p out =
    (None, p\<lparr>last_event_id := Some i, sp_event_type := []\<rparr>, out @ [\<lparr>ev_id = Some i, ev_type = t, ev_data = join_with [LF] ls\<rparr>])"
    by (simp only: feed_bytes_append [of "field_line ''id'' i @ [LF]"] feed_bytes_append [of "field_line ''event'' t @ [LF]"]
        feed_bytes_append [of "concat (map (\<lambda>v. field_line ''data'' v @ [LF]) ls)"] 1 2 3 4 then_feed_def prod.case option.case)
  then show ?thesis using p(2) by (simp add: feed_limited_checked)
qed

section \<open>Witnesses\<close>

theorem sse_chunks_witness:
  "feed_limited (''data: a'' @ [CR] @ [LF, LF]) 9 (new_parser 0) [] =
     then_feed (feed_limited [LF, LF] 9) (feed_limited (''data: a'' @ [CR]) 9 (new_parser 0) [])"
  using sse_chunks [of "new_parser 0" "''data: a'' @ [CR]" "[LF, LF]" 9 "[]"]
  by (simp add: parser_ok_def new_parser_def BOM_def opt_len_def)

theorem sse_bounded_witness: "fed_ok (feed_limited ''data: a'' 9 (new_parser 0) [])"
  by (rule sse_bounded) (simp_all add: parser_ok_def new_parser_def BOM_def opt_len_def)

end
