(* ===== verification/Grpc_Web.thy ===== *)
theory Grpc_Web
  imports Framing
begin

text \<open>
  gRPC and gRPC-Web on the wire (\<^verbatim>\<open>crates/anvil-transport/src/grpc_web.rs\<close>, and the framing helpers of
  \<^verbatim>\<open>grpc.rs\<close>): media types, the incremental base64 decoder of text mode, length-prefixed frames with
  the trailer frame of gRPC-Web, and the trailer block.

  The base64 decoder of one segment belongs to another crate: it is the argument \<open>decode\<close>.  So is
  \<open>quote\<close>, the redacted and escaped excerpt of a malformed line in an error text.
\<close>

section \<open>Media types\<close>

definition media_type :: "string \<Rightarrow> string" where
  "media_type ct = map ascii_lower (trim (hd (split_char CHR '';'' ct)))"

definition is_grpc_web :: "string \<Rightarrow> bool" where
  "is_grpc_web ct \<longleftrightarrow> is_prefix_of ''application/grpc-web'' (media_type ct)"

definition is_grpc_web_text :: "string \<Rightarrow> bool" where
  "is_grpc_web_text ct \<longleftrightarrow> is_prefix_of ''application/grpc-web-text'' (media_type ct)"

definition is_grpc_family :: "string \<Rightarrow> bool" where
  "is_grpc_family ct \<longleftrightarrow> is_prefix_of ''application/grpc'' (media_type ct)"

section \<open>Base64 text mode\<close>

definition is_ascii_whitespace :: "char \<Rightarrow> bool" where
  "is_ascii_whitespace c \<longleftrightarrow> byte c \<in> {9, 10, 12, 13, 32}"

type_synonym b64_decoder = "string \<Rightarrow> string + octet list"

definition decode_segment :: "b64_decoder \<Rightarrow> string \<Rightarrow> octet list \<Rightarrow> string option \<times> octet list" where
  "decode_segment decode seg out =
     (case decode seg of Inl e \<Rightarrow> (Some (''not valid base64: '' @ e), out) | Inr v \<Rightarrow> (None, out @ v))"

text \<open>
  The loop of \<^verbatim>\<open>Base64Stream::push\<close> over whole quanta: \<open>cur\<close> is the segment from \<^verbatim>\<open>start\<close> to \<^verbatim>\<open>i\<close>.
\<close>

fun push_quanta :: "b64_decoder \<Rightarrow> string \<Rightarrow> string \<Rightarrow> octet list \<Rightarrow> string option \<times> octet list" where
  "push_quanta decode cur (a # b # c # d # rest) out =
     (let cur' = cur @ [a, b, c, d]
      in if c = CHR ''='' \<or> d = CHR ''=''
         then (case decode_segment decode cur' out of
                 (Some e, out') \<Rightarrow> (Some e, out')
               | (None, out') \<Rightarrow> push_quanta decode [] rest out')
         else push_quanta decode cur' rest out)"
| "push_quanta decode cur _ out = (if cur = [] then (None, out) else decode_segment decode cur out)"

text \<open>\<^verbatim>\<open>push\<close> on the pending characters; an error leaves none.\<close>

definition b64_push :: "b64_decoder \<Rightarrow> string \<Rightarrow> string \<Rightarrow> octet list \<Rightarrow> string option \<times> string \<times> octet list" where
  "b64_push decode input pend out =
     (let chars = pend @ filter (\<lambda>b. \<not> is_ascii_whitespace b) input;
          full = length chars div 4 * 4
      in case push_quanta decode [] (take full chars) out of
           (Some e, out') \<Rightarrow> (Some e, [], out')
         | (None, out') \<Rightarrow> (None, drop full chars, out'))"

definition b64_finish :: "string \<Rightarrow> string option" where
  "b64_finish pend =
     (if pend = [] then None
      else Some (''the body ended inside a base64 quantum ('' @ show_nat (length pend) @ '' character(s) left over)''))"

section \<open>Frames\<close>

definition TRAILER_FLAG :: octet where "TRAILER_FLAG = 0x80"
definition MAX_TRAILER_BLOCK :: nat where "MAX_TRAILER_BLOCK = 1024 * 1024"
definition MAX_TRAILER_ENTRIES :: nat where "MAX_TRAILER_ENTRIES = 1024"

datatype wire_frame =
    Message bool "octet list"
  | Trailer "octet list"

datatype frame_error = FrameTooLarge string | FrameInvalid string

definition two_hex :: "octet \<Rightarrow> string" where
  "two_hex b = [hex_digit (unat b div 16), hex_digit (unat b mod 16)]"

definition frame_kind :: "octet \<Rightarrow> bool \<Rightarrow> frame_error + bool" where
  "frame_kind flag web =
     (if flag = 0 \<or> flag = 1 then Inr False
      else if flag = TRAILER_FLAG \<and> web then Inr True
      else if flag = 0x81 \<and> web then
        Inl (FrameInvalid ''a trailer frame with the compressed bit set (0x81) is not defined by gRPC-Web'')
      else Inl (FrameInvalid (''invalid '' @ (if web then ''gRPC-Web'' else ''gRPC'') @ '' frame flag 0x'' @ two_hex flag)))"

definition next_frame :: "nat \<Rightarrow> bool \<Rightarrow> octet list \<Rightarrow> frame_error + wire_frame option \<times> octet list" where
  "next_frame mx web buf =
     (if length buf < 5 then Inr (None, buf)
      else case frame_kind (buf ! 0) web of
             Inl e \<Rightarrow> Inl e
           | Inr trailer \<Rightarrow>
               (let len = from_be [buf ! 1, buf ! 2, buf ! 3, buf ! 4];
                    limit = (if trailer then min mx MAX_TRAILER_BLOCK else mx)
                in if limit < len then
                     Inl (FrameTooLarge (''a received '' @ (if trailer then ''trailer frame'' else ''message'') @ '' declares '' @
                       show_nat len @ '' bytes, above the local limit of '' @ show_nat limit))
                   else if length buf < 5 + len then Inr (None, buf)
                   else let data = take len (drop 5 buf); buf' = drop len (drop 5 buf)
                        in Inr (Some (if trailer then Trailer data else Message (buf ! 0 = 1) data), buf')))"

text \<open>Native gRPC: \<^verbatim>\<open>frame\<close>, \<^verbatim>\<open>next_message\<close> and \<^verbatim>\<open>frame_failure\<close> of \<^verbatim>\<open>grpc.rs\<close>.\<close>

definition frame :: "octet list \<Rightarrow> octet list" where
  "frame msg = [0] @ to_be 4 (of_nat (length msg) :: 32 word) @ msg"

definition next_message :: "nat \<Rightarrow> octet list \<Rightarrow> frame_error + (bool \<times> octet list) option \<times> octet list" where
  "next_message mx buf =
     (case next_frame mx False buf of
        Inl e \<Rightarrow> Inl e
      | Inr (Some (Message compressed data), buf') \<Rightarrow> Inr (Some (compressed, data), buf')
      | Inr (Some (Trailer _), _) \<Rightarrow> Inl (FrameInvalid ''a trailer frame is not valid in native gRPC'')
      | Inr (None, buf') \<Rightarrow> Inr (None, buf'))"

definition frame_failure :: "frame_error \<Rightarrow> transport_failure" where
  "frame_failure e =
     (case e of
        FrameTooLarge m \<Rightarrow> new_failure Session ResponseTooLargeLocal m
      | FrameInvalid m \<Rightarrow> new_failure Session HttpProtocolError m)"

section \<open>Trailer blocks\<close>

definition has_whitespace :: "string \<Rightarrow> bool" where
  "has_whitespace s \<longleftrightarrow> list_ex (\<lambda>i. ws_len (drop i s) \<noteq> 0) [0..<length s]"

definition parse_trailer_line :: "(string \<Rightarrow> string) \<Rightarrow> string \<Rightarrow> string + (string \<times> string) option" where
  "parse_trailer_line quote raw =
     (let line = strip_last CHR 0x0D raw
      in if trim line = [] then Inr None
         else case split_once CHR '':'' line of
                None \<Rightarrow> Inl (''the trailer line '' @ quote line @ '' has no '' @ [CHR 0x27] @ '':'' @ [CHR 0x27])
              | Some (name, v) \<Rightarrow>
                  (let n = map ascii_lower (trim name)
                   in if n = [] \<or> has_whitespace n then Inl (''the trailer line '' @ quote line @ '' has no valid name'')
                      else Inr (Some (n, trim v))))"

fun parse_trailer_lines :: "(string \<Rightarrow> string) \<Rightarrow> string list \<Rightarrow> (string \<times> string) list \<Rightarrow> string + (string \<times> string) list" where
  "parse_trailer_lines quote [] out = Inr out"
| "parse_trailer_lines quote (l # ls) out =
     (case parse_trailer_line quote l of
        Inl e \<Rightarrow> Inl e
      | Inr None \<Rightarrow> parse_trailer_lines quote ls out
      | Inr (Some en) \<Rightarrow>
          (if MAX_TRAILER_ENTRIES < length (out @ [en])
           then Inl (''the trailer block has more than '' @ show_nat MAX_TRAILER_ENTRIES @ '' entries'')
           else parse_trailer_lines quote ls (out @ [en])))"

definition parse_trailer_block :: "(string \<Rightarrow> string) \<Rightarrow> string \<Rightarrow> string + (string \<times> string) list" where
  "parse_trailer_block quote payload =
     (if \<not> is_utf8 payload then Inl ''the trailer block is not valid UTF-8''
      else parse_trailer_lines quote (split_char CHR 0x0A payload) [])"

definition trailer_value :: "(string \<times> string) list \<Rightarrow> string \<Rightarrow> string option" where
  "trailer_value entries name = map_option snd (List.find (\<lambda>(n, _). n = name) entries)"

section \<open>Frames as a stream\<close>

definition buf_push :: "octet list \<Rightarrow> octet list \<Rightarrow> octet list" where
  "buf_push chunk buf = buf @ chunk"

lemma next_frame_shrinks: "next_frame mx web buf = Inr (Some f, buf') \<Longrightarrow> length buf' < length buf"
  by (auto simp: next_frame_def Let_def split: if_splits sum.splits)

text \<open>The frames taken from the receive buffer after a chunk arrived.\<close>

function take_frames :: "nat \<Rightarrow> bool \<Rightarrow> octet list \<Rightarrow> wire_frame list \<times> (frame_error + octet list)" where
  "take_frames mx web buf =
     (case next_frame mx web buf of
        Inl e \<Rightarrow> ([], Inl e)
      | Inr (None, buf') \<Rightarrow> ([], Inr buf')
      | Inr (Some f, buf') \<Rightarrow> (case take_frames mx web buf' of (fs, r) \<Rightarrow> (f # fs, r)))"
  by pat_completeness auto
termination
  by (relation "measure (length \<circ> snd \<circ> snd)") (auto intro: next_frame_shrinks)

declare take_frames.simps [simp del]

lemma next_frame_push:
  assumes "next_frame mx web buf \<noteq> Inr (None, buf)"
  shows "next_frame mx web (buf @ b) = (case next_frame mx web buf of Inl e \<Rightarrow> Inl e | Inr (fo, buf') \<Rightarrow> Inr (fo, buf' @ b))"
proof -
  have len: "\<not> length buf < 5" using assms by (auto simp: next_frame_def)
  then have nth: "(buf @ b) ! i = buf ! i" if "i < 5" for i using that by (simp add: nth_append)
  show ?thesis
  proof (cases "frame_kind (buf ! 0) web")
    case (Inl e)
    with len nth [of 0] show ?thesis by (simp add: next_frame_def)
  next
    case (Inr trailer)
    let ?len = "from_be [buf ! 1, buf ! 2, buf ! 3, buf ! 4]"
    show ?thesis
    proof (cases "length buf < 5 + ?len")
      case True
      with assms len Inr have "(if trailer then min mx MAX_TRAILER_BLOCK else mx) < ?len"
        by (auto simp: next_frame_def Let_def split: if_splits)
      with len Inr nth [of 0] nth [of 1] nth [of 2] nth [of 3] nth [of 4] show ?thesis by (simp add: next_frame_def Let_def)
    next
      case False
      with len Inr nth [of 0] nth [of 1] nth [of 2] nth [of 3] nth [of 4] show ?thesis by (simp add: next_frame_def Let_def)
    qed
  qed
qed

lemma next_frame_wait: "next_frame mx web buf = Inr (None, buf') \<Longrightarrow> buf' = buf"
  by (auto simp: next_frame_def Let_def split: if_splits sum.splits)

interpretation frames: stream_decoder buf_push "next_frame mx web" "take_frames mx web" length for mx web
proof
  show "buf_push b (buf_push a s) = buf_push (a @ b) s" for a b s by (simp add: buf_push_def)
  show "\<exists>t. next_frame mx web (buf_push b s) = Inr (Some f, t) \<and> next_frame mx web t = next_frame mx web (buf_push b s')"
    if "next_frame mx web s = Inr (Some f, s')" for s f s' b
    using next_frame_push [of mx web s b] that by (simp add: buf_push_def)
  show "next_frame mx web (buf_push b s') = next_frame mx web (buf_push b s)" if "next_frame mx web s = Inr (None, s')" for s s' b
    using next_frame_wait [OF that] by simp
  show "next_frame mx web (buf_push b s) = Inl e" if "next_frame mx web s = Inl e" for s e b
    using next_frame_push [of mx web s b] that by (simp add: buf_push_def)
  show "length s' < length s" if "next_frame mx web s = Inr (Some f, s')" for s f s'
    using that by (rule next_frame_shrinks)
qed (rule take_frames.simps)

lemma take_frames_frame:
  assumes "length m \<le> mx" and "length m < 2 ^ 32"
  shows "take_frames mx web (frame m @ rest) = (case take_frames mx web rest of (fs, r) \<Rightarrow> (Message False m # fs, r))"
proof -
  let ?w = "of_nat (length m) :: 32 word"
  obtain a b c d where w: "to_be 4 ?w = [a, b, c, d]" by (simp add: to_be_def eval_nat_numeral)
  have "unat ?w = length m" using assms(2) by (simp add: unat_of_nat)
  with assms(2) from_to_be [of 4 ?w] w have "from_be [a, b, c, d] = length m" by simp
  with assms(1) w have "next_frame mx web (frame m @ rest) = Inr (Some (Message False m), rest)"
    by (simp add: next_frame_def frame_def frame_kind_def)
  then show ?thesis by (simp add: take_frames.simps [of mx web "frame m @ rest"])
qed

section \<open>Base64 across chunks\<close>

text \<open>
  What the stream relies on: padding is at most the last two characters of what the decoder
  accepts, and unpadded quanta decode independently of what follows them.
\<close>

definition quantum_decoder :: "b64_decoder \<Rightarrow> bool" where
  "quantum_decoder decode \<longleftrightarrow>
     decode [] = Inr [] \<and>
     (\<forall>s v. decode s = Inr v \<longrightarrow> CHR ''='' \<notin> set (take (length s - 2) s)) \<and>
     (\<forall>a b v. length a mod 4 = 0 \<and> length b mod 4 = 0 \<and> CHR ''='' \<notin> set a \<longrightarrow>
        (decode (a @ b) = Inr v \<longleftrightarrow> (\<exists>x y. decode a = Inr x \<and> decode b = Inr y \<and> v = x @ y)))"

fun quanta :: "b64_decoder \<Rightarrow> string \<Rightarrow> octet list option" where
  "quanta decode (a # b # c # d # rest) =
     (case decode [a, b, c, d] of Inl e \<Rightarrow> None | Inr x \<Rightarrow> map_option (\<lambda>y. x @ y) (quanta decode rest))"
| "quanta decode _ = Some []"

definition open_segment :: "string \<Rightarrow> bool" where
  "open_segment cur \<longleftrightarrow> length cur mod 4 = 0 \<and> CHR ''='' \<notin> set (drop (length cur - 2) cur)"

lemma open_segment_snoc: "open_segment cur \<Longrightarrow> c \<noteq> CHR ''='' \<Longrightarrow> d \<noteq> CHR ''='' \<Longrightarrow> open_segment (cur @ [a, b, c, d])"
  by (auto simp: open_segment_def)

lemma decode_split:
  assumes law: "quantum_decoder decode" and cur: "open_segment cur" and b: "length b = 4"
  shows "decode (cur @ b) = Inr v \<longleftrightarrow> (\<exists>x y. decode cur = Inr x \<and> decode b = Inr y \<and> v = x @ y)"
proof (cases "CHR ''='' \<in> set cur")
  case False
  with law cur b show ?thesis by (auto simp: quantum_decoder_def open_segment_def)
next
  case True
  have pad: "CHR ''='' \<notin> set (take (length s - 2) s)" if "decode s = Inr v" for s v
    using law that by (auto simp: quantum_decoder_def)
  have "decode (cur @ b) \<noteq> Inr v"
  proof
    assume "decode (cur @ b) = Inr v"
    from pad [OF this] b True show False by simp
  qed
  moreover have "decode cur \<noteq> Inr x" for x
  proof
    assume "decode cur = Inr x"
    from pad [OF this] have "CHR ''='' \<notin> set (take (length cur - 2) cur @ drop (length cur - 2) cur)"
      using cur unfolding open_segment_def set_append by blast
    with True show False by simp
  qed
  ultimately show ?thesis by blast
qed

lemma push_quanta_ok:
  assumes "quantum_decoder decode" and "open_segment cur"
  shows "push_quanta decode cur s out = (None, out') \<longleftrightarrow>
    (\<exists>x y. decode cur = Inr x \<and> quanta decode s = Some y \<and> out' = out @ x @ y)"
  using assms
proof (induction decode cur s out arbitrary: out' rule: push_quanta.induct)
  case (1 decode cur a b c d rest out)
  let ?cur = "cur @ [a, b, c, d]"
  have sp: "decode ?cur = Inr v \<longleftrightarrow> (\<exists>x y. decode cur = Inr x \<and> decode [a, b, c, d] = Inr y \<and> v = x @ y)" for v
    by (rule decode_split) (use 1(3,4) in auto)
  show ?case
  proof (cases "c = CHR ''='' \<or> d = CHR ''=''")
    case pad: True
    show ?thesis
    proof (cases "decode ?cur")
      case (Inl e)
      then have "push_quanta decode cur (a # b # c # d # rest) out \<noteq> (None, out')"
        using pad by (auto simp: decode_segment_def Let_def)
      moreover have "\<not> (\<exists>x y. decode cur = Inr x \<and> decode [a, b, c, d] = Inr y)" using Inl sp by auto
      ultimately show ?thesis by (auto split: sum.splits)
    next
      case (Inr v)
      then obtain x y where xy: "decode cur = Inr x" "decode [a, b, c, d] = Inr y" "v = x @ y" using sp by blast
      from Inr have seg: "(None, out @ v) = decode_segment decode ?cur out" by (simp add: decode_segment_def)
      have nil: "decode [] = Inr []" "open_segment []" using 1(3) by (auto simp: quantum_decoder_def open_segment_def)
      have "push_quanta decode cur (a # b # c # d # rest) out = push_quanta decode [] rest (out @ v)"
        using pad Inr by (simp add: decode_segment_def Let_def)
      with 1(1) [OF refl pad seg refl 1(3) nil(2), of out'] nil(1) xy show ?thesis by auto
    qed
  next
    case False
    have "open_segment ?cur" using 1(4) False by (intro open_segment_snoc) auto
    from 1(2) [OF refl False 1(3) this, of out'] sp False show ?thesis
      by (auto simp: Let_def split: sum.splits)
  qed
qed (auto simp: decode_segment_def quantum_decoder_def split: sum.splits)

lemma quanta_append:
  "length a mod 4 = 0 \<Longrightarrow> quanta decode (a @ b) = Some z \<longleftrightarrow>
     (\<exists>x y. quanta decode a = Some x \<and> quanta decode b = Some y \<and> z = x @ y)"
proof (induction decode a arbitrary: z rule: quanta.induct)
  case (1 decode p q r t rest)
  then have IH: "quanta decode (rest @ b) = Some z \<longleftrightarrow>
    (\<exists>x y. quanta decode rest = Some x \<and> quanta decode b = Some y \<and> z = x @ y)" if "decode [p, q, r, t] = Inr v" for v z
    using that by auto
  show ?case
  proof (cases "decode [p, q, r, t]")
    case (Inr v)
    then show ?thesis by (auto simp: map_option_eq_Some IH [OF Inr])
  qed simp
qed simp_all

definition significant :: "string \<Rightarrow> string" where
  "significant input = filter (\<lambda>b. \<not> is_ascii_whitespace b) input"

lemma b64_push_ok:
  assumes "quantum_decoder decode"
  shows "b64_push decode input pend out = (None, pend', out') \<longleftrightarrow>
    (\<exists>u y. pend @ significant input = u @ pend' \<and> length u mod 4 = 0 \<and> length pend' < 4 \<and>
       quanta decode u = Some y \<and> out' = out @ y)"
proof -
  define chars where "chars = pend @ significant input"
  define full where "full = length chars div 4 * 4"
  have "open_segment []" "decode [] = Inr []" using assms by (auto simp: open_segment_def quantum_decoder_def)
  then have "push_quanta decode [] (take full chars) out = (None, z) \<longleftrightarrow>
      (\<exists>y. quanta decode (take full chars) = Some y \<and> z = out @ y)" for z
    using push_quanta_ok [OF assms, of "[]" "take full chars" out z] by auto
  then have "b64_push decode input pend out = (None, pend', out') \<longleftrightarrow>
      pend' = drop full chars \<and> (\<exists>y. quanta decode (take full chars) = Some y \<and> out' = out @ y)"
    by (auto simp: b64_push_def Let_def significant_def [symmetric] chars_def [symmetric] full_def [symmetric]
        split: prod.splits option.splits)
  also have "\<dots> \<longleftrightarrow> (\<exists>u y. chars = u @ pend' \<and> length u mod 4 = 0 \<and> length pend' < 4 \<and> quanta decode u = Some y \<and> out' = out @ y)"
  proof -
    have E: "chars = u @ pend' \<and> length u mod 4 = 0 \<and> length pend' < 4 \<longleftrightarrow> u = take full chars \<and> pend' = drop full chars" for u
    proof
      assume a: "chars = u @ pend' \<and> length u mod 4 = 0 \<and> length pend' < 4"
      then have "full = length u" by (auto simp: full_def)
      with a show "u = take full chars \<and> pend' = drop full chars" by simp
    next
      assume a: "u = take full chars \<and> pend' = drop full chars"
      have "full \<le> length chars" "length chars - full < 4" "full mod 4 = 0" by (auto simp: full_def)
      with a show "chars = u @ pend' \<and> length u mod 4 = 0 \<and> length pend' < 4" by simp
    qed
    have "(\<exists>u y. (chars = u @ pend' \<and> length u mod 4 = 0 \<and> length pend' < 4) \<and> quanta decode u = Some y \<and> out' = out @ y) \<longleftrightarrow>
      pend' = drop full chars \<and> (\<exists>y. quanta decode (take full chars) = Some y \<and> out' = out @ y)"
      unfolding E by auto
    then show ?thesis by (simp only: conj_assoc)
  qed
  finally show ?thesis by (simp add: chars_def)
qed

lemma significant_append: "significant (a @ b) = significant a @ significant b"
  by (simp add: significant_def)

lemma b64_push_append:
  assumes law: "quantum_decoder decode"
  shows "b64_push decode (a @ b) pend out = (None, pend2, out2) \<longleftrightarrow>
    (\<exists>pend1 out1. b64_push decode a pend out = (None, pend1, out1) \<and> b64_push decode b pend1 out1 = (None, pend2, out2))"
    (is "?L \<longleftrightarrow> ?R")
proof
  assume ?L
  then obtain u y where u: "pend @ significant a @ significant b = u @ pend2" "length u mod 4 = 0" "length pend2 < 4"
    "quanta decode u = Some y" "out2 = out @ y"
    by (auto simp: b64_push_ok [OF law] significant_append)
  define c where "c = pend @ significant a"
  define f where "f = length c div 4 * 4"
  have f: "f \<le> length c" "length c - f < 4" "f mod 4 = 0" by (auto simp: f_def)
  have le: "f \<le> length u"
  proof (rule ccontr)
    assume "\<not> f \<le> length u"
    then have "length u + 4 \<le> f" using u(2) f(3) by presburger
    moreover have "length c \<le> length u + length pend2" using arg_cong [OF u(1), of length] by (simp add: c_def)
    ultimately show False using f(1) u(3) by linarith
  qed
  have cs: "c @ significant b = u @ pend2" using u(1) by (simp add: c_def)
  have tk: "take f u = take f c" using arg_cong [OF cs, of "take f"] le f(1) by simp
  have dr: "drop f c @ significant b = drop f u @ pend2" using arg_cong [OF cs, of "drop f"] le f(1) by simp
  have "quanta decode (take f u @ drop f u) = Some y" using u(4) by simp
  then obtain x z where xz: "quanta decode (take f u) = Some x" "quanta decode (drop f u) = Some z" "y = x @ z"
    using le f(3) by (subst (asm) quanta_append) auto
  have "b64_push decode a pend out = (None, drop f c, out @ x)"
    unfolding b64_push_ok [OF law] c_def [symmetric]
    using f xz(1) tk by (intro exI [of _ "take f c"]) auto
  moreover have "b64_push decode b (drop f c) (out @ x) = (None, pend2, out2)"
    unfolding b64_push_ok [OF law] dr
    using u xz le f(3) by (intro exI [of _ "drop f u"] exI [of _ z]) (auto simp: mod_eq_0_iff_dvd intro: dvd_diff_nat)
  ultimately show ?R by blast
next
  assume ?R
  then obtain pend1 out1 u y v z where 1: "pend @ significant a = u @ pend1" "length u mod 4 = 0" "quanta decode u = Some y"
    "out1 = out @ y" and 2: "pend1 @ significant b = v @ pend2" "length v mod 4 = 0" "length pend2 < 4" "quanta decode v = Some z"
    "out2 = out1 @ z"
    by (auto simp: b64_push_ok [OF law])
  from 1 2 have "pend @ significant (a @ b) = (u @ v) @ pend2" by (metis append.assoc significant_append)
  moreover have "quanta decode (u @ v) = Some (y @ z)" using 1 2 by (simp add: quanta_append)
  ultimately show ?L unfolding b64_push_ok [OF law]
    using 1 2 by (intro exI [of _ "u @ v"] exI [of _ "y @ z"]) (auto simp: mod_eq_0_iff_dvd)
qed

section \<open>Trailer blocks that parse\<close>

definition render_trailer :: "string \<times> string \<Rightarrow> string" where
  "render_trailer en = fst en @ '': '' @ snd en @ [CHR 0x0D, CHR 0x0A]"

text \<open>An entry as gRPC-Web writes it: a lower-case ASCII name, and a value without surrounding white space.\<close>

definition trailer_entry :: "string \<times> string \<Rightarrow> bool" where
  "trailer_entry en \<longleftrightarrow> fst en \<noteq> [] \<and> list_all (\<lambda>c. ascii_black c \<and> ascii_lower c = c \<and> c \<noteq> CHR '':'') (fst en) \<and>
     trim (snd en) = snd en \<and> CHR 0x0A \<notin> set (snd en)"

lemma parse_rendered_line:
  assumes "trailer_entry en"
  shows "parse_trailer_line quote (fst en @ '': '' @ snd en @ [CHR 0x0D]) = Inr (Some en)"
proof -
  let ?n = "fst en" and ?line = "fst en @ '': '' @ snd en"
  from assms have n: "?n \<noteq> []" "list_all ascii_black ?n" "map ascii_lower ?n = ?n" "CHR '':'' \<notin> set ?n" "trim (snd en) = snd en"
    by (auto simp: trailer_entry_def list_all_iff map_idI)
  obtain c cs where c: "?n = c # cs" "ascii_black c" using n(1,2) by (cases ?n) auto
  have "trim ?line \<noteq> []" using trim_nonempty [OF c(2), of "cs @ '': '' @ snd en"] c(1) by simp
  moreover have "split_once CHR '':'' ?line = Some (?n, CHR '' '' # snd en)"
    using split_once_append [OF n(4), of "CHR '' '' # snd en"] by simp
  moreover have "trim ?n = ?n"
    by (rule trim_black) (use n in \<open>auto simp: list_all_iff\<close>)
  moreover have "\<not> has_whitespace ?n"
  proof -
    have "ws_len (drop i ?n) = 0" if "i < length ?n" for i
      using that n(2) ws_len_black [of "?n ! i" "drop (Suc i) ?n"] by (simp add: list_all_length Cons_nth_drop_Suc)
    then show ?thesis by (auto simp: has_whitespace_def list_ex_iff)
  qed
  moreover have "strip_last CHR 0x0D (?line @ [CHR 0x0D]) = ?line" by (rule strip_last_snoc)
  ultimately show ?thesis using n by (simp add: parse_trailer_line_def trim_space)
qed

lemma parse_rendered_lines:
  assumes "list_all trailer_entry es" and "length out + length es \<le> MAX_TRAILER_ENTRIES"
  shows "parse_trailer_lines quote (split_char CHR 0x0A (concat (map render_trailer es))) out = Inr (out @ es)"
  using assms
proof (induction es arbitrary: out)
  case Nil
  have "parse_trailer_line quote [] = Inr None"
    by (simp add: parse_trailer_line_def strip_last_def)
  then show ?case by simp
next
  case (Cons en es)
  have en: "trailer_entry en" using Cons.prems by simp
  have "\<not> ascii_black CHR 0x0A" by (simp add: ascii_black_def byte_def)
  with en have "CHR 0x0A \<notin> set (fst en)" "CHR 0x0A \<notin> set (snd en)" by (auto simp: trailer_entry_def list_all_iff)
  then have nl: "CHR 0x0A \<notin> set (fst en @ '': '' @ snd en @ [CHR 0x0D])" by simp
  have "split_char CHR 0x0A (concat (map render_trailer (en # es))) =
    (fst en @ '': '' @ snd en @ [CHR 0x0D]) # split_char CHR 0x0A (concat (map render_trailer es))"
    using split_char_append [OF nl, of "concat (map render_trailer es)"] by (simp add: render_trailer_def)
  then show ?case using Cons parse_rendered_line [OF en, of quote] by simp
qed

lemma parse_trailer_lines_bound:
  "parse_trailer_lines quote ls out = Inr es \<Longrightarrow> length out \<le> MAX_TRAILER_ENTRIES \<Longrightarrow> length es \<le> MAX_TRAILER_ENTRIES"
  by (induction quote ls out rule: parse_trailer_lines.induct) (auto split: sum.splits option.splits if_splits)

section \<open>A base64 decoder\<close>

text \<open>The standard alphabet, quantum by quantum; an instance of what the stream relies on.\<close>

definition b64_val :: "char \<Rightarrow> nat option" where
  "b64_val c =
     (let b = byte c
      in if 65 \<le> b \<and> b \<le> 90 then Some (b - 65)
         else if 97 \<le> b \<and> b \<le> 122 then Some (b - 71)
         else if 48 \<le> b \<and> b \<le> 57 then Some (b + 4)
         else if b = 43 then Some 62 else if b = 47 then Some 63 else None)"

definition quantum :: "nat \<Rightarrow> nat \<Rightarrow> nat \<Rightarrow> nat \<Rightarrow> octet list" where
  "quantum a b c d = [of_nat (a * 4 + b div 16), of_nat (b mod 16 * 16 + c div 4), of_nat (c mod 4 * 64 + d)]"

fun std_decode :: b64_decoder where
  "std_decode [] = Inr []"
| "std_decode [a, b, c, d] =
     (case (b64_val a, b64_val b, b64_val c, b64_val d) of
        (Some w, Some x, Some y, Some z) \<Rightarrow> Inr (quantum w x y z)
      | (Some w, Some x, Some y, None) \<Rightarrow> (if d = CHR ''='' then Inr (take 2 (quantum w x y 0)) else Inl ''symbol'')
      | (Some w, Some x, None, None) \<Rightarrow> (if c = CHR ''='' \<and> d = CHR ''='' then Inr (take 1 (quantum w x 0 0)) else Inl ''symbol'')
      | _ \<Rightarrow> Inl ''symbol'')"
| "std_decode (a # b # c # d # e # rest) =
     (case (b64_val a, b64_val b, b64_val c, b64_val d) of
        (Some w, Some x, Some y, Some z) \<Rightarrow>
          (case std_decode (e # rest) of Inl err \<Rightarrow> Inl err | Inr v \<Rightarrow> Inr (quantum w x y z @ v))
      | _ \<Rightarrow> Inl ''symbol'')"
| "std_decode _ = Inl ''length''"

lemma b64_val_pad [simp]: "b64_val (CHR ''='') = None"
  by (simp add: b64_val_def byte_def)

lemma std_decode_pad: "std_decode s = Inr v \<Longrightarrow> CHR ''='' \<notin> set (take (length s - 2) s)"
proof (induction s arbitrary: v rule: std_decode.induct)
  case (3 a b c d e rest)
  then obtain w x y z v' where *: "b64_val a = Some w" "b64_val b = Some x" "b64_val c = Some y" "b64_val d = Some z"
    "std_decode (e # rest) = Inr v'" by (auto split: option.splits sum.splits)
  then have "a \<noteq> CHR ''=''" "b \<noteq> CHR ''=''" "c \<noteq> CHR ''=''" "d \<noteq> CHR ''=''" by auto
  moreover have "CHR ''='' \<notin> set (take (length (e # rest) - 2) (e # rest))" using 3 * by simp
  ultimately show ?case using \<open>d \<noteq> _\<close> by (cases rest) (auto simp: take_Cons' split: if_splits)
qed (auto split: option.splits if_splits)

lemma std_decode_append:
  assumes "length a mod 4 = 0" and "length b mod 4 = 0" and "CHR ''='' \<notin> set a"
  shows "std_decode (a @ b) = Inr v \<longleftrightarrow> (\<exists>x y. std_decode a = Inr x \<and> std_decode b = Inr y \<and> v = x @ y)"
  using assms
proof (induction a arbitrary: v rule: std_decode.induct)
  case (2 p q r t)
  show ?case
  proof (cases b)
    case Nil
    then show ?thesis by auto
  next
    case (Cons e rest)
    then show ?thesis using 2 by (auto split: option.splits sum.splits)
  qed
next
  case (3 p q r t e rest)
  have IH: "std_decode ((e # rest) @ b) = Inr v \<longleftrightarrow> (\<exists>x y. std_decode (e # rest) = Inr x \<and> std_decode b = Inr y \<and> v = x @ y)"
    if "b64_val p = Some w" "b64_val q = Some x" "b64_val r = Some y" "b64_val t = Some z" for w x y z v
  proof -
    have "length (p # q # r # t # e # rest) = length (e # rest) + 4" by simp
    with 3(2) have "length (e # rest) mod 4 = 0" by (metis mod_add_self2)
    with 3 that show ?thesis by auto
  qed
  then show ?case by (fastforce split: option.splits sum.splits)
qed auto

lemma std_quantum_decoder: "quantum_decoder std_decode"
  using std_decode_pad std_decode_append by (simp add: quantum_decoder_def)

section \<open>Properties\<close>

text \<open>
  Text mode: chunk boundaries do not matter to the base64 stream.  For a decoder with the
  documented treatment of padding, pushing two chunks one after the other succeeds exactly when
  pushing them at once does, with the same bytes out and the same characters pending.
\<close>

lemma base64_chunks:
  assumes "quantum_decoder decode"
  shows "b64_push decode (a @ b) pend out = (None, pend2, out2) \<longleftrightarrow>
    (\<exists>pend1 out1. b64_push decode a pend out = (None, pend1, out1) \<and> b64_push decode b pend1 out1 = (None, pend2, out2))"
  using assms by (rule b64_push_append)

text \<open>
  Framed gRPC messages are read back whatever the chunks: the frames of messages within the
  limit, followed by a frame that is not complete, give exactly those messages and wait.
\<close>

lemma grpc_frames_roundtrip:
  assumes "list_all (\<lambda>m. length m \<le> mx \<and> length m < 2 ^ 32) msgs" and "chunks \<noteq> []"
    and "concat chunks = concat (map frame msgs) @ rest" and "next_frame mx web rest = Inr (None, rest)"
  shows "feed_chunks buf_push (take_frames mx web) chunks [] = (map (Message False) msgs, Inr rest)"
proof -
  have "take_frames mx web (concat (map frame msgs) @ rest) = (map (Message False) msgs, Inr rest)"
    using assms(1,4) by (induction msgs) (simp_all add: take_frames_frame take_frames.simps [of mx web rest])
  then show ?thesis using frames.feed_chunks_concat [OF assms(2), of mx web "[]"] assms(3) by (simp add: buf_push_def)
qed

text \<open>
  A trailer block is read back: at most \<open>MAX_TRAILER_ENTRIES\<close> entries written as gRPC-Web writes
  them parse to themselves, and \<^verbatim>\<open>trailer_value\<close> finds the first entry of a name.
\<close>

lemma trailer_block_roundtrip:
  assumes "list_all trailer_entry es" and "length es \<le> MAX_TRAILER_ENTRIES" and "is_utf8 (concat (map render_trailer es))"
  shows "parse_trailer_block quote (concat (map render_trailer es)) = Inr es \<and> trailer_value es name = map_of es name"
proof -
  have "trailer_value es name = map_of es name"
    by (induction es) (auto simp: trailer_value_def)
  with parse_rendered_lines [of es "[]" quote] assms show ?thesis by (simp add: parse_trailer_block_def)
qed

text \<open>
  What the reader accepts is bounded: a message frame carries at most the local limit, a
  trailer frame at most the smaller of it and \<open>MAX_TRAILER_BLOCK\<close> and only in gRPC-Web.
\<close>

lemma next_frame_bounds:
  assumes "next_frame mx web buf = Inr (Some f, rest)"
  shows "case f of Message compressed data \<Rightarrow> length data \<le> mx | Trailer data \<Rightarrow> web \<and> length data \<le> min mx MAX_TRAILER_BLOCK"
  using assms by (auto simp: next_frame_def frame_kind_def Let_def split: if_splits)

section \<open>Witnesses\<close>

end
