(* ===== verification/Net_Addr.thy ===== *)
theory Net_Addr
  imports Framing
begin

text \<open>
  IP addresses of the Rust standard library (\<^verbatim>\<open>std::net\<close>): \<^verbatim>\<open>IpAddr\<close> and \<^verbatim>\<open>SocketAddr\<close>, their text form
  (\<^verbatim>\<open>Display\<close>) and the parser of that form (\<^verbatim>\<open>FromStr\<close>), with the round trip between the two.

  The flow label and scope id of a \<^verbatim>\<open>SocketAddrV6\<close> are not kept: the code reads addresses by
  \<^verbatim>\<open>ip()\<close> and \<^verbatim>\<open>port()\<close> and rebuilds them with \<^verbatim>\<open>SocketAddr::new\<close>, which leaves both zero.
\<close>

section \<open>Addresses\<close>

datatype ip_addr = V4 "32 word" | V6 "128 word"

type_synonym socket_addr = "ip_addr \<times> 16 word"

definition is_ipv4 :: "ip_addr \<Rightarrow> bool" where
  "is_ipv4 ip = (case ip of V4 _ \<Rightarrow> True | V6 _ \<Rightarrow> False)"

definition octets4 :: "32 word \<Rightarrow> octet list" where
  "octets4 w = to_be 4 w"

definition octets6 :: "128 word \<Rightarrow> octet list" where
  "octets6 w = to_be 16 w"

definition segments :: "128 word \<Rightarrow> 16 word list" where
  "segments w = map (\<lambda>i. ucast (drop_bit (16 * i) w)) (rev [0..<8])"

text \<open>\<^verbatim>\<open>from_be_bytes\<close> and the address of its groups, at the width of the result.\<close>

definition be_word :: "octet list \<Rightarrow> 'a::len word" where
  "be_word bs = foldl (\<lambda>a b. 256 * a + ucast b) 0 bs"

definition from_segments :: "16 word list \<Rightarrow> 128 word" where
  "from_segments gs = foldl (\<lambda>a g. 65536 * a + ucast g) 0 gs"

definition to_ipv4_mapped :: "128 word \<Rightarrow> 32 word option" where
  "to_ipv4_mapped w = (if drop_bit 32 w = 0xffff then Some (ucast w) else None)"

definition to_ipv6_mapped :: "32 word \<Rightarrow> 128 word" where
  "to_ipv6_mapped w = push_bit 32 0xffff OR ucast w"

definition is_unspecified :: "ip_addr \<Rightarrow> bool" where
  "is_unspecified ip = (case ip of V4 w \<Rightarrow> w = 0 | V6 w \<Rightarrow> w = 0)"

section \<open>Text form\<close>

definition show_v4 :: "32 word \<Rightarrow> string" where
  "show_v4 w = join_with ''.'' (map (\<lambda>b. show_nat (unat b)) (octets4 w))"

text \<open>
  The first longest run of zero groups, as the loop of \<^verbatim>\<open>Ipv6Addr::fmt\<close> finds it: the position, the
  current run and the longest run so far, each a start and a length.
\<close>

fun zero_runs :: "nat \<Rightarrow> nat \<times> nat \<Rightarrow> nat \<times> nat \<Rightarrow> 16 word list \<Rightarrow> nat \<times> nat" where
  "zero_runs i cur longest [] = longest"
| "zero_runs i cur longest (g # gs) =
     (if g = 0
      then let cur' = ((if snd cur = 0 then i else fst cur), Suc (snd cur))
           in zero_runs (Suc i) cur' (if snd longest < snd cur' then cur' else longest) gs
      else zero_runs (Suc i) (0, 0) longest gs)"

definition fmt_groups :: "16 word list \<Rightarrow> string" where
  "fmt_groups gs = join_with '':'' (map (\<lambda>g. show_hex (unat g)) gs)"

definition show_v6 :: "128 word \<Rightarrow> string" where
  "show_v6 w =
     (case to_ipv4_mapped w of
        Some v4 \<Rightarrow> ''::ffff:'' @ show_v4 v4
      | None \<Rightarrow>
          (case zero_runs 0 (0, 0) (0, 0) (segments w) of
             (start, len) \<Rightarrow>
               (if 1 < len
                then fmt_groups (take start (segments w)) @ ''::'' @ fmt_groups (drop (start + len) (segments w))
                else fmt_groups (segments w))))"

definition show_ip :: "ip_addr \<Rightarrow> string" where
  "show_ip ip = (case ip of V4 w \<Rightarrow> show_v4 w | V6 w \<Rightarrow> show_v6 w)"

definition show_sock :: "socket_addr \<Rightarrow> string" where
  "show_sock a =
     (case a of
        (V4 w, port) \<Rightarrow> show_v4 w @ '':'' @ show_nat (unat port)
      | (V6 w, port) \<Rightarrow> ''['' @ show_v6 w @ '']:'' @ show_nat (unat port))"

section \<open>Parser\<close>

text \<open>A reader takes a prefix of the text and returns what it read and the rest, or fails and takes nothing.\<close>

type_synonym 'a reader = "string \<Rightarrow> ('a \<times> string) option"

definition hex_val :: "char \<Rightarrow> nat option" where
  "hex_val c =
     (let b = byte c
      in if 48 \<le> b \<and> b \<le> 57 then Some (b - 48)
         else if 97 \<le> b \<and> b \<le> 102 then Some (b - 87)
         else if 65 \<le> b \<and> b \<le> 70 then Some (b - 55) else None)"

definition radix_val :: "nat \<Rightarrow> char \<Rightarrow> nat option" where
  "radix_val radix c = (case hex_val c of Some d \<Rightarrow> if d < radix then Some d else None | None \<Rightarrow> None)"

definition read_number :: "nat \<Rightarrow> nat \<Rightarrow> bool \<Rightarrow> nat \<Rightarrow> nat reader" where
  "read_number radix max_digits allow_zero_prefix hi s =
     (let ds = takeWhile (\<lambda>c. radix_val radix c \<noteq> None) s;
          n = foldl (\<lambda>a c. a * radix + the (radix_val radix c)) 0 ds
      in if max_digits < length ds \<or> ds = [] then None
         else if \<not> allow_zero_prefix \<and> hd ds = CHR ''0'' \<and> 1 < length ds then None
         else if hi < n then None
         else Some (n, drop (length ds) s))"

definition read_separator :: "char \<Rightarrow> nat \<Rightarrow> 'a reader \<Rightarrow> 'a reader" where
  "read_separator sep i inner s =
     (if i = 0 then inner s
      else case s of c # r \<Rightarrow> if c = sep then inner r else None | [] \<Rightarrow> None)"

fun read_octets :: "nat \<Rightarrow> nat \<Rightarrow> nat list reader" where
  "read_octets i 0 s = Some ([], s)"
| "read_octets i (Suc k) s =
     (case read_separator CHR ''.'' i (read_number 10 3 False 255) s of
        None \<Rightarrow> None
      | Some (b, r) \<Rightarrow> (case read_octets (Suc i) k r of None \<Rightarrow> None | Some (bs, r') \<Rightarrow> Some (b # bs, r')))"

definition read_ipv4 :: "nat list reader" where
  "read_ipv4 s = read_octets 0 4 s"

text \<open>\<open>k\<close> is the number of groups left; the result is the groups and whether they end in an IPv4 address.\<close>

fun read_groups :: "nat \<Rightarrow> nat \<Rightarrow> string \<Rightarrow> nat list \<times> bool \<times> string" where
  "read_groups i 0 s = ([], False, s)"
| "read_groups i (Suc k) s =
     (case (if k \<noteq> 0 then read_separator CHR '':'' i read_ipv4 s else None) of
        Some (bs, r) \<Rightarrow> ([bs ! 0 * 256 + bs ! 1, bs ! 2 * 256 + bs ! 3], True, r)
      | None \<Rightarrow>
          (case read_separator CHR '':'' i (read_number 16 4 True 65535) s of
             Some (g, r) \<Rightarrow> (case read_groups (Suc i) k r of (gs, v4, r') \<Rightarrow> (g # gs, v4, r'))
           | None \<Rightarrow> ([], False, s)))"

definition read_ipv6 :: "nat list reader" where
  "read_ipv6 s =
     (case read_groups 0 8 s of
        (hs, v4, r) \<Rightarrow>
          (if length hs = 8 then Some (hs, r)
           else if v4 then None
           else if take 2 r \<noteq> ''::'' then None
           else case read_groups 0 (8 - (length hs + 1)) (drop 2 r) of
                  (ts, _, r') \<Rightarrow> Some (hs @ replicate (8 - length hs - length ts) 0 @ ts, r')))"

definition parse_ip :: "string \<Rightarrow> ip_addr option" where
  "parse_ip s =
     (case read_ipv4 s of
        Some (bs, r) \<Rightarrow> if r = [] then Some (V4 (be_word (map of_nat bs))) else None
      | None \<Rightarrow>
          (case read_ipv6 s of
             Some (gs, r) \<Rightarrow> if r = [] then Some (V6 (from_segments (map of_nat gs))) else None
           | None \<Rightarrow> None))"

declare zero_runs.simps [simp del] read_octets.simps [simp del] read_groups.simps [simp del]

section \<open>Round trip\<close>

lemma foldl_digits:
  "foldl (\<lambda>a g. b * a + f g) k gs = k * b ^ length gs + foldl (\<lambda>a g. b * a + f g) (0 :: nat) gs"
proof (induction gs arbitrary: k)
  case (Cons x xs)
  show ?case using Cons [of "b * k + f x"] Cons [of "f x"] by (simp add: algebra_simps)
qed simp

lemma foldl_of_nat: "foldl (\<lambda>a b. of_nat m * a + ucast b) (of_nat k) bs = (of_nat (foldl (\<lambda>a b. m * a + unat b) k bs) :: 'a::len word)"
proof (induction bs arbitrary: k)
  case (Cons b bs)
  have "of_nat m * of_nat k + ucast b = (of_nat (m * k + unat b) :: 'a word)" by simp
  with Cons show ?case by (simp del: of_nat_add of_nat_mult)
qed simp

lemma be_word_from_be: "be_word bs = of_nat (from_be bs)"
  using foldl_of_nat [of 256 0 bs] by (simp add: be_word_def from_be_def)

lemma from_segments_nat: "from_segments gs = of_nat (foldl (\<lambda>a g. 65536 * a + unat g) 0 gs)"
  using foldl_of_nat [of 65536 0 gs] by (simp add: from_segments_def)

lemma length_segments [simp]: "length (segments w) = 8"
  by (simp add: segments_def)

lemma from_segments_segments [simp]: "from_segments (segments w) = w"
proof -
  let ?seg = "\<lambda>n. map (\<lambda>i. ucast (drop_bit (16 * i) w) :: 16 word) (rev [0..<n])"
  have "foldl (\<lambda>a g. 65536 * a + unat g) 0 (?seg n) = unat w mod 65536 ^ n" for n
  proof (induction n)
    case (Suc n)
    have "unat (drop_bit (16 * n) w) = unat w div 65536 ^ n"
      unfolding unat_drop_bit_eq by (simp add: drop_bit_eq_div power_mult)
    then have "unat (ucast (drop_bit (16 * n) w) :: 16 word) = (unat w div 65536 ^ n) mod 65536"
      by (simp add: unsigned_ucast_eq take_bit_eq_mod)
    moreover have "unat w mod 65536 ^ Suc n = (unat w div 65536 ^ n) mod 65536 * 65536 ^ n + unat w mod 65536 ^ n"
      using mod_mult2_eq [of "unat w" "65536 ^ n" 65536] by (simp add: mult.commute)
    ultimately show ?case
      using Suc foldl_digits [of 65536 unat "(unat w div 65536 ^ n) mod 65536" "?seg n"] by simp
  qed simp
  from this [of 8] have "foldl (\<lambda>a g. 65536 * a + unat g) 0 (segments w) = unat w mod 65536 ^ 8"
    by (simp only: segments_def)
  moreover have "unat w < 65536 ^ 8" using unsigned_less [of w] by simp
  ultimately show ?thesis by (simp add: from_segments_nat)
qed

text \<open>A number ends where no further digit follows.\<close>

definition stops :: "nat \<Rightarrow> string \<Rightarrow> bool" where
  "stops radix r \<longleftrightarrow> r = [] \<or> radix_val radix (hd r) = None"

lemma takeWhile_stops:
  "list_all (\<lambda>c. radix_val radix c \<noteq> None) ds \<Longrightarrow> stops radix r \<Longrightarrow> takeWhile (\<lambda>c. radix_val radix c \<noteq> None) (ds @ r) = ds"
proof (induction ds)
  case Nil
  then show ?case by (cases r) (auto simp: stops_def)
qed auto

lemma read_number_digits:
  assumes "list_all (\<lambda>c. radix_val radix c \<noteq> None) ds" "stops radix r" "ds \<noteq> []" "length ds \<le> m"
    and "z \<or> hd ds \<noteq> CHR ''0'' \<or> length ds = 1"
    and "foldl (\<lambda>a c. a * radix + the (radix_val radix c)) 0 ds = n" "n \<le> hi"
  shows "read_number radix m z hi (ds @ r) = Some (n, r)"
  using assms takeWhile_stops [OF assms(1,2)] by (auto simp: read_number_def Let_def)

lemma read_number_stops: "stops radix r \<Longrightarrow> read_number radix m z hi r = None"
  by (cases r) (auto simp: read_number_def stops_def)

lemma byte_hex_digit: "d < 16 \<Longrightarrow> byte (hex_digit d) = (if d < 10 then 48 + d else 87 + d)"
  by (simp add: hex_digit_def byte_def)

lemma radix_hex_digit [simp]: "d < 16 \<Longrightarrow> radix_val 16 (hex_digit d) = Some d"
  by (auto simp: radix_val_def hex_val_def Let_def byte_hex_digit)

lemma radix_digit_char [simp]: "d < 10 \<Longrightarrow> radix_val 10 (digit_char d) = Some d"
  by (simp add: radix_val_def hex_val_def Let_def)

lemma show_nat_radix:
  "list_all (\<lambda>c. radix_val 10 c \<noteq> None) (show_nat n) \<and> foldl (\<lambda>a c. a * 10 + the (radix_val 10 c)) 0 (show_nat n) = n"
proof (induction n rule: show_nat.induct)
  case (1 n)
  then show ?case by (cases "n < 10") (simp_all add: show_nat.simps [of n])
qed

lemma show_hex_radix:
  "list_all (\<lambda>c. radix_val 16 c \<noteq> None) (show_hex n) \<and> foldl (\<lambda>a c. a * 16 + the (radix_val 16 c)) 0 (show_hex n) = n"
proof (induction n rule: show_hex.induct)
  case (1 n)
  then show ?case by (cases "n < 16") (simp_all add: show_hex.simps [of n])
qed

lemma show_hex_nonempty [simp]: "show_hex n \<noteq> []"
  by (subst show_hex.simps) simp

lemma show_nat_nonempty [simp]: "show_nat n \<noteq> []"
  using show_nat_digits by simp

lemma hd_show_nat: "0 < n \<Longrightarrow> hd (show_nat n) \<noteq> CHR ''0''"
proof (induction n rule: show_nat.induct)
  case (1 n)
  have "digit_char n \<noteq> CHR ''0''" if "n < 10"
    using that 1(2) byte_digit_char [of n] by (auto simp: byte_def)
  with 1 show ?case by (cases "n < 10") (simp_all add: show_nat.simps [of n])
qed

lemma length_show_nat: "n < 10 ^ Suc k \<Longrightarrow> length (show_nat n) \<le> Suc k"
proof (induction k arbitrary: n)
  case (Suc k)
  then have "n div 10 < 10 ^ Suc k" by (simp add: less_mult_imp_div_less)
  with Suc.IH [of "n div 10"] show ?case by (simp add: show_nat.simps [of n])
qed (simp add: show_nat.simps)

lemma length_show_hex: "n < 16 ^ Suc k \<Longrightarrow> length (show_hex n) \<le> Suc k"
proof (induction k arbitrary: n)
  case (Suc k)
  then have "n div 16 < 16 ^ Suc k" by (simp add: less_mult_imp_div_less)
  with Suc.IH [of "n div 16"] show ?case by (simp add: show_hex.simps [of n])
qed (simp add: show_hex.simps)

lemma read_octet: "b \<le> 255 \<Longrightarrow> stops 10 r \<Longrightarrow> read_number 10 3 False 255 (show_nat b @ r) = Some (b, r)"
proof -
  assume b: "b \<le> 255" and r: "stops 10 r"
  have "length (show_nat b) \<le> 3" using length_show_nat [of b 2] b by simp
  moreover have "hd (show_nat b) \<noteq> CHR ''0'' \<or> length (show_nat b) = 1"
    using hd_show_nat [of b] by (cases "b = 0") (simp_all add: show_nat.simps [of 0])
  ultimately show ?thesis using b r show_nat_radix [of b] by (intro read_number_digits) simp_all
qed

lemma read_group: "g < 65536 \<Longrightarrow> stops 16 r \<Longrightarrow> read_number 16 4 True 65535 (show_hex g @ r) = Some (g, r)"
  using length_show_hex [of g 3] show_hex_radix [of g] by (intro read_number_digits) simp_all

lemma stops_punct [simp]: "stops 10 (CHR ''.'' # r)" "stops 10 (CHR '':'' # r)" "stops 16 (CHR '':'' # r)" "stops radix []"
  by (simp_all add: stops_def radix_val_def hex_val_def byte_def)

lemma join_with_Cons: "join_with sep (p # ps) = p @ concat (map (\<lambda>q. sep @ q) ps)"
  by (induction ps arbitrary: p) simp_all

lemma read_octets_dots:
  "list_all (\<lambda>b. b \<le> 255) bs \<Longrightarrow> stops 10 r \<Longrightarrow>
   read_octets (Suc i) (length bs) (concat (map (\<lambda>b. CHR ''.'' # show_nat b) bs) @ r) = Some (bs, r)"
proof (induction bs arbitrary: i)
  case (Cons b bs)
  have "stops 10 (concat (map (\<lambda>b. CHR ''.'' # show_nat b) bs) @ r)" using Cons.prems by (cases bs) simp_all
  with Cons show ?case by (simp add: read_octets.simps read_separator_def read_octet)
qed (simp add: read_octets.simps)

lemma read_ipv4_Suc:
  "read_ipv4 s =
     (case read_number 10 3 False 255 s of
        None \<Rightarrow> None
      | Some (b, r) \<Rightarrow> (case read_octets (Suc 0) 3 r of None \<Rightarrow> None | Some (bs, r') \<Rightarrow> Some (b # bs, r')))"
proof -
  have "(4 :: nat) = Suc 3" by simp
  then show ?thesis by (simp only: read_ipv4_def read_octets.simps(2)) (simp add: read_separator_def)
qed

lemma read_ipv4_join:
  assumes "list_all (\<lambda>b. b \<le> 255) bs" "length bs = 4" "stops 10 r"
  shows "read_ipv4 (join_with ''.'' (map show_nat bs) @ r) = Some (bs, r)"
proof -
  obtain b bs' where bs: "bs = b # bs'" "length bs' = 3" using assms(2) by (cases bs) auto
  let ?t = "concat (map (\<lambda>b. CHR ''.'' # show_nat b) bs') @ r"
  have "stops 10 ?t" using assms(3) by (cases bs') simp_all
  moreover have "read_octets (Suc 0) 3 ?t = Some (bs', r)"
    using read_octets_dots [of bs' r 0] assms bs by simp
  ultimately show ?thesis
    using assms(1) bs(1)
    by (simp add: read_ipv4_Suc join_with_Cons comp_def read_octet)
qed

lemma read_ipv4_show: "stops 10 r \<Longrightarrow> read_ipv4 (show_v4 w @ r) = Some (map unat (octets4 w), r)"
proof -
  have "unat (b :: octet) < 2 ^ 8" for b using unsigned_less [of b] by simp
  then have "unat (b :: octet) \<le> 255" for b by (simp add: less_Suc_eq_le [symmetric])
  then show "stops 10 r \<Longrightarrow> ?thesis"
    using read_ipv4_join [of "map unat (octets4 w)" r]
    by (simp add: show_v4_def comp_def list_all_iff octets4_def)
qed

lemma map_of_nat_unat [simp]: "map of_nat (map unat ws) = (ws :: 'a::len word list)"
  by (induction ws) simp_all

lemma parse_show_v4: "parse_ip (show_v4 w) = Some (V4 w)"
proof -
  have "unat w < 256 ^ 4" using unsigned_less [of w] by simp
  then have "be_word (octets4 w) = w" by (simp add: octets4_def from_to_be be_word_from_be)
  then show ?thesis using read_ipv4_show [of "[]" w] by (simp add: parse_ip_def del: map_map)
qed

lemma octets4_list: "\<exists>a b c d. octets4 w = [a, b, c, d]"
proof -
  have "length (octets4 w) = Suc (Suc (Suc (Suc 0)))" by (simp add: octets4_def)
  then show ?thesis by (auto simp: length_Suc_conv)
qed

lemma length_show_v4: "length (show_v4 w) \<le> 15"
proof -
  have "unat (x :: octet) < 10 ^ Suc 2" for x using unsigned_less [of x, where ?'a = nat] by simp
  then have l: "length (show_nat (unat (x :: octet))) \<le> 3" for x using length_show_nat [of "unat x" 2] by simp
  obtain a b c d where "octets4 w = [a, b, c, d]" using octets4_list by blast
  then show ?thesis using l [of a] l [of b] l [of c] l [of d] by (simp add: show_v4_def)
qed

text \<open>A group is never read as the first octet of an IPv4 address: no dot follows it.\<close>

definition ends :: "string \<Rightarrow> bool" where
  "ends r \<longleftrightarrow> r = [] \<or> (\<exists>t. r = CHR '':'' # t)"

lemma dropWhile_hex:
  "list_all (\<lambda>c. radix_val 16 c \<noteq> None) xs \<Longrightarrow> ends r \<Longrightarrow>
   dropWhile (\<lambda>c. radix_val 10 c \<noteq> None) (xs @ r) = [] \<or> hd (dropWhile (\<lambda>c. radix_val 10 c \<noteq> None) (xs @ r)) \<noteq> CHR ''.''"
proof (induction xs)
  case Nil
  then show ?case by (auto simp: ends_def radix_val_def hex_val_def byte_def)
next
  case (Cons x xs)
  have "radix_val 16 CHR ''.'' = None" by (simp add: radix_val_def hex_val_def byte_def)
  with Cons show ?case by auto
qed

lemma read_number_rest: "read_number radix m z hi s = Some (n, r) \<Longrightarrow> r = dropWhile (\<lambda>c. radix_val radix c \<noteq> None) s"
  by (auto simp: read_number_def Let_def dropWhile_eq_drop split: if_splits)

lemma read_ipv4_hex: "list_all (\<lambda>c. radix_val 16 c \<noteq> None) xs \<Longrightarrow> ends r \<Longrightarrow> read_ipv4 (xs @ r) = None"
proof -
  assume a: "list_all (\<lambda>c. radix_val 16 c \<noteq> None) xs" "ends r"
  have "read_octets (Suc 0) 3 t = None" if "t = [] \<or> hd t \<noteq> CHR ''.''" for t
    using that by (cases t) (simp_all add: numeral_eq_Suc read_octets.simps read_separator_def)
  with dropWhile_hex [OF a] show ?thesis
    by (auto simp: read_ipv4_Suc split: option.splits dest!: read_number_rest)
qed

text \<open>The text after a list of groups: nothing, or the two colons of an omitted run.\<close>

definition closes :: "string \<Rightarrow> bool" where
  "closes r \<longleftrightarrow> r = [] \<or> (\<exists>t. r = CHR '':'' # CHR '':'' # t)"

lemma closes_ends: "closes r \<Longrightarrow> ends r"
  by (auto simp: closes_def ends_def)

lemma ends_stops [simp]: "ends r \<Longrightarrow> stops 16 r \<and> stops 10 r"
  by (auto simp: ends_def)

lemma read_ipv4_ends: "ends r \<Longrightarrow> read_ipv4 r = None"
  using read_ipv4_hex [of "[]" r] by simp

lemma read_groups_closes: "closes r \<Longrightarrow> read_groups i k r = ([], False, r)"
proof (cases k)
  case (Suc k')
  assume "closes r"
  moreover have "ends (CHR '':'' # t)" for t by (simp add: ends_def)
  ultimately show ?thesis
    using Suc by (auto simp: closes_def read_groups.simps read_separator_def read_ipv4_ends ends_def read_number_stops)
qed (simp add: read_groups.simps)

lemma read_groups_show:
  assumes "list_all (\<lambda>g. g < 65536) gs" "closes r" "length gs \<le> k"
  shows "read_groups (Suc i) k (concat (map (\<lambda>g. CHR '':'' # show_hex g) gs) @ r) = (gs, False, r)"
  using assms
proof (induction gs arbitrary: i k)
  case (Cons g gs)
  let ?t = "concat (map (\<lambda>g. CHR '':'' # show_hex g) gs) @ r"
  obtain k' where k: "k = Suc k'" using Cons.prems by (cases k) auto
  have e: "ends ?t" using closes_ends [OF Cons.prems(2)] by (cases gs) (auto simp: ends_def)
  then have "read_ipv4 (show_hex g @ ?t) = None" using show_hex_radix [of g] by (intro read_ipv4_hex) auto
  moreover have "read_number 16 4 True 65535 (show_hex g @ ?t) = Some (g, ?t)"
    using Cons.prems e by (intro read_group) auto
  moreover have "read_groups (Suc (Suc i)) k' ?t = (gs, False, r)" using Cons k by simp
  ultimately show ?case by (cases k') (simp_all add: k read_groups.simps(2) read_separator_def)
qed (simp add: read_groups_closes)

lemma read_groups_join:
  assumes "list_all (\<lambda>g. g < 65536) gs" "closes r" "length gs \<le> k"
  shows "read_groups 0 k (join_with '':'' (map show_hex gs) @ r) = (gs, False, r)"
proof (cases gs)
  case Nil
  with assms show ?thesis by (simp add: read_groups_closes)
next
  case (Cons g gs')
  let ?t = "concat (map (\<lambda>g. CHR '':'' # show_hex g) gs') @ r"
  obtain k' where k: "k = Suc k'" using assms Cons by (cases k) auto
  have e: "ends ?t" using closes_ends [OF assms(2)] by (cases gs') (auto simp: ends_def)
  then have "read_ipv4 (show_hex g @ ?t) = None" using show_hex_radix [of g] by (intro read_ipv4_hex) auto
  moreover have "read_number 16 4 True 65535 (show_hex g @ ?t) = Some (g, ?t)"
    using assms Cons e by (intro read_group) auto
  moreover have "read_groups (Suc 0) k' ?t = (gs', False, r)"
    using assms Cons k by (intro read_groups_show) auto
  ultimately show ?thesis
    by (cases k') (simp_all add: Cons k read_groups.simps(2) [of 0] read_separator_def join_with_Cons comp_def)
qed

text \<open>The run \<^verbatim>\<open>fmt\<close> omits consists of zeros.\<close>

definition zeros_at :: "16 word list \<Rightarrow> nat \<times> nat \<Rightarrow> bool" where
  "zeros_at gs p \<longleftrightarrow> fst p + snd p \<le> length gs \<and> (\<forall>j < snd p. gs ! (fst p + j) = 0)"

lemma zero_runs_zeros:
  assumes "zeros_at pre longest" "zeros_at pre cur" "0 < snd cur \<longrightarrow> fst cur + snd cur = length pre"
  shows "zeros_at (pre @ gs) (zero_runs (length pre) cur longest gs)"
  using assms
proof (induction gs arbitrary: pre cur longest)
  case (Cons g gs)
  have mono: "zeros_at (pre @ [g]) p" if "zeros_at pre p" for p
    using that by (auto simp: zeros_at_def nth_append)
  let ?cur = "((if snd cur = 0 then length pre else fst cur), Suc (snd cur))"
  show ?case
  proof (cases "g = 0")
    case True
    have cur: "zeros_at (pre @ [g]) ?cur"
      using Cons.prems(2,3) True by (auto simp: zeros_at_def nth_append less_Suc_eq)
    let ?best = "if snd longest < snd ?cur then ?cur else longest"
    have "zeros_at ((pre @ [g]) @ gs) (zero_runs (length (pre @ [g])) ?cur ?best gs)"
      using cur mono [OF Cons.prems(1)] Cons.prems(3) by (intro Cons.IH) auto
    with True show ?thesis by (simp add: zero_runs.simps Let_def)
  next
    case False
    have "zeros_at ((pre @ [g]) @ gs) (zero_runs (length (pre @ [g])) (0, 0) longest gs)"
      using mono [OF Cons.prems(1)] by (intro Cons.IH) (auto simp: zeros_at_def)
    with False show ?thesis by (simp add: zero_runs.simps)
  qed
qed (simp add: zero_runs.simps)

lemma zeros_at_split: "zeros_at gs (start, len) \<Longrightarrow> take start gs @ replicate len 0 @ drop (start + len) gs = gs"
  by (rule nth_equalityI) (auto simp: zeros_at_def nth_append nth_Cons' not_less le_Suc_ex dest: le_Suc_ex)

lemma group_bound: "list_all (\<lambda>g. g < 65536) (map unat (gs :: 16 word list))"
proof -
  have "unat (g :: 16 word) < 2 ^ 16" for g using unsigned_less [of g] by simp
  then show ?thesis by (simp add: list_all_iff)
qed

lemma fmt_groups_map: "fmt_groups gs = join_with '':'' (map show_hex (map unat gs))"
  by (simp add: fmt_groups_def comp_def)

lemma read_groups_fmt: "closes r \<Longrightarrow> length gs \<le> k \<Longrightarrow> read_groups 0 k (fmt_groups gs @ r) = (map unat gs, False, r)"
  unfolding fmt_groups_map by (rule read_groups_join [OF group_bound]) simp_all

lemma closes_simps [simp]: "closes []" "closes (CHR '':'' # CHR '':'' # t)"
  by (simp_all add: closes_def)

lemma read_ipv6_omitted:
  assumes "zeros_at gs (start, len)" "length gs = 8" "1 < len"
  shows "read_ipv6 (fmt_groups (take start gs) @ ''::'' @ fmt_groups (drop (start + len) gs)) = Some (map unat gs, [])"
proof -
  from assms have b: "start + len \<le> 8" by (simp add: zeros_at_def)
  let ?t = "fmt_groups (drop (start + len) gs)"
  have "read_groups 0 8 (fmt_groups (take start gs) @ ''::'' @ ?t) = (map unat (take start gs), False, ''::'' @ ?t)"
    using b assms(2) by (intro read_groups_fmt) simp_all
  moreover have "read_groups 0 (8 - (start + 1)) (?t @ []) = (map unat (drop (start + len) gs), False, [])"
    using b assms by (intro read_groups_fmt) simp_all
  moreover have "map unat gs = map unat (take start gs) @ replicate len 0 @ map unat (drop (start + len) gs)"
    using arg_cong [OF zeros_at_split [OF assms(1)], of "map unat"] by simp
  moreover have "8 - start - (8 - (start + len)) = len" "min 8 start = start" using b assms by auto
  ultimately show ?thesis using b assms by (simp add: read_ipv6_def)
qed

lemma read_ipv6_mapped: "read_ipv6 (''::ffff:'' @ show_v4 v) = Some ([0, 0, 0, 0, 0, 65535] @
    [unat (octets4 v ! 0) * 256 + unat (octets4 v ! 1), unat (octets4 v ! 2) * 256 + unat (octets4 v ! 3)], [])"
proof -
  have "char_of (102 :: nat) = CHR ''f''" by code_simp
  then have h: "show_hex 65535 = ''ffff''" by (simp add: show_hex.simps hex_digit_def)
  let ?r = "CHR '':'' # show_v4 v"
  let ?tl = "[unat (octets4 v ! 0) * 256 + unat (octets4 v ! 1), unat (octets4 v ! 2) * 256 + unat (octets4 v ! 3)]"
  have "read_ipv4 (show_hex 65535 @ ?r) = None" using show_hex_radix [of 65535] by (intro read_ipv4_hex) (auto simp: ends_def)
  moreover have "read_number 16 4 True 65535 (show_hex 65535 @ ?r) = Some (65535, ?r)" by (intro read_group) simp_all
  moreover have "read_ipv4 (show_v4 v) = Some (map unat (octets4 v), [])" using read_ipv4_show [of "[]" v] by simp
  then have "read_groups (Suc 0) 6 ?r = (?tl, True, [])"
    using read_groups.simps(2) [of "Suc 0" 5 ?r] by (simp add: read_separator_def octets4_def)
  ultimately have "read_groups 0 7 (''ffff'' @ ?r) = (65535 # ?tl, True, [])"
    using read_groups.simps(2) [of 0 6 "''ffff'' @ ?r"] unfolding h by (simp add: read_separator_def)
  moreover have "read_groups 0 8 (''::ffff:'' @ show_v4 v) = ([], False, ''::ffff:'' @ show_v4 v)"
    by (rule read_groups_closes) simp
  moreover have "replicate 5 (0 :: nat) = [0, 0, 0, 0, 0]" by code_simp
  ultimately show ?thesis by (simp add: read_ipv6_def)
qed

lemma from_segments_mapped:
  assumes "to_ipv4_mapped w = Some v"
  shows "from_segments (map of_nat ([0, 0, 0, 0, 0, 65535] @
    [unat (octets4 v ! 0) * 256 + unat (octets4 v ! 1), unat (octets4 v ! 2) * 256 + unat (octets4 v ! 3)])) = w"
proof -
  obtain a b c d where o: "octets4 v = [a, b, c, d]" using octets4_list by blast
  have l: "unat x < 256" for x :: octet using unsigned_less [of x, where ?'a = nat] by simp
  have g: "unat (of_nat (unat x * 256 + unat y) :: 16 word) = unat x * 256 + unat y" for x y :: octet
    using l [of x] l [of y] by (subst unat_of_nat) (simp add: take_bit_eq_mod)
  have "unat v < 256 ^ 4" using unsigned_less [of v, where ?'a = nat] by simp
  then have "from_be [a, b, c, d] = unat v" using from_to_be [of 4 v] by (simp add: o [symmetric] octets4_def)
  then have v: "unat v = ((unat a * 256 + unat b) * 65536) + (unat c * 256 + unat d)" by (simp add: from_be_Cons algebra_simps)
  from assms have w: "drop_bit 32 w = 65535" "v = ucast w" by (auto simp: to_ipv4_mapped_def split: if_splits)
  have "unat w div 2 ^ 32 = unat (drop_bit 32 w)" unfolding unat_drop_bit_eq by (simp add: drop_bit_eq_div)
  then have "unat w = 65535 * 2 ^ 32 + unat w mod 2 ^ 32" using w(1) div_mult_mod_eq [of "unat w" "2 ^ 32"] by simp
  moreover have "unat w mod 2 ^ 32 = unat v" using w(2) by (simp add: unsigned_ucast_eq take_bit_eq_mod)
  ultimately have "unat w = 65535 * 65536 ^ 2 + ((unat a * 256 + unat b) * 65536 + (unat c * 256 + unat d))" using v by simp
  then have "foldl (\<lambda>a g. 65536 * a + unat g) 0 (map of_nat [0, 0, 0, 0, 0, 65535] @
      [of_nat (unat a * 256 + unat b), of_nat (unat c * 256 + unat d) :: 16 word]) = unat w"
    by (simp add: g del: of_nat_add of_nat_mult)
  then show ?thesis by (simp add: from_segments_nat o del: of_nat_add of_nat_mult)
qed

lemma parse_ip_v6: "read_ipv4 s = None \<Longrightarrow> read_ipv6 s = Some (gs, []) \<Longrightarrow> parse_ip s = Some (V6 (from_segments (map of_nat gs)))"
  by (simp add: parse_ip_def)

lemma fmt_groups_ends: "ends r \<Longrightarrow> read_ipv4 (fmt_groups gs @ r) = None"
proof (cases gs)
  case Nil
  then show "ends r \<Longrightarrow> ?thesis" by (simp add: fmt_groups_def read_ipv4_ends)
next
  case (Cons g gs')
  assume "ends r"
  then have "ends (concat (map (\<lambda>g. CHR '':'' # show_hex (unat g)) gs') @ r)" by (cases gs') (auto simp: ends_def)
  then show ?thesis using Cons show_hex_radix [of "unat g"] by (simp add: fmt_groups_def join_with_Cons comp_def read_ipv4_hex)
qed

lemma parse_show_v6: "parse_ip (show_v6 w) = Some (V6 w)"
proof (cases "to_ipv4_mapped w")
  case (Some v)
  have "read_ipv4 (''::ffff:'' @ show_v4 v) = None" by (rule read_ipv4_ends) (simp add: ends_def)
  from parse_ip_v6 [OF this read_ipv6_mapped] show ?thesis
    unfolding from_segments_mapped [OF Some] by (simp add: show_v6_def Some)
next
  case None
  obtain start len where z: "zero_runs 0 (0, 0) (0, 0) (segments w) = (start, len)" by fastforce
  have zs: "zeros_at (segments w) (start, len)"
    using zero_runs_zeros [of "[]" "(0, 0)" "(0, 0)" "segments w"] z by (simp add: zeros_at_def)
  have seg: "from_segments (map of_nat (map unat (segments w))) = w" unfolding map_of_nat_unat by simp
  show ?thesis
  proof (cases "1 < len")
    case True
    let ?s = "fmt_groups (take start (segments w)) @ ''::'' @ fmt_groups (drop (start + len) (segments w))"
    have "read_ipv4 ?s = None" by (rule fmt_groups_ends) (simp add: ends_def)
    from parse_ip_v6 [OF this read_ipv6_omitted [OF zs length_segments True]] show ?thesis
      unfolding seg using True by (simp add: show_v6_def None z)
  next
    case False
    have "read_ipv6 (fmt_groups (segments w)) = Some (map unat (segments w), [])"
      using read_groups_fmt [of "[]" "segments w" 8] by (simp add: read_ipv6_def)
    from parse_ip_v6 [OF _ this] show ?thesis
      unfolding seg using False fmt_groups_ends [of "[]"] by (simp add: show_v6_def None z ends_def)
  qed
qed

lemma parse_show_ip: "parse_ip (show_ip ip) = Some ip"
  by (cases ip) (simp_all add: show_ip_def parse_show_v4 parse_show_v6)

text \<open>The characters of an address.\<close>

definition ip_char :: "char \<Rightarrow> bool" where
  "ip_char c \<longleftrightarrow> radix_val 16 c \<noteq> None \<or> c = CHR ''.'' \<or> c = CHR '':''"

lemma radix_mono: "radix_val 10 c \<noteq> None \<Longrightarrow> radix_val 16 c \<noteq> None"
  by (auto simp: radix_val_def split: option.splits if_splits)

lemma show_nat_ip_char: "list_all ip_char (show_nat n)"
  using show_nat_radix [of n] radix_mono by (auto simp: list_all_iff ip_char_def)

lemma show_hex_ip_char: "list_all ip_char (show_hex n)"
  using show_hex_radix [of n] by (auto simp: list_all_iff ip_char_def)

lemma join_with_all: "list_all P sep \<Longrightarrow> list_all (list_all P) ps \<Longrightarrow> list_all P (join_with sep ps)"
  by (induction sep ps rule: join_with.induct) simp_all

lemma fmt_groups_ip_char: "list_all ip_char (fmt_groups gs)"
  unfolding fmt_groups_def by (rule join_with_all, simp add: ip_char_def, simp add: list.pred_map comp_def show_hex_ip_char list.pred_True)

lemma show_v4_ip_char: "list_all ip_char (show_v4 w)"
  unfolding show_v4_def by (rule join_with_all, simp add: ip_char_def, simp add: list.pred_map comp_def show_nat_ip_char list.pred_True)

lemma show_ip_chars: "list_all ip_char (show_ip ip) \<and> show_ip ip \<noteq> []"
proof
  have "list_all ip_char ''::ffff:''" by (simp add: ip_char_def radix_val_def hex_val_def byte_def)
  then show "list_all ip_char (show_ip ip)"
    by (auto simp: show_ip_def show_v6_def show_v4_ip_char fmt_groups_ip_char ip_char_def split: ip_addr.splits option.splits prod.splits)
  show "show_ip ip \<noteq> []" using parse_show_ip [of ip] by (auto simp: parse_ip_def read_ipv4_ends ends_def read_ipv6_def read_groups_closes)
qed

end
