(* ===== verification/Proxy_Protocol.thy ===== *)
theory Proxy_Protocol
  imports Net_Addr Grpc_Web
begin

text \<open>
  PROXY protocol framing written by the client (\<^verbatim>\<open>crates/anvil-transport/src/proxy_protocol.rs\<close>, with the
  types of \<^verbatim>\<open>crates/anvil-domain/src/proxy_protocol.rs\<close>): the v1 and v2 connection headers, the checker
  that mirrors a receiver, the per-datagram envelope with its authentication tag and freshness
  record, and the redacted evidence of what was sent.

  The \<^verbatim>\<open>hex\<close> and \<^verbatim>\<open>hmac\<close> crates are the fields of \<open>externs\<close>, with \<^verbatim>\<open>format!("{:?}")\<close> on text, whose escapes
  depend on Unicode tables.  The clock is an argument \<open>now\<close> of the operations that read it.
\<close>

record externs =
  hex_encode :: "octet list \<Rightarrow> string"
  hex_decode :: "string \<Rightarrow> octet list option"
  hmac_sha256 :: "octet list \<Rightarrow> octet list \<Rightarrow> octet list"
  debug_str :: "string \<Rightarrow> string"

section \<open>Bytes and text\<close>

definition text_bytes :: "string \<Rightarrow> octet list" where
  "text_bytes s = map (\<lambda>c. of_nat (byte c)) s"

definition octet_text :: "octet list \<Rightarrow> string" where
  "octet_text bs = map (\<lambda>b. char_of (unat b)) bs"

fun split_pred :: "(char \<Rightarrow> bool) \<Rightarrow> string \<Rightarrow> string list" where
  "split_pred P [] = [[]]"
| "split_pred P (c # cs) =
     (if P c then [] # split_pred P cs
      else case split_pred P cs of [] \<Rightarrow> [[c]] | p # ps \<Rightarrow> (c # p) # ps)"

definition split_ascii_whitespace :: "string \<Rightarrow> string list" where
  "split_ascii_whitespace s = filter (\<lambda>p. p \<noteq> []) (split_pred is_ascii_whitespace s)"

text \<open>The position of the first CRLF: \<^verbatim>\<open>windows(2).position(..)\<close>.\<close>

fun crlf_pos :: "octet list \<Rightarrow> nat option" where
  "crlf_pos (a # b # r) = (if a = 13 \<and> b = 10 then Some 0 else map_option Suc (crlf_pos (b # r)))"
| "crlf_pos _ = None"

section \<open>Specifications and evidence\<close>

datatype proxy_header_version = HV1 | HV2 | HRaw
datatype proxy_command = Proxy | Local
datatype proxy_address_family = Auto | Unspec
datatype datagram_listener_protocol = Udp | Dtls
datatype proxy_header_format = FmtV1 | FmtV2 | FmtRaw | FmtV2Datagram
datatype address_origin = OriginSocket | OriginConfigured

record proxy_header_observation =
  ob_format :: proxy_header_format
  ob_command :: "proxy_command option"
  ob_family :: string
  ob_source :: "string option"
  ob_source_origin :: "address_origin option"
  ob_destination :: "string option"
  ob_destination_origin :: "address_origin option"
  ob_length :: "32 word"
  ob_hex :: string
  ob_text :: "string option"
  ob_tlvs :: "string list"
  ob_well_formed :: bool
  ob_problem :: "string option"
  ob_authenticated :: bool
  ob_listener_binding :: "string option"
  ob_sender_id :: "32 word option"
  ob_epoch :: "64 word option"
  ob_first_sequence :: "64 word option"
  ob_last_sequence :: "64 word option"
  ob_datagrams :: "64 word"

definition REDACTED :: string where
  "REDACTED = [CHR 0xE2, CHR 0x80, CHR 0xB9] @ ''redacted'' @ [CHR 0xE2, CHR 0x80, CHR 0xBA]"

definition TAG_MARK :: string where
  "TAG_MARK = [CHR 0xE2, CHR 0x80, CHR 0xB9] @ ''tag'' @ [CHR 0xE2, CHR 0x80, CHR 0xBA]"

definition ARROW :: string where
  "ARROW = [CHR 0xE2, CHR 0x86, CHR 0x92]"

definition V2_SIG :: "octet list" where
  "V2_SIG = [13, 10, 13, 10, 0, 13, 10, 0x51, 0x55, 0x49, 0x54, 10]"

definition V1_MAX_LINE :: nat where "V1_MAX_LINE = 107"
definition V2_MAX_ADDR_LEN :: nat where "V2_MAX_ADDR_LEN = 512"
definition AUTH_TLV_TYPE :: octet where "AUTH_TLV_TYPE = 0xE0"
definition AUTH_TAG_LEN :: nat where "AUTH_TAG_LEN = 32"
definition FRESHNESS_TLV_TYPE :: octet where "FRESHNESS_TLV_TYPE = 0xE1"
definition FRESHNESS_VERSION :: octet where "FRESHNESS_VERSION = 1"
definition FRESHNESS_VALUE_LEN :: nat where "FRESHNESS_VALUE_LEN = 29"
definition MIN_DATAGRAM_SECRET_BYTES :: nat where "MIN_DATAGRAM_SECRET_BYTES = 32"
definition PP2_TYPE_AUTHORITY :: octet where "PP2_TYPE_AUTHORITY = 2"
definition DOMAIN_LABEL :: "octet list" where "DOMAIN_LABEL = text_bytes ''ferrum-datagram-proxy-v1''"
definition DOMAIN_BINDING_VERSION :: octet where "DOMAIN_BINDING_VERSION = 1"

definition canonical_ip :: "ip_addr \<Rightarrow> ip_addr" where
  "canonical_ip ip =
     (case ip of
        V6 v6 \<Rightarrow> (case to_ipv4_mapped v6 of Some v4 \<Rightarrow> V4 v4 | None \<Rightarrow> V6 v6)
      | V4 v4 \<Rightarrow> V4 v4)"

definition canonical :: "socket_addr \<Rightarrow> socket_addr" where
  "canonical a = (canonical_ip (fst a), snd a)"

definition to_v6 :: "ip_addr \<Rightarrow> 128 word" where
  "to_v6 ip = (case ip of V4 v4 \<Rightarrow> to_ipv6_mapped v4 | V6 v6 \<Rightarrow> v6)"

type_synonym redact = "(string \<Rightarrow> string) option"

definition scrub :: "externs \<Rightarrow> octet list \<Rightarrow> redact \<Rightarrow> string \<times> bool" where
  "scrub X bytes redact =
     (let hex = hex_encode X bytes
      in case redact of
           Some r \<Rightarrow>
             (let lossy = from_utf8_lossy (octet_text bytes)
              in if r lossy \<noteq> lossy then (REDACTED, True) else (hex, False))
         | None \<Rightarrow> (hex, False))"

definition strip_suffix :: "string \<Rightarrow> string \<Rightarrow> string" where
  "strip_suffix sfx s = (if suffix sfx s then take (length s - length sfx) s else s)"

text \<open>One field of the loop over \<^verbatim>\<open>source\<close>, \<^verbatim>\<open>destination\<close>, \<^verbatim>\<open>text\<close>, \<^verbatim>\<open>problem\<close> and \<^verbatim>\<open>listener_binding\<close>: its new value and whether it was hit.\<close>

definition scrub_field :: "(string \<Rightarrow> string) \<Rightarrow> string option \<Rightarrow> string option \<times> bool" where
  "scrub_field r f = (case f of Some v \<Rightarrow> if r v \<noteq> v then (Some REDACTED, True) else (Some v, False) | None \<Rightarrow> (None, False))"

definition scrub_observation :: "externs \<Rightarrow> redact \<Rightarrow> proxy_header_observation \<Rightarrow> proxy_header_observation" where
  "scrub_observation X redact ob =
     (case redact of
        None \<Rightarrow> ob
      | Some r \<Rightarrow>
          (let encoded = strip_suffix TAG_MARK (ob_hex ob);
               hit0 = (ob_hex ob = REDACTED \<or> r encoded \<noteq> encoded
                 \<or> (case hex_decode X encoded of
                      Some bytes \<Rightarrow> (let text = from_utf8_lossy (octet_text bytes) in r text \<noteq> text)
                    | None \<Rightarrow> False));
               (src, hit1) = scrub_field r (ob_source ob);
               (dst, hit2) = scrub_field r (ob_destination ob);
               (txt', hit3) = scrub_field r (ob_text ob);
               (prob, hit4) = scrub_field r (ob_problem ob);
               (bind, hit5) = scrub_field r (ob_listener_binding ob);
               tlvs = map (\<lambda>t. if r t \<noteq> t then REDACTED else t) (ob_tlvs ob);
               hit6 = list_ex (\<lambda>t. r t \<noteq> t) (ob_tlvs ob);
               hit = (hit0 \<or> hit1 \<or> hit2 \<or> hit3 \<or> hit4 \<or> hit5 \<or> hit6)
           in ob\<lparr>ob_source := src, ob_destination := dst, ob_text := txt', ob_problem := prob, ob_listener_binding := bind,
                 ob_tlvs := (if hit then map (\<lambda>_. REDACTED) tlvs else tlvs),
                 ob_hex := (if hit then REDACTED else ob_hex ob)\<rparr>))"

section \<open>Connection headers\<close>

record header_plan =
  hp_version :: proxy_header_version
  hp_command :: proxy_command
  hp_family :: proxy_address_family
  hp_source :: "socket_addr option"
  hp_destination :: "socket_addr option"
  hp_tlvs :: "(octet \<times> octet list) list"
  hp_raw :: "octet list"

record built_header =
  bh_bytes :: "octet list"
  bh_observation :: proxy_header_observation

definition blank_observation :: "proxy_header_format \<Rightarrow> proxy_header_observation" where
  "blank_observation fmt =
     \<lparr>ob_format = fmt, ob_command = None, ob_family = [], ob_source = None, ob_source_origin = None,
      ob_destination = None, ob_destination_origin = None, ob_length = 0, ob_hex = [], ob_text = None,
      ob_tlvs = [], ob_well_formed = True, ob_problem = None, ob_authenticated = False,
      ob_listener_binding = None, ob_sender_id = None, ob_epoch = None, ob_first_sequence = None,
      ob_last_sequence = None, ob_datagrams = 0\<rparr>"

definition pick :: "socket_addr option \<Rightarrow> socket_addr option \<Rightarrow> string \<Rightarrow> string + socket_addr \<times> address_origin" where
  "pick configured socket which =
     (case (configured, socket) of
        (Some a, _) \<Rightarrow> Inr (a, OriginConfigured)
      | (None, Some a) \<Rightarrow> Inr (a, OriginSocket)
      | (None, None) \<Rightarrow>
          Inl (''the real '' @ which @ '' socket address is not known; set the PROXY header '' @ which @ '' explicitly''))"

text \<open>What a receiver reads from a header.\<close>

datatype stream_header =
    Forwarded bool socket_addr socket_addr nat
  | NoAddress bool bool nat

definition v1_field :: "string list \<Rightarrow> nat \<Rightarrow> string \<Rightarrow> string + string" where
  "v1_field parts i name = (if i < length parts then Inr (parts ! i) else Inl (''missing '' @ name @ '' in the v1 header''))"

text \<open>The four fields after the protocol, the first missing one an error; then the ports and the addresses.\<close>

definition check_v1_addresses :: "externs \<Rightarrow> string \<Rightarrow> string list \<Rightarrow> nat \<Rightarrow> string + stream_header" where
  "check_v1_addresses X proto parts header_len =
     (case v1_field parts 0 ''source address'' of Inl e \<Rightarrow> Inl e | Inr s \<Rightarrow>
      case v1_field parts 1 ''destination address'' of Inl e \<Rightarrow> Inl e | Inr d \<Rightarrow>
      case v1_field parts 2 ''source port'' of Inl e \<Rightarrow> Inl e | Inr sp \<Rightarrow>
      case v1_field parts 3 ''destination port'' of Inl e \<Rightarrow> Inl e | Inr dp \<Rightarrow>
      case parse_unsigned 65535 sp of None \<Rightarrow> Inl ''invalid source port in the v1 header'' | Some sp' \<Rightarrow>
      case parse_unsigned 65535 dp of None \<Rightarrow> Inl ''invalid destination port in the v1 header'' | Some dp' \<Rightarrow>
      case parse_ip s of None \<Rightarrow> Inl (''invalid source IP '' @ debug_str X s) | Some s' \<Rightarrow>
      case parse_ip d of None \<Rightarrow> Inl (''invalid destination IP '' @ debug_str X d) | Some d' \<Rightarrow>
      let v4 = (proto = ''TCP4'')
      in if v4 \<noteq> is_ipv4 s' \<or> v4 \<noteq> is_ipv4 d'
         then Inl (proto @ '' addresses must be '' @ (if v4 then ''IPv4'' else ''IPv6''))
         else Inr (Forwarded False (s', of_nat sp') (d', of_nat dp') header_len))"

definition check_v1_line :: "externs \<Rightarrow> string \<Rightarrow> nat \<Rightarrow> string + stream_header" where
  "check_v1_line X line header_len =
     (case split_ascii_whitespace line of
        [] \<Rightarrow> Inl ''expected the PROXY keyword''
      | kw # parts \<Rightarrow>
          (if kw \<noteq> ''PROXY'' then Inl ''expected the PROXY keyword''
           else case parts of
                  [] \<Rightarrow> Inl ''missing protocol field in the v1 header''
                | proto # rest \<Rightarrow>
                    (if proto = ''UNKNOWN'' then Inr (NoAddress False False header_len)
                     else if proto \<noteq> ''TCP4'' \<and> proto \<noteq> ''TCP6'' then Inl (''unsupported v1 protocol '' @ debug_str X proto)
                     else check_v1_addresses X proto rest header_len)))"

text \<open>The address block of a v2 header with version 2 and the PROXY command.\<close>

definition check_v2_block :: "octet \<Rightarrow> octet list \<Rightarrow> nat \<Rightarrow> string + stream_header" where
  "check_v2_block fam block header_len =
     (let transport = fam AND 0x0f; af = drop_bit 4 fam
      in if af = 0 \<or> af = 3 then Inr (NoAddress True False header_len)
         else if af = 1 then
           (if length block < 12 then Inl (''AF_INET address block too short: '' @ show_nat (length block) @ '' bytes'')
            else if transport \<noteq> 1 then Inr (NoAddress True False header_len)
            else Inr (Forwarded True
              (V4 (be_word (take 4 block)), be_word [block ! 8, block ! 9])
              (V4 (be_word (take 4 (drop 4 block))), be_word [block ! 10, block ! 11]) header_len))
         else if af = 2 then
           (if length block < 36 then Inl (''AF_INET6 address block too short: '' @ show_nat (length block) @ '' bytes'')
            else if transport \<noteq> 1 then Inr (NoAddress True False header_len)
            else Inr (Forwarded True
              (V6 (be_word (take 16 block)), be_word [block ! 32, block ! 33])
              (V6 (be_word (take 16 (drop 16 block))), be_word [block ! 34, block ! 35]) header_len))
         else Inl (''unsupported PROXY v2 address family 0x'' @ two_hex af))"

definition check_v2 :: "octet list \<Rightarrow> string + stream_header" where
  "check_v2 bytes =
     (if length bytes < 16 then Inl (''truncated PROXY v2 header ('' @ show_nat (length bytes) @ '' bytes; at least 16 are needed)'')
      else if take 12 bytes \<noteq> V2_SIG then Inl ''invalid PROXY v2 signature''
      else let ver_cmd = bytes ! 12; fam = bytes ! 13; addr_len = from_be [bytes ! 14, bytes ! 15]
      in if drop_bit 4 ver_cmd \<noteq> 2 then Inl (''unsupported PROXY v2 version '' @ show_nat (unat (drop_bit 4 ver_cmd)))
         else if V2_MAX_ADDR_LEN < addr_len then
           Inl (''PROXY v2 address block length '' @ show_nat addr_len @ '' exceeds the '' @ show_nat V2_MAX_ADDR_LEN @ ''-byte cap'')
         else if length bytes < 16 + addr_len then
           Inl (''truncated PROXY v2 address block ('' @ show_nat addr_len @ '' declared, '' @ show_nat (length bytes - 16) @ '' present)'')
         else let header_len = 16 + addr_len; block = take addr_len (drop 16 bytes)
         in if ver_cmd AND 0x0f = 0 then Inr (NoAddress True True header_len)
            else if ver_cmd AND 0x0f = 1 then check_v2_block fam block header_len
            else Inl (''unsupported PROXY v2 command 0x'' @ two_hex (ver_cmd AND 0x0f)))"

definition check_stream_header :: "externs \<Rightarrow> octet list \<Rightarrow> string + stream_header" where
  "check_stream_header X bytes =
     (if take 6 bytes = text_bytes ''PROXY '' then
        (case crlf_pos (take 109 bytes) of
           None \<Rightarrow>
             Inl (if 109 \<le> length bytes then ''the PROXY v1 line has no CRLF within 109 bytes''
                  else ''the PROXY v1 line is not terminated by CRLF'')
         | Some e \<Rightarrow>
             (let line = octet_text (take e bytes)
              in if \<not> is_utf8 line then Inl ''the PROXY v1 line is not UTF-8'' else check_v1_line X line (e + 2)))
      else if take 6 bytes = take 6 V2_SIG then check_v2 bytes
      else if bytes = [] then Inl ''the header is empty''
      else Inl ''the bytes do not start with a PROXY v1 or v2 signature'')"

definition describe_stream_header :: "externs \<Rightarrow> octet list \<Rightarrow> proxy_header_observation \<Rightarrow> proxy_header_observation" where
  "describe_stream_header X bytes ob =
     (case check_stream_header X bytes of
        Inl e \<Rightarrow> ob\<lparr>ob_family := ''unparsed'', ob_well_formed := False, ob_problem := Some e\<rparr>
      | Inr h \<Rightarrow>
          (let (ob1, v2, len) =
             (case h of
                Forwarded v2 src dst header_len \<Rightarrow>
                  (ob\<lparr>ob_source := Some (show_sock src), ob_destination := Some (show_sock dst),
                      ob_source_origin := Some OriginConfigured, ob_destination_origin := Some OriginConfigured,
                      ob_family := (if v2 then (if is_ipv4 (fst src) then ''AF_INET'' else ''AF_INET6'')
                                    else (if is_ipv4 (fst src) then ''TCP4'' else ''TCP6''))\<rparr>, v2, header_len)
              | NoAddress v2 lcl header_len \<Rightarrow>
                  ((let o1 = ob\<lparr>ob_family := (if v2 then ''AF_UNSPEC'' else ''UNKNOWN'')\<rparr>
                    in if v2 then o1\<lparr>ob_command := Some (if lcl then Local else Proxy)\<rparr> else o1), v2, header_len));
               ob2 = (if \<not> v2 then
                        (let t = octet_text (take (len - 2) bytes)
                         in ob1\<lparr>ob_text := (if is_utf8 t then Some t else None)\<rparr>)
                      else if ob_command ob1 = None then ob1\<lparr>ob_command := Some Proxy\<rparr> else ob1)
           in if len < length bytes
              then ob2\<lparr>ob_problem := Some (show_nat (length bytes - len) @ '' byte(s) after the header are sent as stream data'')\<rparr>
              else ob2))"

definition tlv_summary :: "externs \<Rightarrow> octet \<Rightarrow> octet list \<Rightarrow> string" where
  "tlv_summary X t v =
     (if t = PP2_TYPE_AUTHORITY then ''0x02 authority '' @ debug_str X (from_utf8_lossy (octet_text v))
      else if t = 5 then ''0x05 unique id ('' @ show_nat (length v) @ '' bytes)''
      else ''0x'' @ two_hex t @ '' ('' @ show_nat (length v) @ '' bytes): '' @ hex_encode X (take 32 v))"

definition build_raw :: "externs \<Rightarrow> header_plan \<Rightarrow> redact \<Rightarrow> built_header" where
  "build_raw X p redact =
     (let ob = describe_stream_header X (hp_raw p) (blank_observation FmtRaw);
          (hex, redacted) = scrub X (hp_raw p) redact;
          ob = ob\<lparr>ob_hex := hex\<rparr>;
          ob = (if redacted then ob\<lparr>ob_text := None, ob_source := None, ob_destination := None, ob_tlvs := []\<rparr> else ob);
          ob = ob\<lparr>ob_length := of_nat (length (hp_raw p))\<rparr>
      in \<lparr>bh_bytes = hp_raw p, bh_observation = ob\<rparr>)"

definition finish_v1 :: "externs \<Rightarrow> string \<Rightarrow> proxy_header_observation \<Rightarrow> redact \<Rightarrow> string + built_header" where
  "finish_v1 X line ob redact =
     (if V1_MAX_LINE < length line then
        Inl (''the PROXY v1 line is '' @ show_nat (length line) @ '' bytes; the limit is '' @ show_nat V1_MAX_LINE @ '' before CRLF'')
      else let bytes = text_bytes line @ [13, 10];
               (hex, redacted) = scrub X bytes redact
           in Inr \<lparr>bh_bytes = bytes,
                   bh_observation = ob\<lparr>ob_hex := hex, ob_text := (if redacted then Some REDACTED else Some line),
                                       ob_length := of_nat (length bytes)\<rparr>\<rparr>)"

definition build_v1 :: "externs \<Rightarrow> header_plan \<Rightarrow> socket_addr option \<Rightarrow> socket_addr option \<Rightarrow> redact \<Rightarrow> string + built_header" where
  "build_v1 X p lcl remote redact =
     (let ob = blank_observation FmtV1
      in if hp_command p = Local then Inl ''PROXY v1 has no LOCAL command; use v2, or v1 with the UNKNOWN family''
         else if hp_family p = Unspec then finish_v1 X ''PROXY UNKNOWN'' (ob\<lparr>ob_family := ''UNKNOWN''\<rparr>) redact
         else case pick (hp_source p) lcl ''source'' of Inl e \<Rightarrow> Inl e | Inr (src, so) \<Rightarrow>
              case pick (hp_destination p) remote ''destination'' of Inl e \<Rightarrow> Inl e | Inr (dst, dor) \<Rightarrow>
              let src = canonical src; dst = canonical dst
              in if is_ipv4 (fst src) \<noteq> is_ipv4 (fst dst) then
                   Inl (''PROXY v1 needs both addresses in one family (source '' @ show_sock src @ '', destination '' @ show_sock dst @ '')'')
                 else let proto = (if is_ipv4 (fst src) then ''TCP4'' else ''TCP6'')
                      in finish_v1 X
                           (''PROXY '' @ proto @ '' '' @ show_ip (fst src) @ '' '' @ show_ip (fst dst) @ '' '' @
                            show_nat (unat (snd src)) @ '' '' @ show_nat (unat (snd dst)))
                           (ob\<lparr>ob_family := proto, ob_source := Some (show_sock src), ob_source_origin := Some so,
                               ob_destination := Some (show_sock dst), ob_destination_origin := Some dor\<rparr>) redact)"

text \<open>The fixed address block of a pair of canonical addresses: one family, IPv4 promoted to its mapped form when they differ.\<close>

definition fixed_block :: "socket_addr \<Rightarrow> socket_addr \<Rightarrow> octet list" where
  "fixed_block src dst =
     (case (fst src, fst dst) of
        (V4 s, V4 d) \<Rightarrow> octets4 s @ octets4 d @ to_be 2 (snd src) @ to_be 2 (snd dst)
      | (s, d) \<Rightarrow> octets6 (to_v6 s) @ octets6 (to_v6 d) @ to_be 2 (snd src) @ to_be 2 (snd dst))"

text \<open>The loop over the TLVs: their bytes and summaries, or the first value that does not fit 16 bits.\<close>

fun encode_tlvs :: "externs \<Rightarrow> (octet \<times> octet list) list \<Rightarrow> string + octet list \<times> string list" where
  "encode_tlvs X [] = Inr ([], [])"
| "encode_tlvs X ((t, v) # tlvs) =
     (if 65535 < length v then
        Inl (''TLV 0x'' @ two_hex t @ '' is '' @ show_nat (length v) @ '' bytes; a TLV value holds at most 65535'')
      else case encode_tlvs X tlvs of
             Inl e \<Rightarrow> Inl e
           | Inr (bs, sums) \<Rightarrow> Inr ([t] @ to_be 2 (of_nat (length v) :: 16 word) @ v @ bs, tlv_summary X t v # sums))"

text \<open>Command byte, family byte and fixed block, with what the observation records of them.\<close>

definition v2_addresses ::
  "header_plan \<Rightarrow> socket_addr option \<Rightarrow> socket_addr option \<Rightarrow> proxy_header_observation \<Rightarrow>
   string + (octet \<times> octet \<times> octet list) \<times> proxy_header_observation" where
  "v2_addresses p lcl remote ob =
     (case (hp_command p, hp_family p) of
        (Local, _) \<Rightarrow> Inr ((0x20, 0x00, []), ob\<lparr>ob_family := ''AF_UNSPEC''\<rparr>)
      | (Proxy, Unspec) \<Rightarrow> Inr ((0x21, 0x00, []), ob\<lparr>ob_family := ''AF_UNSPEC''\<rparr>)
      | (Proxy, Auto) \<Rightarrow>
          (case pick (hp_source p) lcl ''source'' of Inl e \<Rightarrow> Inl e | Inr (src, so) \<Rightarrow>
           case pick (hp_destination p) remote ''destination'' of Inl e \<Rightarrow> Inl e | Inr (dst, dor) \<Rightarrow>
           let src = canonical src; dst = canonical dst;
               v4 = (is_ipv4 (fst src) \<and> is_ipv4 (fst dst))
           in Inr ((0x21, if v4 then 0x11 else 0x21, fixed_block src dst),
                   ob\<lparr>ob_source := Some (show_sock src), ob_source_origin := Some so,
                      ob_destination := Some (show_sock dst), ob_destination_origin := Some dor,
                      ob_family := (if v4 then ''AF_INET'' else ''AF_INET6'')\<rparr>)))"

definition build_v2 :: "externs \<Rightarrow> header_plan \<Rightarrow> socket_addr option \<Rightarrow> socket_addr option \<Rightarrow> redact \<Rightarrow> string + built_header" where
  "build_v2 X p lcl remote redact =
     (let ob = (blank_observation FmtV2)\<lparr>ob_command := Some (hp_command p)\<rparr>
      in case v2_addresses p lcl remote ob of Inl e \<Rightarrow> Inl e | Inr ((ver_cmd, fam, fixed), ob) \<Rightarrow>
         case encode_tlvs X (hp_tlvs p) of Inl e \<Rightarrow> Inl e | Inr (tlv_bytes, sums) \<Rightarrow>
         let ob = ob\<lparr>ob_tlvs := sums\<rparr>;
             addr_len = length fixed + length tlv_bytes
         in if 65535 < addr_len then Inl (''the address block is '' @ show_nat addr_len @ '' bytes; PROXY v2 allows at most 65535'')
            else let ob = (if V2_MAX_ADDR_LEN < addr_len
                      then ob\<lparr>ob_problem := Some (''the address block is '' @ show_nat addr_len @ '' bytes, above the '' @
                             show_nat V2_MAX_ADDR_LEN @ ''-byte cap some receivers (Ferrum Edge) enforce'')\<rparr>
                      else ob);
                     bytes = V2_SIG @ [ver_cmd] @ [fam] @ to_be 2 (of_nat addr_len :: 16 word) @ fixed @ tlv_bytes;
                     (hex, redacted) = scrub X bytes redact;
                     ob = ob\<lparr>ob_hex := hex\<rparr>;
                     ob = (if redacted then ob\<lparr>ob_tlvs := [REDACTED]\<rparr> else ob)
                 in Inr \<lparr>bh_bytes = bytes, bh_observation = ob\<lparr>ob_length := of_nat (length bytes)\<rparr>\<rparr>)"

definition build :: "externs \<Rightarrow> header_plan \<Rightarrow> socket_addr option \<Rightarrow> socket_addr option \<Rightarrow> redact \<Rightarrow> string + built_header" where
  "build X p lcl remote redact =
     (case (case hp_version p of
              HRaw \<Rightarrow> Inr (build_raw X p redact)
            | HV1 \<Rightarrow> build_v1 X p lcl remote redact
            | HV2 \<Rightarrow> build_v2 X p lcl remote redact) of
        Inl e \<Rightarrow> Inl e
      | Inr b \<Rightarrow> Inr (b\<lparr>bh_observation := scrub_observation X redact (bh_observation b)\<rparr>))"

section \<open>Redaction\<close>

lemma scrub_field_cases:
  "scrub_field r f = (g, hit) \<Longrightarrow>
     (\<not> hit \<longrightarrow> g = f) \<and> (hit \<longrightarrow> g = Some REDACTED) \<and> (\<forall>v. g = Some v \<longrightarrow> v = REDACTED \<or> r v = v)
     \<and> (\<forall>v. f = Some v \<longrightarrow> r v \<noteq> v \<longrightarrow> hit) \<and> (f = None \<longrightarrow> g = None)"
  by (auto simp: scrub_field_def split: option.splits if_splits)

definition field_clean :: "(string \<Rightarrow> string) \<Rightarrow> string option \<Rightarrow> bool" where
  "field_clean r f \<longleftrightarrow> (case f of None \<Rightarrow> True | Some v \<Rightarrow> r v = v)"

definition ob_fields :: "proxy_header_observation \<Rightarrow> string option list" where
  "ob_fields ob = [ob_source ob, ob_destination ob, ob_text ob, ob_problem ob, ob_listener_binding ob] @ map Some (ob_tlvs ob)"

text \<open>Nothing the redactor would change: every text field, the recorded hex without the tag mark, and the text of its bytes.\<close>

definition ob_clean :: "externs \<Rightarrow> (string \<Rightarrow> string) \<Rightarrow> proxy_header_observation \<Rightarrow> bool" where
  "ob_clean X r ob \<longleftrightarrow>
     list_all (field_clean r) (ob_fields ob)
     \<and> (let encoded = strip_suffix TAG_MARK (ob_hex ob)
        in r encoded = encoded
           \<and> (case hex_decode X encoded of
                None \<Rightarrow> True
              | Some bytes \<Rightarrow> r (from_utf8_lossy (octet_text bytes)) = from_utf8_lossy (octet_text bytes)))"

lemma scrub_field_clean: "field_clean r f \<Longrightarrow> scrub_field r f = (f, False)"
  by (auto simp: field_clean_def scrub_field_def split: option.splits)

lemma scrub_field_hit: "\<not> field_clean r f \<Longrightarrow> scrub_field r f = (Some REDACTED, True)"
  by (auto simp: field_clean_def scrub_field_def split: option.splits)

definition withheld :: "(string \<Rightarrow> string) \<Rightarrow> string option \<Rightarrow> string option" where
  "withheld r f = (if field_clean r f then f else Some REDACTED)"

lemma scrub_field_eq: "scrub_field r f = (withheld r f, \<not> field_clean r f)"
  by (auto simp: withheld_def scrub_field_clean scrub_field_hit)

lemma scrub_observation_eq:
  "scrub_observation X (Some r) ob =
     (let hit = (ob_hex ob = REDACTED \<or> \<not> ob_clean X r ob)
      in ob\<lparr>ob_source := withheld r (ob_source ob), ob_destination := withheld r (ob_destination ob),
            ob_text := withheld r (ob_text ob), ob_problem := withheld r (ob_problem ob),
            ob_listener_binding := withheld r (ob_listener_binding ob),
            ob_tlvs := (if hit then map (\<lambda>_. REDACTED) (ob_tlvs ob) else ob_tlvs ob),
            ob_hex := (if hit then REDACTED else ob_hex ob)\<rparr>)"
proof -
  have t: "map (\<lambda>t. if r t \<noteq> t then REDACTED else t) (ob_tlvs ob) = ob_tlvs ob" if "\<not> list_ex (\<lambda>t. r t \<noteq> t) (ob_tlvs ob)"
    using that by (auto simp: list_ex_iff intro: map_idI)
  have h: "(ob_hex ob = REDACTED \<or> \<not> ob_clean X r ob) \<longleftrightarrow>
      ((ob_hex ob = REDACTED \<or> r (strip_suffix TAG_MARK (ob_hex ob)) \<noteq> strip_suffix TAG_MARK (ob_hex ob)
         \<or> (case hex_decode X (strip_suffix TAG_MARK (ob_hex ob)) of
              Some bytes \<Rightarrow> (let text = from_utf8_lossy (octet_text bytes) in r text \<noteq> text)
            | None \<Rightarrow> False))
       \<or> \<not> field_clean r (ob_source ob) \<or> \<not> field_clean r (ob_destination ob) \<or> \<not> field_clean r (ob_text ob)
       \<or> \<not> field_clean r (ob_problem ob) \<or> \<not> field_clean r (ob_listener_binding ob) \<or> list_ex (\<lambda>t. r t \<noteq> t) (ob_tlvs ob))"
    by (auto simp: ob_clean_def ob_fields_def Let_def field_clean_def list_all_iff list_ex_iff split: option.splits)
  show ?thesis
    unfolding h using t by (simp add: scrub_observation_def scrub_field_eq Let_def comp_def)
qed

lemma withheld_idem [simp]: "withheld r (withheld r f) = withheld r f"
  by (simp add: withheld_def)

lemma ob_clean_same: "ob_clean X r ob \<Longrightarrow> ob_hex ob \<noteq> REDACTED \<Longrightarrow> scrub_observation X (Some r) ob = ob"
proof -
  assume a: "ob_clean X r ob" "ob_hex ob \<noteq> REDACTED"
  then have "withheld r (ob_source ob) = ob_source ob" "withheld r (ob_destination ob) = ob_destination ob"
    "withheld r (ob_text ob) = ob_text ob" "withheld r (ob_problem ob) = ob_problem ob"
    "withheld r (ob_listener_binding ob) = ob_listener_binding ob"
    by (simp_all add: withheld_def ob_clean_def ob_fields_def)
  then show ?thesis by (intro proxy_header_observation.equality) (simp_all add: scrub_observation_eq a Let_def)
qed

text \<open>
  What the evidence of a PROXY header keeps once the redactor \<open>r\<close> has been applied: either the
  observation is as it was and nothing in it, the text of the recorded bytes included, is something
  \<open>r\<close> would change, or the recorded bytes and every TLV summary are withheld and each other text
  field is withheld or unchanged by \<open>r\<close>.  A second pass changes nothing.
\<close>

lemma observation_scrubbed:
  "(scrub_observation X (Some r) ob = ob \<and> ob_clean X r ob
    \<or> ob_hex (scrub_observation X (Some r) ob) = REDACTED
      \<and> ob_tlvs (scrub_observation X (Some r) ob) = map (\<lambda>_. REDACTED) (ob_tlvs ob)
      \<and> list_all (\<lambda>f. f = Some REDACTED \<or> field_clean r f) (ob_fields (scrub_observation X (Some r) ob)))
   \<and> scrub_observation X (Some r) (scrub_observation X (Some r) ob) = scrub_observation X (Some r) ob"
proof (cases "ob_clean X r ob \<and> ob_hex ob \<noteq> REDACTED")
  case True
  then show ?thesis by (simp add: ob_clean_same)
next
  case False
  then have e: "scrub_observation X (Some r) ob =
      ob\<lparr>ob_source := withheld r (ob_source ob), ob_destination := withheld r (ob_destination ob),
         ob_text := withheld r (ob_text ob), ob_problem := withheld r (ob_problem ob),
         ob_listener_binding := withheld r (ob_listener_binding ob),
         ob_tlvs := map (\<lambda>_. REDACTED) (ob_tlvs ob), ob_hex := REDACTED\<rparr>"
    unfolding scrub_observation_eq Let_def by auto
  have "scrub_observation X (Some r) (scrub_observation X (Some r) ob) = scrub_observation X (Some r) ob"
    unfolding e by (simp add: scrub_observation_eq Let_def comp_def)
  moreover have "list_all (\<lambda>f. f = Some REDACTED \<or> field_clean r f) (ob_fields (scrub_observation X (Some r) ob))"
    unfolding e by (auto simp: ob_fields_def withheld_def list_all_iff)
  ultimately show ?thesis by (simp add: e)
qed

section \<open>What a receiver reads\<close>

definition plan_addresses :: "header_plan \<Rightarrow> socket_addr option \<Rightarrow> socket_addr option \<Rightarrow> (socket_addr \<times> socket_addr) option" where
  "plan_addresses p lcl remote =
     (case (if hp_source p = None then lcl else hp_source p, if hp_destination p = None then remote else hp_destination p) of
        (Some s, Some d) \<Rightarrow> Some (canonical s, canonical d)
      | _ \<Rightarrow> None)"

definition one_family :: "socket_addr \<times> socket_addr \<Rightarrow> socket_addr \<times> socket_addr" where
  "one_family a = (case a of (src, dst) \<Rightarrow>
     if is_ipv4 (fst src) \<and> is_ipv4 (fst dst) then (src, dst)
     else ((V6 (to_v6 (fst src)), snd src), (V6 (to_v6 (fst dst)), snd dst)))"

text \<open>The meaning of a v2 plan: what a receiver should take from a header of \<open>n\<close> bytes.\<close>

definition v2_meaning :: "header_plan \<Rightarrow> socket_addr option \<Rightarrow> socket_addr option \<Rightarrow> nat \<Rightarrow> stream_header option" where
  "v2_meaning p lcl remote n =
     (if hp_command p = Local then Some (NoAddress True True n)
      else if hp_family p = Unspec then Some (NoAddress True False n)
      else map_option (\<lambda>a. case one_family a of (src, dst) \<Rightarrow> Forwarded True src dst n) (plan_addresses p lcl remote))"

definition v1_meaning :: "header_plan \<Rightarrow> socket_addr option \<Rightarrow> socket_addr option \<Rightarrow> nat \<Rightarrow> stream_header option" where
  "v1_meaning p lcl remote n =
     (if hp_family p = Unspec then Some (NoAddress False False n)
      else map_option (\<lambda>(src, dst). Forwarded False src dst n) (plan_addresses p lcl remote))"

lemma nth_pair: "Suc i < length xs \<Longrightarrow> [xs ! i, xs ! Suc i] = take 2 (drop i xs)"
  by (simp add: numeral_2_eq_2 Cons_nth_drop_Suc [symmetric])

lemma of_from_to_be: "LENGTH('a::len) \<le> 8 * n \<Longrightarrow> of_nat (from_be (to_be n w)) = (w :: 'a word)"
proof -
  assume "LENGTH('a) \<le> 8 * n"
  then have "(2 :: nat) ^ LENGTH('a) \<le> 2 ^ (8 * n)" by (rule power_increasing) simp
  also have "\<dots> = 256 ^ n" by (simp add: power_mult)
  finally have "unat w < 256 ^ n" using unsigned_less [of w, where ?'a = nat] by linarith
  then show ?thesis by (simp add: from_to_be)
qed

lemma length_V2_SIG [simp]: "length V2_SIG = 12"
  by (simp add: V2_SIG_def)

lemma pick_Inr: "pick c s which = Inr (a, org) \<Longrightarrow> (if c = None then s else c) = Some a"
  by (auto simp: pick_def split: option.splits)

lemma plan_addresses_pick:
  "pick (hp_source p) lcl w = Inr (s, so) \<Longrightarrow> pick (hp_destination p) remote w' = Inr (d, dor) \<Longrightarrow>
   plan_addresses p lcl remote = Some (canonical s, canonical d)"
  by (drule pick_Inr)+ (simp add: plan_addresses_def)

lemma check_v2_frame:
  assumes "length block \<le> 65535"
  shows "check_stream_header X (V2_SIG @ [ver_cmd] @ [fam] @ to_be 2 (of_nat (length block) :: 16 word) @ block @ rest) =
    (if drop_bit 4 ver_cmd \<noteq> 2 then Inl (''unsupported PROXY v2 version '' @ show_nat (unat (drop_bit 4 ver_cmd)))
     else if V2_MAX_ADDR_LEN < length block then
       Inl (''PROXY v2 address block length '' @ show_nat (length block) @ '' exceeds the '' @ show_nat V2_MAX_ADDR_LEN @ ''-byte cap'')
     else if ver_cmd AND 0x0f = 0 then Inr (NoAddress True True (16 + length block))
     else if ver_cmd AND 0x0f = 1 then check_v2_block fam block (16 + length block)
     else Inl (''unsupported PROXY v2 command 0x'' @ two_hex (ver_cmd AND 0x0f)))"
proof -
  let ?len = "to_be 2 (of_nat (length block) :: 16 word)"
  let ?bytes = "V2_SIG @ [ver_cmd] @ [fam] @ ?len @ block @ rest"
  have "take 2 (drop 14 ?bytes) = ?len" by simp
  then have "[?bytes ! 14, ?bytes ! 15] = ?len" using nth_pair [of 14 ?bytes] by simp
  moreover have "unat (of_nat (length block) :: 16 word) = length block"
    using assms by (simp add: unat_of_nat take_bit_nat_eq_self)
  then have "from_be ?len = length block" using assms by (simp add: from_to_be)
  ultimately have l: "from_be [?bytes ! 14, ?bytes ! 15] = length block" by simp
  have n: "?bytes ! 12 = ver_cmd" "?bytes ! 13 = fam" by (simp_all add: nth_append)
  have "take 6 ?bytes \<noteq> text_bytes ''PROXY ''" "take 6 ?bytes = take 6 V2_SIG"
    by (simp_all add: V2_SIG_def text_bytes_def byte_def)
  then have "check_stream_header X ?bytes = check_v2 ?bytes" by (simp add: check_stream_header_def del: append_assoc)
  moreover have "take 12 ?bytes = V2_SIG" "drop 16 ?bytes = block @ rest" by simp_all
  ultimately show ?thesis unfolding check_v2_def l n Let_def by simp
qed

lemma fixed_block_length:
  "length (fixed_block src dst) = (if is_ipv4 (fst src) \<and> is_ipv4 (fst dst) then 12 else 36)"
  by (simp add: fixed_block_def is_ipv4_def octets4_def octets6_def split: ip_addr.splits)

lemma fixed_block_v4:
  "is_ipv4 (fst src) \<Longrightarrow> is_ipv4 (fst dst) \<Longrightarrow> \<exists>s d. src = (V4 s, snd src) \<and> dst = (V4 d, snd dst) \<and>
     fixed_block src dst = octets4 s @ octets4 d @ to_be 2 (snd src) @ to_be 2 (snd dst)"
  by (cases src; cases dst) (auto simp: fixed_block_def is_ipv4_def split: ip_addr.splits)

lemma fixed_block_v6:
  "\<not> (is_ipv4 (fst src) \<and> is_ipv4 (fst dst)) \<Longrightarrow>
     fixed_block src dst = octets6 (to_v6 (fst src)) @ octets6 (to_v6 (fst dst)) @ to_be 2 (snd src) @ to_be 2 (snd dst)"
  by (auto simp: fixed_block_def is_ipv4_def split: ip_addr.splits)

lemma check_v2_block_fixed:
  "check_v2_block (if is_ipv4 (fst src) \<and> is_ipv4 (fst dst) then 0x11 else 0x21) (fixed_block src dst @ tlvs) n =
     Inr (case one_family (src, dst) of (s, d) \<Rightarrow> Forwarded True s d n)"
proof (cases "is_ipv4 (fst src) \<and> is_ipv4 (fst dst)")
  case True
  then obtain s d where sd: "src = (V4 s, snd src)" "dst = (V4 d, snd dst)"
    and f: "fixed_block src dst = octets4 s @ octets4 d @ to_be 2 (snd src) @ to_be 2 (snd dst)"
    using fixed_block_v4 by blast
  let ?b = "octets4 s @ octets4 d @ to_be 2 (snd src) @ to_be 2 (snd dst) @ tlvs"
  have "[?b ! 8, ?b ! Suc 8] = to_be 2 (snd src)" "[?b ! 10, ?b ! Suc 10] = to_be 2 (snd dst)"
    by (subst nth_pair; simp add: octets4_def)+
  then have "from_be [?b ! 8, ?b ! 9] = from_be (to_be 2 (snd src))" "from_be [?b ! 10, ?b ! 11] = from_be (to_be 2 (snd dst))"
    by simp_all
  moreover have "take 4 ?b = octets4 s" "take 4 (drop 4 ?b) = octets4 d" "12 \<le> length ?b" by (simp_all add: octets4_def)
  moreover have "(0x11 :: octet) AND 0x0f = 1" "drop_bit 4 (0x11 :: octet) = 1" by (simp_all add: drop_bit_eq_div)
  ultimately show ?thesis
    unfolding f check_v2_block_def using True sd
    by (simp add: Let_def be_word_from_be of_from_to_be octets4_def one_family_def not_less)
next
  case False
  let ?b = "octets6 (to_v6 (fst src)) @ octets6 (to_v6 (fst dst)) @ to_be 2 (snd src) @ to_be 2 (snd dst) @ tlvs"
  have "[?b ! 32, ?b ! Suc 32] = to_be 2 (snd src)" "[?b ! 34, ?b ! Suc 34] = to_be 2 (snd dst)"
    by (subst nth_pair; simp add: octets6_def)+
  then have "from_be [?b ! 32, ?b ! 33] = from_be (to_be 2 (snd src))" "from_be [?b ! 34, ?b ! 35] = from_be (to_be 2 (snd dst))"
    by simp_all
  moreover have "take 16 ?b = octets6 (to_v6 (fst src))" "take 16 (drop 16 ?b) = octets6 (to_v6 (fst dst))" "36 \<le> length ?b"
    by (simp_all add: octets6_def)
  moreover have "(0x21 :: octet) AND 0x0f = 1" "drop_bit 4 (0x21 :: octet) = 2" by (simp_all add: drop_bit_eq_div)
  ultimately show ?thesis
    unfolding fixed_block_v6 [OF False] check_v2_block_def one_family_def prod.case if_not_P [OF False]
    by (simp add: Let_def be_word_from_be of_from_to_be octets6_def not_less)
qed

lemma build_v2_bytes:
  assumes "build_v2 X p lcl remote redact = Inr b"
  obtains vc fam fixed tlvs ob where "v2_addresses p lcl remote ((blank_observation FmtV2)\<lparr>ob_command := Some (hp_command p)\<rparr>) = Inr ((vc, fam, fixed), ob)"
    and "length (fixed @ tlvs) \<le> 65535"
    and "bh_bytes b = V2_SIG @ [vc] @ [fam] @ to_be 2 (of_nat (length (fixed @ tlvs)) :: 16 word) @ (fixed @ tlvs)"
  using assms by (auto simp: build_v2_def Let_def split: sum.splits prod.splits if_splits)

lemma v2_addresses_cases:
  assumes "v2_addresses p lcl remote ob = Inr ((vc, fam, fixed), ob')"
  shows "hp_command p = Local \<and> vc = 0x20 \<and> fam = 0 \<and> fixed = []
     \<or> hp_command p = Proxy \<and> hp_family p = Unspec \<and> vc = 0x21 \<and> fam = 0 \<and> fixed = []
     \<or> hp_command p = Proxy \<and> hp_family p = Auto \<and> vc = 0x21 \<and> (\<exists>s d. plan_addresses p lcl remote = Some (s, d) \<and>
         fam = (if is_ipv4 (fst s) \<and> is_ipv4 (fst d) then 0x11 else 0x21) \<and> fixed = fixed_block s d)"
proof (cases "hp_command p = Proxy \<and> hp_family p = Auto")
  case True
  with assms obtain s so d dor where "pick (hp_source p) lcl ''source'' = Inr (s, so)" "pick (hp_destination p) remote ''destination'' = Inr (d, dor)"
    and e: "vc = 0x21" "fam = (if is_ipv4 (fst (canonical s)) \<and> is_ipv4 (fst (canonical d)) then 0x11 else 0x21)"
      "fixed = fixed_block (canonical s) (canonical d)"
    unfolding v2_addresses_def by (simp add: Let_def split: sum.splits prod.splits)
  from plan_addresses_pick [OF this(1,2)] True e show ?thesis by blast
next
  case False
  with assms show ?thesis by (cases "hp_command p"; cases "hp_family p") (simp_all add: v2_addresses_def)
qed

lemma v2_addresses_meaning:
  assumes "v2_addresses p lcl remote ob = Inr ((vc, fam, fixed), ob')"
  shows "\<exists>h. v2_meaning p lcl remote n = Some h \<and>
    (if hp_command p = Local then Inr (NoAddress True True n) else check_v2_block fam (fixed @ tlvs) n) = Inr h"
  using v2_addresses_cases [OF assms]
proof (elim disjE conjE exE)
  fix s d
  assume a: "hp_command p = Proxy" "hp_family p = Auto" "plan_addresses p lcl remote = Some (s, d)"
    "fam = (if is_ipv4 (fst s) \<and> is_ipv4 (fst d) then 0x11 else 0x21)" "fixed = fixed_block s d"
  have "check_v2_block fam (fixed @ tlvs) n = Inr (case one_family (s, d) of (s, d) \<Rightarrow> Forwarded True s d n)"
    unfolding a(4,5) by (rule check_v2_block_fixed)
  with a(1-3) show ?thesis by (simp add: v2_meaning_def)
qed (simp_all add: v2_meaning_def check_v2_block_def)

definition demo_externs :: externs where
  "demo_externs =
     \<lparr>hex_encode = (\<lambda>bs. concat (map two_hex bs)), hex_decode = (\<lambda>_. None),
      hmac_sha256 = (\<lambda>k m. replicate 31 0 @ [sum_list k + sum_list m]), debug_str = (\<lambda>s. s)\<rparr>"

definition demo_plan :: "proxy_header_version \<Rightarrow> header_plan" where
  "demo_plan v =
     \<lparr>hp_version = v, hp_command = Proxy, hp_family = Auto, hp_source = Some (V4 0x0A000001, 4000),
      hp_destination = None, hp_tlvs = [(5, [7])], hp_raw = []\<rparr>"



lemma split_pred_word: "list_all (\<lambda>c. \<not> P c) w \<Longrightarrow> split_pred P w = [w]"
  by (induction w) simp_all

lemma split_pred_append: "list_all (\<lambda>c. \<not> P c) w \<Longrightarrow> P d \<Longrightarrow> split_pred P (w @ d # r) = w # split_pred P r"
  by (induction w) simp_all

definition word_text :: "string \<Rightarrow> bool" where
  "word_text w \<longleftrightarrow> w \<noteq> [] \<and> list_all (\<lambda>c. \<not> is_ascii_whitespace c) w \<and> list_all (\<lambda>c. byte c < 128) w"

lemma split_ascii_words:
  "word_text w \<Longrightarrow> split_ascii_whitespace (w @ '' '' @ r) = w # split_ascii_whitespace r"
  "word_text w \<Longrightarrow> split_ascii_whitespace w = [w]"
proof -
  have "is_ascii_whitespace CHR '' ''" by (simp add: is_ascii_whitespace_def byte_def)
  then show "word_text w \<Longrightarrow> split_ascii_whitespace (w @ '' '' @ r) = w # split_ascii_whitespace r"
    by (simp add: split_ascii_whitespace_def word_text_def split_pred_append)
  show "word_text w \<Longrightarrow> split_ascii_whitespace w = [w]"
    by (simp add: split_ascii_whitespace_def word_text_def split_pred_word)
qed

lemma ip_char_word: "ip_char c \<Longrightarrow> \<not> is_ascii_whitespace c \<and> byte c < 128"
  by (auto simp: ip_char_def radix_val_def hex_val_def is_ascii_whitespace_def Let_def byte_def split: if_splits)

lemma word_show_ip [simp]: "word_text (show_ip ip)"
  using show_ip_chars [of ip] ip_char_word by (auto simp: word_text_def list_all_iff)

lemma word_show_nat [simp]: "word_text (show_nat n)"
  using show_nat_ip_char [of n] ip_char_word by (auto simp: word_text_def list_all_iff)

lemma word_literals [simp]: "word_text ''PROXY''" "word_text ''TCP4''" "word_text ''TCP6''" "word_text ''UNKNOWN''"
  by (simp_all add: word_text_def is_ascii_whitespace_def byte_def)

lemma unat_byte [simp]: "unat (of_nat (byte c) :: octet) = byte c"
  by (simp add: byte_def unat_of_nat take_bit_nat_eq_self)

lemma octet_text_bytes [simp]: "octet_text (text_bytes s) = s"
proof -
  have "char_of (byte c) = c" for c by (simp add: byte_def)
  then show ?thesis by (simp add: octet_text_def text_bytes_def comp_def)
qed

lemma crlf_pos_append: "13 \<notin> set xs \<Longrightarrow> crlf_pos (xs @ 13 # 10 # r) = Some (length xs)"
proof (induction xs)
  case (Cons x xs)
  then show ?case by (cases xs) auto
qed simp

lemma text_bytes_no_cr: "word_text w \<or> w = '' '' \<Longrightarrow> 13 \<notin> set (text_bytes w)"
proof
  assume "13 \<in> set (text_bytes w)" and w: "word_text w \<or> w = '' ''"
  then obtain c where c: "c \<in> set w" "of_nat (byte c) = (13 :: octet)" by (auto simp: text_bytes_def)
  then have "byte c = 13" using unat_byte [of c] by simp
  with c(1) w show False by (auto simp: word_text_def list_all_iff is_ascii_whitespace_def byte_def)
qed

lemma text_bytes_space: "text_bytes (CHR '' '' # s) = 32 # text_bytes s" "text_bytes [] = []"
  by (simp_all add: text_bytes_def byte_def)

text \<open>A line of words separated by single spaces, cut out of the stream and split again.\<close>

lemma check_v1_words:
  assumes "list_all word_text ws" "ws \<noteq> []" "hd ws = ''PROXY''" "1 < length ws" "length (join_with '' '' ws) \<le> 107"
  shows "check_stream_header X (text_bytes (join_with '' '' ws) @ [13, 10] @ rest) =
    check_v1_line X (join_with '' '' ws) (length (join_with '' '' ws) + 2)"
    and "split_ascii_whitespace (join_with '' '' ws) = ws"
proof -
  let ?l = "join_with '' '' ws"
  let ?b = "text_bytes ?l @ [13, 10] @ rest"
  have tb: "text_bytes (a @ b) = text_bytes a @ text_bytes b" for a b by (simp add: text_bytes_def)
  have "13 \<notin> set (text_bytes ?l)" using assms(1)
    by (induction "'' ''" ws rule: join_with.induct) (simp_all add: tb text_bytes_space text_bytes_no_cr)
  moreover have "109 - length ?l = Suc (Suc (107 - length ?l))" using assms(5) by simp
  then have "take 109 ?b = text_bytes ?l @ 13 # 10 # take (107 - length ?l) rest"
    using assms(5) by (simp add: text_bytes_def)
  ultimately have pos: "crlf_pos (take 109 ?b) = Some (length ?l)"
    using crlf_pos_append by (simp add: text_bytes_def)
  have len: "length (text_bytes s) = length s" for s by (simp add: text_bytes_def)
  have line: "octet_text (take (length ?l) ?b) = ?l" using octet_text_bytes [of ?l] by (simp add: len)
  have "list_all (\<lambda>c. byte c < 128) ?l"
    using assms(1) by (intro join_with_all) (auto simp: word_text_def list_all_iff byte_def)
  then have u: "is_utf8 ?l" by (rule is_utf8_ascii)
  obtain w ws' where ws: "ws = ''PROXY'' # w # ws'" using assms(2-4) by (cases ws; cases "tl ws") auto
  then have "\<exists>t. ?l = ''PROXY '' @ t" by simp
  then have "take 6 ?b = text_bytes ''PROXY ''" by (auto simp: tb text_bytes_def)
  then show "check_stream_header X ?b = check_v1_line X ?l (length ?l + 2)"
    unfolding check_stream_header_def pos using u line by (simp add: Let_def)
  show "split_ascii_whitespace ?l = ws" using assms(1,2)
    by (induction "'' ''" ws rule: join_with.induct) (simp_all add: split_ascii_words split_ascii_words [unfolded append_Cons append_Nil])
qed

text \<open>
  A v1 connection header read back: a receiver that parses the line of a built v1 header gets the
  declared canonical addresses and ports (or UNKNOWN) and the length of the line with its CRLF,
  whatever follows it on the stream.
\<close>

lemma v1_header_read_back:
  assumes "hp_version p = HV1" "build X p lcl remote redact = Inr b"
  shows "\<exists>h. v1_meaning p lcl remote (length (bh_bytes b)) = Some h \<and> check_stream_header X (bh_bytes b @ rest) = Inr h"
proof -
  from assms obtain b' where b': "build_v1 X p lcl remote redact = Inr b'" and bb: "bh_bytes b = bh_bytes b'"
    by (auto simp: build_def split: sum.splits)
  have fin: "length line \<le> 107 \<and> bh_bytes b' = text_bytes line @ [13, 10]" if "finish_v1 X line ob redact = Inr b'" for line ob
    using that by (auto simp: finish_v1_def Let_def V1_MAX_LINE_def split: if_splits prod.splits)
  have len: "length (text_bytes s) = length s" for s by (simp add: text_bytes_def)
  show ?thesis
  proof (cases "hp_family p")
    case Unspec
    let ?ws = "[''PROXY'', ''UNKNOWN'']"
    from b' Unspec have "bh_bytes b = text_bytes (join_with '' '' ?ws) @ [13, 10]"
      using fin by (auto simp: build_v1_def bb Let_def split: if_splits)
    moreover have "check_v1_line X (join_with '' '' ?ws) n = Inr (NoAddress False False n)" for n
      unfolding check_v1_line_def by (subst check_v1_words(2)) simp_all
    ultimately show ?thesis
      using check_v1_words(1) [of ?ws X rest] Unspec by (simp add: v1_meaning_def len)
  next
    case Auto
    with b' obtain s so d dor where pk: "pick (hp_source p) lcl ''source'' = Inr (s, so)" "pick (hp_destination p) remote ''destination'' = Inr (d, dor)"
      by (auto simp: build_v1_def Let_def split: if_splits sum.splits)
    let ?s = "canonical s" and ?d = "canonical d"
    let ?proto = "if is_ipv4 (fst ?s) then ''TCP4'' else ''TCP6''"
    let ?ws = "[''PROXY'', ?proto, show_ip (fst ?s), show_ip (fst ?d), show_nat (unat (snd ?s)), show_nat (unat (snd ?d))]"
    from b' Auto pk have fam: "is_ipv4 (fst ?s) = is_ipv4 (fst ?d)"
      and f: "\<exists>ob. finish_v1 X (join_with '' '' ?ws) ob redact = Inr b'"
      by (auto simp: build_v1_def Let_def split: if_splits)
    from f obtain ob where "finish_v1 X (join_with '' '' ?ws) ob redact = Inr b'" by blast
    from fin [OF this] have l: "length (join_with '' '' ?ws) \<le> 107" and by': "bh_bytes b = text_bytes (join_with '' '' ?ws) @ [13, 10]"
      unfolding bb by blast+
    have port: "unat (q :: 16 word) \<le> 65535" for q using unsigned_less [of q, where ?'a = nat] by simp
    have ws: "list_all word_text ?ws" by simp
    have "check_v1_line X (join_with '' '' ?ws) n = Inr (Forwarded False ?s ?d n)" for n
      unfolding check_v1_line_def using fam port
      by (subst check_v1_words(2) [OF ws _ _ _ l]) (simp_all add: check_v1_addresses_def v1_field_def parse_show_ip)
    then show ?thesis
      using check_v1_words(1) [OF ws _ _ _ l, of X rest] plan_addresses_pick [OF pk] Auto by (simp add: v1_meaning_def by' len)
  qed
qed

end
