(* ===== verification/Proxy_Envelope.thy ===== *)
theory Proxy_Envelope
  imports Proxy_Protocol
begin

text \<open>
  The datagram half of \<^verbatim>\<open>crates/anvil-transport/src/proxy_protocol.rs\<close>: listener bindings and freshness
  records, \<^verbatim>\<open>encode_datagram\<close> with its HMAC tag, the envelope plan and the \<^verbatim>\<open>Enveloper\<close> that numbers every
  outgoing datagram, and the one-line summaries.  \<open>now\<close> is \<^verbatim>\<open>unix_now_millis()\<close>.
\<close>

section \<open>Bindings and freshness\<close>

record listener_binding =
  lb_protocol :: datagram_listener_protocol
  lb_bind_addr :: ip_addr
  lb_port :: "16 word"

definition new_binding :: "datagram_listener_protocol \<Rightarrow> ip_addr \<Rightarrow> 16 word \<Rightarrow> listener_binding" where
  "new_binding protocol bind_addr port = \<lparr>lb_protocol = protocol, lb_bind_addr = canonical_ip bind_addr, lb_port = port\<rparr>"

definition canonical_domain :: "listener_binding \<Rightarrow> octet list" where
  "canonical_domain b =
     DOMAIN_LABEL @ [DOMAIN_BINDING_VERSION] @
     [case lb_protocol b of Udp \<Rightarrow> 0x01 | Dtls \<Rightarrow> 0x02] @
     (case lb_bind_addr b of V4 v4 \<Rightarrow> [0x04] @ octets4 v4 | V6 v6 \<Rightarrow> [0x06] @ octets6 v6) @
     to_be 2 (lb_port b)"

definition binding_label :: "listener_binding \<Rightarrow> string" where
  "binding_label b =
     (case lb_protocol b of Udp \<Rightarrow> ''udp'' | Dtls \<Rightarrow> ''dtls'') @ '' '' @ show_sock (lb_bind_addr b, lb_port b)"

record freshness =
  fr_sender_id :: "32 word"
  fr_epoch :: "64 word"
  fr_sequence :: "64 word"
  fr_timestamp_ms :: "64 word"

definition encode_value :: "freshness \<Rightarrow> octet list" where
  "encode_value f =
     [FRESHNESS_VERSION] @ to_be 4 (fr_sender_id f) @ to_be 8 (fr_epoch f) @ to_be 8 (fr_sequence f) @ to_be 8 (fr_timestamp_ms f)"

section \<open>Envelopes\<close>

datatype envelope_form =
    FormLocal
  | FormUnspec
  | FormForwarded socket_addr socket_addr

record envelope_key =
  ek_secret :: "octet list"
  ek_binding :: listener_binding
  ek_freshness :: freshness

definition form_bytes :: "envelope_form \<Rightarrow> octet \<times> octet \<times> octet list" where
  "form_bytes form =
     (case form of
        FormLocal \<Rightarrow> (0x20, 0x00, [])
      | FormUnspec \<Rightarrow> (0x21, 0x02, [])
      | FormForwarded source destination \<Rightarrow>
          (let s = canonical source; d = canonical destination
           in (0x21, if is_ipv4 (fst s) \<and> is_ipv4 (fst d) then 0x12 else 0x22, fixed_block s d)))"

definition encode_datagram :: "externs \<Rightarrow> envelope_form \<Rightarrow> octet list \<Rightarrow> envelope_key option \<Rightarrow> octet list \<times> nat option" where
  "encode_datagram X form payload auth =
     (case form_bytes form of
        (ver_cmd, fam, fixed) \<Rightarrow>
          (let tlv_len = (if auth \<noteq> None then 3 + FRESHNESS_VALUE_LEN + 3 + AUTH_TAG_LEN else 0);
               addr_len = (of_nat (length fixed + tlv_len) :: 16 word);
               out = V2_SIG @ [ver_cmd] @ [fam] @ to_be 2 addr_len @ fixed
           in case auth of
                None \<Rightarrow> (out @ payload, None)
              | Some k \<Rightarrow>
                  (let out = out @ [FRESHNESS_TLV_TYPE] @ to_be 2 (of_nat FRESHNESS_VALUE_LEN :: 16 word) @ encode_value (ek_freshness k)
                         @ [AUTH_TLV_TYPE] @ to_be 2 (of_nat AUTH_TAG_LEN :: 16 word);
                       tag_start = length out;
                       out = out @ replicate AUTH_TAG_LEN 0 @ payload;
                       tag = hmac_sha256 X (ek_secret k)
                         (canonical_domain (ek_binding k) @ take tag_start out @ drop (tag_start + AUTH_TAG_LEN) out)
                   in (take tag_start out @ tag @ drop (tag_start + AUTH_TAG_LEN) out, Some tag_start))))"

section \<open>The enveloper\<close>

record envelope_auth_plan =
  ea_secret :: "octet list"
  ea_protocol :: datagram_listener_protocol
  ea_bind_addr :: ip_addr
  ea_port :: "16 word option"
  ea_sender_id :: "32 word"
  ea_epoch :: "64 word option"
  ea_first_sequence :: "64 word"
  ea_timestamp_offset_ms :: "64 word"

record envelope_plan =
  ep_command :: proxy_command
  ep_family :: proxy_address_family
  ep_source :: "socket_addr option"
  ep_destination :: "socket_addr option"
  ep_auth :: "envelope_auth_plan option"

record minting =
  mi_secret :: "octet list"
  mi_binding :: listener_binding
  mi_sender_id :: "32 word"
  mi_epoch :: "64 word"
  mi_next_sequence :: "64 word"
  mi_timestamp_offset_ms :: "64 word"

record enveloper =
  ev_form :: envelope_form
  ev_minting :: "minting option"
  ev_observation :: proxy_header_observation
  ev_redact :: redact

definition start_form ::
  "envelope_plan \<Rightarrow> socket_addr option \<Rightarrow> socket_addr option \<Rightarrow> proxy_header_observation \<Rightarrow>
   string + envelope_form \<times> proxy_header_observation" where
  "start_form p lcl remote ob =
     (case (ep_command p, ep_family p) of
        (Local, _) \<Rightarrow> Inr (FormLocal, ob\<lparr>ob_family := ''AF_UNSPEC''\<rparr>)
      | (Proxy, Unspec) \<Rightarrow> Inr (FormUnspec, ob\<lparr>ob_family := ''AF_UNSPEC''\<rparr>)
      | (Proxy, Auto) \<Rightarrow>
          (case pick (ep_source p) lcl ''source'' of Inl e \<Rightarrow> Inl e | Inr (s, so) \<Rightarrow>
           case pick (ep_destination p) remote ''destination'' of Inl e \<Rightarrow> Inl e | Inr (d, dor) \<Rightarrow>
           if is_unspecified (fst s) then Inl ''the local socket address is unspecified; set the envelope source explicitly''
           else let s = canonical s; d = canonical d
                in Inr (FormForwarded s d,
                        ob\<lparr>ob_family := (if is_ipv4 (fst s) \<and> is_ipv4 (fst d) then ''AF_INET'' else ''AF_INET6''),
                           ob_source := Some (show_sock s), ob_source_origin := Some so,
                           ob_destination := Some (show_sock d), ob_destination_origin := Some dor\<rparr>)))"

definition listener_port :: "envelope_auth_plan \<Rightarrow> socket_addr option \<Rightarrow> socket_addr option \<Rightarrow> 16 word option" where
  "listener_port a destination remote =
     (case (ea_port a, destination, remote) of
        (Some p, _, _) \<Rightarrow> Some p
      | (None, Some d, _) \<Rightarrow> Some (snd d)
      | (None, None, Some r) \<Rightarrow> Some (snd r)
      | (None, None, None) \<Rightarrow> None)"

definition start :: "envelope_plan \<Rightarrow> socket_addr option \<Rightarrow> socket_addr option \<Rightarrow> 64 word \<Rightarrow> string + enveloper" where
  "start p lcl remote now =
     (case start_form p lcl remote ((blank_observation FmtV2Datagram)\<lparr>ob_command := Some (ep_command p)\<rparr>) of
        Inl e \<Rightarrow> Inl e
      | Inr (form, ob) \<Rightarrow>
          (case ep_auth p of
             None \<Rightarrow> Inr \<lparr>ev_form = form, ev_minting = None, ev_observation = ob, ev_redact = None\<rparr>
           | Some a \<Rightarrow>
               (if length (ea_secret a) < MIN_DATAGRAM_SECRET_BYTES then
                  Inl (''the datagram authentication secret must be at least '' @ show_nat MIN_DATAGRAM_SECRET_BYTES @ '' bytes'')
                else case listener_port a (ep_destination p) remote of
                       None \<Rightarrow> Inl ''the listener port is not known; set it explicitly''
                     | Some port \<Rightarrow>
                         (let binding = new_binding (ea_protocol a) (ea_bind_addr a) port;
                              epoch = (case ea_epoch a of Some e \<Rightarrow> e | None \<Rightarrow> now)
                          in Inr \<lparr>ev_form = form,
                               ev_minting = Some \<lparr>mi_secret = ea_secret a, mi_binding = binding, mi_sender_id = ea_sender_id a,
                                 mi_epoch = epoch, mi_next_sequence = ea_first_sequence a,
                                 mi_timestamp_offset_ms = ea_timestamp_offset_ms a\<rparr>,
                               ev_observation = ob\<lparr>ob_authenticated := True, ob_listener_binding := Some (binding_label binding),
                                 ob_sender_id := Some (ea_sender_id a), ob_epoch := Some epoch,
                                 ob_first_sequence := Some (ea_first_sequence a)\<rparr>,
                               ev_redact = None\<rparr>))))"

definition saturating_add_one :: "64 word \<Rightarrow> 64 word" where
  "saturating_add_one w = (if w = -1 then w else w + 1)"

definition saturating_add_signed :: "64 word \<Rightarrow> 64 word \<Rightarrow> 64 word" where
  "saturating_add_signed w i =
     (let t = uint w + sint i in if t < 0 then 0 else if 2 ^ 64 \<le> t then -1 else of_int t)"

definition with_redact :: "redact \<Rightarrow> enveloper \<Rightarrow> enveloper" where
  "with_redact redact e = e\<lparr>ev_redact := redact\<rparr>"

text \<open>The first datagram fixes the recorded envelope; each later one only moves the counters.\<close>

definition record_wrap ::
  "externs \<Rightarrow> octet list \<Rightarrow> nat option \<Rightarrow> freshness option \<Rightarrow> nat \<Rightarrow> proxy_header_observation \<Rightarrow> proxy_header_observation" where
  "record_wrap X datagram tag_at fresh header_len ob =
     (let ob = (if ob_datagrams ob = 0 then
                  (let ob = ob\<lparr>ob_length := of_nat header_len,
                        ob_hex := (case tag_at of
                           Some at \<Rightarrow> hex_encode X (take at datagram) @ TAG_MARK
                         | None \<Rightarrow> hex_encode X (take header_len datagram))\<rparr>
                   in case fresh of
                        None \<Rightarrow> ob
                      | Some f \<Rightarrow> ob\<lparr>ob_tlvs :=
                          [''0xE1 freshness v'' @ show_nat (unat FRESHNESS_VERSION) @ '' sender_id='' @ show_nat (unat (fr_sender_id f)) @
                           '' epoch='' @ show_nat (unat (fr_epoch f)) @ '' sequence='' @ show_nat (unat (fr_sequence f)) @
                           '' timestamp_ms='' @ show_nat (unat (fr_timestamp_ms f)),
                           ''0xE0 authentication tag ('' @ show_nat AUTH_TAG_LEN @ '' bytes, not recorded)'']\<rparr>)
                else ob);
          ob = (case fresh of
                  None \<Rightarrow> ob
                | Some f \<Rightarrow>
                    (let ob = ob\<lparr>ob_last_sequence := Some (fr_sequence f)\<rparr>
                     in if fr_sequence f = -1
                        then ob\<lparr>ob_problem := Some ''sequence u64::MAX is reserved; receivers refuse it (the sender must roll its epoch)''\<rparr>
                        else ob))
      in ob\<lparr>ob_datagrams := ob_datagrams ob + 1\<rparr>)"

definition mint :: "64 word \<Rightarrow> minting \<Rightarrow> freshness" where
  "mint now m =
     \<lparr>fr_sender_id = mi_sender_id m, fr_epoch = mi_epoch m, fr_sequence = mi_next_sequence m,
      fr_timestamp_ms = saturating_add_signed now (mi_timestamp_offset_ms m)\<rparr>"

definition wrap :: "externs \<Rightarrow> 64 word \<Rightarrow> octet list \<Rightarrow> enveloper \<Rightarrow> octet list \<times> enveloper" where
  "wrap X now payload e =
     (let (datagram, tag_at, fresh, m') =
        (case ev_minting e of
           None \<Rightarrow> (fst (encode_datagram X (ev_form e) payload None), None, None, None)
         | Some m \<Rightarrow>
             (let f = mint now m;
                  k = \<lparr>ek_secret = mi_secret m, ek_binding = mi_binding m, ek_freshness = f\<rparr>;
                  (d, at) = encode_datagram X (ev_form e) payload (Some k)
              in (d, at, Some f, Some (m\<lparr>mi_next_sequence := saturating_add_one (mi_next_sequence m)\<rparr>))));
          header_len = length datagram - length payload
      in (datagram, e\<lparr>ev_minting := m', ev_observation := record_wrap X datagram tag_at fresh header_len (ev_observation e)\<rparr>))"

definition enveloper_observation :: "externs \<Rightarrow> enveloper \<Rightarrow> proxy_header_observation" where
  "enveloper_observation X e = scrub_observation X (ev_redact e) (ev_observation e)"

definition address_arrow :: "proxy_header_observation \<Rightarrow> string" where
  "address_arrow ob =
     (case (ob_source ob, ob_destination ob) of
        (Some s, Some d) \<Rightarrow> '' '' @ s @ '' '' @ ARROW @ '' '' @ d
      | _ \<Rightarrow> [])"

definition enveloper_summary :: "externs \<Rightarrow> enveloper \<Rightarrow> string" where
  "enveloper_summary X e =
     (let ob = enveloper_observation X e;
          auth = (case (ob_listener_binding ob, ob_sender_id ob, ob_epoch ob) of
                    (Some b, Some s, Some ep) \<Rightarrow>
                      ''; authenticated for '' @ b @ '', sender '' @ show_nat (unat s) @ '', epoch '' @ show_nat (unat ep)
                  | _ \<Rightarrow> ''; unauthenticated'');
          cmd = (if ob_command ob = Some Local then ''LOCAL'' else ''PROXY'')
      in ''PROXY v2 DGRAM envelope ('' @ cmd @ '' '' @ ob_family ob @ address_arrow ob @ auth @ '') on every datagram'')"

definition header_summary :: "proxy_header_observation \<Rightarrow> string" where
  "header_summary ob =
     (let v = (case ob_format ob of
                 FmtV1 \<Rightarrow> ''PROXY v1'' | FmtV2 \<Rightarrow> ''PROXY v2'' | FmtRaw \<Rightarrow> ''raw PROXY header'' | FmtV2Datagram \<Rightarrow> ''PROXY v2 DGRAM'');
          cmd = (case ob_command ob of
                   Some Local \<Rightarrow> '' LOCAL''
                 | Some Proxy \<Rightarrow> if ob_format ob \<noteq> FmtV1 then '' PROXY'' else []
                 | None \<Rightarrow> []);
          wf = (if ob_well_formed ob then [] else '', malformed'')
      in v @ cmd @ '' '' @ ob_family ob @ address_arrow ob @ '' ('' @ show_nat (unat (ob_length ob)) @ '' bytes'' @ wf @ '')'')"

section \<open>What a tag authenticates\<close>

text \<open>The bytes before the tag.\<close>

definition auth_head :: "envelope_form \<Rightarrow> freshness \<Rightarrow> octet list" where
  "auth_head form f =
     (case form_bytes form of
        (ver_cmd, fam, fixed) \<Rightarrow>
          V2_SIG @ [ver_cmd] @ [fam] @ to_be 2 (of_nat (length fixed + 67) :: 16 word) @ fixed
          @ [FRESHNESS_TLV_TYPE] @ to_be 2 (29 :: 16 word) @ encode_value f @ [AUTH_TLV_TYPE] @ to_be 2 (32 :: 16 word))"

lemma encode_datagram_auth:
  "encode_datagram X form payload (Some k) =
     (auth_head form (ek_freshness k)
        @ hmac_sha256 X (ek_secret k) (canonical_domain (ek_binding k) @ auth_head form (ek_freshness k) @ payload) @ payload,
      Some (length (auth_head form (ek_freshness k))))"
proof -
  obtain vc fam fixed where f: "form_bytes form = (vc, fam, fixed)" by (cases "form_bytes form")
  show ?thesis
    by (simp add: encode_datagram_def auth_head_def f Let_def FRESHNESS_VALUE_LEN_def AUTH_TAG_LEN_def add.commute)
qed

text \<open>The input of the tag, read off the datagram.\<close>

definition mac_input :: "externs \<Rightarrow> envelope_form \<Rightarrow> octet list \<Rightarrow> envelope_key \<Rightarrow> octet list" where
  "mac_input X form payload k =
     (case encode_datagram X form payload (Some k) of
        (d, Some at) \<Rightarrow> canonical_domain (ek_binding k) @ take at d @ drop (at + AUTH_TAG_LEN) d
      | (d, None) \<Rightarrow> d)"

definition canon_form :: "envelope_form \<Rightarrow> envelope_form" where
  "canon_form form =
     (case form of
        FormForwarded s d \<Rightarrow> (case one_family (canonical s, canonical d) of (s', d') \<Rightarrow> FormForwarded s' d')
      | f \<Rightarrow> f)"

lemma mac_input_eq:
  "length (hmac_sha256 X (ek_secret k) (canonical_domain (ek_binding k) @ auth_head form (ek_freshness k) @ payload)) = AUTH_TAG_LEN \<Longrightarrow>
   mac_input X form payload k = canonical_domain (ek_binding k) @ auth_head form (ek_freshness k) @ payload"
  by (simp add: mac_input_def encode_datagram_auth)

lemma to_be_inject: "LENGTH('a::len) \<le> 8 * n \<Longrightarrow> to_be n w = to_be n (v :: 'a word) \<longleftrightarrow> w = v"
  by (metis of_from_to_be)

lemma octets_inject [simp]: "octets4 a = octets4 b \<longleftrightarrow> a = b" "octets6 c = octets6 d \<longleftrightarrow> c = d"
  by (simp_all add: octets4_def octets6_def to_be_inject)

lemma length_octets [simp]: "length (octets4 a) = 4" "length (octets6 c) = 16"
  by (simp_all add: octets4_def octets6_def)

lemma append_inject: "length a = length b \<Longrightarrow> a @ x = b @ y \<longleftrightarrow> a = b \<and> x = y"
  by simp

lemma canonical_domain_inject: "canonical_domain a @ x = canonical_domain b @ y \<Longrightarrow> a = b \<and> x = y"
  by (cases a; cases b)
    (auto simp: canonical_domain_def append_inject to_be_inject split: datagram_listener_protocol.splits ip_addr.splits)

lemma encode_value_inject: "encode_value f @ x = encode_value g @ y \<longleftrightarrow> f = g \<and> x = y"
  by (cases f; cases g) (auto simp: encode_value_def append_inject to_be_inject)

lemma fixed_block_inject:
  assumes "(is_ipv4 (fst s) \<and> is_ipv4 (fst d)) = (is_ipv4 (fst s') \<and> is_ipv4 (fst d'))" "fixed_block s d = fixed_block s' d'"
  shows "one_family (s, d) = one_family (s', d')"
proof (cases "is_ipv4 (fst s) \<and> is_ipv4 (fst d)")
  case True
  with assms show ?thesis
    using fixed_block_v4 [of s d] fixed_block_v4 [of s' d'] by (auto simp: one_family_def append_inject to_be_inject)
next
  case False
  with assms fixed_block_v6 [of s d] fixed_block_v6 [of s' d'] show ?thesis
    by (auto simp: one_family_def append_inject to_be_inject)
qed

lemma form_bytes_inject:
  assumes "form_bytes a = (vc, fam, fixed)" "form_bytes b = (vc, fam, fixed)"
  shows "canon_form a = canon_form b"
proof (cases "\<exists>s d. a = FormForwarded s d")
  case True
  then obtain s d where a: "a = FormForwarded s d" by blast
  with assms obtain s' d' where b: "b = FormForwarded s' d'" by (cases b) (auto simp: form_bytes_def Let_def split: if_splits)
  have "one_family (canonical s, canonical d) = one_family (canonical s', canonical d')"
    using assms a b by (intro fixed_block_inject) (auto simp: form_bytes_def Let_def split: if_splits)
  with a b show ?thesis by (simp add: canon_form_def)
next
  case False
  with assms show ?thesis by (cases a; cases b) (auto simp: form_bytes_def Let_def split: if_splits)
qed

lemma auth_head_inject:
  assumes "auth_head a f @ x = auth_head b g @ y"
  shows "canon_form a = canon_form b \<and> f = g \<and> x = y"
proof -
  obtain vc fam fx where A: "form_bytes a = (vc, fam, fx)" by (cases "form_bytes a")
  obtain vc' fam' fx' where B: "form_bytes b = (vc', fam', fx')" by (cases "form_bytes b")
  have len: "length fx = (if drop_bit 4 fam = 1 then 12 else if drop_bit 4 fam = 2 then 36 else 0)"
    if "form_bytes c = (vc, fam, fx)" for c vc fam fx
    using that by (cases c) (auto simp: form_bytes_def Let_def fixed_block_length drop_bit_eq_div split: if_splits)
  from assms have e: "vc = vc'" "fam = fam'" by (simp_all add: auth_head_def A B append_inject)
  with len [OF A] len [OF B] have l: "length fx = length fx'" by simp
  with assms e have "fx = fx'" "encode_value f @ [AUTH_TLV_TYPE] @ to_be 2 (32 :: 16 word) @ x = encode_value g @ [AUTH_TLV_TYPE] @ to_be 2 (32 :: 16 word) @ y"
    by (simp_all add: auth_head_def A B append_inject)
  with form_bytes_inject [of a vc fam fx b] A B e show ?thesis by (simp add: encode_value_inject)
qed

text \<open>
  C39. What the tag of an authenticated datagram binds.  With a MAC of 32 bytes, the tag in the datagram
  is the MAC of the listener's domain followed by every other byte of the datagram, and the payload
  follows it unchanged; and two authenticated datagrams with the same MAC input are for the same
  listener, with the same freshness record, the same payload and the same declared addresses.  So a
  tag never verifies for another listener, another sequence number or another client address.
\<close>

theorem datagram_tag_binds:
  assumes mac: "\<And>key msg. length (hmac_sha256 X key msg) = AUTH_TAG_LEN"
  shows "(\<exists>d at. encode_datagram X form payload (Some k) = (d, Some at) \<and>
           take AUTH_TAG_LEN (drop at d) = hmac_sha256 X (ek_secret k) (mac_input X form payload k) \<and>
           drop (at + AUTH_TAG_LEN) d = payload)
    \<and> (mac_input X form payload k = mac_input X form' payload' k' \<longrightarrow>
         ek_binding k = ek_binding k' \<and> ek_freshness k = ek_freshness k' \<and> payload = payload' \<and> canon_form form = canon_form form')"
proof -
  have m: "mac_input X form payload k = canonical_domain (ek_binding k) @ auth_head form (ek_freshness k) @ payload" for form payload k
    by (rule mac_input_eq [OF mac])
  have "ek_binding k = ek_binding k' \<and> ek_freshness k = ek_freshness k' \<and> payload = payload' \<and> canon_form form = canon_form form'"
    if "mac_input X form payload k = mac_input X form' payload' k'"
    using that unfolding m by (blast dest: canonical_domain_inject auth_head_inject)
  then show ?thesis by (simp add: encode_datagram_auth m mac)
qed

definition demo_key :: "64 word \<Rightarrow> envelope_key" where
  "demo_key n =
     \<lparr>ek_secret = replicate 32 7, ek_binding = new_binding Udp (V4 0) 5000,
      ek_freshness = \<lparr>fr_sender_id = 1, fr_epoch = 2, fr_sequence = n, fr_timestamp_ms = 4\<rparr>\<rparr>"

theorem datagram_tag_binds_witness:
  "mac_input demo_externs FormUnspec [1] (demo_key 3) \<noteq> mac_input demo_externs FormUnspec [1] (demo_key 4)"
proof -
  have "length (hmac_sha256 demo_externs key msg) = AUTH_TAG_LEN" for key msg
    by (simp add: demo_externs_def AUTH_TAG_LEN_def)
  from datagram_tag_binds [OF this, of FormUnspec "[1]" "demo_key 3" FormUnspec "[1]" "demo_key 4"]
  show ?thesis by (auto simp: demo_key_def)
qed

section \<open>Sequences\<close>

fun wrap_all :: "externs \<Rightarrow> (64 word \<times> octet list) list \<Rightarrow> enveloper \<Rightarrow> octet list list \<times> enveloper" where
  "wrap_all X [] e = ([], e)"
| "wrap_all X ((now, payload) # xs) e =
     (case wrap X now payload e of (d, e') \<Rightarrow> (case wrap_all X xs e' of (ds, e'') \<Rightarrow> (d # ds, e'')))"

definition nth_sequence :: "64 word \<Rightarrow> nat \<Rightarrow> 64 word" where
  "nth_sequence w i = of_nat (min (unat w + i) (2 ^ 64 - 1))"

lemma nth_sequence_0 [simp]: "nth_sequence w 0 = w"
proof -
  have "unat w < 2 ^ 64" using unsigned_less [of w, where ?'a = nat] by simp
  then show ?thesis by (simp add: nth_sequence_def min_absorb1)
qed

lemma unat_nth_sequence: "unat (nth_sequence w i) = min (unat w + i) (2 ^ 64 - 1)"
  by (simp add: nth_sequence_def unat_of_nat take_bit_nat_eq_self)

lemma nth_sequence_Suc: "nth_sequence (saturating_add_one w) i = nth_sequence w (Suc i)"
proof (cases "w = -1")
  case True
  then have "unat w = 2 ^ 64 - 1" by (simp add: unsigned_minus_1_eq_mask mask_eq_exp_minus_1)
  then show ?thesis using True by (simp add: nth_sequence_def saturating_add_one_def)
next
  case False
  then have "unat (w + 1) = Suc (unat w)" by (metis Suc_eq_plus1 add.commute unatSuc eq_neg_iff_add_eq_0)
  then show ?thesis using False by (simp add: nth_sequence_def saturating_add_one_def)
qed

text \<open>The key of the datagram with sequence number \<open>s\<close> sent at time \<open>now\<close>.\<close>

definition key_at :: "minting \<Rightarrow> 64 word \<Rightarrow> 64 word \<Rightarrow> envelope_key" where
  "key_at m now s = \<lparr>ek_secret = mi_secret m, ek_binding = mi_binding m, ek_freshness = (mint now m)\<lparr>fr_sequence := s\<rparr>\<rparr>"

lemma wrap_minting:
  assumes "ev_minting e = Some m" "wrap X now payload e = (d, e')"
  shows "d = fst (encode_datagram X (ev_form e) payload (Some (key_at m now (mi_next_sequence m))))"
    and "ev_form e' = ev_form e" "ev_minting e' = Some (m\<lparr>mi_next_sequence := saturating_add_one (mi_next_sequence m)\<rparr>)"
    and "ob_datagrams (ev_observation e') = ob_datagrams (ev_observation e) + 1"
    and "ob_last_sequence (ev_observation e') = Some (mi_next_sequence m)"
proof -
  let ?f = "mint now m"
  let ?k = "\<lparr>ek_secret = mi_secret m, ek_binding = mi_binding m, ek_freshness = ?f\<rparr>"
  have k: "key_at m now (mi_next_sequence m) = ?k" by (simp add: key_at_def mint_def)
  obtain d0 at where d0: "encode_datagram X (ev_form e) payload (Some ?k) = (d0, at)" by (cases "encode_datagram X (ev_form e) payload (Some ?k)")
  from assms d0 have w: "d = d0"
    "e' = e\<lparr>ev_minting := Some (m\<lparr>mi_next_sequence := saturating_add_one (mi_next_sequence m)\<rparr>),
            ev_observation := record_wrap X d0 at (Some ?f) (length d0 - length payload) (ev_observation e)\<rparr>"
    by (auto simp: wrap_def Let_def)
  then show "d = fst (encode_datagram X (ev_form e) payload (Some (key_at m now (mi_next_sequence m))))"
    "ev_form e' = ev_form e" "ev_minting e' = Some (m\<lparr>mi_next_sequence := saturating_add_one (mi_next_sequence m)\<rparr>)"
    by (simp_all add: k d0)
  show "ob_datagrams (ev_observation e') = ob_datagrams (ev_observation e) + 1" "ob_last_sequence (ev_observation e') = Some (mi_next_sequence m)"
    by (simp_all add: w record_wrap_def Let_def mint_def)
qed

lemma key_at_shift [simp]: "key_at (m\<lparr>mi_next_sequence := n\<rparr>) now s = key_at m now s"
  by (simp add: key_at_def mint_def)

lemma wrap_all_sequences:
  assumes "ev_minting e = Some m" "wrap_all X xs e = (ds, e')"
  shows "ds = map (\<lambda>i. fst (encode_datagram X (ev_form e) (snd (xs ! i)) (Some (key_at m (fst (xs ! i)) (nth_sequence (mi_next_sequence m) i))))) [0..<length xs]
    \<and> ob_datagrams (ev_observation e') = ob_datagrams (ev_observation e) + of_nat (length xs)
    \<and> (xs \<noteq> [] \<longrightarrow> ob_last_sequence (ev_observation e') = Some (nth_sequence (mi_next_sequence m) (length xs - 1)))"
  using assms
proof (induction xs arbitrary: e m ds)
  case (Cons x xs)
  obtain now payload where x: "x = (now, payload)" by (cases x)
  obtain d e1 where w: "wrap X now payload e = (d, e1)" by (cases "wrap X now payload e")
  obtain ds1 where r: "wrap_all X xs e1 = (ds1, e')" and ds: "ds = d # ds1"
    using Cons.prems(2) x w by (auto split: prod.splits)
  note wm = wrap_minting [OF Cons.prems(1) w]
  let ?dg = "\<lambda>p. \<lambda>i. fst (encode_datagram X (ev_form e) (snd p) (Some (key_at m (fst p) (nth_sequence (mi_next_sequence m) i))))"
  have IH: "ds1 = map (\<lambda>i. ?dg (xs ! i) (Suc i)) [0..<length xs]"
    "ob_datagrams (ev_observation e') = ob_datagrams (ev_observation e) + 1 + of_nat (length xs)"
    "xs \<noteq> [] \<longrightarrow> ob_last_sequence (ev_observation e') = Some (nth_sequence (mi_next_sequence m) (Suc (length xs - 1)))"
    using Cons.IH [OF wm(3) r] by (simp_all add: wm nth_sequence_Suc)
  have "[0..<length (x # xs)] = 0 # map Suc [0..<length xs]" by (simp add: upt_conv_Cons map_Suc_upt del: upt_Suc)
  then have "map (\<lambda>i. ?dg ((x # xs) ! i) i) [0..<length (x # xs)] = ?dg x 0 # map (\<lambda>i. ?dg (xs ! i) (Suc i)) [0..<length xs]"
    by (simp only: list.map map_map comp_def nth_Cons_0 nth_Cons_Suc)
  then have "ds = map (\<lambda>i. ?dg ((x # xs) ! i) i) [0..<length (x # xs)]"
    using IH(1) wm(1) by (simp add: ds x)
  moreover have "ob_datagrams (ev_observation e') = ob_datagrams (ev_observation e) + of_nat (length (x # xs))"
    using IH(2) by simp
  moreover have "ob_last_sequence (ev_observation e') = Some (nth_sequence (mi_next_sequence m) (length (x # xs) - 1))"
  proof (cases xs)
    case Nil
    with r wm(5) show ?thesis by simp
  next
    case (Cons y ys)
    with IH(3) show ?thesis by simp
  qed
  ultimately show ?case by blast
qed simp

text \<open>
  The datagrams of an authenticated session: the \<open>i\<close>th datagram carries the freshness record with
  sequence \<^verbatim>\<open>first + i\<close>, which saturates at \<^verbatim>\<open>u64::MAX\<close> and never wraps around, everything else of the
  key unchanged; the sequences are pairwise distinct while they stay below the maximum; and the
  evidence counts every datagram and holds the last sequence sent.
\<close>

lemma envelope_sequences:
  assumes "ev_minting e = Some m" "wrap_all X xs e = (ds, e')"
  shows "length ds = length xs
    \<and> (\<forall>i < length xs. ds ! i = fst (encode_datagram X (ev_form e) (snd (xs ! i))
         (Some (key_at m (fst (xs ! i)) (nth_sequence (mi_next_sequence m) i))))
       \<and> unat (nth_sequence (mi_next_sequence m) i) = min (unat (mi_next_sequence m) + i) (2 ^ 64 - 1))
    \<and> (unat (mi_next_sequence m) + length xs \<le> 2 ^ 64 \<longrightarrow> distinct (map (nth_sequence (mi_next_sequence m)) [0..<length xs]))
    \<and> ob_datagrams (ev_observation e') = ob_datagrams (ev_observation e) + of_nat (length xs)
    \<and> (xs \<noteq> [] \<longrightarrow> ob_last_sequence (ev_observation e') = Some (nth_sequence (mi_next_sequence m) (length xs - 1)))"
proof -
  note w = wrap_all_sequences [OF assms]
  have "distinct (map (nth_sequence (mi_next_sequence m)) [0..<length xs])" if b: "unat (mi_next_sequence m) + length xs \<le> 2 ^ 64"
  proof (unfold distinct_map, intro conjI inj_onI)
    fix i j assume ij: "i \<in> set [0..<length xs]" "j \<in> set [0..<length xs]"
      and "nth_sequence (mi_next_sequence m) i = nth_sequence (mi_next_sequence m) j"
    then have "min (unat (mi_next_sequence m) + i) (2 ^ 64 - 1) = min (unat (mi_next_sequence m) + j) (2 ^ 64 - 1)"
      using unat_nth_sequence by metis
    with b ij show "i = j" by auto
  qed simp
  with w show ?thesis by (simp add: unat_nth_sequence)
qed

end
