(* ===== verification/Destination.thy ===== *)
theory Destination
  imports Net_Addr
begin

text \<open>
  Where a request may connect to: name resolution on the client's side
  (\<^verbatim>\<open>crates/anvil-transport/src/dns.rs\<close>), the redirect authority that confines redirects and retries to the
  network zones of the original destination (\<^verbatim>\<open>destination.rs\<close>), and \<^verbatim>\<open>NO_PROXY\<close> matching (\<^verbatim>\<open>net.rs\<close>).

  What the operating system's resolver or a custom one answered is an argument, and so are the two
  operations of the \<^verbatim>\<open>http\<close> crate that read a header value and an authority.
\<close>

section \<open>Text helpers\<close>

definition trim_start_matches :: "char \<Rightarrow> string \<Rightarrow> string" where
  "trim_start_matches c s = dropWhile (\<lambda>x. x = c) s"

definition trim_end_matches :: "char \<Rightarrow> string \<Rightarrow> string" where
  "trim_end_matches c s = rev (dropWhile (\<lambda>x. x = c) (rev s))"

definition rsplit_once :: "char \<Rightarrow> string \<Rightarrow> (string \<times> string) option" where
  "rsplit_once d s = map_option (\<lambda>(a, b). (rev b, rev a)) (split_once d (rev s))"

definition unbracket :: "string \<Rightarrow> string" where
  "unbracket s = trim_end_matches CHR '']'' (trim_start_matches CHR ''['' s)"

definition v4_is_loopback :: "32 word \<Rightarrow> bool" where
  "v4_is_loopback w \<longleftrightarrow> octets4 w ! 0 = 127"

definition v4_is_link_local :: "32 word \<Rightarrow> bool" where
  "v4_is_link_local w \<longleftrightarrow> octets4 w ! 0 = 169 \<and> octets4 w ! 1 = 254"

definition v4_is_private :: "32 word \<Rightarrow> bool" where
  "v4_is_private w \<longleftrightarrow>
     octets4 w ! 0 = 10 \<or> octets4 w ! 0 = 172 \<and> 16 \<le> octets4 w ! 1 \<and> octets4 w ! 1 \<le> 31
     \<or> octets4 w ! 0 = 192 \<and> octets4 w ! 1 = 168"

section \<open>Name resolution\<close>

datatype ip_preference = PrefSystem | PreferIpv4 | PreferIpv6 | Ipv4Only | Ipv6Only

record dns_override =
  dov_host :: string
  dov_addresses :: "string list"

datatype resolver_mode = ResolverSystem | ResolverCustom "string list"

record dns_config =
  dc_resolver :: resolver_mode
  dc_overrides :: "dns_override list"
  dc_ip_preference :: ip_preference

record resolution =
  res_addrs :: "socket_addr list"
  res_source :: string

definition parse_literal :: "string \<Rightarrow> ip_addr option" where
  "parse_literal host = parse_ip (unbracket host)"

text \<open>\<^verbatim>\<open>sort_by_key\<close> is stable, and the keys are 0 and 1: the family first, then the rest, each in order.\<close>

definition apply_preference :: "ip_preference \<Rightarrow> socket_addr list \<Rightarrow> socket_addr list" where
  "apply_preference pref addrs =
     (case pref of
        PrefSystem \<Rightarrow> addrs
      | Ipv4Only \<Rightarrow> filter (\<lambda>a. is_ipv4 (fst a)) addrs
      | Ipv6Only \<Rightarrow> filter (\<lambda>a. \<not> is_ipv4 (fst a)) addrs
      | PreferIpv4 \<Rightarrow> sort_key (\<lambda>a. if is_ipv4 (fst a) then 0 else 1 :: nat) addrs
      | PreferIpv6 \<Rightarrow> sort_key (\<lambda>a. if \<not> is_ipv4 (fst a) then 0 else 1 :: nat) addrs)"

fun override_addrs :: "string \<Rightarrow> 16 word \<Rightarrow> string list \<Rightarrow> transport_failure + socket_addr list" where
  "override_addrs host port [] = Inr []"
| "override_addrs host port (a # as) =
     (case parse_literal a of
        Some ip \<Rightarrow> (case override_addrs host port as of Inl e \<Rightarrow> Inl e | Inr addrs \<Rightarrow> Inr ((ip, port) # addrs))
      | None \<Rightarrow>
          Inl (with_field (new_failure Prepare InvalidUrl (''DNS override for '' @ host @ '' contains a non-IP address: '' @ a))
            ''settings.dns_overrides''))"

definition fixed_resolution :: "string \<Rightarrow> 16 word \<Rightarrow> dns_config \<Rightarrow> (transport_failure + resolution) option" where
  "fixed_resolution host port cfg =
     (case parse_literal host of
        Some ip \<Rightarrow> Some (Inr \<lparr>res_addrs = [(ip, port)], res_source = ''literal''\<rparr>)
      | None \<Rightarrow>
          (case find (\<lambda>ov. eq_ignore_ascii_case (dov_host ov) host) (dc_overrides cfg) of
             Some ov \<Rightarrow>
               (case override_addrs host port (dov_addresses ov) of
                  Inl e \<Rightarrow> Some (Inl e)
                | Inr addrs \<Rightarrow> Some (Inr \<lparr>res_addrs = apply_preference (dc_ip_preference cfg) addrs, res_source = ''override''\<rparr>))
           | None \<Rightarrow> None))"

definition is_loopback :: "ip_addr \<Rightarrow> bool" where
  "is_loopback ip =
     (case ip of
        V4 w \<Rightarrow> v4_is_loopback w
      | V6 w \<Rightarrow> w = 1 \<or> (case to_ipv4_mapped w of Some v4 \<Rightarrow> v4_is_loopback v4 | None \<Rightarrow> False))"

definition is_localhost_name :: "string \<Rightarrow> bool" where
  "is_localhost_name host0 =
     (let host1 = unbracket host0; host = strip_last CHR ''.'' host1
      in eq_ignore_ascii_case host ''localhost''
         \<or> (case rsplit_once CHR ''.'' host of
              Some (rest, tld) \<Rightarrow> rest \<noteq> [] \<and> eq_ignore_ascii_case tld ''localhost''
            | None \<Rightarrow> False))"

definition loopback_addresses :: "string \<Rightarrow> ip_addr list \<Rightarrow> transport_failure + ip_addr list" where
  "loopback_addresses host ips =
     (let loopback = filter is_loopback ips
      in if loopback = [] then
           Inl (new_failure Dns DnsNoRecords (''system resolver returned records for '' @ host @
             '', but none were loopback; use a DNS override for non-loopback targets''))
         else Inr loopback)"

definition system_answer :: "string \<Rightarrow> 16 word \<Rightarrow> ip_addr list \<Rightarrow> transport_failure + resolution" where
  "system_answer host port ips =
     (case (if is_localhost_name host then loopback_addresses host ips else Inr ips) of
        Inl e \<Rightarrow> Inl e
      | Inr ips' \<Rightarrow>
          (if ips' = [] then Inl (new_failure Dns DnsNoRecords (host @ '' has no address records''))
           else Inr \<lparr>res_addrs = map (\<lambda>ip. (ip, port)) ips', res_source = ''system''\<rparr>))"

text \<open>The outcome of \<^verbatim>\<open>getaddrinfo\<close>: addresses in order, an error of a kind with its text and I/O kind, or a failed task.\<close>

datatype lookup_error_kind = NoName | NoData | Again | Fail | OtherLookup

datatype system_lookup =
    LookupIps "ip_addr list"
  | LookupError lookup_error_kind string string
  | LookupJoinError string

definition lookup_kind :: "lookup_error_kind \<Rightarrow> failure_kind" where
  "lookup_kind k =
     (case k of NoName \<Rightarrow> DnsNoSuchHost | NoData \<Rightarrow> DnsNoRecords | Again \<Rightarrow> DnsServerFailure | Fail \<Rightarrow> DnsServerFailure
      | OtherLookup \<Rightarrow> DnsOther)"

definition resolve_system :: "string \<Rightarrow> 16 word \<Rightarrow> system_lookup \<Rightarrow> transport_failure + resolution" where
  "resolve_system host port outcome =
     (case outcome of
        LookupIps ips \<Rightarrow> system_answer host port (fold (\<lambda>ip v. if ip \<in> set v then v else v @ [ip]) ips [])
      | LookupError k io io_kind \<Rightarrow>
          Inl ((new_failure Dns (lookup_kind k) (''system resolver could not resolve '' @ host @ '': '' @ io))\<lparr>io_error_kind := Some io_kind\<rparr>)
      | LookupJoinError j \<Rightarrow> Inl (new_failure Dns Internal (''resolver task failed: '' @ j)))"

text \<open>
  What the resolver of the configured mode did within the timeout: the system lookup, the answer of
  \<^verbatim>\<open>resolve_custom\<close>, or nothing in time.
\<close>

datatype resolver_event =
    SystemDone system_lookup
  | CustomDone "transport_failure + resolution"
  | ResolverTimeout

definition preference_name :: "ip_preference \<Rightarrow> string" where
  "preference_name p =
     (case p of PrefSystem \<Rightarrow> ''System'' | PreferIpv4 \<Rightarrow> ''PreferIpv4'' | PreferIpv6 \<Rightarrow> ''PreferIpv6'' | Ipv4Only \<Rightarrow> ''Ipv4Only''
      | Ipv6Only \<Rightarrow> ''Ipv6Only'')"

definition resolve_host ::
  "string \<Rightarrow> 16 word \<Rightarrow> dns_config \<Rightarrow> nat \<Rightarrow> resolver_event \<Rightarrow> transport_failure + resolution" where
  "resolve_host host port cfg timeout_ms event =
     (case fixed_resolution host port cfg of
        Some fixed \<Rightarrow> fixed
      | None \<Rightarrow>
          (case (case event of
                   SystemDone outcome \<Rightarrow> resolve_system host port outcome
                 | CustomDone r \<Rightarrow> r
                 | ResolverTimeout \<Rightarrow>
                     Inl (with_deadline (new_failure Dns DnsTimeout
                       (''name resolution for '' @ host @ '' did not complete within '' @ show_nat timeout_ms @ '' ms'')) (Some timeout_ms))) of
             Inl e \<Rightarrow> Inl e
           | Inr res \<Rightarrow>
               (let addrs = apply_preference (dc_ip_preference cfg) (res_addrs res)
                in if addrs = [] then
                     Inl (new_failure Dns DnsNoRecords (host @ '' resolved, but no addresses match the IP preference '' @
                       preference_name (dc_ip_preference cfg)))
                   else Inr \<lparr>res_addrs = addrs, res_source = res_source res\<rparr>)))"

section \<open>Zones\<close>

datatype zone = Public | Private | Shared | LinkLocal | Loopback | Benchmark

definition zone_index :: "zone \<Rightarrow> nat" where
  "zone_index z = (case z of Public \<Rightarrow> 0 | Private \<Rightarrow> 1 | Shared \<Rightarrow> 2 | LinkLocal \<Rightarrow> 3 | Loopback \<Rightarrow> 4 | Benchmark \<Rightarrow> 5)"

definition zone_bit :: "zone \<Rightarrow> octet" where
  "zone_bit z = push_bit (zone_index z) 1"

definition PUBLIC :: octet where "PUBLIC = zone_bit Public"
definition BENCHMARK :: octet where "BENCHMARK = zone_bit Benchmark"

definition zone4 :: "32 word \<Rightarrow> zone option" where
  "zone4 ip =
     (let a = octets4 ip ! 0; b = octets4 ip ! 1; c = octets4 ip ! 2
      in if v4_is_loopback ip then Some Loopback
         else if v4_is_link_local ip then Some LinkLocal
         else if v4_is_private ip then Some Private
         else if a = 100 \<and> 64 \<le> b \<and> b \<le> 127 then Some Shared
         else if a = 198 \<and> (b = 18 \<or> b = 19) then Some Benchmark
         else if a = 0 \<or> 224 \<le> a \<or> a = 192 \<and> b = 0 \<and> (c = 0 \<or> c = 2) \<or> a = 192 \<and> b = 88 \<and> c = 99
                 \<or> a = 198 \<and> b = 51 \<and> c = 100 \<or> a = 203 \<and> b = 0 \<and> c = 113
         then None else Some Public)"

definition zone_of :: "ip_addr \<Rightarrow> zone option" where
  "zone_of addr =
     (case addr of
        V4 ip \<Rightarrow> zone4 ip
      | V6 ip \<Rightarrow>
          (case to_ipv4_mapped ip of
             Some mapped \<Rightarrow> zone4 mapped
           | None \<Rightarrow>
               (let s = segments ip
                in if take 6 s = [0x64, 0xff9b, 0, 0, 0, 0] then zone4 (be_word (drop 12 (octets6 ip)))
                   else if ip = 1 then Some Loopback
                   else if s ! 0 AND 0xffc0 = 0xfe80 then Some LinkLocal
                   else if s ! 0 AND 0xfe00 = 0xfc00 then Some Private
                   else if s ! 0 AND 0xe000 = 0x2000 \<and> s ! 0 \<noteq> 0x2002
                           \<and> \<not> (s ! 0 = 0x2001 \<and> (s ! 1 < 0x0200 \<or> s ! 1 = 0x0db8))
                           \<and> \<not> (s ! 0 = 0x3fff \<and> s ! 1 < 0x1000)
                           \<and> \<not> ((s ! 4 = 0 \<or> s ! 4 = 0x0200) \<and> s ! 5 = 0x5efe)
                   then Some Public else None)))"

definition permitted_literal :: "string \<Rightarrow> bool" where
  "permitted_literal host = (case parse_literal host of None \<Rightarrow> True | Some ip \<Rightarrow> zone_of ip \<noteq> None)"

section \<open>Redirect authority\<close>

datatype origin = Unresolved | Resolved octet bool | OpaqueProxy

record destination_policy =
  po_origin :: origin
  po_host :: string

definition default_policy :: destination_policy where
  "default_policy = \<lparr>po_origin = Unresolved, po_host = []\<rparr>"

definition refused :: "string \<Rightarrow> transport_failure" where
  "refused message = with_field (new_failure Connect UnsupportedCombination message) ''settings.redirects''"

definition host_key :: "string \<Rightarrow> string" where
  "host_key host = map ascii_lower (trim_end_matches CHR ''.'' (unbracket host))"

fun zones_of :: "socket_addr list \<Rightarrow> octet \<Rightarrow> transport_failure + octet" where
  "zones_of [] zones = Inr zones"
| "zones_of (a # addrs) zones =
     (case zone_of (fst a) of
        None \<Rightarrow> Inl (refused ''the destination resolves to an address that is not permitted unicast'')
      | Some z \<Rightarrow> zones_of addrs (zones OR zone_bit z))"

text \<open>The check of a redirect against an approved original.\<close>

definition validate_redirect :: "octet \<Rightarrow> string \<Rightarrow> octet \<Rightarrow> bool \<Rightarrow> string \<Rightarrow> transport_failure + destination_policy" where
  "validate_redirect zones host allowed public_hop original_host =
     (if zones = PUBLIC then Inr \<lparr>po_origin = Resolved allowed True, po_host = original_host\<rparr>
      else if zones AND PUBLIC \<noteq> 0 then Inl (refused ''the redirect resolves to mixed public and non-public network zones'')
      else if public_hop then Inl (refused ''the redirect would return to a non-public network zone after a public hop'')
      else if zones AND NOT allowed \<noteq> 0 then Inl (refused ''the redirect would leave the original destination's approved network zones'')
      else if zones AND BENCHMARK \<noteq> 0 \<and> host \<noteq> original_host then
        Inl (refused ''the redirect would reach another host through the unverifiable fake-IP range'')
      else Inr \<lparr>po_origin = Resolved allowed public_hop, po_host = original_host\<rparr>)"

definition validate :: "string \<Rightarrow> socket_addr list \<Rightarrow> bool \<Rightarrow> destination_policy \<Rightarrow> transport_failure + destination_policy" where
  "validate host0 addrs redirected p =
     (case zones_of addrs 0 of
        Inl e \<Rightarrow> Inl e
      | Inr zones \<Rightarrow>
          (if zones = 0 then Inl (refused ''the destination has no permitted unicast address'')
           else let host = host_key host0;
                    left = Inl (refused ''the redirect or retry would leave the original destination's approved network zones'')
                in case po_origin p of
                     Unresolved \<Rightarrow>
                       (if \<not> redirected then Inr \<lparr>po_origin = Resolved zones (zones AND PUBLIC \<noteq> 0), po_host = host\<rparr> else left)
                   | Resolved allowed public_hop \<Rightarrow>
                       (if \<not> redirected \<and> zones AND NOT (allowed OR PUBLIC) = 0
                        then Inr (p\<lparr>po_origin := Resolved allowed (public_hop \<or> zones AND PUBLIC \<noteq> 0)\<rparr>)
                        else if redirected then validate_redirect zones host allowed public_hop (po_host p)
                        else left)
                   | OpaqueProxy \<Rightarrow> left))"

text \<open>The fields of \<^verbatim>\<open>HttpPlan\<close> the policy reads, and the operations of the \<^verbatim>\<open>http\<close> crate on a header value and an authority.\<close>

datatype proxy_kind = ProxyHttp | ProxyHttps | ProxySocks5 | ProxyHbone

record http_plan =
  hpl_https :: bool
  hpl_host :: string
  hpl_port :: "16 word"
  hpl_authority :: string
  hpl_headers :: "(string \<times> octet list) list"
  hpl_dns :: dns_config
  hpl_proxy :: "proxy_kind option"
  hpl_total_ms :: "nat option"
  hpl_dns_ms :: nat

record http_crate =
  value_to_str :: "octet list \<Rightarrow> string option"
  authority_host :: "string \<Rightarrow> string option"

definition forward_proxy_routes_authority :: "bool \<Rightarrow> proxy_kind option \<Rightarrow> bool" where
  "forward_proxy_routes_authority https proxy \<longleftrightarrow> \<not> https \<and> proxy = Some ProxyHttp"

text \<open>What the asynchronous part of \<^verbatim>\<open>pin\<close> meets: cancellation and the deadline before it, and the race of the two with resolution.\<close>

datatype pin_race = RaceCancelled | RaceDeadline | RaceResolved resolver_event

definition pin_proxied :: "http_crate \<Rightarrow> http_plan \<Rightarrow> bool \<Rightarrow> destination_policy \<Rightarrow> transport_failure + http_plan \<times> destination_policy" where
  "pin_proxied H plan redirected p =
     (if redirected then Inl (refused ''proxy redirects are unsupported: the resolved destination cannot be verified'')
      else if \<not> permitted_literal (hpl_host plan) then Inl (refused ''the original destination is not a permitted unicast address'')
      else let authority = (case find (\<lambda>(n, _). n = ''host'') (hpl_headers plan) of
                              None \<Rightarrow> hpl_authority plan
                            | Some (_, v) \<Rightarrow> (case value_to_str H v of Some s \<Rightarrow> s | None \<Rightarrow> hpl_authority plan))
           in if forward_proxy_routes_authority (hpl_https plan) (hpl_proxy plan)
                 \<and> (case authority_host H authority of None \<Rightarrow> False | Some host \<Rightarrow> \<not> permitted_literal host)
              then Inl (refused ''the proxy request authority is not a permitted unicast address'')
              else Inr (plan, p\<lparr>po_origin := OpaqueProxy\<rparr>))"

definition pin_overrides :: "http_plan \<Rightarrow> resolution \<Rightarrow> http_plan" where
  "pin_overrides plan res =
     (if parse_literal (hpl_host plan) = None
      then plan\<lparr>hpl_dns := (hpl_dns plan)\<lparr>dc_overrides :=
             filter (\<lambda>ov. \<not> eq_ignore_ascii_case (dov_host ov) (hpl_host plan)) (dc_overrides (hpl_dns plan))
             @ [\<lparr>dov_host = hpl_host plan, dov_addresses = map (\<lambda>a. show_ip (fst a)) (res_addrs res)\<rparr>]\<rparr>\<rparr>
      else plan)"

definition pin ::
  "http_crate \<Rightarrow> http_plan \<Rightarrow> bool \<Rightarrow> bool \<Rightarrow> bool \<Rightarrow> pin_race \<Rightarrow> destination_policy \<Rightarrow> transport_failure + http_plan \<times> destination_policy" where
  "pin H plan redirected cancelled deadline_passed race p =
     (if cancelled then Inl (new_failure Dns Canceled ''canceled before destination resolution'')
      else if deadline_passed then
        Inl (with_deadline (new_failure Dns TotalTimeout ''total deadline elapsed before destination resolution'') (hpl_total_ms plan))
      else if hpl_proxy plan \<noteq> None then pin_proxied H plan redirected p
      else if redirected \<and> (po_origin p = OpaqueProxy \<or> po_origin p = Unresolved) then
        Inl (refused ''the original destination's resolved network zone is unavailable'')
      else case (case race of
                   RaceCancelled \<Rightarrow> Inl (new_failure Dns Canceled ''canceled during destination resolution'')
                 | RaceDeadline \<Rightarrow>
                     Inl (with_deadline (new_failure Dns TotalTimeout ''total deadline elapsed during destination resolution'')
                       (hpl_total_ms plan))
                 | RaceResolved event \<Rightarrow> resolve_host (hpl_host plan) (hpl_port plan) (hpl_dns plan) (hpl_dns_ms plan) event) of
             Inl e \<Rightarrow> Inl e
           | Inr res \<Rightarrow>
               (case validate (hpl_host plan) (res_addrs res) redirected p of
                  Inl e \<Rightarrow> Inl e
                | Inr p' \<Rightarrow> Inr (pin_overrides plan res, p')))"

section \<open>NO_PROXY\<close>

definition cidr_contains :: "ip_addr \<Rightarrow> nat \<Rightarrow> ip_addr \<Rightarrow> bool" where
  "cidr_contains net bits ip =
     (case (net, ip) of
        (V4 n, V4 i) \<Rightarrow>
          (if 32 < bits then False
           else let m = (if bits = 0 then 0 else push_bit (32 - bits) (-1)) in n AND m = i AND m)
      | (V6 n, V6 i) \<Rightarrow>
          (if 128 < bits then False
           else let m = (if bits = 0 then 0 else push_bit (128 - bits) (-1)) in n AND m = i AND m)
      | _ \<Rightarrow> False)"

definition ends_with :: "string \<Rightarrow> string \<Rightarrow> bool" where
  "ends_with s sfx = suffix sfx s"

text \<open>An entry's name and port.\<close>

definition split_entry :: "string \<Rightarrow> string \<times> nat option" where
  "split_entry entry =
     (case rsplit_once CHR '':'' entry of
        Some (n, p) \<Rightarrow>
          (if CHR '':'' \<notin> set n \<or> ends_with n '']''
           then (case parse_unsigned 65535 p of Some pp \<Rightarrow> (unbracket n, Some pp) | None \<Rightarrow> (entry, None))
           else (unbracket entry, None))
      | None \<Rightarrow> (unbracket entry, None))"

text \<open>The address block an entry names, when the host is an address too.\<close>

definition entry_block :: "string \<Rightarrow> string \<Rightarrow> (ip_addr \<times> nat \<times> ip_addr) option" where
  "entry_block name host =
     (case split_once CHR ''/'' name of
        None \<Rightarrow> None
      | Some (net, bits) \<Rightarrow>
          (case (parse_ip net, parse_unsigned 255 bits, parse_ip host) of
             (Some n, Some b, Some i) \<Rightarrow> Some (n, b, i)
           | _ \<Rightarrow> None))"

definition entry_matches :: "string \<Rightarrow> string \<Rightarrow> nat option \<Rightarrow> bool" where
  "entry_matches raw host port =
     (let entry = map ascii_lower (trim raw)
      in if entry = [] then False
         else if entry = ''*'' then True
         else case split_entry entry of
                (name, eport) \<Rightarrow>
                  (if eport \<noteq> None \<and> eport \<noteq> port then False
                   else case entry_block name host of
                          Some (net, bits, ip) \<Rightarrow> cidr_contains net bits ip
                        | None \<Rightarrow>
                            (let sfx = trim_start_matches CHR ''.'' name
                             in host = sfx \<or> ends_with host (''.'' @ sfx))))"

definition no_proxy_match :: "string \<Rightarrow> string \<Rightarrow> nat option \<Rightarrow> bool" where
  "no_proxy_match no_proxy host0 port =
     (let host = map ascii_lower (unbracket host0)
      in list_ex (\<lambda>raw. entry_matches raw host port) (split_char CHR '','' no_proxy))"

definition no_proxy_matches :: "string \<Rightarrow> string \<Rightarrow> nat \<Rightarrow> bool" where
  "no_proxy_matches no_proxy host port = no_proxy_match no_proxy host (Some port)"

definition no_proxy_matches_every_port :: "string \<Rightarrow> string \<Rightarrow> bool" where
  "no_proxy_matches_every_port no_proxy host = no_proxy_match no_proxy host None"

section \<open>Zone sets\<close>

text \<open>A mask stands for a set of zones.\<close>

definition rep :: "octet \<Rightarrow> zone set \<Rightarrow> bool" where
  "rep m S \<longleftrightarrow> (\<forall>n. bit m n \<longleftrightarrow> (\<exists>z\<in>S. zone_index z = n))"

lemma zone_index_inject [simp]: "zone_index y = zone_index z \<longleftrightarrow> y = z"
  by (cases y; cases z) (simp_all add: zone_index_def)

lemma zone_index_less: "zone_index z < 8"
  by (cases z) (simp_all add: zone_index_def)

lemma bit_zone_bit [simp]: "bit (zone_bit z) n \<longleftrightarrow> n = zone_index z"
  using zone_index_less [of z] by (auto simp: zone_bit_def bit_simps)

lemma octet_eq: "a = b \<longleftrightarrow> (\<forall>n. bit a n = bit (b :: octet) n)"
  by (auto intro: bit_word_eqI)

lemma rep_0: "rep 0 {}"
  by (simp add: rep_def)

lemma rep_insert: "rep m S \<Longrightarrow> rep (m OR zone_bit z) (insert z S)"
  by (auto simp: rep_def bit_simps)

lemma rep_bit: "rep m S \<Longrightarrow> bit m (zone_index z) \<longleftrightarrow> z \<in> S"
  by (auto simp: rep_def)

lemma rep_zero_iff: "rep m S \<Longrightarrow> m = 0 \<longleftrightarrow> S = {}"
  by (auto simp: rep_def octet_eq [of m])

lemma rep_and_bit: "rep m S \<Longrightarrow> m AND zone_bit z = 0 \<longleftrightarrow> z \<notin> S"
  by (auto simp: octet_eq [of "m AND zone_bit z"] bit_simps rep_bit) (metis rep_bit)

lemma rep_eq_bit: "rep m S \<Longrightarrow> m = zone_bit z \<longleftrightarrow> S = {z}"
  by (auto simp: octet_eq [of m] rep_def) (metis zone_index_inject)+

lemma rep_subset: "rep m S \<Longrightarrow> rep a A \<Longrightarrow> m AND NOT a = 0 \<longleftrightarrow> S \<subseteq> A"
  using zone_index_less by (auto simp: rep_def octet_eq [of "m AND NOT a"] bit_simps) (metis zone_index_inject)

lemmas rep_simps = rep_zero_iff rep_and_bit rep_eq_bit rep_subset

definition zset :: "socket_addr list \<Rightarrow> zone set" where
  "zset addrs = {z. \<exists>a \<in> set addrs. zone_of (fst a) = Some z}"

definition unicast :: "socket_addr list \<Rightarrow> bool" where
  "unicast addrs \<longleftrightarrow> list_all (\<lambda>a. zone_of (fst a) \<noteq> None) addrs"

lemma zones_of_rep: "zones_of addrs m = Inr m' \<Longrightarrow> rep m S \<Longrightarrow> rep m' (S \<union> zset addrs) \<and> unicast addrs"
proof (induction addrs arbitrary: m S)
  case (Cons a addrs)
  from Cons.prems obtain z where z: "zone_of (fst a) = Some z" "zones_of addrs (m OR zone_bit z) = Inr m'"
    by (auto split: option.splits)
  have "zset (a # addrs) = insert z (zset addrs)" using z(1) by (auto simp: zset_def)
  with Cons.IH [OF z(2) rep_insert [OF Cons.prems(2)]] z(1) show ?case by (simp add: unicast_def)
qed (simp add: zset_def unicast_def)

lemma zones_of_zset: "zones_of addrs 0 = Inr m \<Longrightarrow> rep m (zset addrs) \<and> unicast addrs"
  using zones_of_rep [OF _ rep_0, of addrs m] by simp

section \<open>Confinement\<close>

text \<open>A hop that was let through: a direct one with the addresses that will be dialled, or one handed to a proxy.\<close>

datatype hop = Direct string "socket_addr list" bool | Proxied string

fun hop_zones :: "hop \<Rightarrow> zone set" where
  "hop_zones (Direct host addrs redirected) = zset addrs"
| "hop_zones (Proxied host) = {}"

text \<open>
  What a hop may be after the hops before it, newest first: the original is last.  Its zones are the
  ones granted; a retry stays in them or goes public; a redirect is wholly public, or it stays in the
  granted zones outside the public one, provided no hop so far had a public address, and it reaches the
  fake-IP range only under the original host name.
\<close>

fun confined :: "hop \<Rightarrow> hop list \<Rightarrow> bool" where
  "confined (Proxied host) before \<longleftrightarrow> permitted_literal host"
| "confined (Direct host addrs redirected) before \<longleftrightarrow>
     addrs \<noteq> [] \<and> unicast addrs \<and>
     (if before = [] then \<not> redirected
      else \<exists>h0 addrs0. last before = Direct h0 addrs0 False \<and>
        (if redirected
         then zset addrs = {Public}
            \<or> Public \<notin> zset addrs \<and> zset addrs \<subseteq> zset addrs0 \<and> (\<forall>h \<in> set before. Public \<notin> hop_zones h)
              \<and> (Benchmark \<in> zset addrs \<longrightarrow> host_key host = host_key h0)
         else zset addrs \<subseteq> insert Public (zset addrs0)))"

text \<open>The runs of \<^verbatim>\<open>pin\<close> that succeed; a refused hop leaves the policy as it is.\<close>

inductive pinned :: "hop list \<Rightarrow> destination_policy \<Rightarrow> bool" where
  start: "pinned [] default_policy"
| direct: "pinned hs p \<Longrightarrow> hpl_proxy plan = None \<Longrightarrow>
     pin H plan redirected cancelled late (RaceResolved event) p = Inr (plan', p') \<Longrightarrow>
     resolve_host (hpl_host plan) (hpl_port plan) (hpl_dns plan) (hpl_dns_ms plan) event = Inr res \<Longrightarrow>
     pinned (Direct (hpl_host plan) (res_addrs res) redirected # hs) p'"
| proxied: "pinned hs p \<Longrightarrow> hpl_proxy plan \<noteq> None \<Longrightarrow>
     pin H plan redirected cancelled late race p = Inr (plan', p') \<Longrightarrow>
     pinned (Proxied (hpl_host plan) # hs) p'"

definition policy_ok :: "hop list \<Rightarrow> destination_policy \<Rightarrow> bool" where
  "policy_ok hs p \<longleftrightarrow>
     (case po_origin p of
        Unresolved \<Rightarrow> hs = []
      | OpaqueProxy \<Rightarrow> hs \<noteq> []
      | Resolved allowed public_hop \<Rightarrow>
          hs \<noteq> [] \<and> (\<exists>h0 addrs0. last hs = Direct h0 addrs0 False \<and> rep allowed (zset addrs0) \<and> po_host p = host_key h0)
          \<and> public_hop = (\<exists>h \<in> set hs. Public \<in> hop_zones h))"

lemma validate_redirect_cases:
  assumes "validate_redirect m host allowed ph original = Inr p'"
  shows "po_host p' = original \<and>
    (m = PUBLIC \<and> po_origin p' = Resolved allowed True
     \<or> m AND PUBLIC = 0 \<and> \<not> ph \<and> po_origin p' = Resolved allowed False \<and> m AND NOT allowed = 0 \<and> (m AND BENCHMARK = 0 \<or> host = original))"
  using assms by (auto simp: validate_redirect_def split: if_splits)

lemma policy_okI:
  "po_origin p = Resolved allowed (\<exists>h \<in> set hs. Public \<in> hop_zones h) \<Longrightarrow> hs \<noteq> [] \<Longrightarrow> last hs = Direct h0 addrs0 False \<Longrightarrow>
   rep allowed (zset addrs0) \<Longrightarrow> po_host p = host_key h0 \<Longrightarrow> policy_ok hs p"
  by (auto simp: policy_ok_def)

lemma validate_confined:
  assumes "policy_ok hs p" "validate host addrs redirected p = Inr p'"
  shows "confined (Direct host addrs redirected) hs \<and> policy_ok (Direct host addrs redirected # hs) p'"
proof -
  from assms(2) obtain m where m: "zones_of addrs 0 = Inr m" "m \<noteq> 0" by (auto simp: validate_def split: sum.splits if_splits)
  from zones_of_zset [OF m(1)] have r: "rep m (zset addrs)" and u: "unicast addrs" by auto
  have ne: "addrs \<noteq> []" using m(2) r by (auto simp: rep_zero_iff zset_def)
  note rs = rep_simps [OF r]
  show ?thesis
  proof (cases "po_origin p")
    case Unresolved
    with assms m r u ne show ?thesis
      by (auto simp: validate_def policy_ok_def Let_def PUBLIC_def rs split: if_splits)
  next
    case OpaqueProxy
    with assms m show ?thesis by (auto simp: validate_def Let_def)
  next
    case (Resolved allowed ph)
    with assms(1) obtain h0 addrs0 where o: "hs \<noteq> []" "last hs = Direct h0 addrs0 False" "rep allowed (zset addrs0)" "po_host p = host_key h0"
      and ph: "ph = (\<exists>h \<in> set hs. Public \<in> hop_zones h)" by (auto simp: policy_ok_def)
    have r': "rep (allowed OR PUBLIC) (insert Public (zset addrs0))" unfolding PUBLIC_def by (rule rep_insert [OF o(3)])
    show ?thesis
    proof (cases redirected)
      case True
      with assms(2) m Resolved have v: "validate_redirect m (host_key host) allowed ph (po_host p) = Inr p'"
        by (simp add: validate_def Let_def)
      note c = validate_redirect_cases [OF v, unfolded PUBLIC_def BENCHMARK_def rs rep_subset [OF r o(3)]]
      from c have ph': "po_origin p' = Resolved allowed (\<exists>h \<in> set (Direct host addrs redirected # hs). Public \<in> hop_zones h)"
        by (elim conjE disjE) (simp_all add: ph)
      have "policy_ok (Direct host addrs redirected # hs) p'"
        by (rule policy_okI [OF ph', where ?h0.0 = h0 and ?addrs0.0 = addrs0]) (use o c in simp_all)
      moreover have "confined (Direct host addrs redirected) hs"
        using c True o u ne ph by (elim conjE disjE) simp_all
      ultimately show ?thesis by blast
    next
      case False
      with assms(2) m Resolved have "m AND NOT (allowed OR PUBLIC) = 0" "p' = p\<lparr>po_origin := Resolved allowed (ph \<or> m AND PUBLIC \<noteq> 0)\<rparr>"
        by (auto simp: validate_def Let_def split: if_splits)
      then have "zset addrs \<subseteq> insert Public (zset addrs0)" "p' = p\<lparr>po_origin := Resolved allowed (ph \<or> Public \<in> zset addrs)\<rparr>"
        unfolding rep_subset [OF r r'] unfolding PUBLIC_def rs by auto
      moreover have "policy_ok (Direct host addrs redirected # hs) p'"
        by (rule policy_okI [where ?h0.0 = h0 and ?addrs0.0 = addrs0]) (use o ph calculation(2) in auto)
      ultimately show ?thesis using False o u ne by simp
    qed
  qed
qed

lemma pin_direct:
  assumes "hpl_proxy plan = None" "pin H plan redirected cancelled late (RaceResolved event) p = Inr (plan', p')"
    and "resolve_host (hpl_host plan) (hpl_port plan) (hpl_dns plan) (hpl_dns_ms plan) event = Inr res"
  shows "validate (hpl_host plan) (res_addrs res) redirected p = Inr p' \<and> plan' = pin_overrides plan res"
  using assms by (auto simp: pin_def split: if_splits sum.splits)

lemma pin_via_proxy:
  assumes "hpl_proxy plan \<noteq> None" "pin H plan redirected cancelled late race p = Inr (plan', p')"
  shows "\<not> redirected \<and> permitted_literal (hpl_host plan) \<and> p' = p\<lparr>po_origin := OpaqueProxy\<rparr>"
  using assms by (auto simp: pin_def pin_proxied_def Let_def split: if_splits)

lemma pinned_ok: "pinned hs p \<Longrightarrow> policy_ok hs p \<and> (\<forall>i < length hs. confined (hs ! i) (drop (Suc i) hs))"
proof (induction rule: pinned.induct)
  case start
  show ?case by (simp add: policy_ok_def default_policy_def)
next
  case (direct hs p plan H redirected cancelled late event plan' p' res)
  have "validate (hpl_host plan) (res_addrs res) redirected p = Inr p'" using pin_direct [OF direct(2-4)] by simp
  from validate_confined [OF _ this] direct.IH
  have "confined (Direct (hpl_host plan) (res_addrs res) redirected) hs" "policy_ok (Direct (hpl_host plan) (res_addrs res) redirected # hs) p'"
    by auto
  with direct.IH show ?case by (auto simp: less_Suc_eq_0_disj simp del: confined.simps)
next
  case (proxied hs p plan H redirected cancelled late race plan' p')
  from pin_via_proxy [OF proxied(2,3)] proxied.IH show ?case by (auto simp: policy_ok_def less_Suc_eq_0_disj)
qed


definition demo_hop :: http_plan where
  "demo_hop =
     \<lparr>hpl_https = False, hpl_host = ''host'', hpl_port = 80, hpl_authority = ''host'', hpl_headers = [],
      hpl_dns = \<lparr>dc_resolver = ResolverSystem, dc_overrides = [], dc_ip_preference = PrefSystem\<rparr>,
      hpl_proxy = None, hpl_total_ms = None, hpl_dns_ms = 0\<rparr>"

definition demo_http :: http_crate where
  "demo_http = \<lparr>value_to_str = (\<lambda>_. None), authority_host = Some\<rparr>"

definition demo_answer :: "32 word \<Rightarrow> resolver_event" where
  "demo_answer ip = SystemDone (LookupIps [V4 ip])"

lemma ip_char_no_brackets: "ip_char c \<Longrightarrow> c \<noteq> CHR ''['' \<and> c \<noteq> CHR '']''"
  by (auto simp: ip_char_def radix_val_def hex_val_def byte_def)

lemma unbracket_none: "CHR ''['' \<notin> set s \<Longrightarrow> CHR '']'' \<notin> set s \<Longrightarrow> unbracket s = s"
proof -
  have d: "dropWhile (\<lambda>x. x = c) t = t" if "c \<notin> set t" for c :: char and t using that by (cases t) auto
  show "CHR ''['' \<notin> set s \<Longrightarrow> CHR '']'' \<notin> set s \<Longrightarrow> unbracket s = s"
    by (simp add: unbracket_def trim_start_matches_def trim_end_matches_def d)
qed

lemma parse_ip_name: "stops 16 s \<Longrightarrow> take 2 s \<noteq> ''::'' \<Longrightarrow> parse_ip s = None"
proof -
  assume s: "stops 16 s" "take 2 s \<noteq> ''::''"
  then have "stops 10 s" using radix_mono [of "hd s"] by (auto simp: stops_def)
  then have 4: "read_ipv4 s = None" by (simp add: read_ipv4_Suc read_number_stops)
  have "(8 :: nat) = Suc 7" by simp
  then have "read_groups 0 8 s = ([], False, s)"
    using s(1) 4 by (simp only: read_groups.simps(2)) (simp add: read_separator_def read_number_stops)
  with 4 s(2) show ?thesis by (simp add: parse_ip_def read_ipv6_def)
qed

lemma eq_ignore_length: "eq_ignore_ascii_case a b \<Longrightarrow> length a = length b"
  unfolding eq_ignore_ascii_case_def by (rule map_eq_imp_length_eq)

lemma demo_literal: "parse_literal ''host'' = None" "is_localhost_name ''host'' = False"
proof -
  have u: "unbracket ''host'' = ''host''" by (rule unbracket_none) simp_all
  have "parse_ip ''host'' = None" by (rule parse_ip_name) (simp_all add: stops_def radix_val_def hex_val_def byte_def)
  then show "parse_literal ''host'' = None" by (simp add: parse_literal_def u)
  have "\<not> eq_ignore_ascii_case ''host'' ''localhost''" using eq_ignore_length [of "''host''" "''localhost''"] by auto
  then show "is_localhost_name ''host'' = False"
    by (simp add: is_localhost_name_def u strip_last_def rsplit_once_def split_once_def)
qed

lemma demo_zone: "zone4 0x0A000001 = Some Private" "zone4 0x08080808 = Some Public"
proof -
  have "rev [0..<4] = [3, 2, Suc 0, 0]" by (simp add: upt_rec)
  then have "octets4 0x0A000001 = [10, 0, 0, 1]" "octets4 0x08080808 = [8, 8, 8, 8]"
    by (simp_all add: octets4_def to_be_def drop_bit_eq_div)
  then show "zone4 0x0A000001 = Some Private" "zone4 0x08080808 = Some Public"
    by (simp_all add: zone4_def v4_is_loopback_def v4_is_link_local_def v4_is_private_def)
qed

lemma demo_hop_resolves:
  "resolve_host (hpl_host demo_hop) (hpl_port demo_hop) (hpl_dns demo_hop) (hpl_dns_ms demo_hop) (demo_answer ip) =
     Inr \<lparr>res_addrs = [(V4 ip, 80)], res_source = ''system''\<rparr>"
  by (simp add: demo_hop_def demo_answer_def resolve_host_def fixed_resolution_def demo_literal resolve_system_def
      system_answer_def apply_preference_def)

abbreviation demo_res :: "32 word \<Rightarrow> resolution" where
  "demo_res ip \<equiv> \<lparr>res_addrs = [(V4 ip, 80)], res_source = ''system''\<rparr>"

abbreviation demo_policy :: "bool \<Rightarrow> destination_policy" where
  "demo_policy hop \<equiv> \<lparr>po_origin = Resolved 2 hop, po_host = host_key ''host''\<rparr>"

lemma demo_original:
  "pin demo_http demo_hop False False False (RaceResolved (demo_answer 0x0A000001)) default_policy =
     Inr (pin_overrides demo_hop (demo_res 0x0A000001), demo_policy False)"
  by (simp add: pin_def demo_hop_resolves) (simp add: demo_hop_def validate_def default_policy_def zone_of_def demo_zone
      zone_bit_def zone_index_def PUBLIC_def Let_def)

lemma demo_redirect:
  "pin demo_http demo_hop True False False (RaceResolved (demo_answer 0x08080808)) (demo_policy False) =
     Inr (pin_overrides demo_hop (demo_res 0x08080808), demo_policy True)"
  by (simp add: pin_def demo_hop_resolves) (simp add: demo_hop_def validate_def validate_redirect_def zone_of_def demo_zone
      zone_bit_def zone_index_def PUBLIC_def Let_def)

lemma demo_pinned:
  "pinned [Direct ''host'' [(V4 0x08080808, 80)] True, Direct ''host'' [(V4 0x0A000001, 80)] False] (demo_policy True)"
proof -
  have d: "hpl_proxy demo_hop = None" "hpl_host demo_hop = ''host''" by (simp_all add: demo_hop_def)
  show ?thesis
    using pinned.direct [OF pinned.direct [OF pinned.start d(1) demo_original demo_hop_resolves] d(1) demo_redirect demo_hop_resolves]
    by (simp add: d(2))
qed


section \<open>The validated answer is the dialled answer\<close>

lemma parse_literal_show: "parse_literal (show_ip ip) = Some ip"
proof -
  have "CHR ''['' \<notin> set (show_ip ip)" "CHR '']'' \<notin> set (show_ip ip)"
    using show_ip_chars [of ip] ip_char_no_brackets by (auto simp: list_all_iff)
  then show ?thesis by (simp add: parse_literal_def unbracket_none parse_show_ip)
qed

lemma apply_preference_idem: "apply_preference pref (apply_preference pref addrs) = apply_preference pref addrs"
  by (cases pref) (simp_all add: apply_preference_def sort_key_id_if_sorted)

lemma set_apply_preference: "set (apply_preference pref addrs) \<subseteq> set addrs"
  by (cases pref) (auto simp: apply_preference_def)

lemma override_addrs_show:
  "list_all (\<lambda>a. snd a = port) addrs \<Longrightarrow> override_addrs host port (map (\<lambda>a. show_ip (fst a)) addrs) = Inr addrs"
  by (induction addrs) (auto simp: parse_literal_show)

lemma override_addrs_ports: "override_addrs host port as = Inr addrs \<Longrightarrow> list_all (\<lambda>a. snd a = port) addrs"
  by (induction as arbitrary: addrs) (auto split: option.splits sum.splits)

text \<open>A custom resolver answers with the port it was asked for, as \<^verbatim>\<open>resolve_custom\<close> builds its addresses.\<close>

definition event_port :: "16 word \<Rightarrow> resolver_event \<Rightarrow> bool" where
  "event_port port event = (case event of CustomDone (Inr res) \<Rightarrow> list_all (\<lambda>a. snd a = port) (res_addrs res) | _ \<Rightarrow> True)"

lemma resolve_host_preferred:
  assumes "resolve_host host port cfg ms event = Inr res" "event_port port event" "parse_literal host = None"
  shows "list_all (\<lambda>a. snd a = port) (res_addrs res) \<and> apply_preference (dc_ip_preference cfg) (res_addrs res) = res_addrs res"
proof -
  let ?pref = "apply_preference (dc_ip_preference cfg)"
  have "\<exists>addrs. res_addrs res = ?pref addrs \<and> list_all (\<lambda>a. snd a = port) addrs"
  proof (cases "fixed_resolution host port cfg")
    case (Some fixed)
    with assms(1,3) show ?thesis
      by (auto simp: resolve_host_def fixed_resolution_def split: option.splits sum.splits dest!: override_addrs_ports)
  next
    case None
    with assms(1,2) show ?thesis
      by (auto simp: resolve_host_def resolve_system_def system_answer_def event_port_def Let_def list_all_iff
          split: resolver_event.splits system_lookup.splits sum.splits if_splits)
  qed
  then show ?thesis using set_apply_preference apply_preference_idem by (fastforce simp: list_all_iff)
qed

text \<open>
  C24. The answer that was validated is the answer that is dialled: after a successful \<^verbatim>\<open>pin\<close> without a
  proxy, resolving the pinned plan never asks a resolver again and gives exactly the validated
  addresses, for the same host and port.
\<close>

theorem pinned_answer_dialled:
  assumes "hpl_proxy plan = None" "pin H plan redirected cancelled late (RaceResolved event) p = Inr (plan', p')"
    and "event_port (hpl_port plan) event"
  shows "\<exists>res. resolve_host (hpl_host plan) (hpl_port plan) (hpl_dns plan) (hpl_dns_ms plan) event = Inr res
    \<and> validate (hpl_host plan) (res_addrs res) redirected p = Inr p'
    \<and> hpl_host plan' = hpl_host plan \<and> hpl_port plan' = hpl_port plan
    \<and> (\<forall>ms later. \<exists>dialled. resolve_host (hpl_host plan') (hpl_port plan') (hpl_dns plan') ms later = Inr dialled \<and> res_addrs dialled = res_addrs res)"
proof -
  obtain res where res: "resolve_host (hpl_host plan) (hpl_port plan) (hpl_dns plan) (hpl_dns_ms plan) event = Inr res"
    using assms by (auto simp: pin_def split: if_splits sum.splits)
  from pin_direct [OF assms(1,2) res] have v: "validate (hpl_host plan) (res_addrs res) redirected p = Inr p'" and q: "plan' = pin_overrides plan res"
    by auto
  have "\<exists>dialled. fixed_resolution (hpl_host plan) (hpl_port plan) (hpl_dns plan') = Some (Inr dialled) \<and> res_addrs dialled = res_addrs res"
  proof (cases "parse_literal (hpl_host plan)")
    case None
    note pf = resolve_host_preferred [OF res assms(3) None]
    let ?new = "\<lparr>dov_host = hpl_host plan, dov_addresses = map (\<lambda>a. show_ip (fst a)) (res_addrs res)\<rparr>"
    have "find (\<lambda>ov. eq_ignore_ascii_case (dov_host ov) (hpl_host plan))
        (filter (\<lambda>ov. \<not> eq_ignore_ascii_case (dov_host ov) (hpl_host plan)) os @ [?new]) = Some ?new" for os
      by (induction os) (simp_all add: eq_ignore_ascii_case_def)
    with None pf show ?thesis by (simp add: q pin_overrides_def fixed_resolution_def override_addrs_show)
  next
    case (Some ip)
    with res show ?thesis by (auto simp: q pin_overrides_def resolve_host_def fixed_resolution_def)
  qed
  moreover have "hpl_host plan' = hpl_host plan" "hpl_port plan' = hpl_port plan" by (simp_all add: q pin_overrides_def)
  ultimately show ?thesis using res v by (auto simp: resolve_host_def)
qed

theorem pinned_answer_dialled_witness:
  "\<exists>plan' p'. pin demo_http demo_hop False False False (RaceResolved (demo_answer 0x0A000001)) default_policy = Inr (plan', p')
     \<and> (\<exists>dialled. resolve_host ''host'' 80 (hpl_dns plan') 5 (demo_answer 0x08080808) = Inr dialled \<and> res_addrs dialled = [(V4 0x0A000001, 80)])"
proof -
  have d: "hpl_proxy demo_hop = None" "hpl_host demo_hop = ''host''" "hpl_port demo_hop = 80" by (simp_all add: demo_hop_def)
  have e: "event_port (hpl_port demo_hop) (demo_answer 0x0A000001)" by (simp add: event_port_def demo_answer_def)
  from pinned_answer_dialled [OF d(1) demo_original e] obtain res where
    "resolve_host (hpl_host demo_hop) (hpl_port demo_hop) (hpl_dns demo_hop) (hpl_dns_ms demo_hop) (demo_answer 0x0A000001) = Inr res"
    and "\<exists>dialled. resolve_host ''host'' 80 (hpl_dns (pin_overrides demo_hop (demo_res 0x0A000001))) 5 (demo_answer 0x08080808) = Inr dialled
      \<and> res_addrs dialled = res_addrs res"
    by (auto simp: d)
  with demo_hop_resolves [of "0x0A000001"] show ?thesis using demo_original by auto
qed

section \<open>NO_PROXY matching\<close>

lemma mask_eq_div: "(n AND NOT (mask k) = i AND NOT (mask k)) \<longleftrightarrow> drop_bit k n = drop_bit k (i :: 'a::len word)"
proof -
  have "n AND NOT (mask k) = push_bit k (drop_bit k n)" for n :: "'a word"
    by (rule bit_word_eqI) (auto simp: bit_simps)
  moreover have "drop_bit k (push_bit k (drop_bit k n)) = drop_bit k n" for n :: "'a word"
    by (rule bit_word_eqI) (auto simp: bit_simps dest: bit_imp_le_length)
  ultimately show ?thesis by metis
qed

text \<open>
  Address blocks and ports in \<^verbatim>\<open>NO_PROXY\<close>.  A block of \<open>b\<close> bits contains an address exactly when both
  are of one family, the length fits it and their first \<open>b\<close> bits agree; and what bypasses the proxy on
  every port bypasses it on each one.
\<close>

lemma no_proxy_blocks_and_ports:
  "(cidr_contains net b ip \<longleftrightarrow>
     (case (net, ip) of
        (V4 n, V4 i) \<Rightarrow> b \<le> 32 \<and> unat n div 2 ^ (32 - b) = unat i div 2 ^ (32 - b)
      | (V6 n, V6 i) \<Rightarrow> b \<le> 128 \<and> unat n div 2 ^ (128 - b) = unat i div 2 ^ (128 - b)
      | _ \<Rightarrow> False))
   \<and> (no_proxy_matches_every_port no_proxy host \<longrightarrow> no_proxy_matches no_proxy host port)"
proof
  have d: "drop_bit k n = drop_bit k i \<longleftrightarrow> unat n div 2 ^ k = unat i div 2 ^ k" for k and n i :: "'a::len word"
  proof -
    have "unat (drop_bit k w) = unat w div 2 ^ k" for w :: "'a word" unfolding unat_drop_bit_eq by (simp add: drop_bit_eq_div)
    then show ?thesis by (simp add: word_unat_eq_iff)
  qed
  have z: "unat (n :: 32 word) div 4294967296 = 0" "unat (m :: 128 word) div 2 ^ 128 = 0" for n m
    using unsigned_less [of n, where ?'a = nat] unsigned_less [of m, where ?'a = nat] by simp_all
  show "cidr_contains net b ip \<longleftrightarrow>
     (case (net, ip) of
        (V4 n, V4 i) \<Rightarrow> b \<le> 32 \<and> unat n div 2 ^ (32 - b) = unat i div 2 ^ (32 - b)
      | (V6 n, V6 i) \<Rightarrow> b \<le> 128 \<and> unat n div 2 ^ (128 - b) = unat i div 2 ^ (128 - b)
      | _ \<Rightarrow> False)"
    using z by (cases net; cases ip) (simp_all add: cidr_contains_def Let_def mask_eq_div d)
  have "entry_matches raw h None \<Longrightarrow> entry_matches raw h (Some port)" for raw h
    by (auto simp: entry_matches_def Let_def split: if_splits prod.splits option.splits)
  then show "no_proxy_matches_every_port no_proxy host \<longrightarrow> no_proxy_matches no_proxy host port"
    by (auto simp: no_proxy_matches_every_port_def no_proxy_matches_def no_proxy_match_def Let_def list_ex_iff)
qed

end
