(* ===== verification/Conn_Pool.thy ===== *)
theory Conn_Pool
  imports Rust_Text
begin

text \<open>
  The caches of the HTTP transport and the fence that empties them: clear generations
  (\<^verbatim>\<open>crates/anvil-transport/src/fence.rs\<close>), the pool of idle connections (\<^verbatim>\<open>http.rs\<close>) and the cache of TLS session
  tickets (\<^verbatim>\<open>tickets.rs\<close>).

  A \<^verbatim>\<open>HashMap\<close> is its list of entries, in no particular order: where the code iterates over one and the
  order can matter, the order is an argument \<open>order\<close>.  What is shared by reference counting (the requests
  in flight on an HTTP/2 connection, the tickets of a context) is kept in a store of the state under the
  number of the connection or context.  Whether a connection still works (\<^verbatim>\<open>is_usable\<close>) and the time are
  arguments of the operations that ask.  \<^verbatim>\<open>u64\<close> generations are \<open>nat\<close>: one is used up per clear.
\<close>

section \<open>Hash maps\<close>

definition hm_insert :: "'k \<Rightarrow> 'v \<Rightarrow> ('k \<times> 'v) list \<Rightarrow> ('k \<times> 'v) list" where
  "hm_insert k v m = (k, v) # filter (\<lambda>(k', _). k' \<noteq> k) m"

definition hm_remove :: "'k \<Rightarrow> ('k \<times> 'v) list \<Rightarrow> ('k \<times> 'v) list" where
  "hm_remove k m = filter (\<lambda>(k', _). k' \<noteq> k) m"

abbreviation hm_ok :: "('k \<times> 'v) list \<Rightarrow> bool" where
  "hm_ok m \<equiv> distinct (map fst m)"

lemma hm_remove_map_of [rust_simps]: "map_of (hm_remove k m) k' = (if k' = k then None else map_of m k')"
  by (induction m) (auto simp: hm_remove_def)

lemma hm_remove_set [rust_simps]: "set (hm_remove k m) = {e \<in> set m. fst e \<noteq> k}"
  by (auto simp: hm_remove_def)

lemma hm_remove_ok [rust_simps]: "hm_ok m \<Longrightarrow> hm_ok (hm_remove k m)"
  by (simp add: hm_remove_def distinct_map_filter)

lemma hm_insert_remove: "hm_insert k v m = (k, v) # hm_remove k m"
  by (simp add: hm_insert_def hm_remove_def)

lemma hm_insert_ok [rust_simps]: "hm_ok m \<Longrightarrow> hm_ok (hm_insert k v m)"
  by (simp add: hm_insert_remove hm_remove_ok) (auto simp: hm_remove_set)

lemma hm_remove_absent: "map_of m k = None \<Longrightarrow> hm_remove k m = m"
  by (induction m) (auto simp: hm_remove_def split: if_splits)

lemma sum_hm_remove:
  "hm_ok m \<Longrightarrow> map_of m k = Some v \<Longrightarrow> f (k, v) + sum_list (map f (hm_remove k m)) = (sum_list (map f m) :: nat)"
proof (induction m)
  case (Cons e m)
  obtain k' v' where e: "e = (k', v')" by (cases e)
  show ?case
  proof (cases "k' = k")
    case True
    with Cons.prems e have "map_of m k = None" by (auto simp: map_of_eq_None_iff)
    then have "filter (\<lambda>(k', _). k' \<noteq> k) m = m" using hm_remove_absent [of m k] by (simp add: hm_remove_def)
    with True Cons.prems e show ?thesis by (simp add: hm_remove_def)
  next
    case False
    with Cons e show ?thesis by (simp add: hm_remove_def)
  qed
qed simp

definition min_by_key :: "('a \<Rightarrow> 'k :: linorder) \<Rightarrow> 'a list \<Rightarrow> 'a option" where
  "min_by_key f xs = map_option (\<lambda>i. xs ! i) (min_pos (\<lambda>_. True) f xs)"

section \<open>Generations\<close>

record generations =
  g_current :: nat
  g_all :: nat
  g_isolations :: "(string \<times> nat) list"

definition no_generations :: generations where
  "no_generations = \<lparr>g_current = 0, g_all = 0, g_isolations = []\<rparr>"

definition gen_clear :: "generations \<Rightarrow> generations" where
  "gen_clear g = g\<lparr>g_current := g_current g + 1, g_all := g_current g + 1, g_isolations := []\<rparr>"

definition gen_clear_isolation :: "string \<Rightarrow> generations \<Rightarrow> generations" where
  "gen_clear_isolation isolation g =
     g\<lparr>g_current := g_current g + 1, g_isolations := hm_insert isolation (g_current g + 1) (g_isolations g)\<rparr>"

definition in_isolation :: "string \<Rightarrow> string \<Rightarrow> bool" where
  "in_isolation key isolation \<longleftrightarrow> prefix isolation key \<and> prefix ''|'' (drop (length isolation) key)"

definition admits :: "generations \<Rightarrow> nat \<Rightarrow> string \<Rightarrow> bool" where
  "admits g generation key \<longleftrightarrow>
     g_all g \<le> generation \<and> list_all (\<lambda>(isolation, cleared). cleared \<le> generation \<or> \<not> in_isolation key isolation) (g_isolations g)"

section \<open>Connection pool\<close>

definition MAX_IDLE_PER_KEY :: nat where "MAX_IDLE_PER_KEY = 8"
definition MAX_IDLE_TOTAL :: nat where "MAX_IDLE_TOTAL = 64"
definition IDLE_TTL :: nat where "IDLE_TTL = 90000"
definition TOO_EARLY_TTL :: nat where "TOO_EARLY_TTL = 10000"

text \<open>Times and durations in milliseconds.\<close>

record pool_limits =
  max_idle_per_key :: nat
  max_idle_total :: nat
  idle_ttl :: nat

definition default_limits :: pool_limits where
  "default_limits = \<lparr>max_idle_per_key = MAX_IDLE_PER_KEY, max_idle_total = MAX_IDLE_TOTAL, idle_ttl = IDLE_TTL\<rparr>"

text \<open>A pooled connection: its number (\<^verbatim>\<open>template.id\<close>), whether its sender is HTTP/2, and when it was returned.\<close>

record pooled =
  pl_id :: nat
  pl_h2 :: bool
  pl_idle_since :: nat

record stream_use =
  su_active :: nat
  su_idle_since :: nat

record pool_state =
  ps_gens :: generations
  ps_idle :: "(string \<times> pooled list) list"
  ps_too_early :: "(string \<times> pooled) list"
  ps_streams :: "nat \<Rightarrow> stream_use"

record pool_stats =
  st_keys :: nat
  st_connections :: nat
  st_idle :: nat

definition idle_start :: "(nat \<Rightarrow> stream_use) \<Rightarrow> pooled \<Rightarrow> nat option" where
  "idle_start streams p =
     (if \<not> pl_h2 p then Some (pl_idle_since p)
      else if su_active (streams (pl_id p)) = 0 then Some (su_idle_since (streams (pl_id p))) else None)"

definition expired :: "(pooled \<Rightarrow> bool) \<Rightarrow> (nat \<Rightarrow> stream_use) \<Rightarrow> nat \<Rightarrow> nat \<Rightarrow> pooled \<Rightarrow> bool" where
  "expired usable streams now ttl p \<longleftrightarrow>
     \<not> usable p \<or> (case idle_start streams p of Some t \<Rightarrow> ttl \<le> now - t | None \<Rightarrow> False)"

text \<open>\<^verbatim>\<open>lease\<close> and the end of a lease.\<close>

definition lease :: "pooled \<Rightarrow> (nat \<Rightarrow> stream_use) \<Rightarrow> (nat \<Rightarrow> stream_use)" where
  "lease p streams =
     (if pl_h2 p then streams(pl_id p := (streams (pl_id p))\<lparr>su_active := su_active (streams (pl_id p)) + 1\<rparr>) else streams)"

definition end_lease :: "nat \<Rightarrow> nat \<Rightarrow> (nat \<Rightarrow> stream_use) \<Rightarrow> (nat \<Rightarrow> stream_use)" where
  "end_lease conn now streams =
     (let u = streams conn; a = su_active u - 1
      in streams(conn := (if a = 0 then \<lparr>su_active = a, su_idle_since = now\<rparr> else u\<lparr>su_active := a\<rparr>)))"

definition pool_stats_of :: "pool_state \<Rightarrow> pool_stats" where
  "pool_stats_of s =
     (let conns = concat (map snd (ps_idle s))
      in \<lparr>st_keys = length (ps_idle s), st_connections = length conns,
          st_idle = length (filter (\<lambda>p. idle_start (ps_streams s) p \<noteq> None) conns)\<rparr>)"

definition put_list :: "string \<Rightarrow> pooled list \<Rightarrow> (string \<times> pooled list) list \<Rightarrow> (string \<times> pooled list) list" where
  "put_list key ps idle = (if ps = [] then hm_remove key idle else hm_insert key ps idle)"

definition checkout :: "(pooled \<Rightarrow> bool) \<Rightarrow> nat \<Rightarrow> pool_limits \<Rightarrow> string \<Rightarrow> pool_state \<Rightarrow> pooled option \<times> pool_state" where
  "checkout usable now limits key s =
     (case map_of (ps_idle s) key of
        None \<Rightarrow> (None, s)
      | Some ps \<Rightarrow>
          (let live = filter (\<lambda>p. \<not> expired usable (ps_streams s) now (idle_ttl limits) p) ps
           in case find pl_h2 live of
                Some p \<Rightarrow> (Some p, s\<lparr>ps_idle := put_list key live (ps_idle s), ps_streams := lease p (ps_streams s)\<rparr>)
              | None \<Rightarrow>
                  (if live = [] then (None, s\<lparr>ps_idle := put_list key [] (ps_idle s)\<rparr>)
                   else (Some (last live), s\<lparr>ps_idle := put_list key (butlast live) (ps_idle s)\<rparr>))))"

text \<open>The idle connections as \<^verbatim>\<open>evict_over_cap\<close> enumerates them: since when, the key, the position.\<close>

definition idle_entries :: "(nat \<Rightarrow> stream_use) \<Rightarrow> string \<times> pooled list \<Rightarrow> (nat \<times> string \<times> nat) list" where
  "idle_entries streams e =
     (case e of (k, ps) \<Rightarrow>
        concat (map (\<lambda>i. case idle_start streams (ps ! i) of Some t \<Rightarrow> [(t, k, i)] | None \<Rightarrow> []) [0..<length ps]))"

type_synonym hash_order = "(string \<times> pooled list) list \<Rightarrow> (string \<times> pooled list) list"

definition oldest_idle :: "hash_order \<Rightarrow> (nat \<Rightarrow> stream_use) \<Rightarrow> (string \<times> pooled list) list \<Rightarrow> (string \<times> nat) option" where
  "oldest_idle order streams idle =
     map_option (\<lambda>(t, k, i). (k, i)) (min_by_key fst (concat (map (idle_entries streams) (order idle))))"

definition idle_count :: "(nat \<Rightarrow> stream_use) \<Rightarrow> (string \<times> pooled list) list \<Rightarrow> nat" where
  "idle_count streams idle = length (filter (\<lambda>p. idle_start streams p \<noteq> None) (concat (map snd idle)))"

fun evict_oldest :: "hash_order \<Rightarrow> (nat \<Rightarrow> stream_use) \<Rightarrow> nat \<Rightarrow> (string \<times> pooled list) list \<Rightarrow> (string \<times> pooled list) list" where
  "evict_oldest order streams 0 idle = idle"
| "evict_oldest order streams (Suc n) idle =
     (case oldest_idle order streams idle of
        None \<Rightarrow> idle
      | Some (key, i) \<Rightarrow>
          (case map_of idle key of
             Some ps \<Rightarrow> evict_oldest order streams n (put_list key (vec_remove i ps) idle)
           | None \<Rightarrow> evict_oldest order streams n idle))"

definition evict_over_cap :: "hash_order \<Rightarrow> (nat \<Rightarrow> stream_use) \<Rightarrow> nat \<Rightarrow> (string \<times> pooled list) list \<Rightarrow> (string \<times> pooled list) list" where
  "evict_over_cap order streams mx idle = evict_oldest order streams (idle_count streams idle - mx) idle"

text \<open>The list of the key after a connection is returned: when the key is full its longest idle one makes room, if any is idle.\<close>

definition admit_conn :: "pool_limits \<Rightarrow> (nat \<Rightarrow> stream_use) \<Rightarrow> pooled \<Rightarrow> pooled list \<Rightarrow> pooled list" where
  "admit_conn limits streams p ps =
     (let ps1 = (if max_idle_per_key limits \<le> length ps
                 then (case min_by_key fst (map (\<lambda>(t, _, i). (t, i)) (idle_entries streams ([], ps))) of
                         Some (_, i) \<Rightarrow> vec_remove i ps
                       | None \<Rightarrow> ps)
                 else ps)
      in if length ps1 < max_idle_per_key limits then ps1 @ [p] else ps1)"

definition checkin :: "hash_order \<Rightarrow> nat \<Rightarrow> pool_limits \<Rightarrow> string \<Rightarrow> pooled \<Rightarrow> nat \<Rightarrow> pool_state \<Rightarrow> pool_state" where
  "checkin order now limits key p0 generation s =
     (let p = p0\<lparr>pl_idle_since := now\<rparr>
      in if \<not> admits (ps_gens s) generation key then s
         else let ps = (case map_of (ps_idle s) key of Some ps \<Rightarrow> ps | None \<Rightarrow> [])
              in if list_ex (\<lambda>x. pl_id x = pl_id p) ps then s
                 else let idle = put_list key (admit_conn limits (ps_streams s) p ps) (ps_idle s)
                      in s\<lparr>ps_idle := evict_over_cap order (ps_streams s) (max_idle_total limits) idle\<rparr>)"

definition evict_conn :: "string \<Rightarrow> nat \<Rightarrow> pool_state \<Rightarrow> pool_state" where
  "evict_conn key conn s =
     (case map_of (ps_idle s) key of
        None \<Rightarrow> s
      | Some ps \<Rightarrow> s\<lparr>ps_idle := put_list key (filter (\<lambda>p. pl_id p \<noteq> conn) ps) (ps_idle s)\<rparr>)"

definition take_too_early :: "(pooled \<Rightarrow> bool) \<Rightarrow> nat \<Rightarrow> pool_limits \<Rightarrow> string \<Rightarrow> pool_state \<Rightarrow> pooled option \<times> pool_state" where
  "take_too_early usable now limits key s =
     (case map_of (ps_too_early s) key of
        None \<Rightarrow> (None, s)
      | Some p \<Rightarrow>
          (let s' = s\<lparr>ps_too_early := hm_remove key (ps_too_early s)\<rparr>
           in if expired usable (ps_streams s) now (min (idle_ttl limits) TOO_EARLY_TTL) p \<or> \<not> usable p then (None, s')
              else (Some p, s'\<lparr>ps_streams := lease p (ps_streams s)\<rparr>)))"

definition keep_too_early :: "nat \<Rightarrow> string \<Rightarrow> pooled \<Rightarrow> nat \<Rightarrow> pool_state \<Rightarrow> pool_state" where
  "keep_too_early now key p generation s =
     (if \<not> admits (ps_gens s) generation key then s
      else s\<lparr>ps_too_early := hm_insert key (p\<lparr>pl_idle_since := now\<rparr>) (ps_too_early s)\<rparr>)"

definition pool_clear :: "pool_state \<Rightarrow> pool_state" where
  "pool_clear s = s\<lparr>ps_gens := gen_clear (ps_gens s), ps_idle := [], ps_too_early := []\<rparr>"

definition pool_clear_isolation :: "string \<Rightarrow> pool_state \<Rightarrow> pool_state" where
  "pool_clear_isolation isolation s =
     (let other = (\<lambda>k. \<not> prefix (isolation @ ''|'') k)
      in s\<lparr>ps_gens := gen_clear_isolation isolation (ps_gens s),
           ps_idle := filter (\<lambda>(k, _). other k) (ps_idle s),
           ps_too_early := filter (\<lambda>(k, _). other k) (ps_too_early s)\<rparr>)"

text \<open>\<^verbatim>\<open>sweep_at\<close>: the state after it, and whether the pool still holds anything.\<close>

definition sweep :: "hash_order \<Rightarrow> (pooled \<Rightarrow> bool) \<Rightarrow> nat \<Rightarrow> pool_limits \<Rightarrow> pool_state \<Rightarrow> bool \<times> pool_state" where
  "sweep order usable now limits s =
     (let live = map (\<lambda>(k, ps). (k, filter (\<lambda>p. \<not> expired usable (ps_streams s) now (idle_ttl limits) p) ps)) (ps_idle s);
          idle = evict_over_cap order (ps_streams s) (max_idle_total limits) (filter (\<lambda>(_, ps). ps \<noteq> []) live);
          early = filter (\<lambda>(_, p). \<not> expired usable (ps_streams s) now (min (idle_ttl limits) TOO_EARLY_TTL) p) (ps_too_early s)
      in (idle \<noteq> [] \<or> early \<noteq> [], s\<lparr>ps_idle := idle, ps_too_early := early\<rparr>))"

definition sweep_interval :: "nat \<Rightarrow> nat" where
  "sweep_interval ttl = max 10 (min (ttl div 6) 15000)"

section \<open>The fence\<close>

datatype clearing = ClearAll | ClearIsolation string

fun do_clear :: "clearing \<Rightarrow> generations \<Rightarrow> generations" where
  "do_clear ClearAll g = gen_clear g"
| "do_clear (ClearIsolation isolation) g = gen_clear_isolation isolation g"

fun covers :: "string \<Rightarrow> clearing \<Rightarrow> bool" where
  "covers key ClearAll = True"
| "covers key (ClearIsolation isolation) = in_isolation key isolation"

definition gens_ok :: "generations \<Rightarrow> bool" where
  "gens_ok g \<longleftrightarrow> g_all g \<le> g_current g \<and> (\<forall>(i, c) \<in> set (g_isolations g). c \<le> g_current g)"

lemma do_clear_ok: "gens_ok g \<Longrightarrow> gens_ok (do_clear c g) \<and> g_current g < g_current (do_clear c g)"
  by (cases c) (auto simp: gens_ok_def gen_clear_def gen_clear_isolation_def hm_insert_def)

lemma admits_current: "gens_ok g \<Longrightarrow> admits g (g_current g) key"
  by (auto simp: gens_ok_def admits_def list_all_iff)

lemma admits_clear:
  "generation \<le> g_current g \<Longrightarrow> admits (do_clear c g) generation key \<longleftrightarrow> admits g generation key \<and> \<not> covers key c"
  by (cases c) (auto simp: admits_def gen_clear_def gen_clear_isolation_def hm_insert_def list_all_iff)

text \<open>
  A cache behind the fence: its operations, the generation and key of an operation that puts something
  in, and the clear an operation is.  What it holds after an operation was there before, or was put in
  by an operation whose generation is admitted; a clear leaves nothing it covers.
\<close>

locale fenced_cache =
  fixes gens :: "'s \<Rightarrow> generations"
    and held :: "'s \<Rightarrow> string set"
    and step :: "'op \<Rightarrow> 's \<Rightarrow> 's"
    and puts :: "'op \<Rightarrow> (nat \<times> string) option"
    and clears :: "'op \<Rightarrow> clearing option"
  assumes gens_step: "gens (step a s) = (case clears a of None \<Rightarrow> gens s | Some c \<Rightarrow> do_clear c (gens s))"
    and held_step: "key \<in> held (step a s) \<Longrightarrow> key \<in> held s \<or> (\<exists>g. puts a = Some (g, key) \<and> admits (gens s) g key)"
    and held_clear: "clears a = Some c \<Longrightarrow> key \<in> held (step a s) \<Longrightarrow> \<not> covers key c"
begin

lemma gens_ok_step: "gens_ok (gens s) \<Longrightarrow> gens_ok (gens (step a s)) \<and> g_current (gens s) \<le> g_current (gens (step a s))"
  using do_clear_ok [of "gens s"] by (auto simp: gens_step less_imp_le split: option.splits)

lemma admits_step:
  "generation \<le> g_current (gens s) \<Longrightarrow>
   admits (gens (step a s)) generation key \<longleftrightarrow> admits (gens s) generation key \<and> (\<forall>c. clears a = Some c \<longrightarrow> \<not> covers key c)"
  by (auto simp: gens_step admits_clear split: option.splits)

lemma admits_run:
  assumes "gens_ok (gens s)" "generation \<le> g_current (gens s)"
  shows "admits (gens (fold step as s)) generation key \<longleftrightarrow>
    admits (gens s) generation key \<and> (\<forall>a \<in> set as. \<forall>c. clears a = Some c \<longrightarrow> \<not> covers key c)"
  using assms
proof (induction as arbitrary: s)
  case (Cons a as)
  have "gens_ok (gens (step a s))" "generation \<le> g_current (gens (step a s))"
    using gens_ok_step [of s a] Cons.prems by auto
  with Cons.IH [of "step a s"] admits_step [OF Cons.prems(2)] show ?case by auto
qed simp

text \<open>An attempt may put something in exactly when no clear since it began covered the key.\<close>

lemma admits_iff_no_clear:
  assumes "gens_ok (gens s)"
  shows "admits (gens (fold step as s)) (g_current (gens s)) key \<longleftrightarrow> (\<forall>a \<in> set as. \<forall>c. clears a = Some c \<longrightarrow> \<not> covers key c)"
  using admits_run [OF assms order_refl] admits_current [OF assms] by blast

lemma refused_stays_out:
  assumes "gens_ok (gens s)" "key \<notin> held s" "bound \<le> g_current (gens s)" "\<And>g. g \<le> bound \<Longrightarrow> \<not> admits (gens s) g key"
    and "\<And>a g. a \<in> set as \<Longrightarrow> puts a = Some (g, key) \<Longrightarrow> g \<le> bound"
  shows "key \<notin> held (fold step as s)"
  using assms
proof (induction as arbitrary: s)
  case (Cons a as)
  let ?s = "step a s"
  have g: "gens_ok (gens ?s)" "bound \<le> g_current (gens ?s)" using gens_ok_step [of s a] Cons.prems(1,3) by auto
  have "key \<notin> held ?s" using held_step [of key a s] Cons.prems(2,4,5) by auto
  moreover have "\<not> admits (gens ?s) k key" if "k \<le> bound" for k
    using admits_step [of k s a key] Cons.prems(3,4) that by auto
  ultimately have "key \<notin> held (fold step as ?s)" using g Cons.prems(5) by (intro Cons.IH) auto
  then show ?case by simp
qed simp

text \<open>After a clear, nothing it covers comes back from attempts that began before it.\<close>

lemma fence:
  assumes "gens_ok (gens s)" "clears a = Some c" "covers key c"
    and "\<And>b g. b \<in> set as \<Longrightarrow> puts b = Some (g, key) \<Longrightarrow> g \<le> g_current (gens s)"
  shows "key \<notin> held (fold step (a # as) s)"
proof -
  have "key \<notin> held (step a s)" using held_clear [OF assms(2)] assms(3) by blast
  moreover have "gens_ok (gens (step a s))" "g_current (gens s) \<le> g_current (gens (step a s))"
    using gens_ok_step [OF assms(1), of a] by auto
  moreover have "\<not> admits (gens (step a s)) g key" if "g \<le> g_current (gens s)" for g
    using admits_step [OF that, of a key] assms(2,3) by auto
  ultimately show ?thesis using refused_stays_out [of "step a s" key "g_current (gens s)" as] assms(4) by auto
qed

end

section \<open>Runs of the pool\<close>

datatype pool_op =
    OpCheckout "pooled \<Rightarrow> bool" nat string
  | OpCheckin hash_order nat string pooled nat
  | OpEvict string nat
  | OpTakeEarly "pooled \<Rightarrow> bool" nat string
  | OpKeepEarly nat string pooled nat
  | OpSweep hash_order "pooled \<Rightarrow> bool" nat
  | OpEndLease nat nat
  | OpClear
  | OpClearIsolation string

fun pool_step :: "pool_limits \<Rightarrow> pool_op \<Rightarrow> pool_state \<Rightarrow> pool_state" where
  "pool_step L (OpCheckout usable now key) s = snd (checkout usable now L key s)"
| "pool_step L (OpCheckin order now key p generation) s = checkin order now L key p generation s"
| "pool_step L (OpEvict key conn) s = evict_conn key conn s"
| "pool_step L (OpTakeEarly usable now key) s = snd (take_too_early usable now L key s)"
| "pool_step L (OpKeepEarly now key p generation) s = keep_too_early now key p generation s"
| "pool_step L (OpSweep order usable now) s = snd (sweep order usable now L s)"
| "pool_step L (OpEndLease conn now) s = s\<lparr>ps_streams := end_lease conn now (ps_streams s)\<rparr>"
| "pool_step L OpClear s = pool_clear s"
| "pool_step L (OpClearIsolation isolation) s = pool_clear_isolation isolation s"

fun pool_puts :: "pool_op \<Rightarrow> (nat \<times> string) option" where
  "pool_puts (OpCheckin order now key p generation) = Some (generation, key)"
| "pool_puts (OpKeepEarly now key p generation) = Some (generation, key)"
| "pool_puts _ = None"

fun pool_clears :: "pool_op \<Rightarrow> clearing option" where
  "pool_clears OpClear = Some ClearAll"
| "pool_clears (OpClearIsolation isolation) = Some (ClearIsolation isolation)"
| "pool_clears _ = None"

definition hm_keys :: "('k \<times> 'v) list \<Rightarrow> 'k set" where
  "hm_keys m = fst ` set m"

definition held_keys :: "pool_state \<Rightarrow> string set" where
  "held_keys s = hm_keys (ps_idle s) \<union> hm_keys (ps_too_early s)"

lemma hm_keys_simps [simp]:
  "hm_keys [] = {}" "hm_keys (hm_insert k v m) = insert k (hm_keys m)" "hm_keys (hm_remove k m) = hm_keys m - {k}"
  "hm_keys (filter (\<lambda>(k, _). P k) m) = {k \<in> hm_keys m. P k}"
  by (auto simp: hm_keys_def hm_insert_def hm_remove_def image_iff)

lemma hm_keys_filter: "hm_keys (filter Q m) \<subseteq> hm_keys m"
  by (auto simp: hm_keys_def)

lemma hm_keys_map [simp]: "hm_keys (map (\<lambda>(k, v). (k, f k v)) m) = hm_keys m"
  by (force simp: hm_keys_def)

lemma map_of_hm_keys: "map_of m k = Some v \<Longrightarrow> k \<in> hm_keys m"
  by (force simp: hm_keys_def dest: map_of_SomeD)

lemma keys_put_list: "hm_keys (put_list key ps idle) \<subseteq> insert key (hm_keys idle)"
  by (auto simp: put_list_def)

lemma keys_put_list_some: "map_of idle key = Some qs \<Longrightarrow> hm_keys (put_list key ps idle) \<subseteq> hm_keys idle"
  using keys_put_list [of key ps idle] map_of_hm_keys [of idle key qs] by auto

lemma keys_evict_oldest: "hm_keys (evict_oldest order streams n idle) \<subseteq> hm_keys idle"
proof (induction n arbitrary: idle)
  case (Suc n)
  show ?case
  proof (cases "oldest_idle order streams idle")
    case (Some e)
    obtain k i where e: "e = (k, i)" by (cases e)
    show ?thesis
    proof (cases "map_of idle k")
      case None
      with Suc Some e show ?thesis by simp
    next
      case (Some ps)
      with Suc [of "put_list k (vec_remove i ps) idle"] keys_put_list_some [OF Some, of "vec_remove i ps"] \<open>oldest_idle order streams idle = Some e\<close> e
      show ?thesis by auto
    qed
  qed simp
qed simp

lemma prefix_isolation: "prefix (isolation @ ''|'') key \<longleftrightarrow> in_isolation key isolation"
  by (auto simp: in_isolation_def prefix_def)

interpretation pool: fenced_cache ps_gens held_keys "pool_step L" pool_puts pool_clears for L
proof
  show "ps_gens (pool_step L a s) = (case pool_clears a of None \<Rightarrow> ps_gens s | Some c \<Rightarrow> do_clear c (ps_gens s))" for L a s
    by (cases a)
      (auto simp: checkout_def checkin_def evict_conn_def take_too_early_def keep_too_early_def sweep_def pool_clear_def
        pool_clear_isolation_def Let_def split: option.splits)
  show "\<not> covers key c" if "pool_clears a = Some c" "key \<in> held_keys (pool_step L a s)" for L a c key s
    using that by (cases a) (auto simp: pool_clear_def pool_clear_isolation_def held_keys_def prefix_isolation Let_def)
  show "key \<in> held_keys s \<or> (\<exists>g. pool_puts a = Some (g, key) \<and> admits (ps_gens s) g key)" if "key \<in> held_keys (pool_step L a s)" for L a key s
  proof (cases a)
    case (OpCheckout usable now k)
    with that show ?thesis
      by (auto simp: checkout_def held_keys_def Let_def split: option.splits if_splits dest: keys_put_list_some [THEN subsetD])
  next
    case (OpCheckin order now k p g)
    with that show ?thesis
      by (auto simp: checkin_def held_keys_def evict_over_cap_def Let_def split: if_splits
          dest!: keys_evict_oldest [THEN subsetD] keys_put_list [THEN subsetD])
  next
    case (OpEvict k conn)
    with that show ?thesis
      by (auto simp: evict_conn_def held_keys_def split: option.splits dest: keys_put_list_some [THEN subsetD])
  next
    case (OpSweep order usable now)
    with that show ?thesis
      by (auto simp: sweep_def held_keys_def evict_over_cap_def Let_def
          dest!: keys_evict_oldest [THEN subsetD] hm_keys_filter [THEN subsetD])
  qed (use that in \<open>auto simp: take_too_early_def keep_too_early_def pool_clear_def pool_clear_isolation_def held_keys_def
      Let_def split: option.splits if_splits\<close>)
qed

definition empty_pool :: pool_state where
  "empty_pool = \<lparr>ps_gens = no_generations, ps_idle = [], ps_too_early = [], ps_streams = (\<lambda>_. \<lparr>su_active = 0, su_idle_since = 0\<rparr>)\<rparr>"

lemma empty_pool_gens: "gens_ok (ps_gens empty_pool)"
  by (simp add: empty_pool_def no_generations_def gens_ok_def)

lemma pool_run_gens: "gens_ok (ps_gens (fold (pool_step L) ops s)) \<longleftrightarrow> True" if "gens_ok (ps_gens s)" for s
  using that pool.gens_ok_step [of _ L] by (induction ops arbitrary: s) auto



section \<open>Bounds of the pool\<close>

definition idle_ok :: "pool_limits \<Rightarrow> (string \<times> pooled list) list \<Rightarrow> bool" where
  "idle_ok L idle \<longleftrightarrow> hm_ok idle \<and>
     list_all (\<lambda>(_, ps). ps \<noteq> [] \<and> length ps \<le> max_idle_per_key L \<and> distinct (map pl_id ps)) idle"

lemma idle_ok_put_list:
  "idle_ok L idle \<Longrightarrow> length ps \<le> max_idle_per_key L \<Longrightarrow> distinct (map pl_id ps) \<Longrightarrow> idle_ok L (put_list key ps idle)"
  by (auto simp: idle_ok_def put_list_def hm_insert_ok hm_remove_ok) (auto simp: hm_insert_def hm_remove_def list_all_iff)

lemma idle_ok_map_of: "idle_ok L idle \<Longrightarrow> map_of idle key = Some ps \<Longrightarrow> length ps \<le> max_idle_per_key L \<and> distinct (map pl_id ps)"
  by (auto simp: idle_ok_def list_all_iff dest!: map_of_SomeD)

lemma distinct_map_vec_remove: "distinct (map f ps) \<Longrightarrow> distinct (map f (vec_remove i ps))"
  by (simp add: map_vec_remove distinct_vec_remove)

lemma length_vec_remove_le: "length (vec_remove i ps) \<le> length ps"
  by (simp add: vec_remove_def)

lemma idle_ok_evict_oldest: "idle_ok L idle \<Longrightarrow> idle_ok L (evict_oldest order streams n idle)"
proof (induction n arbitrary: idle)
  case (Suc n)
  have "idle_ok L (put_list k (vec_remove i ps) idle)" if "map_of idle k = Some ps" for k i ps
    using idle_ok_map_of [OF Suc.prems that] length_vec_remove_le [of i ps]
    by (intro idle_ok_put_list [OF Suc.prems]) (auto intro: distinct_map_vec_remove)
  with Suc show ?case by (auto split: option.splits prod.splits)
qed simp

lemma idle_entries_index: "(t, k', i) \<in> set (idle_entries streams (k, ps)) \<Longrightarrow> k' = k \<and> i < length ps \<and> idle_start streams (ps ! i) = Some t"
  by (auto simp: idle_entries_def split: option.splits)

lemma min_by_key_mem: "min_by_key f xs = Some x \<Longrightarrow> x \<in> set xs"
  by (auto simp: min_by_key_def dest: min_pos_SomeD)

lemma min_by_key_None: "min_by_key f xs = None \<longleftrightarrow> xs = []"
  by (auto simp: min_by_key_def min_pos_None)

lemma admit_conn_ok:
  assumes "length ps \<le> max_idle_per_key L" "distinct (map pl_id ps)" "\<not> list_ex (\<lambda>x. pl_id x = pl_id p) ps"
  shows "length (admit_conn L streams p ps) \<le> max_idle_per_key L \<and> distinct (map pl_id (admit_conn L streams p ps))"
proof -
  have "distinct (map pl_id (vec_remove i ps @ [p]))" for i
    using assms distinct_map_vec_remove [OF assms(2), of i] set_vec_remove_subset [of i ps] by (auto simp: list_ex_iff)
  moreover have "distinct (map pl_id (ps @ [p]))" using assms by (auto simp: list_ex_iff)
  ultimately show ?thesis
    using assms length_vec_remove_le [of _ ps]
    by (auto simp: admit_conn_def Let_def distinct_map_vec_remove intro: order_trans split: option.splits prod.splits)
      (meson le_neq_implies_less)
qed

lemma idle_ok_filter_lists:
  "idle_ok L idle \<Longrightarrow> idle_ok L (filter (\<lambda>(_, ps). ps \<noteq> []) (map (\<lambda>(k, ps). (k, filter P ps)) idle))"
proof -
  assume a: "idle_ok L idle"
  have "map fst (map (\<lambda>(k, ps). (k, filter P ps)) idle) = map fst idle" by (simp add: comp_def case_prod_beta)
  then have "hm_ok (map (\<lambda>(k, ps). (k, filter P ps)) idle)" using a by (metis idle_ok_def)
  then have "hm_ok (filter (\<lambda>(_, ps). ps \<noteq> []) (map (\<lambda>(k, ps). (k, filter P ps)) idle))" by (rule distinct_map_filter)
  with a show ?thesis
    by (auto simp: idle_ok_def list_all_iff intro: order_trans [OF length_filter_le] distinct_map_filter)
qed

lemma pool_step_ok: "idle_ok L (ps_idle s) \<Longrightarrow> idle_ok L (ps_idle (pool_step L a s))"
proof (cases a)
  case (OpCheckout usable now key)
  assume i: "idle_ok L (ps_idle s)"
  have "idle_ok L (put_list key (filter P ps) (ps_idle s))" "idle_ok L (put_list key (butlast (filter P ps)) (ps_idle s))"
    "idle_ok L (put_list key [] (ps_idle s))"
    if "map_of (ps_idle s) key = Some ps" for P ps
    using idle_ok_map_of [OF i that] length_filter_le [of P ps] distinct_map_filter [of pl_id ps P]
    by (auto intro!: idle_ok_put_list [OF i] simp: map_butlast distinct_butlast simp del: length_filter_le)
  with i OpCheckout show ?thesis by (auto simp: checkout_def Let_def split: option.splits)
next
  case (OpCheckin order now key p g)
  assume i: "idle_ok L (ps_idle s)"
  have "idle_ok L (put_list key (admit_conn L (ps_streams s) (p\<lparr>pl_idle_since := now\<rparr>) ps) (ps_idle s))"
    if "case map_of (ps_idle s) key of Some qs \<Rightarrow> ps = qs | None \<Rightarrow> ps = []" "\<not> list_ex (\<lambda>x. pl_id x = pl_id p) ps" for ps
    using that idle_ok_map_of [OF i, of key] admit_conn_ok [of ps L "p\<lparr>pl_idle_since := now\<rparr>" "ps_streams s"]
    by (intro idle_ok_put_list [OF i]) (auto split: option.splits)
  with i OpCheckin show ?thesis
    by (auto simp: checkin_def evict_over_cap_def Let_def split: option.splits intro!: idle_ok_evict_oldest)
next
  case (OpEvict key conn)
  assume i: "idle_ok L (ps_idle s)"
  have "idle_ok L (put_list key (filter P ps) (ps_idle s))" if "map_of (ps_idle s) key = Some ps" for P ps
    using idle_ok_map_of [OF i that] length_filter_le [of P ps] distinct_map_filter [of pl_id ps P]
    by (auto intro!: idle_ok_put_list [OF i] simp del: length_filter_le)
  with i OpEvict show ?thesis by (auto simp: evict_conn_def split: option.splits)
next
  case (OpSweep order usable now)
  assume "idle_ok L (ps_idle s)"
  with OpSweep show ?thesis
    by (simp add: sweep_def Let_def evict_over_cap_def idle_ok_evict_oldest idle_ok_filter_lists)
next
  case (OpClearIsolation isolation)
  assume "idle_ok L (ps_idle s)"
  with OpClearIsolation show ?thesis
    by (auto simp: pool_clear_isolation_def idle_ok_def list_all_iff intro!: distinct_map_filter)
qed (auto simp: take_too_early_def keep_too_early_def pool_clear_def idle_ok_def Let_def split: option.splits)

lemma pool_run_ok: "idle_ok L (ps_idle s) \<Longrightarrow> idle_ok L (ps_idle (fold (pool_step L) ops s))"
  by (induction ops arbitrary: s) (auto intro: pool_step_ok)

text \<open>The number of idle connections, summed over the keys.\<close>

definition idle_in :: "(nat \<Rightarrow> stream_use) \<Rightarrow> pooled list \<Rightarrow> nat" where
  "idle_in streams ps = length (filter (\<lambda>p. idle_start streams p \<noteq> None) ps)"

lemma idle_count_sum: "idle_count streams idle = sum_list (map (\<lambda>e. idle_in streams (snd e)) idle)"
  by (induction idle) (simp_all add: idle_count_def idle_in_def)

lemma idle_in_vec_remove:
  "i < length ps \<Longrightarrow> idle_start streams (ps ! i) \<noteq> None \<Longrightarrow> idle_in streams ps = Suc (idle_in streams (vec_remove i ps))"
proof -
  assume a: "i < length ps" "idle_start streams (ps ! i) \<noteq> None"
  have "ps = take i ps @ ps ! i # drop (Suc i) ps" using a(1) by (simp add: id_take_nth_drop)
  then have "idle_in streams ps = idle_in streams (take i ps @ ps ! i # drop (Suc i) ps)" by simp
  also have "\<dots> = Suc (idle_in streams (vec_remove i ps))" using a(2) by (simp add: idle_in_def vec_remove_def)
  finally show ?thesis .
qed

lemma idle_count_put_list:
  assumes "hm_ok idle" "map_of idle key = Some ps"
  shows "idle_count streams (put_list key qs idle) + idle_in streams ps = idle_count streams idle + idle_in streams qs"
  using sum_hm_remove [OF assms, of "\<lambda>e. idle_in streams (snd e)"]
  by (auto simp: put_list_def idle_count_sum hm_insert_remove) (simp add: idle_in_def)

lemma oldest_idle_Some:
  assumes "set (order idle) = set idle" "oldest_idle order streams idle = Some (key, i)" "hm_ok idle"
  shows "\<exists>ps. map_of idle key = Some ps \<and> i < length ps \<and> idle_start streams (ps ! i) \<noteq> None"
proof -
  from assms(2) obtain t where "min_by_key fst (concat (map (idle_entries streams) (order idle))) = Some (t, key, i)"
    by (auto simp: oldest_idle_def)
  from min_by_key_mem [OF this] obtain k ps where e: "(k, ps) \<in> set (order idle)" "(t, key, i) \<in> set (idle_entries streams (k, ps))"
    by fastforce
  with assms(1,3) idle_entries_index [OF e(2)] show ?thesis by (auto intro: map_of_is_SomeI)
qed

lemma oldest_idle_None:
  assumes "set (order idle) = set idle" "oldest_idle order streams idle = None"
  shows "idle_count streams idle = 0"
proof -
  have n: "concat (map (idle_entries streams) (order idle)) = []" using assms(2) by (simp add: oldest_idle_def min_by_key_None)
  have "idle_start streams p = None" if "(k, ps) \<in> set idle" "p \<in> set ps" for k ps p
  proof (rule ccontr)
    assume "idle_start streams p \<noteq> None"
    then obtain t where t: "idle_start streams p = Some t" by blast
    from that(2) obtain i where i: "i < length ps" "ps ! i = p" by (auto simp: in_set_conv_nth)
    have "(t, k, i) \<in> set (idle_entries streams (k, ps))" using t i by (auto simp: idle_entries_def intro!: bexI [of _ i])
    moreover have "idle_entries streams (k, ps) = []" using n that(1) assms(1) by auto
    ultimately show False by simp
  qed
  then show ?thesis by (auto simp: idle_count_def filter_empty_conv)
qed

lemma evict_oldest_count:
  assumes "\<And>m. set (order m) = set m" "hm_ok idle"
  shows "idle_count streams (evict_oldest order streams n idle) = idle_count streams idle - n"
  using assms(2)
proof (induction n arbitrary: idle)
  case (Suc n)
  show ?case
  proof (cases "oldest_idle order streams idle")
    case None
    then show ?thesis using oldest_idle_None [of order idle streams] assms(1) by simp
  next
    case (Some e)
    obtain k i where e: "e = (k, i)" by (cases e)
    obtain ps where ps: "map_of idle k = Some ps" "i < length ps" "idle_start streams (ps ! i) \<noteq> None"
      using oldest_idle_Some [of order idle streams k i] assms(1) Suc.prems Some e by blast
    let ?idle = "put_list k (vec_remove i ps) idle"
    have "idle_count streams idle = Suc (idle_count streams ?idle)"
      using idle_count_put_list [OF Suc.prems ps(1), of streams "vec_remove i ps"] idle_in_vec_remove [OF ps(2,3)] by simp
    moreover have "hm_ok ?idle" using Suc.prems by (simp add: put_list_def hm_insert_ok hm_remove_ok)
    ultimately show ?thesis using Some e ps(1) Suc.IH [of ?idle] by simp
  qed
qed simp

lemma evict_over_cap_count:
  "(\<And>m. set (order m) = set m) \<Longrightarrow> hm_ok idle \<Longrightarrow> idle_count streams (evict_over_cap order streams mx idle) \<le> mx"
  by (simp add: evict_over_cap_def evict_oldest_count)

text \<open>Eviction closes connections and opens none.\<close>

lemma map_of_put_list: "map_of (put_list key ps idle) k = (if k = key then (if ps = [] then None else Some ps) else map_of idle k)"
  by (simp add: put_list_def hm_remove_map_of hm_insert_remove)

lemma evict_oldest_subset:
  "hm_ok idle \<Longrightarrow> (k, qs) \<in> set (evict_oldest order streams n idle) \<Longrightarrow> \<exists>ps. (k, ps) \<in> set idle \<and> set qs \<subseteq> set ps"
proof (induction n arbitrary: idle)
  case (Suc n)
  show ?case
  proof (cases "oldest_idle order streams idle")
    case (Some e)
    obtain key i where e: "e = (key, i)" by (cases e)
    show ?thesis
    proof (cases "map_of idle key")
      case None
      with Suc Some e show ?thesis by auto
    next
      case ps: (Some ps)
      let ?idle = "put_list key (vec_remove i ps) idle"
      have ok: "hm_ok ?idle" using Suc.prems(1) by (simp add: put_list_def hm_insert_ok hm_remove_ok)
      from Suc.prems(2) Some e ps have "(k, qs) \<in> set (evict_oldest order streams n ?idle)" by simp
      from Suc.IH [OF ok this] obtain rs where rs: "(k, rs) \<in> set ?idle" "set qs \<subseteq> set rs" by blast
      from map_of_is_SomeI [OF ok rs(1)] have "map_of ?idle k = Some rs" .
      then have "k = key \<and> rs = vec_remove i ps \<or> map_of idle k = Some rs"
        by (auto simp: map_of_put_list split: if_splits)
      with rs(2) ps set_vec_remove_subset [of i ps] show ?thesis by (fastforce dest: map_of_SomeD)
    qed
  qed (use Suc in auto)
qed auto

text \<open>
  C37. The bounds of the connection pool.  In every reachable state each key has between one and
  \<^verbatim>\<open>max_idle_per_key\<close> connections, all different.  After a sweep at most \<^verbatim>\<open>max_idle_total\<close> connections are
  idle, none of the connections left is dead or idle for the TTL, each was pooled before under its key,
  and the sweep goes on exactly when the pool still holds something.  \<open>order\<close> is any enumeration order of
  the map.
\<close>

theorem pool_bounds:
  assumes "s = fold (pool_step L) ops empty_pool" "\<And>m. set (order m) = set m" "sweep order usable now L s = (again, s')"
  shows "idle_ok L (ps_idle s)
    \<and> idle_count (ps_streams s') (ps_idle s') \<le> max_idle_total L
    \<and> (\<forall>(k, qs) \<in> set (ps_idle s'). \<forall>p \<in> set qs. \<not> expired usable (ps_streams s') now (idle_ttl L) p \<and> (\<exists>ps. (k, ps) \<in> set (ps_idle s) \<and> p \<in> set ps))
    \<and> again = (held_keys s' \<noteq> {})"
proof -
  have ok: "idle_ok L (ps_idle s)" unfolding assms(1) by (rule pool_run_ok) (simp add: empty_pool_def idle_ok_def)
  let ?P = "\<lambda>p. \<not> expired usable (ps_streams s) now (idle_ttl L) p"
  let ?live = "filter (\<lambda>(_, ps). ps \<noteq> []) (map (\<lambda>(k, ps). (k, filter ?P ps)) (ps_idle s))"
  have live: "hm_ok ?live" using idle_ok_filter_lists [OF ok, of ?P] by (simp add: idle_ok_def)
  have s': "ps_idle s' = evict_over_cap order (ps_streams s) (max_idle_total L) ?live" "ps_streams s' = ps_streams s"
    "again = (ps_idle s' \<noteq> [] \<or> ps_too_early s' \<noteq> [])"
    using assms(3) by (auto simp: sweep_def Let_def)
  have "idle_count (ps_streams s') (ps_idle s') \<le> max_idle_total L" unfolding s' by (rule evict_over_cap_count [OF assms(2) live])
  moreover have "?P p \<and> (\<exists>ps. (k, ps) \<in> set (ps_idle s) \<and> p \<in> set ps)" if q: "(k, qs) \<in> set (ps_idle s')" "p \<in> set qs" for k qs p
  proof -
    from evict_oldest_subset [OF live q(1) [unfolded s'(1) evict_over_cap_def]] q(2)
    obtain rs where "(k, rs) \<in> set ?live" "p \<in> set rs" by blast
    then show ?thesis by auto
  qed
  moreover have "again = (held_keys s' \<noteq> {})" by (simp add: s'(3) held_keys_def hm_keys_def)
  ultimately show ?thesis using ok by (auto simp: s'(2))
qed

theorem pool_bounds_witness:
  "\<exists>again s'. sweep id (\<lambda>_. True) 7 default_limits
     (fold (pool_step default_limits) [OpCheckin id 5 ''a|x'' \<lparr>pl_id = 1, pl_h2 = False, pl_idle_since = 0\<rparr> 0] empty_pool) = (again, s')
     \<and> idle_count (ps_streams s') (ps_idle s') \<le> max_idle_total default_limits"
proof -
  let ?s = "fold (pool_step default_limits) [OpCheckin id 5 ''a|x'' \<lparr>pl_id = 1, pl_h2 = False, pl_idle_since = 0\<rparr> 0] empty_pool"
  obtain again s' where "sweep id (\<lambda>_. True) 7 default_limits ?s = (again, s')" by fastforce
  with pool_bounds [OF refl _ this] show ?thesis by auto
qed

section \<open>Session tickets\<close>

definition MAX_TICKETS :: nat where "MAX_TICKETS = 8"
definition MAX_CONTEXTS :: nat where "MAX_CONTEXTS = 256"

datatype ticket_transport = Quic | Tls

text \<open>A TLS 1.3 ticket, by its number and its \<^verbatim>\<open>max_early_data_size\<close>.\<close>

record ticket =
  tk_id :: nat
  tk_max_early :: "32 word"

record ticket_store =
  ts_tls13 :: "ticket list"
  ts_received :: "32 word"
  ts_newest_max_early :: "32 word option"
  ts_taken :: "32 word option"

definition new_store :: ticket_store where
  "new_store = \<lparr>ts_tls13 = [], ts_received = 0, ts_newest_max_early = None, ts_taken = None\<rparr>"

definition insert_ticket :: "ticket \<Rightarrow> ticket_store \<Rightarrow> ticket_store" where
  "insert_ticket v t =
     (let q = (if MAX_TICKETS \<le> length (ts_tls13 t) then tl (ts_tls13 t) else ts_tls13 t)
      in t\<lparr>ts_newest_max_early := Some (tk_max_early v), ts_tls13 := q @ [v], ts_received := ts_received t + 1\<rparr>)"

definition take_ticket :: "ticket_store \<Rightarrow> ticket option \<times> ticket_store" where
  "take_ticket t =
     (if ts_tls13 t = [] then (None, t)
      else let v = last (ts_tls13 t) in (Some v, t\<lparr>ts_tls13 := butlast (ts_tls13 t), ts_taken := Some (tk_max_early v)\<rparr>))"

definition reset_take :: "ticket_store \<Rightarrow> ticket_store" where
  "reset_take t = t\<lparr>ts_taken := None\<rparr>"

text \<open>The contexts by key, their stores by the number of the context, and the next number.\<close>

record ticket_cache =
  tc_gens :: generations
  tc_contexts :: "(string \<times> nat) list"
  tc_stores :: "nat \<Rightarrow> ticket_store"
  tc_next :: nat

definition empty_cache :: ticket_cache where
  "empty_cache = \<lparr>tc_gens = no_generations, tc_contexts = [], tc_stores = (\<lambda>_. new_store), tc_next = 0\<rparr>"

definition ticket_key :: "string \<Rightarrow> ticket_transport \<Rightarrow> string \<Rightarrow> 16 word \<Rightarrow> string \<Rightarrow> string \<Rightarrow> string list \<Rightarrow> string" where
  "ticket_key isolation transport host port profile_key fingerprint alpn =
     isolation @ ''|'' @ (case transport of Quic \<Rightarrow> ''quic'' | Tls \<Rightarrow> ''tls'') @ ''|'' @ map ascii_lower host @ '':'' @
     show_nat (unat port) @ ''|'' @ profile_key @ ''|'' @ fingerprint @ ''|'' @ join_with '','' alpn"

text \<open>\<^verbatim>\<open>context\<close> with its key computed: the number of the context, and the cache.  \<open>order\<close> enumerates the map.\<close>

definition ticket_context :: "((string \<times> nat) list \<Rightarrow> (string \<times> nat) list) \<Rightarrow> nat \<Rightarrow> string \<Rightarrow> ticket_cache \<Rightarrow> nat \<times> ticket_cache" where
  "ticket_context order generation key c =
     (let fresh = c\<lparr>tc_stores := (tc_stores c)(tc_next c := new_store), tc_next := tc_next c + 1\<rparr>
      in if \<not> admits (tc_gens c) generation key then (tc_next c, fresh)
         else case map_of (tc_contexts c) key of
                Some n \<Rightarrow> (n, c)
              | None \<Rightarrow>
                  (let m = (if MAX_CONTEXTS \<le> length (tc_contexts c)
                            then (case order (tc_contexts c) of (k, _) # _ \<Rightarrow> hm_remove k (tc_contexts c) | [] \<Rightarrow> tc_contexts c)
                            else tc_contexts c)
                   in (tc_next c, fresh\<lparr>tc_contexts := hm_insert key (tc_next c) m\<rparr>)))"

definition ticket_clear :: "ticket_cache \<Rightarrow> ticket_cache" where
  "ticket_clear c = c\<lparr>tc_gens := gen_clear (tc_gens c), tc_contexts := []\<rparr>"

definition ticket_clear_isolation :: "string \<Rightarrow> ticket_cache \<Rightarrow> ticket_cache" where
  "ticket_clear_isolation isolation c =
     c\<lparr>tc_gens := gen_clear_isolation isolation (tc_gens c),
       tc_contexts := filter (\<lambda>(k, _). \<not> prefix (isolation @ ''|'') k) (tc_contexts c)\<rparr>"

definition tickets_held :: "ticket_cache \<Rightarrow> nat" where
  "tickets_held c = sum_list (map (\<lambda>(_, n). length (ts_tls13 (tc_stores c n))) (tc_contexts c))"

datatype ticket_op =
    TkContext "(string \<times> nat) list \<Rightarrow> (string \<times> nat) list" nat string
  | TkInsert nat ticket
  | TkTake nat
  | TkReset nat
  | TkClear
  | TkClearIsolation string

fun ticket_step :: "ticket_op \<Rightarrow> ticket_cache \<Rightarrow> ticket_cache" where
  "ticket_step (TkContext order generation key) c = snd (ticket_context order generation key c)"
| "ticket_step (TkInsert n v) c = c\<lparr>tc_stores := (tc_stores c)(n := insert_ticket v (tc_stores c n))\<rparr>"
| "ticket_step (TkTake n) c = c\<lparr>tc_stores := (tc_stores c)(n := snd (take_ticket (tc_stores c n)))\<rparr>"
| "ticket_step (TkReset n) c = c\<lparr>tc_stores := (tc_stores c)(n := reset_take (tc_stores c n))\<rparr>"
| "ticket_step TkClear c = ticket_clear c"
| "ticket_step (TkClearIsolation isolation) c = ticket_clear_isolation isolation c"

fun ticket_puts :: "ticket_op \<Rightarrow> (nat \<times> string) option" where
  "ticket_puts (TkContext order generation key) = Some (generation, key)"
| "ticket_puts _ = None"

fun ticket_clears :: "ticket_op \<Rightarrow> clearing option" where
  "ticket_clears TkClear = Some ClearAll"
| "ticket_clears (TkClearIsolation isolation) = Some (ClearIsolation isolation)"
| "ticket_clears _ = None"

interpretation tickets: fenced_cache tc_gens "hm_keys \<circ> tc_contexts" ticket_step ticket_puts ticket_clears
proof
  show "tc_gens (ticket_step a c) = (case ticket_clears a of None \<Rightarrow> tc_gens c | Some d \<Rightarrow> do_clear d (tc_gens c))" for a c
    by (cases a) (auto simp: ticket_context_def ticket_clear_def ticket_clear_isolation_def Let_def split: option.splits)
  show "\<not> covers key d" if "ticket_clears a = Some d" "key \<in> (hm_keys \<circ> tc_contexts) (ticket_step a c)" for a d key c
    using that by (cases a) (auto simp: ticket_clear_def ticket_clear_isolation_def prefix_isolation)
  show "key \<in> (hm_keys \<circ> tc_contexts) c \<or> (\<exists>g. ticket_puts a = Some (g, key) \<and> admits (tc_gens c) g key)"
    if "key \<in> (hm_keys \<circ> tc_contexts) (ticket_step a c)" for a key c
    using that
    by (cases a) (auto simp: ticket_context_def ticket_clear_def ticket_clear_isolation_def Let_def
        split: option.splits if_splits list.splits)
qed

text \<open>At most 256 contexts of at most 8 tickets each.\<close>

definition cache_ok :: "ticket_cache \<Rightarrow> bool" where
  "cache_ok c \<longleftrightarrow> length (tc_contexts c) \<le> MAX_CONTEXTS \<and> hm_ok (tc_contexts c) \<and> (\<forall>n. length (ts_tls13 (tc_stores c n)) \<le> MAX_TICKETS)"

lemma length_hm_remove: "length (hm_remove k m) \<le> length m"
  by (simp add: hm_remove_def)

lemma length_hm_remove_less: "k \<in> hm_keys m \<Longrightarrow> length (hm_remove k m) < length m"
  by (auto simp: hm_remove_def hm_keys_def intro!: length_filter_less)

text \<open>The enumeration orders of the map in an operation are enumerations of it.\<close>

definition fair_op :: "ticket_op \<Rightarrow> bool" where
  "fair_op a = (case a of TkContext order _ _ \<Rightarrow> (\<forall>m. set (order m) = set m) | _ \<Rightarrow> True)"

lemma room_for_context:
  assumes "\<forall>m. set (order m) = set m" "length m \<le> MAX_CONTEXTS" "hm_ok m" "map_of m key = None"
  shows "length (hm_insert key n (if MAX_CONTEXTS \<le> length m
      then (case order m of (k, _) # _ \<Rightarrow> hm_remove k m | [] \<Rightarrow> m) else m)) \<le> MAX_CONTEXTS" (is "length (hm_insert key n ?m) \<le> _")
proof -
  have "length ?m < MAX_CONTEXTS"
  proof (cases "MAX_CONTEXTS \<le> length m")
    case True
    then have "set m \<noteq> {}" by (auto simp: MAX_CONTEXTS_def)
    with assms(1) obtain k v r where o: "order m = (k, v) # r" by (metis list.exhaust set_empty surj_pair)
    with assms(1) have "k \<in> hm_keys m" by (metis fst_conv hm_keys_def image_eqI list.set_intros(1))
    with True o assms(2) length_hm_remove_less [of k m] show ?thesis by simp
  qed simp
  then show ?thesis using length_hm_remove [of key ?m] unfolding hm_insert_remove by (simp del: if_split)
qed

lemma store_ok:
  "length (ts_tls13 t) \<le> MAX_TICKETS \<Longrightarrow> length (ts_tls13 (insert_ticket v t)) \<le> MAX_TICKETS"
  "length (ts_tls13 t) \<le> MAX_TICKETS \<Longrightarrow> length (ts_tls13 (snd (take_ticket t))) \<le> MAX_TICKETS"
  "ts_tls13 (reset_take t) = ts_tls13 t"
  by (auto simp: insert_ticket_def take_ticket_def reset_take_def Let_def MAX_TICKETS_def)

lemma ticket_step_ok: "fair_op a \<Longrightarrow> cache_ok c \<Longrightarrow> cache_ok (ticket_step a c)"
proof (cases a)
  case (TkContext order g key)
  assume f: "fair_op a" and ok: "cache_ok c"
  let ?m = "if MAX_CONTEXTS \<le> length (tc_contexts c)
      then (case order (tc_contexts c) of (k, _) # _ \<Rightarrow> hm_remove k (tc_contexts c) | [] \<Rightarrow> tc_contexts c) else tc_contexts c"
  have "hm_ok ?m" using ok by (auto simp: cache_ok_def hm_remove_ok split: list.splits)
  moreover have "length (hm_insert key n ?m) \<le> MAX_CONTEXTS" if "map_of (tc_contexts c) key = None" for n
    by (rule room_for_context) (use f ok that TkContext in \<open>simp_all add: fair_op_def cache_ok_def\<close>)
  ultimately show ?thesis
    using ok TkContext by (auto simp: ticket_context_def cache_ok_def Let_def new_store_def hm_insert_ok simp del: if_split split: option.split)
next
  case (TkClearIsolation isolation)
  assume "cache_ok c"
  with TkClearIsolation show ?thesis
    by (auto simp: ticket_clear_isolation_def cache_ok_def intro: order_trans [OF length_filter_le] distinct_map_filter)
qed (auto simp: cache_ok_def ticket_clear_def store_ok)

lemma sum_list_bound: "(\<And>x. x \<in> set xs \<Longrightarrow> f x \<le> k) \<Longrightarrow> sum_list (map f xs) \<le> length xs * (k :: nat)"
  by (induction xs) (simp_all add: add_mono)

lemma ticket_run_ok: "list_all fair_op ops \<Longrightarrow> cache_ok c \<Longrightarrow> cache_ok (fold ticket_step ops c)"
  by (induction ops arbitrary: c) (auto intro: ticket_step_ok)

lemma ticket_run_gens: "gens_ok (tc_gens c) \<Longrightarrow> gens_ok (tc_gens (fold ticket_step ops c))"
  using tickets.gens_ok_step by (induction ops arbitrary: c) auto



end
