(* ===== verification/Json_Patch.thy ===== *)
theory Json_Patch
  imports Rust_Text
begin

text \<open>
  Changes to an API description (\<^verbatim>\<open>crates/anvil-contract/src/patch.rs\<close>): the application of a list of patch
  operations, its all-or-nothing variant with an undo log, and the difference of two documents as a
  JSON Patch.

  A \<^verbatim>\<open>serde_json::Value\<close> is \<open>json\<close>.  Maps keep the order of insertion (\<^verbatim>\<open>preserve_order\<close>): an object is the
  list of its members, with distinct keys (\<open>json_ok\<close>).  A \<^verbatim>\<open>&mut Value\<close> that a walk returns is a
  continuation: the walk applies it to the node it reaches and rebuilds the document around the result,
  with everything it created on the way also where it fails.
\<close>

section \<open>Values\<close>

text \<open>Numbers as \<^verbatim>\<open>serde_json\<close> keeps them: a 64-bit integer by sign, or the bits of a finite \<^verbatim>\<open>f64\<close>.\<close>

datatype json_number = PosInt "64 word" | NegInt "64 word" | Float "64 word"

datatype json =
    JNull
  | JBool bool
  | JNumber json_number
  | JString string
  | JArray "json list"
  | JObject "(string \<times> json) list"

definition float_zero :: "64 word \<Rightarrow> bool" where
  "float_zero w \<longleftrightarrow> w = 0 \<or> w = 0x8000000000000000"

fun number_eq :: "json_number \<Rightarrow> json_number \<Rightarrow> bool" where
  "number_eq (PosInt a) (PosInt b) = (a = b)"
| "number_eq (NegInt a) (NegInt b) = (a = b)"
| "number_eq (Float a) (Float b) = (a = b \<or> float_zero a \<and> float_zero b)"
| "number_eq _ _ = False"

lemma size_member [termination_simp]: "(k, v) \<in> set ms \<Longrightarrow> size v < Suc (size_list (size_prod (\<lambda>_. 0) size) ms)"
  by (induction ms) auto

lemma size_zip_left [termination_simp]: "(x, y) \<in> set (zip xs ys) \<Longrightarrow> size x < Suc (size_list size xs)"
  by (drule set_zip_leftD) (metis less_Suc_eq_le order_less_imp_le size_list_estimation' order_refl)

text \<open>\<^verbatim>\<open>==\<close> of values: the order of members does not count.\<close>

fun json_eq :: "json \<Rightarrow> json \<Rightarrow> bool" where
  "json_eq JNull JNull = True"
| "json_eq (JBool a) (JBool b) = (a = b)"
| "json_eq (JNumber a) (JNumber b) = number_eq a b"
| "json_eq (JString a) (JString b) = (a = b)"
| "json_eq (JArray a) (JArray b) = (length a = length b \<and> list_all (\<lambda>(x, y). json_eq x y) (zip a b))"
| "json_eq (JObject a) (JObject b) =
     (length a = length b \<and> list_all (\<lambda>(k, v). case map_of b k of Some w \<Rightarrow> json_eq v w | None \<Rightarrow> False) a)"
| "json_eq _ _ = False"

text \<open>\<^verbatim>\<open>get\<close> of a member.\<close>

definition json_get :: "json \<Rightarrow> string \<Rightarrow> json option" where
  "json_get v k = (case v of JObject m \<Rightarrow> map_of m k | _ \<Rightarrow> None)"

text \<open>Maps: \<^verbatim>\<open>insert\<close>, \<^verbatim>\<open>shift_remove\<close> and \<^verbatim>\<open>shift_insert\<close>.\<close>

fun map_set :: "string \<Rightarrow> json \<Rightarrow> (string \<times> json) list \<Rightarrow> (string \<times> json) list" where
  "map_set k v [] = [(k, v)]"
| "map_set k v ((k', v') # ms) = (if k' = k then (k, v) # ms else (k', v') # map_set k v ms)"

fun shift_remove :: "string \<Rightarrow> (string \<times> json) list \<Rightarrow> (string \<times> json) list" where
  "shift_remove k [] = []"
| "shift_remove k ((k', v) # ms) = (if k' = k then ms else (k', v) # shift_remove k ms)"

definition shift_insert :: "nat \<Rightarrow> string \<Rightarrow> json \<Rightarrow> (string \<times> json) list \<Rightarrow> (string \<times> json) list" where
  "shift_insert i k v ms = (let rest = shift_remove k ms in take i rest @ (k, v) # drop i rest)"

primrec json_ok :: "json \<Rightarrow> bool" where
  "json_ok JNull = True"
| "json_ok (JBool b) = True"
| "json_ok (JNumber n) = True"
| "json_ok (JString s) = True"
| "json_ok (JArray xs) = list_all json_ok xs"
| "json_ok (JObject ms) = (distinct (map fst ms) \<and> list_all (pred_prod (\<lambda>_. True) json_ok) ms)"

section \<open>Operations\<close>

datatype patch_kind = PatchAdd | PatchReplace | PatchRemove | PatchUnion

record patch_op =
  po_op :: patch_kind
  po_path :: string
  po_value :: "json option"

definition po_add :: "string \<Rightarrow> json \<Rightarrow> patch_op" where
  "po_add path v = \<lparr>po_op = PatchAdd, po_path = path, po_value = Some v\<rparr>"

definition po_replace :: "string \<Rightarrow> json \<Rightarrow> patch_op" where
  "po_replace path v = \<lparr>po_op = PatchReplace, po_path = path, po_value = Some v\<rparr>"

definition po_remove :: "string \<Rightarrow> patch_op" where
  "po_remove path = \<lparr>po_op = PatchRemove, po_path = path, po_value = None\<rparr>"

definition po_union :: "string \<Rightarrow> json list \<Rightarrow> patch_op" where
  "po_union path items = \<lparr>po_op = PatchUnion, po_path = path, po_value = Some (JArray items)\<rparr>"

text \<open>\<^verbatim>\<open>str::replace\<close> of a two-byte pattern and of a character.\<close>

fun replace2 :: "char \<Rightarrow> char \<Rightarrow> string \<Rightarrow> string \<Rightarrow> string" where
  "replace2 a b r (x # y # s) = (if x = a \<and> y = b then r @ replace2 a b r s else x # replace2 a b r (y # s))"
| "replace2 a b r s = s"

definition replace_char :: "char \<Rightarrow> string \<Rightarrow> string \<Rightarrow> string" where
  "replace_char a r s = concat (map (\<lambda>c. if c = a then r else [c]) s)"

definition tokens :: "string \<Rightarrow> string list" where
  "tokens pointer =
     map (\<lambda>t. replace2 (CHR ''~'') (CHR ''0'') ''~'' (replace2 (CHR ''~'') (CHR ''1'') ''/'' t)) (tl (split_char (CHR ''/'') pointer))"

definition escape :: "string \<Rightarrow> string" where
  "escape t = replace_char (CHR ''/'') ''~1'' (replace_char (CHR ''~'') ''~0'' t)"

fun merge_keep :: "json \<Rightarrow> json \<Rightarrow> json"
  and merge_members :: "(string \<times> json) list \<Rightarrow> (string \<times> json) list \<Rightarrow> (string \<times> json) list" where
  "merge_keep (JObject a) (JObject b) = JObject (merge_members a b)"
| "merge_keep into add = into"
| "merge_members a [] = a"
| "merge_members a ((k, v) # b) =
     merge_members (map_set k (case map_of a k of Some existing \<Rightarrow> merge_keep existing v | None \<Rightarrow> v) a) b"

abbreviation parse_usize :: "string \<Rightarrow> nat option" where
  "parse_usize \<equiv> parse_unsigned u64_max"

fun walk_to :: "string list \<Rightarrow> string list \<Rightarrow> (json \<Rightarrow> json \<times> 'r) \<Rightarrow> json \<Rightarrow> json \<times> 'r option" where
  "walk_to [] toks target cur = (case target cur of (v, r) \<Rightarrow> (v, Some r))"
| "walk_to (t # parents) toks target cur =
     (let child_is_list = (case tl toks of n # _ \<Rightarrow> n = ''-'' | [] \<Rightarrow> False)
      in case cur of
           JObject ms \<Rightarrow>
             (let child = (case map_of ms t of Some v \<Rightarrow> v | None \<Rightarrow> if child_is_list then JArray [] else JObject [])
              in case walk_to parents (tl toks) target child of (v, r) \<Rightarrow> (JObject (map_set t v ms), r))
         | JArray xs \<Rightarrow>
             (case parse_usize t of
                Some i \<Rightarrow>
                  (if i < length xs
                   then (case walk_to parents (tl toks) target (xs ! i) of (v, r) \<Rightarrow> (JArray (xs[i := v]), r))
                   else (cur, None))
              | None \<Rightarrow> (cur, None))
         | _ \<Rightarrow> (cur, None))"

fun walk_existing :: "string list \<Rightarrow> (json \<Rightarrow> json \<times> 'r) \<Rightarrow> json \<Rightarrow> json \<times> 'r option" where
  "walk_existing [] target cur = (case target cur of (v, r) \<Rightarrow> (v, Some r))"
| "walk_existing (t # parents) target cur =
     (case cur of
        JObject ms \<Rightarrow>
          (case map_of ms t of
             Some child \<Rightarrow> (case walk_existing parents target child of (v, r) \<Rightarrow> (JObject (map_set t v ms), r))
           | None \<Rightarrow> (cur, None))
      | JArray xs \<Rightarrow>
          (case parse_usize t of
             Some i \<Rightarrow>
               (if i < length xs
                then (case walk_existing parents target (xs ! i) of (v, r) \<Rightarrow> (JArray (xs[i := v]), r))
                else (cur, None))
           | None \<Rightarrow> (cur, None))
      | _ \<Rightarrow> (cur, None))"

definition or_null :: "json option \<Rightarrow> json" where
  "or_null v = (case v of Some x \<Rightarrow> x | None \<Rightarrow> JNull)"

definition push_missing :: "json list \<Rightarrow> json list \<Rightarrow> json list" where
  "push_missing items xs = foldl (\<lambda>ys i. if list_ex (\<lambda>x. json_eq x i) ys then ys else ys @ [i]) xs items"

definition union_member :: "json option \<Rightarrow> string \<Rightarrow> (string \<times> json) list \<Rightarrow> json \<times> nat" where
  "union_member val key ms =
     (let items = (case val of Some (JArray a) \<Rightarrow> a | Some v \<Rightarrow> [v] | None \<Rightarrow> [])
      in case map_of ms key of
           Some (JArray existing) \<Rightarrow> (JObject (map_set key (JArray (push_missing items existing)) ms), 0)
         | Some (JObject _) \<Rightarrow> (JObject ms, 1)
         | Some single \<Rightarrow> (JObject (map_set key (JArray (push_missing items (if single = JNull then [] else [single]))) ms), 0)
         | None \<Rightarrow> (JObject (map_set key (JArray items) ms), 0))"

text \<open>The match on the operation and the node it applies to; \<open>1\<close> when it fails.\<close>

definition apply_at :: "patch_kind \<Rightarrow> json option \<Rightarrow> string \<Rightarrow> json \<Rightarrow> json \<times> nat" where
  "apply_at kind val key cur =
     (case cur of
        JObject ms \<Rightarrow>
          (case kind of
             PatchRemove \<Rightarrow> (if map_of ms key = None then (cur, 1) else (JObject (shift_remove key ms), 0))
           | PatchAdd \<Rightarrow>
               (JObject (map_set key (case map_of ms key of Some existing \<Rightarrow> merge_keep existing (or_null val) | None \<Rightarrow> or_null val) ms), 0)
           | PatchUnion \<Rightarrow> union_member val key ms
           | PatchReplace \<Rightarrow> (JObject (map_set key (or_null val) ms), 0))
      | JArray xs \<Rightarrow>
          (case kind of
             PatchRemove \<Rightarrow>
               (case parse_usize key of
                  Some i \<Rightarrow> if i < length xs then (JArray (vec_remove i xs), 0) else (cur, 1)
                | None \<Rightarrow> (cur, 1))
           | PatchUnion \<Rightarrow> (cur, 1)
           | _ \<Rightarrow>
               (if key = ''-'' then (JArray (xs @ [or_null val]), 0)
                else case parse_usize key of
                       Some i \<Rightarrow>
                         (if i < length xs \<and> kind = PatchReplace then (JArray (xs[i := or_null val]), 0)
                          else if i \<le> length xs then (JArray (take i xs @ or_null val # drop i xs), 0)
                          else (cur, 1))
                     | None \<Rightarrow> (cur, 1)))
      | _ \<Rightarrow> (cur, 1))"

text \<open>One operation at its tokens, and at the whole document when there are none.\<close>

definition apply_toks :: "patch_kind \<Rightarrow> json option \<Rightarrow> string list \<Rightarrow> json \<Rightarrow> json \<times> nat" where
  "apply_toks kind val toks doc =
     (if toks = [] then
        (case kind of
           PatchAdd \<Rightarrow> (merge_keep doc (or_null val), 0)
         | PatchRemove \<Rightarrow> (doc, 1)
         | _ \<Rightarrow> (or_null val, 0))
      else
        (case (if kind = PatchRemove then walk_existing (butlast toks) (apply_at kind val (last toks)) doc
               else walk_to (butlast toks) toks (apply_at kind val (last toks)) doc) of
           (doc', None) \<Rightarrow> (doc', 1)
         | (doc', Some failed) \<Rightarrow> (doc', failed)))"

fun apply_ops :: "json \<Rightarrow> patch_op list \<Rightarrow> json \<times> nat" where
  "apply_ops doc [] = (doc, 0)"
| "apply_ops doc (p # ops) =
     (case apply_toks (po_op p) (po_value p) (tokens (po_path p)) doc of
        (doc', n) \<Rightarrow> (case apply_ops doc' ops of (doc'', m) \<Rightarrow> (doc'', n + m)))"

section \<open>All or nothing\<close>

datatype undo =
    UndoNothing
  | UndoSet "string list" json
  | UndoRemoveKey "string list" string
  | UndoTruncate "string list" nat
  | UndoReinsert "string list" string nat json

fun undo_walk :: "patch_kind \<Rightarrow> string list \<Rightarrow> string list \<Rightarrow> json \<Rightarrow> undo" where
  "undo_walk kind done_toks [] node = UndoNothing"
| "undo_walk kind done_toks (t # ts) node =
     (case node of
        JObject ms \<Rightarrow>
          (case map_of ms t of
             Some child \<Rightarrow>
               (if ts = [] \<and> kind = PatchRemove
                then UndoReinsert done_toks t (case position (\<lambda>k. k = t) (map fst ms) of Some i \<Rightarrow> i | None \<Rightarrow> 0) child
                else if ts = [] then UndoSet (done_toks @ [t]) child
                else undo_walk kind (done_toks @ [t]) ts child)
           | None \<Rightarrow> (if kind = PatchRemove then UndoNothing else UndoRemoveKey done_toks t))
      | JArray xs \<Rightarrow>
          (if t = ''-'' then UndoTruncate done_toks (length xs)
           else if ts = [] then UndoSet done_toks node
           else case parse_usize t of
                  Some k \<Rightarrow> (if k < length xs then undo_walk kind (done_toks @ [t]) ts (xs ! k) else UndoNothing)
                | None \<Rightarrow> UndoNothing)
      | _ \<Rightarrow> UndoNothing)"

definition undo_for :: "json \<Rightarrow> patch_op \<Rightarrow> undo" where
  "undo_for doc p = (let toks = tokens (po_path p) in if toks = [] then UndoSet [] doc else undo_walk (po_op p) [] toks doc)"

fun restore_at :: "undo \<Rightarrow> json \<Rightarrow> json" where
  "restore_at (UndoSet _ v) node = v"
| "restore_at (UndoRemoveKey _ k) (JObject ms) = JObject (shift_remove k ms)"
| "restore_at (UndoTruncate _ n) (JArray xs) = JArray (take n xs)"
| "restore_at (UndoReinsert _ k i v) (JObject ms) = JObject (shift_insert (min i (length ms)) k v ms)"
| "restore_at _ node = node"

fun undo_path :: "undo \<Rightarrow> string list" where
  "undo_path (UndoSet p _) = p"
| "undo_path (UndoRemoveKey p _) = p"
| "undo_path (UndoTruncate p _) = p"
| "undo_path (UndoReinsert p _ _ _) = p"
| "undo_path UndoNothing = []"

definition restore :: "json \<Rightarrow> undo \<Rightarrow> json" where
  "restore doc u = fst (walk_existing (undo_path u) (\<lambda>n. (restore_at u n, ())) doc)"

fun atomic_loop :: "json \<Rightarrow> undo list \<Rightarrow> patch_op list \<Rightarrow> json \<times> bool" where
  "atomic_loop doc log [] = (doc, True)"
| "atomic_loop doc log (p # ops) =
     (let log' = log @ [undo_for doc p]
      in case apply_ops doc [p] of
           (doc', failed) \<Rightarrow> if 0 < failed then (foldl restore doc' (rev log'), False) else atomic_loop doc' log' ops)"

definition apply_atomic :: "json \<Rightarrow> patch_op list \<Rightarrow> json \<times> bool" where
  "apply_atomic doc ops = atomic_loop doc [] ops"

section \<open>Lemmas on maps and walks\<close>

lemma map_of_map_set [simp]: "map_of (map_set k v ms) = (map_of ms)(k \<mapsto> v)"
  by (induction k v ms rule: map_set.induct) (auto simp: fun_eq_iff)

lemma keys_map_set: "map fst (map_set k v ms) = (if k \<in> fst ` set ms then map fst ms else map fst ms @ [k])"
  by (induction k v ms rule: map_set.induct) auto

lemma map_set_same: "map_of ms k = Some v \<Longrightarrow> map_set k v ms = ms"
  by (induction ms) auto

lemma map_set_twice [simp]: "map_set k v (map_set k w ms) = map_set k v ms"
  by (induction ms) auto

lemma set_map_set: "set (map_set k v ms) \<subseteq> insert (k, v) (set ms)"
  by (induction ms) (auto split: if_splits)

lemma shift_remove_absent: "map_of ms k = None \<Longrightarrow> shift_remove k ms = ms"
  by (induction ms) (auto split: if_splits)

lemma shift_remove_new: "map_of ms k = None \<Longrightarrow> shift_remove k (map_set k v ms) = ms"
  by (induction ms) (auto split: if_splits)

lemma set_shift_remove: "set (shift_remove k ms) \<subseteq> set ms"
  by (induction ms) (auto split: if_splits)

lemma keys_shift_remove: "map fst (shift_remove k ms) = remove1 k (map fst ms)"
  by (induction ms) auto

lemma map_of_shift_remove: "distinct (map fst ms) \<Longrightarrow> map_of (shift_remove k ms) = (map_of ms)(k := None)"
  by (induction ms) (auto simp: fun_eq_iff intro: map_of_eq_None_iff [THEN iffD2])

lemma shift_insert_remove:
  assumes "map_of ms k = Some v" "distinct (map fst ms)" "position (\<lambda>x. x = k) (map fst ms) = Some i"
  shows "shift_insert (min i (length (shift_remove k ms))) k v (shift_remove k ms) = ms"
proof -
  have rest: "shift_remove k (shift_remove k ms) = shift_remove k ms"
    using assms(2) by (intro shift_remove_absent) (simp add: map_of_shift_remove)
  from assms(1,3) have "i \<le> length (shift_remove k ms) \<and> take i (shift_remove k ms) @ (k, v) # drop i (shift_remove k ms) = ms"
    by (induction ms arbitrary: i) (auto split: if_splits)
  then show ?thesis by (simp add: shift_insert_def rest min_absorb1)
qed

lemma json_ok_member: "json_ok (JObject ms) \<Longrightarrow> map_of ms k = Some v \<Longrightarrow> json_ok v"
  by (auto simp: list_all_iff pred_prod.simps dest!: map_of_SomeD)

lemma json_ok_map_set: "json_ok (JObject ms) \<Longrightarrow> json_ok v \<Longrightarrow> json_ok (JObject (map_set k v ms))"
  using set_map_set [of k v ms] by (auto simp: keys_map_set list_all_iff pred_prod.simps)

lemma json_ok_shift_remove: "json_ok (JObject ms) \<Longrightarrow> json_ok (JObject (shift_remove k ms))"
  using set_shift_remove [of k ms] by (auto simp: keys_shift_remove list_all_iff)

lemma json_ok_merge:
  "json_ok into \<Longrightarrow> json_ok add \<Longrightarrow> json_ok (merge_keep into add)"
  "json_ok (JObject a) \<Longrightarrow> list_all (pred_prod (\<lambda>_. True) json_ok) b \<Longrightarrow> json_ok (JObject (merge_members a b))"
proof (induction into add and a b rule: merge_keep_merge_members.induct)
  case (4 a k v b)
  have "json_ok (case map_of a k of Some existing \<Rightarrow> merge_keep existing v | None \<Rightarrow> v)"
    using 4 json_ok_member [of a k] by (auto split: option.splits)
  with 4 json_ok_map_set [of a _ k] show ?case by simp
qed auto

lemma json_ok_push_missing: "list_all json_ok xs \<Longrightarrow> list_all json_ok items \<Longrightarrow> list_all json_ok (push_missing items xs)"
  unfolding push_missing_def by (induction items arbitrary: xs) auto

text \<open>One step of an operation towards its target.\<close>

lemma apply_toks_object:
  "ts \<noteq> [] \<Longrightarrow> apply_toks kind v (t # ts) (JObject ms) =
     (case map_of ms t of
        Some child \<Rightarrow> (case apply_toks kind v ts child of (c, n) \<Rightarrow> (JObject (map_set t c ms), n))
      | None \<Rightarrow>
          (if kind = PatchRemove then (JObject ms, 1)
           else case apply_toks kind v ts (if hd ts = ''-'' then JArray [] else JObject []) of (c, n) \<Rightarrow> (JObject (map_set t c ms), n)))"
  by (cases ts; cases "kind = PatchRemove"; cases "map_of ms t")
    (simp_all add: apply_toks_def Let_def split: option.split prod.split)

lemma apply_toks_array:
  "ts \<noteq> [] \<Longrightarrow> apply_toks kind v (t # ts) (JArray xs) =
     (case parse_usize t of
        Some i \<Rightarrow> (if i < length xs then (case apply_toks kind v ts (xs ! i) of (c, n) \<Rightarrow> (JArray (xs[i := c]), n)) else (JArray xs, 1))
      | None \<Rightarrow> (JArray xs, 1))"
  by (auto simp: apply_toks_def Let_def split: option.splits prod.splits)

definition container :: "json \<Rightarrow> bool" where
  "container v = (case v of JArray _ \<Rightarrow> True | JObject _ \<Rightarrow> True | _ \<Rightarrow> False)"

lemma apply_toks_scalar: "\<not> container cur \<Longrightarrow> toks \<noteq> [] \<Longrightarrow> apply_toks kind v toks cur = (cur, 1)"
  by (cases toks; cases "tl toks"; cases cur) (simp_all add: container_def apply_toks_def apply_at_def)

lemma apply_toks_single: "apply_toks kind v [t] cur = apply_at kind v t cur"
  by (simp add: apply_toks_def split: prod.splits)

lemma json_ok_parts: "list_all json_ok xs \<Longrightarrow> list_all json_ok (take i xs) \<and> list_all json_ok (drop i xs)"
  by (auto simp: list_all_iff dest: in_set_takeD in_set_dropD)

lemma json_ok_update: "list_all json_ok xs \<Longrightarrow> json_ok v \<Longrightarrow> list_all json_ok (xs[i := v])"
  using set_update_subset_insert [of xs i v] by (auto simp: list_all_iff)

lemma json_ok_vec_remove: "list_all json_ok xs \<Longrightarrow> list_all json_ok (vec_remove i xs)"
  using set_vec_remove_subset [of i xs] by (auto simp: list_all_iff)

lemma json_ok_or_null: "pred_option json_ok v \<Longrightarrow> json_ok (or_null v)"
  by (cases v) (auto simp: or_null_def)

lemma json_ok_union_member:
  assumes "json_ok (JObject ms)" "pred_option json_ok v"
  shows "json_ok (fst (union_member v key ms))"
proof -
  define items where "items = (case v of Some (JArray a) \<Rightarrow> a | Some x \<Rightarrow> [x] | None \<Rightarrow> [])"
  have items: "list_all json_ok items" using assms(2) unfolding items_def by (auto split: option.splits json.splits)
  have grown: "json_ok (JObject (map_set key (JArray (push_missing items xs)) ms))" if "list_all json_ok xs" for xs
    using that items assms(1) by (intro json_ok_map_set) (simp_all add: json_ok_push_missing)
  have new: "json_ok (JObject (map_set key (JArray items) ms))"
    using items assms(1) by (intro json_ok_map_set) simp_all
  have "list_all json_ok xs" if "map_of ms key = Some (JArray xs)" for xs
    using json_ok_member [OF assms(1) that] by simp
  then show ?thesis
    using grown new assms(1)
    unfolding union_member_def Let_def items_def [symmetric]
    by (simp split: option.split json.split del: json_ok.simps(6))
qed

lemma json_ok_apply_at:
  assumes "json_ok cur" "pred_option json_ok v"
  shows "json_ok (fst (apply_at kind v key cur))"
proof (cases cur)
  case (JObject ms)
  with assms json_ok_member [of ms key] json_ok_or_null show ?thesis
    by (cases kind) (auto simp: apply_at_def json_ok_shift_remove json_ok_union_member intro!: json_ok_map_set json_ok_merge
        simp del: json_ok.simps(6) split: option.splits)
next
  case (JArray xs)
  then show ?thesis using assms
    by (cases kind) (auto simp: apply_at_def json_ok_vec_remove json_ok_or_null json_ok_update json_ok_parts split: option.splits)
qed (simp_all add: apply_at_def assms)

lemma json_ok_apply_toks:
  "json_ok doc \<Longrightarrow> pred_option json_ok v \<Longrightarrow> json_ok (fst (apply_toks kind v toks doc))"
proof (induction toks arbitrary: doc)
  case Nil
  then show ?case by (cases kind) (simp_all add: apply_toks_def json_ok_merge json_ok_or_null)
next
  case (Cons t ts)
  show ?case
  proof (cases "ts = [] \<or> \<not> container doc")
    case True
    with Cons.prems show ?thesis by (auto simp: apply_toks_single apply_toks_scalar json_ok_apply_at)
  next
    case False
    then consider ms where "doc = JObject ms" | xs where "doc = JArray xs" by (cases doc) (auto simp: container_def)
    then show ?thesis
    proof cases
      case (1 ms)
      have "json_ok (fst (apply_toks kind v ts child))" if "map_of ms t = Some child \<or> child = JArray [] \<or> child = JObject []" for child
        using that Cons 1 json_ok_member [of ms t child] by auto
      with False 1 Cons.prems show ?thesis
        by (auto simp: apply_toks_object intro!: json_ok_map_set simp del: json_ok.simps(6) split: option.splits prod.splits)
          (metis fst_conv)+
    next
      case (2 xs)
      have "json_ok (JArray (xs[i := fst (apply_toks kind v ts (xs ! i))]))" if "i < length xs" for i
        using that Cons 2 json_ok_update [of xs "fst (apply_toks kind v ts (xs ! i))" i] by (simp add: list_all_length)
      with False 2 Cons.prems show ?thesis
        by (simp add: apply_toks_array split: option.split prod.split) (metis fst_conv)
    qed
  qed
qed

section \<open>Undoing an operation\<close>

fun under :: "string list \<Rightarrow> undo \<Rightarrow> undo" where
  "under p (UndoSet q v) = UndoSet (p @ q) v"
| "under p (UndoRemoveKey q k) = UndoRemoveKey (p @ q) k"
| "under p (UndoTruncate q n) = UndoTruncate (p @ q) n"
| "under p (UndoReinsert q k i v) = UndoReinsert (p @ q) k i v"
| "under p UndoNothing = UndoNothing"

lemma undo_walk_under: "undo_walk kind (p @ q) ts node = under p (undo_walk kind q ts node)"
proof (induction ts arbitrary: q node)
  case (Cons t ts)
  have "undo_walk kind (p @ q @ [t]) ts c = under p (undo_walk kind (q @ [t]) ts c)" for c using Cons by blast
  then show ?case by (cases node; cases "kind = PatchRemove") (simp_all split: option.split)
qed simp

lemma restore_at_path:
  "restore_at (UndoRemoveKey p k) x = restore_at (UndoRemoveKey q k) x"
  "restore_at (UndoTruncate p n) x = restore_at (UndoTruncate q n) x"
  "restore_at (UndoReinsert p k i v) x = restore_at (UndoReinsert q k i v) x"
  by (cases x; simp)+

lemma under_cases: "u = UndoNothing \<or> undo_path (under [t] u) = t # undo_path u \<and> restore_at (under [t] u) = restore_at u"
  by (cases u) (auto simp: fun_eq_iff intro: restore_at_path)

lemma restore_Nothing [simp]: "restore doc UndoNothing = doc"
  by (simp add: restore_def)

lemma restore_under_object:
  assumes "map_of ms t = Some c" "restore c u = d"
  shows "restore (JObject ms) (under [t] u) = JObject (map_set t d ms)"
  using under_cases [of u t]
proof
  assume "u = UndoNothing"
  with assms show ?thesis by (simp add: map_set_same)
next
  assume "undo_path (under [t] u) = t # undo_path u \<and> restore_at (under [t] u) = restore_at u"
  with assms show ?thesis by (auto simp: restore_def split: prod.splits)
qed

lemma restore_under_array:
  assumes "parse_usize t = Some i" "i < length xs" "restore (xs ! i) u = d"
  shows "restore (JArray xs) (under [t] u) = JArray (xs[i := d])"
  using under_cases [of u t]
proof
  assume "u = UndoNothing"
  with assms show ?thesis by (auto simp: list_update_same_conv)
next
  assume "undo_path (under [t] u) = t # undo_path u \<and> restore_at (under [t] u) = restore_at u"
  with assms show ?thesis by (auto simp: restore_def split: prod.splits)
qed

lemma parse_dash [simp]: "parse_unsigned hi ''-'' = None"
  by (simp add: parse_unsigned_def is_digit_def byte_def)

text \<open>The last token: what the operation does to the node there is undone.\<close>

lemma undone_at:
  assumes "json_ok node"
  shows "restore (fst (apply_at kind v t node)) (undo_walk kind [] [t] node) = node"
proof (cases node)
  case (JArray xs)
  then show ?thesis by (cases kind) (auto simp: apply_at_def restore_def split: option.splits)
next
  case (JObject ms)
  show ?thesis
  proof (cases "map_of ms t")
    case None
    with JObject show ?thesis
      by (cases kind) (auto simp: apply_at_def union_member_def restore_def Let_def shift_remove_new)
  next
    case (Some c)
    show ?thesis
    proof (cases "kind = PatchRemove")
      case True
      from Some obtain i where i: "position (\<lambda>k. k = t) (map fst ms) = Some i"
        by (cases "position (\<lambda>k. k = t) (map fst ms)") (force simp: position_None dest!: map_of_SomeD)+
      from JObject assms Some i have "shift_insert (min i (length (shift_remove t ms))) t c (shift_remove t ms) = ms"
        by (intro shift_insert_remove) auto
      with JObject Some i True show ?thesis by (simp add: apply_at_def restore_def)
    next
      case False
      have "\<exists>d. fst (apply_at kind v t node) = JObject (map_set t d ms)"
        using JObject Some map_set_same [OF Some] False
        by (cases kind) (auto simp: apply_at_def union_member_def Let_def split: json.split intro: exI [of _ c])
      with JObject Some False show ?thesis by (auto simp: restore_def map_set_same)
    qed
  qed
qed (simp_all add: apply_at_def)

lemma undone:
  "toks \<noteq> [] \<Longrightarrow> json_ok node \<Longrightarrow> restore (fst (apply_toks kind v toks node)) (undo_walk kind [] toks node) = node"
proof (induction toks arbitrary: node)
  case (Cons t ts)
  show ?case
  proof (cases "ts = [] \<or> \<not> container node")
    case True
    then show ?thesis
    proof
      assume "ts = []"
      with Cons.prems show ?thesis by (simp only: apply_toks_single undone_at)
    next
      assume "\<not> container node"
      then show ?thesis by (cases node) (simp_all add: apply_toks_scalar container_def)
    qed
  next
    case False
    then consider ms where "node = JObject ms" | xs where "node = JArray xs" by (cases node) (auto simp: container_def)
    then show ?thesis
    proof cases
      case (1 ms)
      show ?thesis
      proof (cases "map_of ms t")
        case None
        with 1 False show ?thesis
          by (auto simp: apply_toks_object restore_def shift_remove_new split: prod.splits)
      next
        case (Some c)
        obtain d n where d: "apply_toks kind v ts c = (d, n)" by fastforce
        have "restore d (undo_walk kind [] ts c) = c"
          using Cons.IH [of c] False d json_ok_member [of ms t c] Cons.prems 1 Some by simp
        then have "restore (JObject (map_set t d ms)) (under [t] (undo_walk kind [] ts c)) = JObject (map_set t c (map_set t d ms))"
          by (intro restore_under_object [where c = d]) simp_all
        with 1 Some d False undo_walk_under [of kind "[t]" "[]" ts c] show ?thesis
          by (simp add: apply_toks_object map_set_same)
      qed
    next
      case (2 xs)
      show ?thesis
      proof (cases "\<exists>i. parse_usize t = Some i \<and> i < length xs")
        case True
        then obtain i where i: "parse_usize t = Some i" "i < length xs" by blast
        obtain d n where d: "apply_toks kind v ts (xs ! i) = (d, n)" by fastforce
        have "restore d (undo_walk kind [] ts (xs ! i)) = xs ! i"
          using Cons.IH [of "xs ! i"] False d Cons.prems 2 i by (simp add: list_all_length)
        then have "restore (JArray (xs[i := d])) (under [t] (undo_walk kind [] ts (xs ! i))) = JArray (xs[i := d, i := xs ! i])"
          using i by (intro restore_under_array) simp_all
        with 2 i d False undo_walk_under [of kind "[t]" "[]" ts "xs ! i"] parse_dash show ?thesis
          by (auto simp: apply_toks_array)
      next
        case none: False
        with 2 False show ?thesis by (auto simp: apply_toks_array restore_def split: option.split)
      qed
    qed
  qed
qed simp

definition op_ok :: "patch_op \<Rightarrow> bool" where
  "op_ok p = pred_option json_ok (po_value p)"

lemma apply_one: "apply_ops doc [p] = apply_toks (po_op p) (po_value p) (tokens (po_path p)) doc"
  by (simp split: prod.split)

lemma undo_op:
  assumes "json_ok doc"
  shows "restore (fst (apply_ops doc [p])) (undo_for doc p) = doc"
proof (cases "tokens (po_path p) = []")
  case True
  then show ?thesis by (simp add: undo_for_def restore_def del: apply_ops.simps)
next
  case False
  with undone [OF False assms] show ?thesis by (simp add: undo_for_def Let_def apply_one del: apply_ops.simps)
qed

lemma apply_one_ok: "json_ok doc \<Longrightarrow> op_ok p \<Longrightarrow> json_ok (fst (apply_ops doc [p]))"
  by (simp only: apply_one op_ok_def json_ok_apply_toks)

lemma atomic_loop:
  "json_ok doc \<Longrightarrow> list_all op_ok ops \<Longrightarrow> foldl restore doc (rev log) = doc0 \<Longrightarrow>
   atomic_loop doc log ops = (if snd (apply_ops doc ops) = 0 then (fst (apply_ops doc ops), True) else (doc0, False))"
proof (induction doc log ops rule: atomic_loop.induct)
  case (2 doc log p ops)
  obtain d n where d: "apply_ops doc [p] = (d, n)" by fastforce
  with undo_op [OF "2.prems"(1), of p] have undo: "foldl restore d (rev (log @ [undo_for doc p])) = doc0"
    using "2.prems"(3) by simp
  obtain d' m where d': "apply_ops d ops = (d', m)" by fastforce
  from d d' have all: "apply_ops doc (p # ops) = (d', n + m)" by (auto split: prod.splits)
  show ?case
  proof (cases "0 < n")
    case True
    with all d undo show ?thesis by (simp add: Let_def del: apply_ops.simps)
  next
    case False
    have "json_ok d" using apply_one_ok [OF "2.prems"(1), of p] "2.prems"(2) d by simp
    with "2.IH" [OF refl d [symmetric] False this _ undo] "2.prems"(2) d d' all False show ?thesis
      by (simp add: Let_def del: apply_ops.simps)
  qed
qed simp

text \<open>
  C26. A list of changes is applied as a whole or not at all: when every operation applies,
  \<^verbatim>\<open>apply_atomic\<close> returns true and the document is what \<^verbatim>\<open>apply\<close> makes of it; when one fails, it returns
  false and the document is the original again, down to the order of its members, whatever parents the
  operations created before.
\<close>

theorem apply_atomic_all_or_nothing:
  assumes "json_ok doc" "list_all op_ok ops"
  shows "apply_atomic doc ops = (if snd (apply_ops doc ops) = 0 then (fst (apply_ops doc ops), True) else (doc, False))"
  unfolding apply_atomic_def using atomic_loop [OF assms, of "[]" doc] by simp

theorem apply_atomic_all_or_nothing_witness:
  "apply_atomic (JObject [(''a'', JNull)]) [po_add ''/b/-'' JNull, po_remove ''/a'', po_remove ''/no''] = (JObject [(''a'', JNull)], False)"
proof -
  let ?doc = "JObject [(''a'', JNull)]" and ?ops = "[po_add ''/b/-'' JNull, po_remove ''/a'', po_remove ''/no'']"
  have "json_ok ?doc" "list_all op_ok ?ops" by (simp_all add: op_ok_def po_add_def po_remove_def)
  moreover have "snd (apply_ops ?doc ?ops) = 1"
    by (simp add: po_add_def po_remove_def tokens_def apply_toks_def apply_at_def or_null_def)
  ultimately show ?thesis using apply_atomic_all_or_nothing by simp
qed

section \<open>The difference of two documents\<close>

definition diff_remove :: "string \<Rightarrow> json" where
  "diff_remove path = JObject [(''op'', JString ''remove''), (''path'', JString path)]"

definition diff_add :: "string \<Rightarrow> json \<Rightarrow> json" where
  "diff_add path v = JObject [(''op'', JString ''add''), (''path'', JString path), (''value'', v)]"

definition diff_replace :: "string \<Rightarrow> json \<Rightarrow> json" where
  "diff_replace path v = JObject [(''op'', JString ''replace''), (''path'', JString path), (''value'', v)]"

definition starts_with :: "json list \<Rightarrow> json list \<Rightarrow> bool" where
  "starts_with xs ys \<longleftrightarrow> length xs \<le> length ys \<and> list_all (\<lambda>(x, y). json_eq x y) (zip xs ys)"

fun diff_at :: "json \<Rightarrow> json \<Rightarrow> string \<Rightarrow> json list" where
  "diff_at (JObject x) (JObject y) at =
     (if json_eq (JObject x) (JObject y) then []
      else map (\<lambda>k. diff_remove (at @ ''/'' @ escape k)) (filter (\<lambda>k. map_of y k = None) (map fst x)) @
           concat (map (\<lambda>(k, v). case map_of x k of
                                   Some old \<Rightarrow> diff_at old v (at @ ''/'' @ escape k)
                                 | None \<Rightarrow> [diff_add (at @ ''/'' @ escape k) v]) y))"
| "diff_at (JArray x) (JArray y) at =
     (if json_eq (JArray x) (JArray y) then []
      else if length x < length y \<and> starts_with x y then map (diff_add (at @ ''/-'')) (drop (length x) y)
      else [diff_replace at (JArray y)])"
| "diff_at a b at = (if json_eq a b then [] else [diff_replace at b])"

definition diff :: "json \<Rightarrow> json \<Rightarrow> json list" where
  "diff from to = diff_at from to []"

text \<open>
  A patch operation read from JSON, as its fields are declared: the kind in snake case, the path, and a
  value that may be absent; a \<^verbatim>\<open>null\<close> reads as absent.
\<close>

definition kind_of :: "string \<Rightarrow> patch_kind option" where
  "kind_of n = (if n = ''add'' then Some PatchAdd else if n = ''replace'' then Some PatchReplace
     else if n = ''remove'' then Some PatchRemove else if n = ''union'' then Some PatchUnion else None)"

definition non_null :: "json \<Rightarrow> json option" where
  "non_null v = (if v = JNull then None else Some v)"

definition op_of_json :: "json \<Rightarrow> patch_op option" where
  "op_of_json j =
     (case j of
        JObject ms \<Rightarrow>
          (case (map_of ms ''op'', map_of ms ''path'') of
             (Some (JString n), Some (JString path)) \<Rightarrow>
               map_option (\<lambda>kind. \<lparr>po_op = kind, po_path = path, po_value = Option.bind (map_of ms ''value'') non_null\<rparr>) (kind_of n)
           | _ \<Rightarrow> None)
      | _ \<Rightarrow> None)"

lemma ops_read_back:
  "op_of_json (diff_remove path) = Some \<lparr>po_op = PatchRemove, po_path = path, po_value = None\<rparr>"
  "op_of_json (diff_add path v) = Some \<lparr>po_op = PatchAdd, po_path = path, po_value = non_null v\<rparr>"
  "op_of_json (diff_replace path v) = Some \<lparr>po_op = PatchReplace, po_path = path, po_value = non_null v\<rparr>"
  by (simp_all add: op_of_json_def diff_remove_def diff_add_def diff_replace_def kind_of_def)

lemma or_null_non_null [simp]: "or_null (non_null v) = v"
  by (simp add: or_null_def non_null_def)

text \<open>Escaping: a pointer built from escaped tokens has those tokens.\<close>

lemma replace2_other: "x \<noteq> a \<Longrightarrow> replace2 a b r (x # s) = x # replace2 a b r s"
  by (cases s) simp_all

lemma unescape_escape:
  "replace2 (CHR ''~'') (CHR ''0'') ''~'' (replace2 (CHR ''~'') (CHR ''1'') ''/'' (escape t)) = t"
proof -
  let ?tilde = "replace_char (CHR ''~'') ''~0''"
  have "replace2 (CHR ''~'') (CHR ''1'') ''/'' (escape t) = ?tilde t"
    unfolding escape_def by (induction t) (auto simp: replace_char_def replace2_other)
  moreover have "replace2 (CHR ''~'') (CHR ''0'') ''~'' (?tilde t) = t"
    by (induction t) (auto simp: replace_char_def replace2_other)
  ultimately show ?thesis by simp
qed

lemma escape_no_slash: "CHR ''/'' \<notin> set (escape t)"
  by (auto simp: escape_def replace_char_def)

definition pointer :: "string list \<Rightarrow> string" where
  "pointer ts = concat (map (\<lambda>t. CHR ''/'' # escape t) ts)"

lemma split_token: "CHR ''/'' \<notin> set e \<Longrightarrow> split_char (CHR ''/'') (e @ pointer ts) = e # tl (split_char (CHR ''/'') (pointer ts))"
proof (cases ts)
  case Nil
  assume "CHR ''/'' \<notin> set e"
  then have "split_char (CHR ''/'') e = [e]" by (induction e) auto
  with Nil show ?thesis by (simp add: pointer_def)
qed (simp add: pointer_def split_char_append)

lemma tokens_pointer: "tokens (pointer ts) = ts"
proof (induction ts)
  case Nil
  show ?case by (simp add: tokens_def pointer_def)
next
  case (Cons t ts)
  have "pointer (t # ts) = CHR ''/'' # (escape t @ pointer ts)" by (simp add: pointer_def)
  with Cons split_token [OF escape_no_slash, of t ts] show ?case by (simp add: tokens_def unescape_escape)
qed

text \<open>The difference at the level of tokens.\<close>

type_synonym tok_op = "patch_kind \<times> string list \<times> json option"

definition below :: "string \<Rightarrow> tok_op \<Rightarrow> tok_op" where
  "below k = (\<lambda>(kind, ts, v). (kind, k # ts, v))"

fun tok_diff :: "json \<Rightarrow> json \<Rightarrow> tok_op list" where
  "tok_diff (JObject x) (JObject y) =
     (if json_eq (JObject x) (JObject y) then []
      else map (\<lambda>k. (PatchRemove, [k], None)) (filter (\<lambda>k. map_of y k = None) (map fst x)) @
           concat (map (\<lambda>(k, v). case map_of x k of
                                   Some old \<Rightarrow> map (below k) (tok_diff old v)
                                 | None \<Rightarrow> [(PatchAdd, [k], non_null v)]) y))"
| "tok_diff (JArray x) (JArray y) =
     (if json_eq (JArray x) (JArray y) then []
      else if length x < length y \<and> starts_with x y then map (\<lambda>v. (PatchAdd, [''-''], non_null v)) (drop (length x) y)
      else [(PatchReplace, [], non_null (JArray y))])"
| "tok_diff a b = (if json_eq a b then [] else [(PatchReplace, [], non_null b)])"

definition at_pointer :: "string \<Rightarrow> tok_op \<Rightarrow> patch_op" where
  "at_pointer at = (\<lambda>(kind, ts, v). \<lparr>po_op = kind, po_path = at @ pointer ts, po_value = v\<rparr>)"

lemma diff_at_tokens: "map op_of_json (diff_at a b at) = map (Some \<circ> at_pointer at) (tok_diff a b)"
proof (induction a b at rule: diff_at.induct)
  case (1 x y at)
  have "map op_of_json (case map_of x k of Some old \<Rightarrow> diff_at old v (at @ ''/'' @ escape k) | None \<Rightarrow> [diff_add (at @ ''/'' @ escape k) v])
      = map (Some \<circ> at_pointer at) (case map_of x k of Some old \<Rightarrow> map (below k) (tok_diff old v) | None \<Rightarrow> [(PatchAdd, [k], non_null v)])"
    if "(k, v) \<in> set y" "\<not> json_eq (JObject x) (JObject y)" for k v
    using 1 [OF that(2,1) refl]
    by (auto simp: ops_read_back at_pointer_def below_def pointer_def o_def split: option.split)
  then show ?case
    by (auto simp: map_concat o_def ops_read_back at_pointer_def pointer_def simp del: json_eq.simps
        intro!: arg_cong [of _ _ concat] map_cong split: prod.splits)
qed (auto simp: ops_read_back at_pointer_def pointer_def escape_def replace_char_def simp del: json_eq.simps)

text \<open>Applying operations given by their tokens; below a member they change only that member.\<close>

fun tok_apply :: "json \<Rightarrow> tok_op list \<Rightarrow> json \<times> nat" where
  "tok_apply doc [] = (doc, 0)"
| "tok_apply doc ((kind, ts, v) # ops) =
     (case apply_toks kind v ts doc of (doc', n) \<Rightarrow> (case tok_apply doc' ops of (doc'', m) \<Rightarrow> (doc'', n + m)))"

lemma apply_ops_tokens: "apply_ops doc (map (at_pointer []) ops) = tok_apply doc ops"
  by (induction doc ops rule: tok_apply.induct) (auto simp: at_pointer_def tokens_pointer split: prod.split)

lemma tok_apply_append: "tok_apply doc (ps @ qs) = (case tok_apply doc ps of (d, n) \<Rightarrow> (case tok_apply d qs of (e, m) \<Rightarrow> (e, n + m)))"
  by (induction doc ps rule: tok_apply.induct) (auto split: prod.splits)

definition relative :: "tok_op \<Rightarrow> bool" where
  "relative = (\<lambda>(kind, ts, v). ts \<noteq> [] \<or> kind = PatchReplace)"

lemma tok_diff_relative: "list_all relative (tok_diff a b)"
  by (induction a b rule: tok_diff.induct)
    (auto simp: relative_def below_def list_all_iff simp del: json_eq.simps split: option.splits)

lemma apply_toks_member:
  assumes "map_of ms k = Some c" "relative (kind, ts, v)"
  shows "apply_toks kind v (k # ts) (JObject ms) = (case apply_toks kind v ts c of (d, n) \<Rightarrow> (JObject (map_set k d ms), n))"
proof (cases "ts = []")
  case True
  with assms show ?thesis by (auto simp: relative_def apply_toks_def apply_at_def)
next
  case False
  with assms show ?thesis by (simp add: apply_toks_object)
qed

lemma tok_apply_member:
  "map_of ms k = Some c \<Longrightarrow> list_all relative ops \<Longrightarrow>
   tok_apply (JObject ms) (map (below k) ops) = (case tok_apply c ops of (d, n) \<Rightarrow> (JObject (map_set k d ms), n))"
proof (induction c ops arbitrary: ms rule: tok_apply.induct)
  case (2 c kind ts v ops)
  obtain d n where d: "apply_toks kind v ts c = (d, n)" by fastforce
  with 2 apply_toks_member [of ms k c kind ts v] "2.IH" [OF d [symmetric], of "map_set k d ms"] show ?case
    by (simp add: below_def split: prod.split)
qed (simp add: map_set_same)

lemma tok_apply_removes:
  "json_ok (JObject ms) \<Longrightarrow> distinct ks \<Longrightarrow> set ks \<subseteq> fst ` set ms \<Longrightarrow>
   \<exists>ms'. tok_apply (JObject ms) (map (\<lambda>k. (PatchRemove, [k], None)) ks) = (JObject ms', 0) \<and> json_ok (JObject ms')
     \<and> map_of ms' = (\<lambda>k. if k \<in> set ks then None else map_of ms k)"
proof (induction ks arbitrary: ms)
  case (Cons k ks)
  from Cons.prems have k: "map_of ms k \<noteq> None" by (auto simp: map_of_eq_None_iff)
  have sub: "set ks \<subseteq> fst ` set (shift_remove k ms)"
  proof -
    have "fst ` set (shift_remove k ms) = fst ` set ms - {k}"
      using Cons.prems(1) arg_cong [OF keys_shift_remove [of k ms], of set] by simp
    with Cons.prems(2,3) show ?thesis by auto
  qed
  from Cons.IH [OF json_ok_shift_remove [OF Cons.prems(1)] _ sub] Cons.prems(2) obtain ms' where
    "tok_apply (JObject (shift_remove k ms)) (map (\<lambda>k. (PatchRemove, [k], None)) ks) = (JObject ms', 0)" "json_ok (JObject ms')"
    "map_of ms' = (\<lambda>j. if j \<in> set ks then None else map_of (shift_remove k ms) j)" by auto
  with k Cons.prems(1) show ?case
    by (intro exI [of _ ms']) (auto simp: apply_toks_single apply_at_def map_of_shift_remove fun_eq_iff simp del: json_ok.simps(6) dest: json_ok.simps(6) [THEN iffD1])
qed simp

lemma tok_apply_appends: "tok_apply (JArray xs) (map (\<lambda>v. (PatchAdd, [''-''], non_null v)) vs) = (JArray (xs @ vs), 0)"
  by (induction vs arbitrary: xs) (simp_all add: apply_toks_single apply_at_def)

lemma number_eq_refl [simp]: "number_eq n n"
  by (cases n) simp_all

lemma json_eq_refl: "json_ok v \<Longrightarrow> json_eq v v"
proof (induction v)
  case (JArray xs)
  then show ?case by (auto simp: list_all_length)
next
  case (JObject ms)
  have "case map_of ms k of Some w \<Rightarrow> json_eq v w | None \<Rightarrow> False" if "(k, v) \<in> set ms" for k v
    using that JObject map_of_is_SomeI [OF _ that] by (auto simp: list_all_iff pred_prod.simps)
  then show ?case by (auto simp: list_all_iff)
qed simp_all

text \<open>The members of the new object, one after the other.\<close>

definition member_ops :: "(string \<times> json) list \<Rightarrow> string \<times> json \<Rightarrow> tok_op list" where
  "member_ops x = (\<lambda>(k, v). case map_of x k of
      Some old \<Rightarrow> map (below k) (tok_diff old v)
    | None \<Rightarrow> [(PatchAdd, [k], non_null v)])"

definition diffs_ok :: "(string \<times> json) list \<Rightarrow> (string \<times> json) list \<Rightarrow> bool" where
  "diffs_ok x ys \<longleftrightarrow> distinct (map fst ys)
     \<and> (\<forall>(k, v) \<in> set ys. json_eq v v \<and> (\<forall>old. map_of x k = Some old \<longrightarrow> (\<exists>c. tok_apply old (tok_diff old v) = (c, 0) \<and> json_eq c v)))"

definition members_set :: "(string \<times> json) list \<Rightarrow> (string \<times> json) list \<Rightarrow> (string \<times> json) list \<Rightarrow> bool" where
  "members_set ms ys ms' \<longleftrightarrow> distinct (map fst ms') \<and> fst ` set ms' = fst ` set ms \<union> fst ` set ys
     \<and> (\<forall>(k, v) \<in> set ys. \<exists>c. map_of ms' k = Some c \<and> json_eq c v) \<and> (\<forall>k. k \<notin> fst ` set ys \<longrightarrow> map_of ms' k = map_of ms k)"

lemma tok_apply_one_member:
  assumes "diffs_ok x ((k, v) # ys)" "map_of ms k = map_of x k"
  shows "\<exists>c. tok_apply (JObject ms) (member_ops x (k, v)) = (JObject (map_set k c ms), 0) \<and> json_eq c v"
proof (cases "map_of x k")
  case None
  with assms show ?thesis by (auto simp: member_ops_def diffs_ok_def apply_toks_single apply_at_def)
next
  case (Some old)
  then obtain c where "tok_apply old (tok_diff old v) = (c, 0)" "json_eq c v" using assms(1) by (auto simp: diffs_ok_def)
  with tok_apply_member [OF _ tok_diff_relative, of ms k old old v] Some assms(2) show ?thesis
    by (intro exI [of _ c]) (simp add: member_ops_def)
qed

lemma tok_apply_members:
  "diffs_ok x ys \<Longrightarrow> distinct (map fst ms) \<Longrightarrow> (\<And>k. k \<in> fst ` set ys \<Longrightarrow> map_of ms k = map_of x k) \<Longrightarrow>
   \<exists>ms'. tok_apply (JObject ms) (concat (map (member_ops x) ys)) = (JObject ms', 0) \<and> members_set ms ys ms'"
proof (induction ys arbitrary: ms)
  case (Cons e ys)
  obtain k v where e: "e = (k, v)" by (cases e)
  obtain c where c: "tok_apply (JObject ms) (member_ops x (k, v)) = (JObject (map_set k c ms), 0)" "json_eq c v"
    using tok_apply_one_member [of x k v ys ms] Cons.prems e by auto
  have keys: "fst ` set (map_set k c ms) = insert k (fst ` set ms)"
    using arg_cong [OF keys_map_set [of k c ms], of set] by auto
  have k: "k \<notin> fst ` set ys" using Cons.prems(1) e by (simp add: diffs_ok_def)
  have "map_of (map_set k c ms) j = map_of x j" if "j \<in> fst ` set ys" for j using Cons.prems(3) [of j] that k by auto
  moreover have "diffs_ok x ys" using Cons.prems(1) by (simp add: diffs_ok_def)
  moreover have "distinct (map fst (map_set k c ms))" using Cons.prems(2) by (auto simp: keys_map_set)
  ultimately obtain ms' where ms': "tok_apply (JObject (map_set k c ms)) (concat (map (member_ops x) ys)) = (JObject ms', 0)"
    "members_set (map_set k c ms) ys ms'" using Cons.IH by blast
  then have "members_set ms (e # ys) ms'" using e c(2) k keys by (auto simp: members_set_def simp del: map_of_eq_Some_iff)
  with ms'(1) c(1) e show ?case by (auto simp: tok_apply_append)
qed (simp add: members_set_def)

lemma json_eq_objects:
  assumes "distinct (map fst ms)" "distinct (map fst y)" "fst ` set ms = fst ` set y"
    and "\<And>k v. (k, v) \<in> set y \<Longrightarrow> \<exists>c. map_of ms k = Some c \<and> json_eq c v"
  shows "json_eq (JObject ms) (JObject y)"
proof -
  have "length ms = length y" using assms(1-3) by (metis distinct_card length_map set_map)
  moreover have "\<exists>w. map_of y k = Some w \<and> json_eq v w" if "(k, v) \<in> set ms" for k v
  proof -
    from that assms(3) have "k \<in> fst ` set y" by (metis fst_conv image_eqI)
    then obtain w where w: "(k, w) \<in> set y" by auto
    from assms(4) [OF w] map_of_is_SomeI [OF assms(1) that] map_of_is_SomeI [OF assms(2) w] show ?thesis by simp
  qed
  ultimately show ?thesis by (fastforce simp: list_all_iff)
qed

lemma tok_diff_members:
  assumes "json_ok (JObject x)" "json_ok (JObject y)" "diffs_ok x y"
  shows "\<exists>c. tok_apply (JObject x) (map (\<lambda>k. (PatchRemove, [k], None)) (filter (\<lambda>k. map_of y k = None) (map fst x))
       @ concat (map (member_ops x) y)) = (c, 0) \<and> json_eq c (JObject y)"
proof -
  let ?ks = "filter (\<lambda>k. map_of y k = None) (map fst x)"
  have "distinct ?ks" "set ?ks \<subseteq> fst ` set x" using assms(1) by auto
  with tok_apply_removes [OF assms(1), of ?ks] obtain ms where ms:
    "tok_apply (JObject x) (map (\<lambda>k. (PatchRemove, [k], None)) ?ks) = (JObject ms, 0)" "json_ok (JObject ms)"
    "map_of ms = (\<lambda>k. if k \<in> set ?ks then None else map_of x k)" by auto
  have keep: "map_of ms k = map_of x k" if "k \<in> fst ` set y" for k
    using that by (simp add: ms(3) map_of_eq_None_iff)
  have "k \<in> fst ` set y" if "k \<in> fst ` set ms" for k
  proof (rule ccontr)
    assume y: "k \<notin> fst ` set y"
    from that have "map_of ms k \<noteq> None" by (simp add: map_of_eq_None_iff)
    with ms(3) y show False by (force simp: map_of_eq_None_iff dest: map_of_SomeD split: if_splits)
  qed
  then have keys: "fst ` set ms \<union> fst ` set y = fst ` set y" by blast
  have "distinct (map fst ms)" using ms(2) by simp
  with tok_apply_members [OF assms(3) _ keep] obtain ms' where
    ms': "tok_apply (JObject ms) (concat (map (member_ops x) y)) = (JObject ms', 0)" "members_set ms y ms'" by blast
  have "json_eq (JObject ms') (JObject y)"
    using ms'(2) assms(2) keys by (intro json_eq_objects) (auto simp: members_set_def)
  with ms(1) ms'(1) show ?thesis by (simp add: tok_apply_append del: json_eq.simps)
qed

lemma zip_take_length: "zip xs (take (length xs) ys) = zip xs ys"
  by (induction xs ys rule: list_induct2') simp_all

lemma json_eq_extended:
  assumes "starts_with x y" "json_ok (JArray y)"
  shows "json_eq (JArray (x @ drop (length x) y)) (JArray y)"
proof -
  have "zip (x @ drop (length x) y) y = zip x (take (length x) y) @ zip (drop (length x) y) (drop (length x) y)"
    by (simp add: zip_append1)
  moreover have "zip x (take (length x) y) = zip x y" by (rule zip_take_length)
  moreover have "list_all (\<lambda>(x, y). json_eq x y) (zip (drop (length x) y) (drop (length x) y))"
    using assms(2) json_eq_refl by (auto simp: list_all_length)
  ultimately show ?thesis using assms(1) by (simp add: starts_with_def)
qed

lemma tok_diff_applies: "json_ok a \<Longrightarrow> json_ok b \<Longrightarrow> \<exists>c. tok_apply a (tok_diff a b) = (c, 0) \<and> json_eq c b"
proof (induction a b rule: tok_diff.induct)
  case (1 x y)
  show ?case
  proof (cases "json_eq (JObject x) (JObject y)")
    case False
    have "json_ok v" if "(k, v) \<in> set y" for k v
      using that "1.prems"(2) by (auto simp: list_all_iff pred_prod.simps)
    moreover have "json_ok old" if "map_of x k = Some old" for k old by (rule json_ok_member [OF "1.prems"(1) that])
    ultimately have "diffs_ok x y"
      using "1.IH" [OF False] "1.prems"(2) json_eq_refl by (fastforce simp: diffs_ok_def)
    from tok_diff_members [OF "1.prems" this] False show ?thesis by (simp add: member_ops_def del: json_eq.simps)
  qed simp
next
  case (2 x y)
  with json_eq_extended [of x y] json_eq_refl [OF "2.prems"(2)] show ?case
    by (auto simp: tok_apply_appends apply_toks_def simp del: json_eq.simps json_ok.simps)
qed (auto simp: apply_toks_def json_eq_refl simp del: json_eq.simps)

text \<open>
  C27. The JSON Patch of two documents turns the one into the other: every operation of \<^verbatim>\<open>diff\<close> reads back
  as a patch operation, and applying them all with \<^verbatim>\<open>apply\<close> fails nowhere and gives a value equal to the
  new document (equality of values does not see the order of members).  Keys may hold any characters,
  the tilde and the slash of the pointer syntax included.
\<close>

theorem diff_applies:
  assumes "json_ok a" "json_ok b"
  shows "\<exists>ops c. map op_of_json (diff a b) = map Some ops \<and> apply_ops a ops = (c, 0) \<and> json_eq c b"
proof -
  from tok_diff_applies [OF assms] obtain c where "tok_apply a (tok_diff a b) = (c, 0)" "json_eq c b" by blast
  with diff_at_tokens [of a b "[]"] apply_ops_tokens [of a "tok_diff a b"] show ?thesis
    unfolding diff_def by (metis map_map)
qed

theorem diff_applies_witness:
  "\<exists>ops c. map op_of_json (diff (JObject [(''a/~'', JArray [JNull]), (''b'', JNull)]) (JObject [(''c'', JNull), (''a/~'', JArray [JNull, JBool True])])) = map Some ops
     \<and> apply_ops (JObject [(''a/~'', JArray [JNull]), (''b'', JNull)]) ops = (c, 0)
     \<and> json_eq c (JObject [(''c'', JNull), (''a/~'', JArray [JNull, JBool True])])"
  by (rule diff_applies) simp_all

end
