(* ===== verification/Xml_Limits.thy ===== *)
theory Xml_Limits
  imports Rust_Text
begin

text \<open>
  The scan of XML text before it is parsed (\<^verbatim>\<open>crates/anvil-xml-limits/src/lib.rs\<close>): it counts attributes,
  attribute pairs and namespace declarations and follows the open elements, so that what the parser
  would do more than linearly is refused first.

  The text is its bytes, positions are \<open>nat\<close>, and the loops over positions are recursive functions
  with the number of bytes left as their measure.  \<^verbatim>\<open>Err\<close> is \<open>Inl\<close>.  The scan state lacks the text and the
  limits, which do not change: they are arguments.
\<close>

section \<open>Limits\<close>

record xml_limits =
  attributes_per_element :: nat
  attribute_pairs :: nat
  attribute_name_bytes :: nat
  xmlns_declarations :: nat
  xmlns_prefix_bytes :: nat
  xmlns_uri_bytes :: nat
  in_scope_namespaces :: nat
  namespace_scope_work :: nat

datatype xml_limit_exceeded =
    AttributesPerElement nat
  | AttributePairs nat
  | AttributeNameBytes nat
  | NamespaceDeclarations nat
  | NamespacePrefixBytes nat
  | NamespaceUriBytes nat
  | InScopeNamespaces nat
  | NamespaceScopeWork nat

fun show_exceeded :: "xml_limit_exceeded \<Rightarrow> string" where
  "show_exceeded (AttributesPerElement l) = ''more than '' @ show_nat l @ '' attributes on one element''"
| "show_exceeded (AttributePairs l) = ''more than '' @ show_nat l @ '' attribute pairs on the elements of the document''"
| "show_exceeded (AttributeNameBytes l) = ''an attribute name longer than '' @ show_nat l @ '' bytes''"
| "show_exceeded (NamespaceDeclarations l) = ''more than '' @ show_nat l @ '' namespace declarations (xmlns)''"
| "show_exceeded (NamespacePrefixBytes l) = ''a namespace prefix longer than '' @ show_nat l @ '' bytes''"
| "show_exceeded (NamespaceUriBytes l) = ''a namespace URI longer than '' @ show_nat l @ '' bytes''"
| "show_exceeded (InScopeNamespaces l) = ''more than '' @ show_nat l @ '' namespace declarations in scope of one element''"
| "show_exceeded (NamespaceScopeWork l) =
     ''namespace scopes costing more than '' @ show_nat l @ '' to resolve (declarations in scope, squared, per declaring element)''"

section \<open>Scan\<close>

record scan_state =
  sc_xmlns :: nat
  sc_pairs :: nat
  sc_depth :: nat
  sc_scopes :: "(nat \<times> nat) list"
  sc_in_scope :: nat
  sc_work :: nat

definition new_scan :: scan_state where
  "new_scan = \<lparr>sc_xmlns = 0, sc_pairs = 0, sc_depth = 0, sc_scopes = [], sc_in_scope = 0, sc_work = 0\<rparr>"

definition is_space :: "char \<Rightarrow> bool" where
  "is_space c \<longleftrightarrow> c = CHR '' '' \<or> byte c = 9 \<or> byte c = 10 \<or> byte c = 13"

definition find_byte :: "string \<Rightarrow> nat \<Rightarrow> char \<Rightarrow> nat option" where
  "find_byte b from c = (if from \<le> length b then map_option (\<lambda>p. from + p) (position (\<lambda>x. x = c) (drop from b)) else None)"

definition find_bytes :: "string \<Rightarrow> nat \<Rightarrow> string \<Rightarrow> nat option" where
  "find_bytes b from pat = (if from \<le> length b then map_option (\<lambda>p. from + p) (str_find pat (drop from b)) else None)"

text \<open>\<^verbatim>\<open>while b.get(i).is_some_and(p) { i += 1 }\<close>, and \<^verbatim>\<open>skip_space\<close>.\<close>

function skip_while :: "(char \<Rightarrow> bool) \<Rightarrow> string \<Rightarrow> nat \<Rightarrow> nat" where
  "skip_while p b i = (if i < length b \<and> p (b ! i) then skip_while p b (i + 1) else i)"
  by auto
termination by (relation "measure (\<lambda>(p, b, i). length b - i)") auto

declare skip_while.simps [simp del]

definition skip_space :: "string \<Rightarrow> nat \<Rightarrow> nat" where
  "skip_space b i = skip_while is_space b i"

definition end_tag :: "scan_state \<Rightarrow> scan_state" where
  "end_tag sc =
     (let d = sc_depth sc - 1; sc' = sc\<lparr>sc_depth := d\<rparr>
      in if sc_scopes sc \<noteq> [] \<and> fst (last (sc_scopes sc)) = d
         then sc'\<lparr>sc_scopes := butlast (sc_scopes sc), sc_in_scope := sc_in_scope sc - snd (last (sc_scopes sc))\<rparr>
         else sc')"

definition close_start_tag :: "xml_limits \<Rightarrow> nat \<Rightarrow> bool \<Rightarrow> scan_state \<Rightarrow> xml_limit_exceeded + scan_state" where
  "close_start_tag L declared closed sc =
     (let deeper = (\<lambda>s. if closed then s else s\<lparr>sc_depth := sc_depth s + 1\<rparr>)
      in if 0 < declared then
           (let n = sc_in_scope sc + declared;
                work = saturating_add_u64 (sc_work sc) (min (n * n) u64_max)
            in if in_scope_namespaces L < n then Inl (InScopeNamespaces (in_scope_namespaces L))
               else if namespace_scope_work L < work then Inl (NamespaceScopeWork (namespace_scope_work L))
               else Inr (deeper (if closed then sc\<lparr>sc_work := work\<rparr>
                                 else sc\<lparr>sc_work := work, sc_scopes := sc_scopes sc @ [(sc_depth sc, declared)], sc_in_scope := n\<rparr>)))
         else Inr (deeper sc))"

text \<open>One attribute: its name, the length of its value and the position after it; \<open>None\<close> where the text stops making sense.\<close>

definition name_byte :: "char \<Rightarrow> bool" where
  "name_byte c \<longleftrightarrow> \<not> is_space c \<and> c \<noteq> CHR ''='' \<and> c \<noteq> CHR ''>'' \<and> c \<noteq> CHR ''/''"

definition read_attr :: "string \<Rightarrow> nat \<Rightarrow> (string \<times> nat \<times> nat) option" where
  "read_attr b i =
     (let n = skip_while name_byte b i; name = take (n - i) (drop i b); e = skip_space b n
      in if length b \<le> e \<or> b ! e \<noteq> CHR ''='' then None
         else let q = skip_space b (e + 1)
              in if length b \<le> q \<or> b ! q \<noteq> CHR 0x22 \<and> b ! q \<noteq> CHR 0x27 then None
                 else (case find_byte b (q + 1) (b ! q) of
                         None \<Rightarrow> None
                       | Some e' \<Rightarrow> Some (name, e' - (q + 1), e' + 1)))"

text \<open>The length of the prefix that an attribute name declares.\<close>

definition declared_prefix :: "string \<Rightarrow> nat option" where
  "declared_prefix name =
     (if take 5 name \<noteq> ''xmlns'' then None
      else case drop 5 name of
             [] \<Rightarrow> Some 0
           | c # p \<Rightarrow> (if c = CHR '':'' then Some (length p) else None))"

text \<open>The counting of one attribute: \<open>attributes\<close> precede it on its element, which declared \<open>declared\<close> namespaces so far.\<close>

definition count_attr :: "xml_limits \<Rightarrow> string \<Rightarrow> nat \<Rightarrow> nat \<Rightarrow> nat \<Rightarrow> scan_state \<Rightarrow> xml_limit_exceeded + nat \<times> scan_state" where
  "count_attr L name val_len attributes declared sc =
     (let sc1 = sc\<lparr>sc_pairs := saturating_add_u64 (sc_pairs sc) attributes\<rparr>
      in if attributes_per_element L < attributes + 1 then Inl (AttributesPerElement (attributes_per_element L))
         else if attribute_pairs L < sc_pairs sc1 then Inl (AttributePairs (attribute_pairs L))
         else if attribute_name_bytes L < length name then Inl (AttributeNameBytes (attribute_name_bytes L))
         else (case declared_prefix name of
                 None \<Rightarrow> Inr (declared, sc1)
               | Some pre \<Rightarrow>
                   (if xmlns_declarations L < sc_xmlns sc + 1 then Inl (NamespaceDeclarations (xmlns_declarations L))
                    else if xmlns_prefix_bytes L < pre then Inl (NamespacePrefixBytes (xmlns_prefix_bytes L))
                    else if xmlns_uri_bytes L < val_len then Inl (NamespaceUriBytes (xmlns_uri_bytes L))
                    else Inr (declared + 1, sc1\<lparr>sc_xmlns := sc_xmlns sc + 1\<rparr>))))"

lemma skip_while_ge: "i \<le> skip_while p b i"
proof (induction p b i rule: skip_while.induct)
  case (1 p b i)
  then show ?case by (subst skip_while.simps) auto
qed

lemma find_byte_SomeD: "find_byte b from c = Some e \<Longrightarrow> from \<le> e \<and> e < length b \<and> b ! e = c"
  by (auto simp: find_byte_def split: if_splits dest: position_SomeD)

lemma find_bytes_SomeD: "find_bytes b from pat = Some e \<Longrightarrow> from \<le> e"
  by (auto simp: find_bytes_def split: if_splits)

lemma read_attr_SomeD: "read_attr b i = Some (name, n, j) \<Longrightarrow> i < j"
  using skip_while_ge [of i name_byte b] skip_while_ge [of "skip_while name_byte b i" is_space b]
    skip_while_ge [of "skip_while is_space b (skip_while name_byte b i) + 1" is_space b]
  by (auto simp: read_attr_def Let_def skip_space_def split: if_splits option.splits dest: find_byte_SomeD)

text \<open>The loop of \<^verbatim>\<open>start_tag\<close> over the attributes, and \<^verbatim>\<open>start_tag\<close>.\<close>

function attr_loop :: "xml_limits \<Rightarrow> string \<Rightarrow> nat \<Rightarrow> nat \<Rightarrow> nat \<Rightarrow> bool \<Rightarrow> scan_state \<Rightarrow> xml_limit_exceeded + nat option \<times> scan_state" where
  "attr_loop L b i attributes declared closed sc =
     (let j = skip_space b i
      in if length b \<le> j then Inr (None, sc)
         else if b ! j = CHR ''>'' then
           (case close_start_tag L declared closed sc of Inl e \<Rightarrow> Inl e | Inr sc' \<Rightarrow> Inr (Some (j + 1), sc'))
         else if b ! j = CHR ''/'' then attr_loop L b (j + 1) attributes declared True sc
         else (case read_attr b j of
                 None \<Rightarrow> Inr (None, sc)
               | Some (name, val_len, k) \<Rightarrow>
                   (case count_attr L name val_len attributes declared sc of
                      Inl e \<Rightarrow> Inl e
                    | Inr (declared', sc') \<Rightarrow> attr_loop L b k (attributes + 1) declared' False sc')))"
  by auto
termination
proof (relation "measure (\<lambda>(L, b, i, _). length b - i)", goal_cases)
  case (2 L b i attributes declared closed sc j)
  then show ?case using skip_while_ge [of i is_space b] by (simp add: skip_space_def)
next
  case (3 L b i attributes declared closed sc j p name q val_len k s declared' sc')
  then show ?case using skip_while_ge [of i is_space b] read_attr_SomeD [of b j name val_len k] by (simp add: skip_space_def)
qed simp

declare attr_loop.simps [simp del]

definition start_tag :: "xml_limits \<Rightarrow> string \<Rightarrow> nat \<Rightarrow> scan_state \<Rightarrow> xml_limit_exceeded + nat option \<times> scan_state" where
  "start_tag L b i sc = attr_loop L b (skip_while (\<lambda>c. \<not> is_space c \<and> c \<noteq> CHR ''>'' \<and> c \<noteq> CHR ''/'') b i) 0 0 False sc"

text \<open>The markup at a \<^verbatim>\<open><\<close>: the position after it, or \<open>None\<close> where the scan ends.\<close>

definition scan_markup :: "xml_limits \<Rightarrow> string \<Rightarrow> nat \<Rightarrow> scan_state \<Rightarrow> xml_limit_exceeded + nat option \<times> scan_state" where
  "scan_markup L b at sc =
     (let rest = drop at b
      in if is_prefix_of ''<!--'' rest then Inr (map_option (\<lambda>e. e + 3) (find_bytes b (at + 4) ''-->''), sc)
         else if is_prefix_of ''<![CDATA['' rest then Inr (map_option (\<lambda>e. e + 3) (find_bytes b (at + 9) '']]>''), sc)
         else if is_prefix_of ''<?'' rest then Inr (map_option (\<lambda>e. e + 2) (find_bytes b (at + 2) ''?>''), sc)
         else if is_prefix_of ''<!'' rest then Inr (None, sc)
         else if is_prefix_of ''</'' rest then Inr (map_option (\<lambda>e. e + 1) (find_byte b (at + 2) (CHR ''>'')), end_tag sc)
         else start_tag L b (at + 1) sc)"

lemma attr_loop_gt: "attr_loop L b i attributes declared closed sc = Inr (Some n, sc') \<Longrightarrow> i < n"
proof (induction L b i attributes declared closed sc rule: attr_loop.induct)
  case (1 L b i attributes declared closed sc)
  define j where "j = skip_space b i"
  have j: "i \<le> j" unfolding j_def skip_space_def by (rule skip_while_ge)
  from "1.prems" [unfolded attr_loop.simps [of L b i attributes declared closed sc] Let_def, folded j_def]
    "1.IH"(1) [OF j_def] "1.IH"(2) [OF j_def] j show ?case
    by (fastforce split: if_splits option.splits sum.splits prod.splits dest: read_attr_SomeD)
qed

lemma scan_markup_gt: "scan_markup L b at sc = Inr (Some n, sc') \<Longrightarrow> at < n"
  using skip_while_ge [of "at + 1" "\<lambda>c. \<not> is_space c \<and> c \<noteq> CHR ''>'' \<and> c \<noteq> CHR ''/''" b]
  by (auto simp: scan_markup_def Let_def start_tag_def split: if_splits dest!: attr_loop_gt find_bytes_SomeD find_byte_SomeD)

function scan_from :: "xml_limits \<Rightarrow> string \<Rightarrow> nat \<Rightarrow> scan_state \<Rightarrow> xml_limit_exceeded + scan_state" where
  "scan_from L b i sc =
     (case find_byte b i (CHR ''<'') of
        None \<Rightarrow> Inr sc
      | Some at \<Rightarrow>
          (case scan_markup L b at sc of
             Inl e \<Rightarrow> Inl e
           | Inr (None, sc') \<Rightarrow> Inr sc'
           | Inr (Some n, sc') \<Rightarrow> scan_from L b n sc'))"
  by auto
termination
proof (relation "measure (\<lambda>(L, b, i, sc). length b - i)", goal_cases)
  case (2 L b i sc at p o' sc' n)
  then show ?case using find_byte_SomeD [of b i "CHR ''<''" at] scan_markup_gt [of L b at sc n] by auto
qed simp

declare scan_from.simps [simp del]

definition check_xml_limits :: "string \<Rightarrow> xml_limits \<Rightarrow> xml_limit_exceeded + unit" where
  "check_xml_limits xml L = (case scan_from L xml 0 new_scan of Inl e \<Rightarrow> Inl e | Inr _ \<Rightarrow> Inr ())"

section \<open>Invariant of the scan\<close>

definition scan_ok :: "xml_limits \<Rightarrow> scan_state \<Rightarrow> bool" where
  "scan_ok L sc \<longleftrightarrow> sc_xmlns sc \<le> xmlns_declarations L \<and> sc_pairs sc \<le> attribute_pairs L
     \<and> sc_in_scope sc \<le> in_scope_namespaces L \<and> sc_work sc \<le> namespace_scope_work L
     \<and> sc_in_scope sc = sum_list (map snd (sc_scopes sc)) \<and> list_all (\<lambda>(_, n). 0 < n) (sc_scopes sc)
     \<and> sorted_wrt (<) (map fst (sc_scopes sc) @ [sc_depth sc])"

lemma new_scan_ok: "scan_ok L new_scan"
  by (simp add: scan_ok_def new_scan_def)

lemma end_tag_ok: "scan_ok L sc \<Longrightarrow> scan_ok L (end_tag sc)"
proof (cases "sc_scopes sc" rule: rev_cases)
  case Nil
  then show "scan_ok L sc \<Longrightarrow> scan_ok L (end_tag sc)" by (simp add: scan_ok_def end_tag_def Let_def)
next
  case (snoc ss e)
  then show "scan_ok L sc \<Longrightarrow> scan_ok L (end_tag sc)"
    by (cases e) (auto simp: scan_ok_def end_tag_def Let_def sorted_wrt_append)
qed

lemma close_start_tag_ok: "scan_ok L sc \<Longrightarrow> close_start_tag L declared closed sc = Inr sc' \<Longrightarrow> scan_ok L sc'"
  by (fastforce simp: scan_ok_def close_start_tag_def Let_def sorted_wrt_append less_Suc_eq split: if_splits)

lemma count_attr_ok: "scan_ok L sc \<Longrightarrow> count_attr L name n attributes declared sc = Inr (declared', sc') \<Longrightarrow> scan_ok L sc'"
  by (auto simp: scan_ok_def count_attr_def Let_def split: if_splits option.splits)

lemma attr_loop_ok: "scan_ok L sc \<Longrightarrow> attr_loop L b i attributes declared closed sc = Inr (n, sc') \<Longrightarrow> scan_ok L sc'"
proof (induction L b i attributes declared closed sc rule: attr_loop.induct)
  case (1 L b i attributes declared closed sc)
  define j where "j = skip_space b i"
  from "1.prems"(2) [unfolded attr_loop.simps [of L b i attributes declared closed sc] Let_def, folded j_def]
    "1.IH"(1) [OF j_def] "1.IH"(2) [OF j_def] "1.prems"(1) show ?case
    by (fastforce split: if_splits option.splits sum.splits prod.splits dest: count_attr_ok close_start_tag_ok)
qed

lemma scan_markup_ok: "scan_ok L sc \<Longrightarrow> scan_markup L b at sc = Inr (n, sc') \<Longrightarrow> scan_ok L sc'"
  by (auto simp: scan_markup_def Let_def start_tag_def end_tag_ok split: if_splits dest: attr_loop_ok)

lemma scan_from_ok: "scan_ok L sc \<Longrightarrow> scan_from L b i sc = Inr sc' \<Longrightarrow> scan_ok L sc'"
proof (induction L b i sc rule: scan_from.induct)
  case (1 L b i sc)
  from "1.prems"(2) [unfolded scan_from.simps [of L b i sc]] "1.IH" "1.prems"(1) show ?case
    by (fastforce split: option.splits sum.splits prod.splits dest: scan_markup_ok)
qed

lemma scopes_bounded: "list_all (\<lambda>(_, n). 0 < n) ss \<Longrightarrow> length ss \<le> sum_list (map snd ss)"
  by (induction ss) (auto simp: Suc_le_eq)

section \<open>Documents\<close>

text \<open>
  A document as a tree, and its text.  An element without content is written as a start and an end tag
  or as one empty tag (\<open>Leaf\<close>).
\<close>

datatype xml =
    Element string "(string \<times> string) list" "xml list"
  | Leaf string "(string \<times> string) list"
  | Text string
  | Comment string
  | Cdata string
  | Instruction string

definition attr_text :: "string \<times> string \<Rightarrow> string" where
  "attr_text a = '' '' @ fst a @ ''='' @ [CHR 0x22] @ snd a @ [CHR 0x22]"

fun xml_text :: "xml \<Rightarrow> string" where
  "xml_text (Element n as xs) = ''<'' @ n @ concat (map attr_text as) @ ''>'' @ concat (map xml_text xs) @ ''</'' @ n @ ''>''"
| "xml_text (Leaf n as) = ''<'' @ n @ concat (map attr_text as) @ ''/>''"
| "xml_text (Text s) = s"
| "xml_text (Comment s) = ''<!--'' @ s @ ''-->''"
| "xml_text (Cdata s) = ''<![CDATA['' @ s @ '']]>''"
| "xml_text (Instruction s) = ''<?'' @ s @ ''?>''"

definition tag_name_ok :: "string \<Rightarrow> bool" where
  "tag_name_ok n \<longleftrightarrow> n \<noteq> [] \<and> hd n \<noteq> CHR ''!'' \<and> hd n \<noteq> CHR ''?''
     \<and> list_all (\<lambda>c. \<not> is_space c \<and> c \<noteq> CHR ''>'' \<and> c \<noteq> CHR ''/'') n"

definition attr_ok :: "string \<times> string \<Rightarrow> bool" where
  "attr_ok a \<longleftrightarrow> list_all name_byte (fst a) \<and> CHR 0x22 \<notin> set (snd a)"

fun xml_ok :: "xml \<Rightarrow> bool" where
  "xml_ok (Element n as xs) = (tag_name_ok n \<and> list_all attr_ok as \<and> list_all xml_ok xs)"
| "xml_ok (Leaf n as) = (tag_name_ok n \<and> list_all attr_ok as)"
| "xml_ok (Text s) = (CHR ''<'' \<notin> set s)"
| "xml_ok (Comment s) = (str_find ''-->'' (s @ ''-->'') = Some (length s))"
| "xml_ok (Cdata s) = (str_find '']]>'' (s @ '']]>'') = Some (length s))"
| "xml_ok (Instruction s) = (str_find ''?>'' (s @ ''?>'') = Some (length s))"

text \<open>The scan along the tree.\<close>

fun tree_attrs :: "xml_limits \<Rightarrow> (string \<times> string) list \<Rightarrow> nat \<Rightarrow> nat \<Rightarrow> scan_state \<Rightarrow> xml_limit_exceeded + nat \<times> scan_state" where
  "tree_attrs L [] attributes declared sc = Inr (declared, sc)"
| "tree_attrs L (a # as) attributes declared sc =
     (case count_attr L (fst a) (length (snd a)) attributes declared sc of
        Inl e \<Rightarrow> Inl e
      | Inr (declared', sc') \<Rightarrow> tree_attrs L as (attributes + 1) declared' sc')"

definition tree_tag :: "xml_limits \<Rightarrow> (string \<times> string) list \<Rightarrow> bool \<Rightarrow> scan_state \<Rightarrow> xml_limit_exceeded + scan_state" where
  "tree_tag L as closed sc =
     (case tree_attrs L as 0 0 sc of Inl e \<Rightarrow> Inl e | Inr (declared, sc') \<Rightarrow> close_start_tag L declared closed sc')"

fun tree_scan :: "xml_limits \<Rightarrow> xml \<Rightarrow> scan_state \<Rightarrow> xml_limit_exceeded + scan_state"
  and tree_scans :: "xml_limits \<Rightarrow> xml list \<Rightarrow> scan_state \<Rightarrow> xml_limit_exceeded + scan_state" where
  "tree_scan L (Element n as xs) sc =
     (case tree_tag L as False sc of
        Inl e \<Rightarrow> Inl e
      | Inr sc1 \<Rightarrow> (case tree_scans L xs sc1 of Inl e \<Rightarrow> Inl e | Inr sc2 \<Rightarrow> Inr (end_tag sc2)))"
| "tree_scan L (Leaf n as) sc = tree_tag L as True sc"
| "tree_scan L _ sc = Inr sc"
| "tree_scans L [] sc = Inr sc"
| "tree_scans L (x # xs) sc = (case tree_scan L x sc of Inl e \<Rightarrow> Inl e | Inr sc' \<Rightarrow> tree_scans L xs sc')"

section \<open>Scanning the text of a document\<close>

lemma drop_after: "drop i b = s @ r \<Longrightarrow> drop (i + length s) b = r"
  by (metis add.commute append_eq_conv_conj drop_drop)

lemma drop_at: "drop i b = c # r \<Longrightarrow> i < length b \<and> b ! i = c \<and> drop (Suc i) b = r"
  by (metis Cons_nth_drop_Suc drop_eq_Nil2 list.distinct(1) list.inject not_le)

lemma skip_while_append:
  "drop i b = s @ r \<Longrightarrow> list_all p s \<Longrightarrow> r = [] \<or> \<not> p (hd r) \<Longrightarrow> skip_while p b i = i + length s"
proof (induction s arbitrary: i)
  case Nil
  then have "\<not> (i < length b \<and> p (b ! i))" by (auto simp: hd_drop_conv_nth)
  then show ?case by (subst skip_while.simps) auto
next
  case (Cons c s)
  then have "i < length b" "b ! i = c" "drop (i + 1) b = s @ r" using drop_at [of i b c "s @ r"] by simp_all
  with Cons show ?case by (subst skip_while.simps) simp
qed

lemma position_append_eq: "c \<notin> set s \<Longrightarrow> position (\<lambda>x. x = c) (s @ r) = map_option (\<lambda>p. length s + p) (position (\<lambda>x. x = c) r)"
  by (induction s; cases "position (\<lambda>x. x = c) r") auto

lemma find_byte_skip:
  assumes "drop i b = s @ r" "c \<notin> set s" "i \<le> length b"
  shows "find_byte b i c = find_byte b (i + length s) c"
proof -
  from assms(1,3) have "i + length s \<le> length b" by (metis add.commute drop_eq_Nil2 le_add2 length_append length_drop le_diff_conv2)
  with assms drop_after [OF assms(1)] show ?thesis by (cases "position (\<lambda>x. x = c) r") (simp_all add: find_byte_def position_append_eq)
qed

lemma find_byte_here: "drop i b = c # r \<Longrightarrow> find_byte b i c = Some i"
  by (cases "i \<le> length b") (auto simp: find_byte_def)

lemma find_byte_append: "drop i b = s @ c # r \<Longrightarrow> c \<notin> set s \<Longrightarrow> find_byte b i c = Some (i + length s)"
  using find_byte_skip [of i b s "c # r" c] find_byte_here [of "i + length s" b c r] drop_after [of i b s "c # r"]
  by (cases "i \<le> length b") auto

lemma str_find_append: "pat \<noteq> [] \<Longrightarrow> str_find pat s = Some i \<Longrightarrow> str_find pat (s @ r) = Some i"
proof (induction s arbitrary: i)
  case (Cons c cs)
  have "length pat \<le> Suc (length cs)"
    using str_find_SomeD [OF Cons.prems(2)] by simp
  then have "is_prefix_of pat (c # cs @ r) = is_prefix_of pat (c # cs)"
    by (simp add: is_prefix_of_def take_Cons')
  with Cons show ?case by (auto split: if_splits)
qed simp

lemma find_bytes_append:
  assumes "drop i b = s @ pat @ r" "pat \<noteq> []" "str_find pat (s @ pat) = Some (length s)"
  shows "find_bytes b i pat = Some (i + length s)"
proof (cases "i \<le> length b")
  case True
  with assms str_find_append [OF assms(2,3), of r] show ?thesis by (simp add: find_bytes_def)
next
  case False
  with assms show ?thesis by simp
qed

lemma skip_space_one:
  assumes "drop i b = c # r" "\<not> is_space c"
  shows "skip_space b i = i"
  using skip_while_append [of i b "[]" "c # r" is_space] assms by (simp add: skip_space_def)

lemma read_attr_text:
  assumes "drop i b = name @ ''='' @ [CHR 0x22] @ v @ [CHR 0x22] @ r" "attr_ok (name, v)"
  shows "read_attr b i = Some (name, length v, i + length name + length v + 3)"
proof -
  define n where "n = i + length name"
  have "\<not> name_byte (CHR ''='')" by (simp add: name_byte_def)
  then have skip: "skip_while name_byte b i = n"
    using assms skip_while_append [of i b name "CHR ''='' # CHR 0x22 # v @ [CHR 0x22] @ r" name_byte]
    by (simp add: attr_ok_def n_def)
  have eq: "drop n b = CHR ''='' # CHR 0x22 # v @ [CHR 0x22] @ r" unfolding n_def using drop_after [OF assms(1)] by simp
  from drop_at [OF this] have quote: "drop (Suc n) b = CHR 0x22 # v @ [CHR 0x22] @ r" by blast
  from drop_at [OF this] have val: "drop (Suc (Suc n)) b = v @ CHR 0x22 # r" by simp
  have "find_byte b (Suc (Suc n)) (CHR 0x22) = Some (Suc (Suc n) + length v)"
    using assms(2) by (intro find_byte_append [OF val]) (simp add: attr_ok_def)
  moreover have "skip_space b n = n" "skip_space b (Suc n) = Suc n"
    by (rule skip_space_one [OF eq] skip_space_one [OF quote]; simp add: is_space_def byte_def)+
  moreover have "take (n - i) (drop i b) = name" using assms(1) by (simp add: n_def)
  ultimately show ?thesis using skip drop_at [OF eq] drop_at [OF quote] by (simp add: read_attr_def Let_def) (simp add: n_def)
qed

definition tag_end :: "bool \<Rightarrow> string" where
  "tag_end closed = (if closed then ''/>'' else ''>'')"

definition closed_at :: "xml_limits \<Rightarrow> nat \<Rightarrow> bool \<Rightarrow> scan_state \<Rightarrow> nat \<Rightarrow> xml_limit_exceeded + nat option \<times> scan_state" where
  "closed_at L declared closed sc n = (case close_start_tag L declared closed sc of Inl e \<Rightarrow> Inl e | Inr sc' \<Rightarrow> Inr (Some n, sc'))"

lemma attr_loop_end:
  assumes "drop i b = tag_end closed @ r"
  shows "attr_loop L b i attributes declared False sc = closed_at L declared closed sc (i + length (tag_end closed))"
proof -
  have gt: "attr_loop L b j attributes declared c sc = closed_at L declared c sc (Suc j)" if "drop j b = CHR ''>'' # r" for j c
    using drop_at [OF that] skip_space_one [OF that]
    by (subst attr_loop.simps) (simp add: closed_at_def is_space_def byte_def split: sum.split)
  show ?thesis
  proof (cases closed)
    case True
    with assms have i: "drop i b = CHR ''/'' # CHR ''>'' # r" by (simp add: tag_end_def)
    have "attr_loop L b i attributes declared False sc = attr_loop L b (Suc i) attributes declared True sc"
      using drop_at [OF i] skip_space_one [OF i] by (subst attr_loop.simps) (simp add: is_space_def byte_def)
    with gt [of "Suc i" True] drop_at [OF i] True show ?thesis by (simp add: tag_end_def)
  next
    case False
    with gt [of i False] assms show ?thesis by (simp add: tag_end_def)
  qed
qed

lemma attr_loop_attr:
  assumes "drop i b = attr_text (name, v) @ r" "attr_ok (name, v)"
  shows "attr_loop L b i attributes declared closed sc =
     (case count_attr L name (length v) attributes declared sc of
        Inl e \<Rightarrow> Inl e
      | Inr (declared', sc') \<Rightarrow> attr_loop L b (i + length (attr_text (name, v))) (attributes + 1) declared' False sc')"
proof -
  from assms(1) have i: "drop i b = '' '' @ name @ ''='' @ [CHR 0x22] @ v @ [CHR 0x22] @ r" by (simp add: attr_text_def)
  from drop_at [of i b "CHR '' ''" "name @ ''='' @ [CHR 0x22] @ v @ [CHR 0x22] @ r"] i
  have j: "drop (Suc i) b = name @ ''='' @ [CHR 0x22] @ v @ [CHR 0x22] @ r" by simp
  define c where "c = hd (name @ ''='')"
  have c: "drop (Suc i) b = c # tl (name @ ''='' @ [CHR 0x22] @ v @ [CHR 0x22] @ r)" unfolding c_def j by (cases name) simp_all
  have "name_byte c \<or> c = CHR ''=''" using assms(2) by (cases name) (simp_all add: c_def attr_ok_def)
  then have c': "\<not> is_space c" "c \<noteq> CHR ''>''" "c \<noteq> CHR ''/''" by (auto simp: name_byte_def is_space_def byte_def)
  have "skip_space b i = Suc i"
  proof -
    have "drop i b = '' '' @ drop (Suc i) b" unfolding j using i by simp
    moreover have "hd (drop (Suc i) b) = c" unfolding c by simp
    moreover have "is_space (CHR '' '')" by (simp add: is_space_def)
    ultimately show ?thesis using skip_while_append [of i b "'' ''" "drop (Suc i) b" is_space] c'(1) by (simp add: skip_space_def)
  qed
  moreover have "read_attr b (Suc i) = Some (name, length v, i + length (attr_text (name, v)))"
    using read_attr_text [OF j assms(2)] by (simp add: attr_text_def)
  ultimately show ?thesis using drop_at [OF c] c'(2,3) by (subst attr_loop.simps) simp
qed

lemma attr_loop_text:
  "drop i b = concat (map attr_text as) @ tag_end closed @ r \<Longrightarrow> list_all attr_ok as \<Longrightarrow>
   attr_loop L b i attributes declared False sc =
     (case tree_attrs L as attributes declared sc of
        Inl e \<Rightarrow> Inl e
      | Inr (declared', sc') \<Rightarrow> closed_at L declared' closed sc' (i + length (concat (map attr_text as)) + length (tag_end closed)))"
proof (induction as arbitrary: i attributes declared sc)
  case Nil
  then show ?case by (simp add: attr_loop_end)
next
  case (Cons a as)
  obtain name v where a: "a = (name, v)" by (cases a)
  let ?r = "concat (map attr_text as) @ tag_end closed @ r"
  have i: "drop i b = attr_text (name, v) @ ?r" using Cons.prems(1) a by simp
  have rest: "drop (i + length (attr_text (name, v))) b = ?r" by (rule drop_after [OF i])
  show ?case
    using attr_loop_attr [OF i, of L attributes declared False sc] Cons.IH [OF rest] Cons.prems(2) a
    by (simp add: add.assoc split: sum.split prod.split)
qed

lemma start_tag_text:
  assumes "drop i b = n @ concat (map attr_text as) @ tag_end closed @ r" "tag_name_ok n" "list_all attr_ok as"
  shows "start_tag L b i sc =
    (case tree_tag L as closed sc of
       Inl e \<Rightarrow> Inl e
     | Inr sc' \<Rightarrow> Inr (Some (i + length (n @ concat (map attr_text as) @ tag_end closed)), sc'))"
proof -
  let ?p = "\<lambda>c. \<not> is_space c \<and> c \<noteq> CHR ''>'' \<and> c \<noteq> CHR ''/''"
  have "\<not> ?p (hd (concat (map attr_text as) @ tag_end closed @ r))"
    by (cases as) (simp_all add: attr_text_def tag_end_def is_space_def)
  with skip_while_append [OF assms(1), of ?p] assms(2) have "skip_while ?p b i = i + length n" by (simp add: tag_name_ok_def)
  with attr_loop_text [OF drop_after [OF assms(1)] assms(3), of L 0 0 sc] show ?thesis
    by (simp add: start_tag_def tree_tag_def closed_at_def add.assoc split: sum.split prod.split)
qed

text \<open>The scan steps over the text of a tree exactly as the scan along the tree.\<close>

lemma scan_from_markup:
  assumes "drop i b = CHR ''<'' # r"
  shows "scan_from L b i sc =
    (case scan_markup L b i sc of Inl e \<Rightarrow> Inl e | Inr (None, sc') \<Rightarrow> Inr sc' | Inr (Some n, sc') \<Rightarrow> scan_from L b n sc')"
  using find_byte_here [OF assms] by (subst scan_from.simps) simp

lemma scan_from_text: "drop i b = s @ r \<Longrightarrow> CHR ''<'' \<notin> set s \<Longrightarrow> i \<le> length b \<Longrightarrow> scan_from L b i sc = scan_from L b (i + length s) sc"
  using find_byte_skip [of i b s r "CHR ''<''"] by (simp add: scan_from.simps [of L b i] scan_from.simps [of L b "i + length s"])

lemma scan_start_tag:
  assumes "drop i b = ''<'' @ n @ concat (map attr_text as) @ tag_end closed @ r" "tag_name_ok n" "list_all attr_ok as"
  shows "scan_from L b i sc =
    (case tree_tag L as closed sc of
       Inl e \<Rightarrow> Inl e
     | Inr sc' \<Rightarrow> scan_from L b (i + length (''<'' @ n @ concat (map attr_text as) @ tag_end closed)) sc')"
proof -
  obtain c n' where n: "n = c # n'" using assms(2) by (cases n) (auto simp: tag_name_ok_def)
  have c: "c \<noteq> CHR ''!''" "c \<noteq> CHR ''?''" "c \<noteq> CHR ''/''" using assms(2) n by (auto simp: tag_name_ok_def)
  have i: "drop i b = CHR ''<'' # n @ concat (map attr_text as) @ tag_end closed @ r" using assms(1) by simp
  with c n have "scan_markup L b i sc = start_tag L b (Suc i) sc" by (simp add: scan_markup_def is_prefix_of_def)
  with scan_from_markup [OF i, of L sc] start_tag_text [OF _ assms(2,3), of "Suc i" b closed r L sc] drop_at [OF i] show ?thesis
    by (simp split: sum.split)
qed

lemma scan_end_tag:
  assumes "drop i b = ''</'' @ n @ ''>'' @ r" "tag_name_ok n"
  shows "scan_from L b i sc = scan_from L b (i + length (''</'' @ n @ ''>'')) (end_tag sc)"
proof -
  have i: "drop i b = CHR ''<'' # CHR ''/'' # n @ ''>'' @ r" using assms(1) by simp
  have "drop (i + 2) b = n @ CHR ''>'' # r" using drop_after [of i b "''</''" "n @ ''>'' @ r"] assms(1) by simp
  with assms(2) have "find_byte b (i + 2) (CHR ''>'') = Some (i + 2 + length n)"
    by (intro find_byte_append) (auto simp: tag_name_ok_def list_all_iff)
  then have "scan_markup L b i sc = Inr (Some (i + length (''</'' @ n @ ''>'')), end_tag sc)"
    using i by (simp add: scan_markup_def is_prefix_of_def)
  with scan_from_markup [OF i, of L sc] show ?thesis by simp
qed

lemma scan_skipped:
  assumes "drop i b = open_mark @ s @ close_mark @ r" "str_find close_mark (s @ close_mark) = Some (length s)"
    and "(open_mark, close_mark) \<in> {(''<!--'', ''-->''), (''<![CDATA['', '']]>''), (''<?'', ''?>'')}"
  shows "scan_from L b i sc = scan_from L b (i + length (open_mark @ s @ close_mark)) sc"
proof -
  have "find_bytes b (i + length open_mark) close_mark = Some (i + length open_mark + length s)"
    using assms by (intro find_bytes_append [OF drop_after [OF assms(1)]]) auto
  with assms(1,3) have "scan_markup L b i sc = Inr (Some (i + length (open_mark @ s @ close_mark)), sc)"
    by (auto simp: scan_markup_def is_prefix_of_def numeral_eq_Suc)
  moreover obtain t where "drop i b = CHR ''<'' # t" using assms(1,3) by auto
  ultimately show ?thesis using scan_from_markup [of i b t L sc] by simp
qed

lemmas scan_comment = scan_skipped [of i b "''<!--''" s "''-->''" for i b s, simplified]
lemmas scan_cdata = scan_skipped [of i b "''<![CDATA[''" s "'']]>''" for i b s, simplified]
lemmas scan_instruction = scan_skipped [of i b "''<?''" s "''?>''" for i b s, simplified]

lemma scan_tree_text:
  "drop i b = xml_text x @ r \<Longrightarrow> xml_ok x \<Longrightarrow> i \<le> length b \<Longrightarrow>
     scan_from L b i sc = (case tree_scan L x sc of Inl e \<Rightarrow> Inl e | Inr sc' \<Rightarrow> scan_from L b (i + length (xml_text x)) sc')"
  "drop i b = concat (map xml_text xs) @ r \<Longrightarrow> list_all xml_ok xs \<Longrightarrow> i \<le> length b \<Longrightarrow>
     scan_from L b i sc = (case tree_scans L xs sc of Inl e \<Rightarrow> Inl e | Inr sc' \<Rightarrow> scan_from L b (i + length (concat (map xml_text xs))) sc')"
proof (induction L x sc and L xs sc arbitrary: i r and i r rule: tree_scan_tree_scans.induct)
  case (1 L n as xs sc)
  let ?start = "''<'' @ n @ concat (map attr_text as) @ tag_end False"
  let ?body = "concat (map xml_text xs)"
  have i: "drop i b = ''<'' @ n @ concat (map attr_text as) @ tag_end False @ ?body @ ''</'' @ n @ ''>'' @ r"
    using "1.prems"(1) by (simp add: tag_end_def)
  have j: "drop (i + length ?start) b = ?body @ ''</'' @ n @ ''>'' @ r"
    using drop_after [of i b ?start] i by simp
  have k: "drop (i + length ?start + length ?body) b = ''</'' @ n @ ''>'' @ r" by (rule drop_after [OF j])
  have le: "i + length ?start \<le> length b" using j by (cases "i + length ?start \<le> length b") simp_all
  from "1.prems"(2) have ok: "tag_name_ok n" "list_all attr_ok as" "list_all xml_ok xs" by simp_all
  have len: "i + length (xml_text (Element n as xs)) = i + length ?start + length ?body + length (''</'' @ n @ ''>'')"
    by (simp add: tag_end_def)
  show ?case
    unfolding len scan_start_tag [OF i ok(1,2)]
    using "1.IH" [OF _ j ok(3) le] scan_end_tag [OF k ok(1)] by (simp split: sum.split)
next
  case (2 L n as sc)
  from 2(1) have "drop i b = ''<'' @ n @ concat (map attr_text as) @ tag_end True @ r" by (simp add: tag_end_def)
  from scan_start_tag [OF this, of L sc] 2(2) show ?case by (simp add: tag_end_def split: sum.split)
next
  case (5 L x xs sc)
  let ?t = "xml_text x"
  have i: "drop i b = ?t @ concat (map xml_text xs) @ r" using "5.prems"(1) by simp
  have j: "drop (i + length ?t) b = concat (map xml_text xs) @ r" by (rule drop_after [OF i])
  have le: "i + length ?t \<le> length b"
    using arg_cong [OF i, of length] "5.prems"(3) by simp
  have ok: "xml_ok x" "list_all xml_ok xs" using "5.prems"(2) by simp_all
  show ?case
    using "5.IH"(1) [OF i ok(1) "5.prems"(3)] "5.IH"(2) [OF _ j ok(2) le] by (simp add: add.assoc split: sum.split)
qed (use scan_from_text scan_comment scan_cdata scan_instruction in simp_all)

section \<open>What the scan accepts\<close>

text \<open>The start tags of a tree in the order of the document, each with the declarations in scope around it.\<close>

type_synonym tag = "(string \<times> string) list \<times> nat"

definition declares :: "(string \<times> string) list \<Rightarrow> nat" where
  "declares as = length (filter (\<lambda>a. declared_prefix (fst a) \<noteq> None) as)"

fun tags :: "nat \<Rightarrow> xml \<Rightarrow> tag list" where
  "tags k (Element n as xs) = (as, k) # concat (map (tags (k + declares as)) xs)"
| "tags k (Leaf n as) = [(as, k)]"
| "tags k _ = []"

definition attr_within :: "xml_limits \<Rightarrow> string \<times> string \<Rightarrow> bool" where
  "attr_within L a \<longleftrightarrow> length (fst a) \<le> attribute_name_bytes L
     \<and> (case declared_prefix (fst a) of None \<Rightarrow> True | Some n \<Rightarrow> n \<le> xmlns_prefix_bytes L \<and> length (snd a) \<le> xmlns_uri_bytes L)"

definition tag_within :: "xml_limits \<Rightarrow> tag \<Rightarrow> bool" where
  "tag_within L = (\<lambda>(as, k). length as \<le> attributes_per_element L \<and> list_all (attr_within L) as
     \<and> (0 < declares as \<longrightarrow> k + declares as \<le> in_scope_namespaces L))"

definition tag_pairs :: "tag \<Rightarrow> nat" where
  "tag_pairs = (\<lambda>(as, k). length as * (length as - 1) div 2)"

definition tag_declares :: "tag \<Rightarrow> nat" where
  "tag_declares = (\<lambda>(as, k). declares as)"

definition tag_work :: "tag \<Rightarrow> nat" where
  "tag_work = (\<lambda>(as, k). if declares as = 0 then 0 else (k + declares as) ^ 2)"

definition total :: "(tag \<Rightarrow> nat) \<Rightarrow> tag list \<Rightarrow> nat" where
  "total f ts = sum_list (map f ts)"

definition within_limits :: "xml_limits \<Rightarrow> xml list \<Rightarrow> bool" where
  "within_limits L xs \<longleftrightarrow>
     (let ts = concat (map (tags 0) xs)
      in list_all (tag_within L) ts \<and> total tag_pairs ts \<le> attribute_pairs L
         \<and> total tag_declares ts \<le> xmlns_declarations L \<and> total tag_work ts \<le> namespace_scope_work L)"

text \<open>From a state of the scan: whether more start tags fit, and the counters after them.\<close>

definition fits :: "xml_limits \<Rightarrow> scan_state \<Rightarrow> tag list \<Rightarrow> bool" where
  "fits L sc ts \<longleftrightarrow> list_all (tag_within L) ts \<and> sc_pairs sc + total tag_pairs ts \<le> attribute_pairs L
     \<and> sc_xmlns sc + total tag_declares ts \<le> xmlns_declarations L \<and> sc_work sc + total tag_work ts \<le> namespace_scope_work L"

definition bump :: "tag list \<Rightarrow> scan_state \<Rightarrow> scan_state" where
  "bump ts sc = sc\<lparr>sc_xmlns := sc_xmlns sc + total tag_declares ts, sc_pairs := sc_pairs sc + total tag_pairs ts,
     sc_work := sc_work sc + total tag_work ts\<rparr>"

definition opened :: "nat \<Rightarrow> scan_state \<Rightarrow> scan_state" where
  "opened d sc = (if d = 0 then sc\<lparr>sc_depth := sc_depth sc + 1\<rparr>
     else sc\<lparr>sc_depth := sc_depth sc + 1, sc_scopes := sc_scopes sc @ [(sc_depth sc, d)], sc_in_scope := sc_in_scope sc + d\<rparr>)"

definition verdict :: "bool \<Rightarrow> 'a \<Rightarrow> xml_limit_exceeded + 'a \<Rightarrow> bool" where
  "verdict ok v r \<longleftrightarrow> (if ok then r = Inr v else isl r)"

lemma total_append [simp]: "total f (ts @ us) = total f ts + total f us"
  by (simp add: total_def)

lemma total_Cons: "total f (t # ts) = f t + total f ts"
  by (simp add: total_def)

lemma total_Nil [simp]: "total f [] = 0"
  by (simp add: total_def)

lemma fits_append: "fits L sc (ts @ us) \<longleftrightarrow> fits L sc ts \<and> fits L (bump ts sc) us"
  by (auto simp: fits_def bump_def add.assoc)

lemma bump_append: "bump (ts @ us) sc = bump us (bump ts sc)"
  by (simp add: bump_def add.assoc)

lemma bump_ok: "scan_ok L sc \<Longrightarrow> fits L sc ts \<Longrightarrow> scan_ok L (bump ts sc)"
  by (simp add: scan_ok_def fits_def bump_def)

lemma bump_in_scope [simp]: "sc_in_scope (bump ts sc) = sc_in_scope sc"
  by (simp add: bump_def)

lemma opened_bump: "bump ts (opened d sc) = opened d (bump ts sc)"
  by (simp add: bump_def opened_def)

lemma opened_fits: "fits L (opened d sc) ts = fits L sc ts"
  by (simp add: fits_def opened_def)

lemma opened_in_scope: "sc_in_scope (opened d sc) = sc_in_scope sc + d"
  by (simp add: opened_def)

lemma opened_ok: "scan_ok L sc \<Longrightarrow> d = 0 \<or> sc_in_scope sc + d \<le> in_scope_namespaces L \<Longrightarrow> scan_ok L (opened d sc)"
  by (fastforce simp: scan_ok_def opened_def sorted_wrt_append less_Suc_eq)

lemma end_tag_opened: "scan_ok L sc \<Longrightarrow> end_tag (opened d sc) = sc"
  by (cases "sc_scopes sc" rule: rev_cases) (auto simp: end_tag_def opened_def scan_ok_def sorted_wrt_append butlast_append)

text \<open>The attributes of one tag.\<close>

fun pair_sum :: "nat \<Rightarrow> nat \<Rightarrow> nat" where
  "pair_sum a 0 = 0"
| "pair_sum a (Suc n) = a + pair_sum (Suc a) n"

lemma pair_sum_closed: "2 * pair_sum a n + n = n * n + 2 * a * n"
proof (induction n arbitrary: a)
  case (Suc n)
  from Suc [of "Suc a"] show ?case by (simp add: algebra_simps)
qed simp

lemma pair_sum_0: "pair_sum 0 n = n * (n - 1) div 2"
  using pair_sum_closed [of 0 n] by (cases n) simp_all

lemma saturating_le: "l < u64_max \<Longrightarrow> l < saturating_add_u64 w x \<longleftrightarrow> l < w + x"
  by (auto simp: saturating_add_u64_def)

lemma saturating_eq: "w + x \<le> l \<Longrightarrow> l < u64_max \<Longrightarrow> saturating_add_u64 w x = w + x"
  by (simp add: saturating_add_u64_def)

definition counted :: "nat \<Rightarrow> nat \<Rightarrow> scan_state \<Rightarrow> scan_state" where
  "counted p x sc = sc\<lparr>sc_pairs := sc_pairs sc + p, sc_xmlns := sc_xmlns sc + x\<rparr>"

lemma counted_simps [simp]:
  "counted 0 0 sc = sc" "counted p x (counted q y sc) = counted (q + p) (y + x) sc"
  "sc_pairs (counted p x sc) = sc_pairs sc + p" "sc_xmlns (counted p x sc) = sc_xmlns sc + x"
  by (simp_all add: counted_def add.assoc)

lemma declares_Cons: "declares (at # as) = declares [at] + declares as"
  by (simp add: declares_def)

lemma count_attr_verdict:
  assumes "attribute_pairs L < u64_max" "sc_xmlns sc \<le> xmlns_declarations L"
  shows "verdict (Suc a \<le> attributes_per_element L \<and> attr_within L at \<and> sc_pairs sc + a \<le> attribute_pairs L
       \<and> sc_xmlns sc + declares [at] \<le> xmlns_declarations L)
     (d + declares [at], counted a (declares [at]) sc) (count_attr L (fst at) (length (snd at)) a d sc)"
  using assms saturating_le [OF assms(1), of "sc_pairs sc" a] saturating_eq [of "sc_pairs sc" a, OF _ assms(1)]
  by (cases "declared_prefix (fst at)")
    (auto simp: verdict_def count_attr_def Let_def attr_within_def declares_def counted_def not_less)

lemma tree_attrs_verdict:
  assumes "attribute_pairs L < u64_max"
  shows "sc_pairs sc \<le> attribute_pairs L \<Longrightarrow> sc_xmlns sc \<le> xmlns_declarations L \<Longrightarrow> a \<le> attributes_per_element L \<Longrightarrow>
    verdict (a + length as \<le> attributes_per_element L \<and> list_all (attr_within L) as
        \<and> sc_pairs sc + pair_sum a (length as) \<le> attribute_pairs L \<and> sc_xmlns sc + declares as \<le> xmlns_declarations L)
      (d + declares as, counted (pair_sum a (length as)) (declares as) sc) (tree_attrs L as a d sc)"
proof (induction as arbitrary: a d sc)
  case (Cons at as)
  let ?ok = "Suc a \<le> attributes_per_element L \<and> attr_within L at \<and> sc_pairs sc + a \<le> attribute_pairs L
       \<and> sc_xmlns sc + declares [at] \<le> xmlns_declarations L"
  note one = count_attr_verdict [OF assms Cons.prems(2), of a at d]
  show ?case
  proof (cases ?ok)
    case True
    with one have "count_attr L (fst at) (length (snd at)) a d sc = Inr (d + declares [at], counted a (declares [at]) sc)"
      by (simp add: verdict_def)
    with Cons.IH [of "counted a (declares [at]) sc" "Suc a" "d + declares [at]"] True show ?thesis
      by (simp add: declares_Cons [of at as] add.assoc)
  next
    case False
    with one have "isl (count_attr L (fst at) (length (snd at)) a d sc)" by (simp add: verdict_def)
    with False show ?thesis by (auto simp: verdict_def declares_Cons [of at as] split: sum.split)
  qed
qed (simp add: verdict_def declares_def)

lemma square_capped:
  assumes "l < u64_max"
  shows "l < saturating_add_u64 w (min (n * n) u64_max) \<longleftrightarrow> l < w + n ^ 2"
    and "w + n ^ 2 \<le> l \<Longrightarrow> saturating_add_u64 w (min (n * n) u64_max) = w + n ^ 2"
  using assms by (auto simp: saturating_add_u64_def power2_eq_square)

definition small_limits :: "xml_limits \<Rightarrow> bool" where
  "small_limits L \<longleftrightarrow> attribute_pairs L < u64_max \<and> namespace_scope_work L < u64_max"

lemma close_start_tag_verdict:
  assumes "namespace_scope_work L < u64_max"
  shows "verdict (0 < d \<longrightarrow> sc_in_scope sc + d \<le> in_scope_namespaces L \<and> sc_work sc + (sc_in_scope sc + d) ^ 2 \<le> namespace_scope_work L)
    ((if closed then id else opened d) (sc\<lparr>sc_work := sc_work sc + (if d = 0 then 0 else (sc_in_scope sc + d) ^ 2)\<rparr>))
    (close_start_tag L d closed sc)"
  using square_capped [OF assms, of "sc_work sc" "sc_in_scope sc + d"]
  by (auto simp: verdict_def close_start_tag_def Let_def opened_def not_less)

lemma tree_tag_verdict:
  assumes "small_limits L" "scan_ok L sc"
  shows "verdict (fits L sc [(as, sc_in_scope sc)])
    ((if closed then id else opened (declares as)) (bump [(as, sc_in_scope sc)] sc)) (tree_tag L as closed sc)"
proof -
  let ?p = "pair_sum 0 (length as)"
  let ?ok = "length as \<le> attributes_per_element L \<and> list_all (attr_within L) as
        \<and> sc_pairs sc + ?p \<le> attribute_pairs L \<and> sc_xmlns sc + declares as \<le> xmlns_declarations L"
  have attrs: "verdict ?ok (declares as, counted ?p (declares as) sc) (tree_attrs L as 0 0 sc)"
    using tree_attrs_verdict [of L sc 0 as 0] assms by (simp add: small_limits_def scan_ok_def)
  have fits: "fits L sc [(as, sc_in_scope sc)] \<longleftrightarrow> ?ok \<and> (0 < declares as \<longrightarrow> sc_in_scope sc + declares as \<le> in_scope_namespaces L
      \<and> sc_work sc + (sc_in_scope sc + declares as) ^ 2 \<le> namespace_scope_work L)"
    using assms(2) by (auto simp: fits_def total_Cons tag_within_def tag_pairs_def tag_declares_def tag_work_def pair_sum_0 scan_ok_def)
  have bump: "bump [(as, sc_in_scope sc)] sc = (counted ?p (declares as) sc)
      \<lparr>sc_work := sc_work sc + (if declares as = 0 then 0 else (sc_in_scope sc + declares as) ^ 2)\<rparr>"
    by (simp add: bump_def counted_def total_Cons tag_pairs_def tag_declares_def tag_work_def pair_sum_0)
  have "sc_in_scope (counted ?p (declares as) sc) = sc_in_scope sc" "sc_work (counted ?p (declares as) sc) = sc_work sc"
    by (simp_all add: counted_def)
  with attrs close_start_tag_verdict [of L "declares as" "counted ?p (declares as) sc" closed] assms(1) show ?thesis
    unfolding fits bump by (cases ?ok; cases "tree_attrs L as 0 0 sc") (auto simp: verdict_def tree_tag_def small_limits_def)
qed

lemma tree_scan_verdict:
  "small_limits L \<Longrightarrow> scan_ok L sc \<Longrightarrow>
     verdict (fits L sc (tags (sc_in_scope sc) x)) (bump (tags (sc_in_scope sc) x) sc) (tree_scan L x sc)"
  "small_limits L \<Longrightarrow> scan_ok L sc \<Longrightarrow>
     verdict (fits L sc (concat (map (tags (sc_in_scope sc)) xs))) (bump (concat (map (tags (sc_in_scope sc)) xs)) sc) (tree_scans L xs sc)"
proof (induction L x sc and L xs sc rule: tree_scan_tree_scans.induct)
  case (1 L n as xs sc)
  let ?t = "[(as, sc_in_scope sc)]"
  let ?ts = "concat (map (tags (sc_in_scope sc + declares as)) xs)"
  have tags: "tags (sc_in_scope sc) (Element n as xs) = ?t @ ?ts" by simp
  note tag = tree_tag_verdict [OF "1.prems", of as False]
  show ?case
  proof (cases "fits L sc ?t")
    case True
    let ?sc = "bump ?t sc"
    have sc: "tree_tag L as False sc = Inr (opened (declares as) ?sc)" using tag True by (simp add: verdict_def)
    have ok: "scan_ok L (opened (declares as) ?sc)"
      using True by (intro opened_ok bump_ok "1.prems") (auto simp: fits_def tag_within_def)
    have scans: "verdict (fits L ?sc ?ts) (opened (declares as) (bump ?ts ?sc)) (tree_scans L xs (opened (declares as) ?sc))"
      using "1.IH" [OF sc "1.prems"(1) ok] by (simp add: opened_in_scope opened_fits opened_bump)
    have "end_tag (opened (declares as) (bump ?ts ?sc)) = bump ?ts ?sc" if "fits L ?sc ?ts"
      using True that by (intro end_tag_opened [where L = L] bump_ok "1.prems")
    with scans True sc show ?thesis
      unfolding tags fits_append bump_append by (cases "tree_scans L xs (opened (declares as) ?sc)") (auto simp: verdict_def split: if_splits)
  next
    case False
    with tag have "isl (tree_tag L as False sc)" by (simp add: verdict_def)
    with False show ?thesis unfolding tags fits_append by (auto simp: verdict_def split: sum.split)
  qed
next
  case (2 L n as sc)
  from tree_tag_verdict [OF 2, of as True] show ?case by simp
next
  case (5 L x xs sc)
  note one = "5.IH"(1) [OF "5.prems"]
  let ?t = "tags (sc_in_scope sc) x"
  show ?case
  proof (cases "fits L sc ?t")
    case True
    with one have "tree_scan L x sc = Inr (bump ?t sc)" by (simp add: verdict_def)
    with "5.IH"(2) [OF this "5.prems"(1) bump_ok [OF "5.prems"(2) True]] True show ?thesis
      by (simp add: verdict_def fits_append bump_append)
  next
    case False
    with one have "isl (tree_scan L x sc)" by (simp add: verdict_def)
    with False show ?thesis by (auto simp: verdict_def fits_append split: sum.split)
  qed
qed (auto simp: verdict_def fits_def bump_def scan_ok_def)


definition demo_limits :: xml_limits where
  "demo_limits = \<lparr>attributes_per_element = 2, attribute_pairs = 1, attribute_name_bytes = 7, xmlns_declarations = 1,
     xmlns_prefix_bytes = 1, xmlns_uri_bytes = 3, in_scope_namespaces = 1, namespace_scope_work = 1\<rparr>"

definition demo_document :: "xml list" where
  "demo_document = [Element ''a'' [(''xmlns:p'', ''u<>''), (''b'', [])] [Text ''t'', Leaf ''c'' []], Comment ''<x y=1>'']"


text \<open>
  C36. The bounds of the scan on arbitrary bytes.  When it ends without an error the counters are within
  the limits, the declarations in scope are exactly those of the open elements on the stack, which lie
  strictly inside each other, so closing an element never takes away more than is counted, and the
  stack, the only memory the scan allocates, has at most \<^verbatim>\<open>in_scope_namespaces\<close> entries.
\<close>

theorem scan_bounded:
  assumes "scan_from L b 0 new_scan = Inr sc"
  shows "scan_ok L sc \<and> length (sc_scopes sc) \<le> in_scope_namespaces L"
proof -
  from scan_from_ok [OF new_scan_ok assms] have "scan_ok L sc" .
  with scopes_bounded [of "sc_scopes sc"] show ?thesis by (simp add: scan_ok_def)
qed

theorem scan_bounded_witness:
  "\<exists>sc. scan_from demo_limits ''x'' 0 new_scan = Inr sc \<and> length (sc_scopes sc) \<le> in_scope_namespaces demo_limits"
proof -
  have "scan_from demo_limits ''x'' 0 new_scan = Inr new_scan" by (simp add: scan_from.simps find_byte_def)
  with scan_bounded [OF this] show ?thesis by auto
qed

end
