(* ===== verification/Scrub.thy ===== *)
theory Scrub
  imports Proxy_Protocol
begin

text \<open>
  Replacing known values in text (the functions at the end of \<^verbatim>\<open>crates/anvil-engine/src/redact.rs\<close>): the
  ranges that occurrences of the patterns cover, found by an automaton or by the slower fallback, merged
  where they overlap, adjusted to the markers that are already in the text, and replaced.

  A range is its start and its end.  The automaton belongs to the crate \<^verbatim>\<open>aho_corasick\<close>: what it finds is an
  argument, and \<open>finds\<close> is what the crate documents of overlapping standard matches, that every
  occurrence of every pattern is reported, in the order of their ends.
\<close>

section \<open>Replacing ranges\<close>

type_synonym range = "nat \<times> nat"

definition MAX_SECRET_MATCHES :: nat where "MAX_SECRET_MATCHES = 4096"

text \<open>\<^verbatim>\<open>str::match_indices\<close> of a pattern that is not empty, as ranges.\<close>

function match_ranges :: "string \<Rightarrow> string \<Rightarrow> nat \<Rightarrow> range list" where
  "match_ranges pat s off =
     (if pat = [] then []
      else case str_find pat (drop off s) of
             None \<Rightarrow> []
           | Some i \<Rightarrow> (off + i, off + i + length pat) # match_ranges pat s (off + i + length pat))"
  by auto
termination
proof (relation "measure (\<lambda>(pat, s, off). length s - off)", goal_cases)
  case (2 pat s off i)
  then show ?case by (cases pat) (auto dest: str_find_SomeD)
qed simp

declare match_ranges.simps [simp del]

text \<open>The loop of \<^verbatim>\<open>replace_ranges\<close> over a range and the markers it overlaps.\<close>

fun absorb_markers :: "range \<Rightarrow> range list \<Rightarrow> range \<times> range list" where
  "absorb_markers r [] = (r, [])"
| "absorb_markers r (m # ms) =
     (if fst m < snd r then absorb_markers (min (fst r) (fst m), max (snd r) (snd m)) ms else (r, m # ms))"

definition push_adjusted :: "range \<Rightarrow> range list \<Rightarrow> range list" where
  "push_adjusted r adjusted =
     (case adjusted of
        q # qs \<Rightarrow> if fst r < snd q then (fst q, max (snd q) (snd r)) # qs else r # adjusted
      | [] \<Rightarrow> [r])"

text \<open>The adjusted ranges, the last one first.\<close>

fun adjust :: "range list \<Rightarrow> range list \<Rightarrow> range list \<Rightarrow> range list" where
  "adjust [] markers adjusted = adjusted"
| "adjust (r # rs) markers adjusted =
     (let ms = dropWhile (\<lambda>m. snd m \<le> fst r) markers
      in if ms \<noteq> [] \<and> fst (hd ms) \<le> fst r \<and> snd r \<le> snd (hd ms) then adjust rs ms adjusted
         else case absorb_markers r ms of (r', ms') \<Rightarrow> adjust rs ms' (push_adjusted r' adjusted))"

fun fill_ranges :: "string \<Rightarrow> nat \<Rightarrow> range list \<Rightarrow> string" where
  "fill_ranges s off [] = drop off s"
| "fill_ranges s off (r # rs) = take (fst r - off) (drop off s) @ REDACTED @ fill_ranges s (snd r) rs"

definition replace_ranges :: "string \<Rightarrow> range list \<Rightarrow> string" where
  "replace_ranges s rs = (if rs = [] then s else fill_ranges s 0 (rev (adjust rs (match_ranges REDACTED s 0) [])))"

section \<open>Finding ranges\<close>

text \<open>\<^verbatim>\<open>replace_matches\<close>: the ranges built from the matches so far, the last one first.\<close>

fun pop_overlapping :: "nat \<Rightarrow> range list \<Rightarrow> nat \<times> range list" where
  "pop_overlapping start [] = (start, [])"
| "pop_overlapping start (r # rs) = (if start < snd r then pop_overlapping (min start (fst r)) rs else (start, r # rs))"

definition push_match :: "range \<Rightarrow> range list \<Rightarrow> range list" where
  "push_match found ranges = (case pop_overlapping (fst found) ranges of (start, rs) \<Rightarrow> (start, snd found) # rs)"

definition replace_matches :: "range list \<Rightarrow> string \<Rightarrow> string" where
  "replace_matches found s =
     (if MAX_SECRET_MATCHES < length found then REDACTED else replace_ranges s (rev (fold push_match found [])))"

text \<open>\<^verbatim>\<open>fallback_ranges\<close>: the first and longest occurrence from an offset on, and the loop.\<close>

definition len_utf8 :: "char \<Rightarrow> nat" where
  "len_utf8 c = (if byte c < 128 then 1 else if byte c < 224 then 2 else if byte c < 240 then 3 else 4)"

definition next_match :: "string \<Rightarrow> string list \<Rightarrow> nat \<Rightarrow> (nat \<times> nat) option" where
  "next_match s pats off =
     (let found = List.map_filter (\<lambda>p. map_option (\<lambda>i. (off + i, length p)) (str_find p (drop off s))) pats
      in map_option (\<lambda>i. found ! i) (min_pos (\<lambda>_. True) (\<lambda>(at, n). (at, - int n)) found))"

lemma next_match_found:
  assumes "next_match s pats off = Some (start, n)"
  shows "\<exists>p \<in> set pats. \<exists>i. str_find p (drop off s) = Some i \<and> start = off + i \<and> n = length p"
    and "\<forall>p \<in> set pats. \<forall>i. str_find p (drop off s) = Some i \<longrightarrow> start < off + i \<or> start = off + i \<and> length p \<le> n"
proof -
  let ?found = "List.map_filter (\<lambda>p. map_option (\<lambda>i. (off + i, length p)) (str_find p (drop off s))) pats"
  from assms obtain k where k: "min_pos (\<lambda>_. True) (\<lambda>(at, n). (at, - int n)) ?found = Some k" "?found ! k = (start, n)"
    by (auto simp: next_match_def Let_def)
  from min_pos_SomeD [OF k(1)] k(2) have mem: "(start, n) \<in> set ?found" and
    least: "\<forall>x \<in> set ?found. (start, - int n) \<le> (\<lambda>(at, n). (at, - int n)) x"
    by (metis nth_mem, simp)
  from mem show "\<exists>p \<in> set pats. \<exists>i. str_find p (drop off s) = Some i \<and> start = off + i \<and> n = length p"
    by (auto simp: List.map_filter_def)
  show "\<forall>p \<in> set pats. \<forall>i. str_find p (drop off s) = Some i \<longrightarrow> start < off + i \<or> start = off + i \<and> length p \<le> n"
  proof (intro ballI allI impI)
    fix p i
    assume p: "p \<in> set pats" "str_find p (drop off s) = Some i"
    then have "(off + i, length p) \<in> set ?found" by (force simp: List.map_filter_def)
    with least have "(start, - int n) \<le> (off + i, - int (length p))" by fastforce
    then show "start < off + i \<or> start = off + i \<and> length p \<le> n" by (auto simp: less_eq_prod_def)
  qed
qed

definition after_char :: "string \<Rightarrow> nat \<Rightarrow> nat" where
  "after_char s start = start + (if start < length s then len_utf8 (s ! start) else 1)"

lemma after_char_gt: "start < after_char s start"
  by (simp add: after_char_def len_utf8_def)

function fallback_loop :: "string \<Rightarrow> string list \<Rightarrow> nat \<Rightarrow> nat \<Rightarrow> range list \<Rightarrow> range list" where
  "fallback_loop s pats off matches ranges =
     (if off < length s then
        (case next_match s pats off of
           None \<Rightarrow> ranges
         | Some (start, n) \<Rightarrow>
             (if matches = MAX_SECRET_MATCHES then [(0, length s)]
              else fallback_loop s pats (after_char s start) (matches + 1) (push_adjusted (start, start + n) ranges)))
      else ranges)"
  by auto
termination
proof (relation "measure (\<lambda>(s, pats, off, _). length s - off)", goal_cases)
  case (2 s pats off matches ranges x start n)
  then show ?case using next_match_found(1) [of s pats off start n] after_char_gt [of start s] by auto
qed simp

declare fallback_loop.simps [simp del]

definition fallback_ranges :: "string \<Rightarrow> string list \<Rightarrow> range list" where
  "fallback_ranges s pats = rev (fallback_loop s pats 0 0 [])"

definition fallback_redact :: "string \<Rightarrow> string list \<Rightarrow> string" where
  "fallback_redact s pats = replace_ranges s (fallback_ranges s pats)"

section \<open>Chains of ranges\<close>

text \<open>Ranges that are not empty and lie one after the other, the last one first.\<close>

definition chain :: "range list \<Rightarrow> bool" where
  "chain rs \<longleftrightarrow> sorted_wrt (\<lambda>q r. snd r \<le> fst q) rs \<and> (\<forall>r \<in> set rs. fst r < snd r)"

definition covered :: "range list \<Rightarrow> range \<Rightarrow> bool" where
  "covered rs x \<longleftrightarrow> (\<exists>r \<in> set rs. fst r \<le> fst x \<and> snd x \<le> snd r)"

lemma chain_Nil [simp]: "chain []"
  by (simp add: chain_def)

lemma chain_Cons: "chain (r # rs) \<longleftrightarrow> fst r < snd r \<and> (\<forall>q \<in> set rs. snd q \<le> fst r) \<and> chain rs"
  by (auto simp: chain_def)

lemma covered_Cons: "covered (r # rs) x \<longleftrightarrow> fst r \<le> fst x \<and> snd x \<le> snd r \<or> covered rs x"
  by (auto simp: covered_def)

definition ends_by :: "nat \<Rightarrow> range list \<Rightarrow> bool" where
  "ends_by n rs \<longleftrightarrow> (\<forall>r \<in> set rs. snd r \<le> n)"

definition starts_from :: "nat \<Rightarrow> range list \<Rightarrow> bool" where
  "starts_from n rs \<longleftrightarrow> (\<forall>r \<in> set rs. n \<le> fst r)"

definition subsumes :: "range list \<Rightarrow> range list \<Rightarrow> bool" where
  "subsumes rs qs \<longleftrightarrow> (\<forall>q \<in> set qs. covered rs q)"

lemma covered_within: "covered rs q \<Longrightarrow> fst q \<le> fst x \<Longrightarrow> snd x \<le> snd q \<Longrightarrow> covered rs x"
  by (meson covered_def order_trans)

lemma covered_subsumes: "subsumes rs qs \<Longrightarrow> covered qs x \<Longrightarrow> covered rs x"
  by (meson covered_def covered_within subsumes_def)

lemma subsumes_trans: "subsumes rs qs \<Longrightarrow> subsumes qs ps \<Longrightarrow> subsumes rs ps"
  by (meson covered_subsumes subsumes_def)

lemma subsumes_subset: "set qs \<subseteq> set rs \<Longrightarrow> subsumes rs qs"
  by (auto simp: subsumes_def covered_def)

lemma range_simps [simp]:
  "ends_by n []" "ends_by n (r # rs) \<longleftrightarrow> snd r \<le> n \<and> ends_by n rs" "ends_by n (rs @ qs) \<longleftrightarrow> ends_by n rs \<and> ends_by n qs"
  "starts_from n []" "starts_from n (r # rs) \<longleftrightarrow> n \<le> fst r \<and> starts_from n rs"
  "subsumes rs []" "subsumes rs (q # qs) \<longleftrightarrow> covered rs q \<and> subsumes rs qs" "subsumes rs (qs @ ps) \<longleftrightarrow> subsumes rs qs \<and> subsumes rs ps"
  by (auto simp: ends_by_def starts_from_def subsumes_def)

lemma ends_by_mono: "ends_by n rs \<Longrightarrow> n \<le> m \<Longrightarrow> ends_by m rs"
  by (meson ends_by_def order_trans)

lemma starts_from_mono: "starts_from n rs \<Longrightarrow> m \<le> n \<Longrightarrow> starts_from m rs"
  by (meson starts_from_def order_trans)

lemma chain_Cons_ends: "chain (r # rs) \<longleftrightarrow> fst r < snd r \<and> ends_by (fst r) rs \<and> chain rs"
  by (simp add: chain_Cons ends_by_def)

lemma pop_overlapping:
  "pop_overlapping start rs = (start', rs') \<Longrightarrow> chain rs \<Longrightarrow> ends_by e rs \<Longrightarrow> start < e \<Longrightarrow>
   chain ((start', e) # rs') \<and> start' \<le> start \<and> ends_by e rs' \<and> subsumes ((start', e) # rs') rs"
proof (induction start rs rule: pop_overlapping.induct)
  case (2 start r rs)
  show ?case
  proof (cases "start < snd r")
    case True
    with "2.IH" [OF True] "2.prems" have IH: "chain ((start', e) # rs')" "start' \<le> min start (fst r)" "ends_by e rs'" "subsumes ((start', e) # rs') rs"
      by (auto simp: chain_Cons_ends)
    moreover have "covered ((start', e) # rs') r" using IH(2) "2.prems"(3) by (simp add: covered_Cons)
    ultimately show ?thesis by simp
  next
    case False
    then have res: "start' = start" "rs' = r # rs" using "2.prems"(1) by auto
    have "ends_by (fst r) rs" using "2.prems"(2) by (simp add: chain_Cons_ends)
    then have "ends_by start (r # rs)" using False "2.prems"(2) by (auto simp: chain_Cons_ends intro: ends_by_mono)
    with res "2.prems" show ?thesis
      using subsumes_subset [of "r # rs" "(start', e) # rs'"] by (auto simp: chain_Cons_ends)
  qed
qed (auto simp: chain_Cons)

lemma push_match:
  assumes "chain rs" "ends_by (snd f) rs" "fst f < snd f"
  shows "chain (push_match f rs)" "ends_by (snd f) (push_match f rs)" "subsumes (push_match f rs) (f # rs)"
proof -
  obtain start' rs' where p: "pop_overlapping (fst f) rs = (start', rs')" by fastforce
  note q = pop_overlapping [OF p assms]
  from p q show "chain (push_match f rs)" "ends_by (snd f) (push_match f rs)" "subsumes (push_match f rs) (f # rs)"
    by (simp_all add: push_match_def covered_Cons)
qed

lemma push_matches:
  "chain rs \<Longrightarrow> sorted (map snd fs) \<Longrightarrow> \<forall>f \<in> set fs. fst f < snd f \<and> ends_by (snd f) rs \<and> snd f \<le> n \<Longrightarrow> ends_by n rs \<Longrightarrow>
   chain (fold push_match fs rs) \<and> subsumes (fold push_match fs rs) (fs @ rs) \<and> ends_by n (fold push_match fs rs)"
proof (induction fs arbitrary: rs)
  case (Cons f fs)
  let ?rs = "push_match f rs"
  have f: "ends_by (snd f) rs" "fst f < snd f" "snd f \<le> n" using Cons.prems(3) by auto
  note step = push_match [OF Cons.prems(1) f(1,2)]
  have "\<forall>g \<in> set fs. fst g < snd g \<and> ends_by (snd g) ?rs \<and> snd g \<le> n"
    using Cons.prems(2,3) step(2) by (auto intro: ends_by_mono)
  moreover have "ends_by n ?rs" using step(2) f(3) by (rule ends_by_mono)
  ultimately have IH: "chain (fold push_match fs ?rs)" "subsumes (fold push_match fs ?rs) (fs @ ?rs)" "ends_by n (fold push_match fs ?rs)"
    using Cons.IH [OF step(1)] Cons.prems(2) by simp_all
  have "subsumes (fold push_match fs ?rs) (f # rs)" by (rule subsumes_trans [OF _ step(3)]) (use IH(2) in simp)
  with IH show ?case by simp
qed (use subsumes_subset in simp)

lemma push_adjusted:
  assumes "chain rs" "fst r < snd r" "rs \<noteq> [] \<Longrightarrow> fst (hd rs) \<le> fst r"
  shows "chain (push_adjusted r rs)" "push_adjusted r rs \<noteq> []" "fst (hd (push_adjusted r rs)) \<le> fst r"
    and "subsumes (push_adjusted r rs) (r # rs)" "ends_by n (r # rs) \<Longrightarrow> ends_by n (push_adjusted r rs)"
proof -
  have "chain (push_adjusted r rs) \<and> push_adjusted r rs \<noteq> [] \<and> fst (hd (push_adjusted r rs)) \<le> fst r
    \<and> subsumes (push_adjusted r rs) (r # rs) \<and> (ends_by n (r # rs) \<longrightarrow> ends_by n (push_adjusted r rs))"
  proof (cases rs)
    case (Cons q qs)
    have "chain (q # qs)" using assms(1) Cons by simp
    then have q: "fst q < snd q" "ends_by (fst q) qs" "chain qs" by (simp_all add: chain_Cons_ends)
    show ?thesis
    proof (cases "fst r < snd q")
      case True
      with q Cons assms(2,3) show ?thesis
        using subsumes_subset [of qs "(fst q, max (snd q) (snd r)) # qs"]
        by (auto simp: push_adjusted_def chain_Cons_ends covered_Cons)
    next
      case False
      with q Cons assms(2,3) show ?thesis
        using subsumes_subset [of qs "r # q # qs"] by (auto simp: push_adjusted_def chain_Cons_ends covered_Cons intro: ends_by_mono)
    qed
  qed (use assms in \<open>simp add: push_adjusted_def chain_Cons covered_Cons\<close>)
  then show "chain (push_adjusted r rs)" "push_adjusted r rs \<noteq> []" "fst (hd (push_adjusted r rs)) \<le> fst r"
    "subsumes (push_adjusted r rs) (r # rs)" "ends_by n (r # rs) \<Longrightarrow> ends_by n (push_adjusted r rs)" by blast+
qed

text \<open>Ranges in the order of the text.\<close>

definition ordered :: "range list \<Rightarrow> bool" where
  "ordered rs \<longleftrightarrow> chain (rev rs)"

lemma ordered_Nil [simp]: "ordered []"
  by (simp add: ordered_def)

lemma ordered_Cons: "ordered (r # rs) \<longleftrightarrow> fst r < snd r \<and> starts_from (snd r) rs \<and> ordered rs"
  by (auto simp: ordered_def chain_def sorted_wrt_append starts_from_def)

lemma ordered_dropWhile: "ordered rs \<Longrightarrow> ordered (dropWhile p rs)"
  by (induction rs) (auto simp: ordered_Cons)

lemma absorb_markers:
  "absorb_markers r ms = (r', ms') \<Longrightarrow> ordered ms \<Longrightarrow> fst r < snd r \<Longrightarrow> ends_by n ms \<Longrightarrow> snd r \<le> n \<Longrightarrow>
   fst r' \<le> fst r \<and> snd r \<le> snd r' \<and> set ms' \<subseteq> set ms \<and> ordered ms' \<and> starts_from (snd r') ms' \<and> snd r' \<le> n"
proof (induction ms arbitrary: r)
  case (Cons m ms)
  show ?case
  proof (cases "fst m < snd r")
    case True
    let ?r = "(min (fst r) (fst m), max (snd r) (snd m))"
    have step: "absorb_markers ?r ms = (r', ms')" using Cons.prems(1) True by simp
    have r: "ordered ms" "fst ?r < snd ?r" "ends_by n ms" "snd ?r \<le> n" using Cons.prems(2-5) by (auto simp: ordered_Cons)
    from Cons.IH [OF step r] show ?thesis by auto
  next
    case False
    have "starts_from (snd r) ms"
      by (rule starts_from_mono [of "snd m"]) (use False Cons.prems(2) in \<open>auto simp: ordered_Cons\<close>)
    moreover have "r' = r" "ms' = m # ms" using False Cons.prems(1) by simp_all
    ultimately show ?thesis using False Cons.prems by simp
  qed
qed simp

lemma absorb_markers_start: "absorb_markers r ms = (r', ms') \<Longrightarrow> k \<le> fst r \<Longrightarrow> starts_from k ms \<Longrightarrow> k \<le> fst r'"
  by (induction ms arbitrary: r) (auto split: if_splits)

lemma adjust:
  "ordered rs \<Longrightarrow> ordered ms \<Longrightarrow> chain acc \<Longrightarrow> ends_by n (rs @ ms @ acc) \<Longrightarrow>
   (acc \<noteq> [] \<Longrightarrow> starts_from (fst (hd acc)) rs \<and> starts_from (fst (hd acc)) ms) \<Longrightarrow>
   chain (adjust rs ms acc) \<and> ends_by n (adjust rs ms acc) \<and> subsumes (adjust rs ms acc) acc
     \<and> (\<forall>x \<in> set rs. covered ms x \<or> covered (adjust rs ms acc) x)"
proof (induction rs arbitrary: ms acc)
  case Nil
  then show ?case by (simp add: subsumes_subset)
next
  case (Cons r rs)
  define ms1 where "ms1 = dropWhile (\<lambda>m. snd m \<le> fst r) ms"
  have sub1: "set ms1 \<subseteq> set ms" by (auto simp: ms1_def dest: set_dropWhileD)
  have ms1: "ordered ms1" unfolding ms1_def using Cons.prems(2) by (rule ordered_dropWhile)
  have n1: "ends_by n ms1" using Cons.prems(4) sub1 by (auto simp: ends_by_def)
  have s1: "starts_from k ms1" if "starts_from k ms" for k using that sub1 by (auto simp: starts_from_def)
  have rs: "ordered rs" "fst r < snd r" "starts_from (snd r) rs" "snd r \<le> n" "ends_by n rs" "ends_by n acc"
    using Cons.prems(1,4) by (simp_all add: ordered_Cons)
  have up: "covered ms x" if "covered ms1 x" for x using covered_subsumes [OF subsumes_subset [OF sub1] that] .
  show ?case
  proof (cases "ms1 \<noteq> [] \<and> fst (hd ms1) \<le> fst r \<and> snd r \<le> snd (hd ms1)")
    case True
    then have eq: "adjust (r # rs) ms acc = adjust rs ms1 acc" by (simp flip: ms1_def)
    have "chain (adjust rs ms1 acc) \<and> ends_by n (adjust rs ms1 acc) \<and> subsumes (adjust rs ms1 acc) acc
        \<and> (\<forall>x \<in> set rs. covered ms1 x \<or> covered (adjust rs ms1 acc) x)"
      using rs ms1 n1 s1 Cons.prems(3,5) by (intro Cons.IH) auto
    moreover have "covered ms1 r" using True by (auto simp: covered_def intro!: bexI [of _ "hd ms1"])
    ultimately show ?thesis unfolding eq using up by auto
  next
    case False
    obtain r' ms2 where a: "absorb_markers r ms1 = (r', ms2)" by fastforce
    note ab = absorb_markers [OF a ms1 rs(2) n1 rs(4)]
    have eq: "adjust (r # rs) ms acc = adjust rs ms2 (push_adjusted r' acc)" using False a by (auto simp flip: ms1_def)
    have hd: "fst (hd acc) \<le> fst r'" if "acc \<noteq> []"
      by (rule absorb_markers_start [OF a]) (use Cons.prems(5) [OF that] s1 in simp_all)
    have r': "fst r' < snd r'" using ab rs(2) by linarith
    note pushed = push_adjusted [OF Cons.prems(3) r' hd]
    have n2: "snd r' \<le> n" "ends_by n ms2" using ab n1 rs(4) by (auto simp: ends_by_def)
    have start: "fst (hd (push_adjusted r' acc)) \<le> fst r'" by (rule pushed(3))
    have "starts_from (fst r') rs" using rs(2,3) ab by (auto intro: starts_from_mono)
    moreover have "starts_from (fst r') ms2" using ab r' by (auto intro: starts_from_mono)
    ultimately have s2: "starts_from (fst (hd (push_adjusted r' acc))) rs" "starts_from (fst (hd (push_adjusted r' acc))) ms2"
      using start by (auto intro: starts_from_mono)
    have "ordered ms2" using ab by blast
    moreover have "ends_by n (rs @ ms2 @ push_adjusted r' acc)" using rs(5,6) n2 pushed(5) by simp
    ultimately have IH: "chain (adjust rs ms2 (push_adjusted r' acc))" "ends_by n (adjust rs ms2 (push_adjusted r' acc))"
      "subsumes (adjust rs ms2 (push_adjusted r' acc)) (push_adjusted r' acc)"
      "\<forall>x \<in> set rs. covered ms2 x \<or> covered (adjust rs ms2 (push_adjusted r' acc)) x"
      using Cons.IH [OF rs(1) _ pushed(1)] s2 by blast+
    have all: "subsumes (adjust rs ms2 (push_adjusted r' acc)) (r' # acc)" by (rule subsumes_trans [OF IH(3) pushed(4)])
    then have "covered (adjust rs ms2 (push_adjusted r' acc)) r" using ab covered_within [of _ r' r] by simp
    moreover have "covered ms x" if "covered ms2 x" for x
      using that ab up covered_subsumes [OF subsumes_subset [of ms2 ms1]] by blast
    ultimately show ?thesis unfolding eq using IH all by auto
  qed
qed

section \<open>Occurrences\<close>

definition occurs_at :: "string \<Rightarrow> string \<Rightarrow> nat \<Rightarrow> bool" where
  "occurs_at p s i \<longleftrightarrow> i + length p \<le> length s \<and> take (length p) (drop i s) = p"

lemma occurs_at_Suc: "occurs_at p (c # s) (Suc i) = occurs_at p s i"
  by (simp add: occurs_at_def)

lemma occurs_at_drop: "occurs_at p (drop off s) i = occurs_at p s (off + i)" if "off \<le> length s"
  using that by (auto simp: occurs_at_def add.commute)

lemma str_find_first: "str_find p s = Some i \<Longrightarrow> occurs_at p s i \<and> (\<forall>j < i. \<not> occurs_at p s j)"
proof (induction p s arbitrary: i rule: str_find.induct)
  case (2 pat c cs)
  show ?case
  proof (cases "is_prefix_of pat (c # cs)")
    case True
    with 2 show ?thesis by (auto simp: occurs_at_def is_prefix_of_def) (metis le_antisym length_Cons length_take min.cobounded1 not_less_eq_eq)
  next
    case False
    with "2.prems" obtain k where k: "str_find pat cs = Some k" "i = Suc k" by auto
    have "\<not> occurs_at pat (c # cs) 0" using False by (simp add: occurs_at_def is_prefix_of_def)
    with "2.IH" [OF False k(1)] k(2) show ?thesis
      by (metis less_Suc_eq_0_disj occurs_at_Suc)
  qed
qed (auto simp: occurs_at_def split: if_splits)

lemma str_find_none: "str_find p s = None \<Longrightarrow> \<not> occurs_at p s i"
proof (induction p s arbitrary: i rule: str_find.induct)
  case (2 pat c cs)
  then have no: "\<not> is_prefix_of pat (c # cs)" "str_find pat cs = None" by (auto split: if_splits)
  show ?case
  proof (cases i)
    case 0
    with no(1) show ?thesis by (simp add: occurs_at_def is_prefix_of_def)
  next
    case (Suc k)
    with "2.IH" [OF no] show ?thesis by (simp add: occurs_at_Suc)
  qed
qed (auto simp: occurs_at_def split: if_splits)

lemma occurs_at_sublist: "sublist p s \<longleftrightarrow> (\<exists>i. occurs_at p s i)"
proof
  assume "sublist p s"
  then obtain a b where "s = a @ p @ b" by (auto simp: sublist_def)
  then have "occurs_at p s (length a)" by (simp add: occurs_at_def)
  then show "\<exists>i. occurs_at p s i" ..
next
  assume "\<exists>i. occurs_at p s i"
  then obtain i where "occurs_at p s i" ..
  then have "s = take i s @ p @ drop (length p) (drop i s)"
    unfolding occurs_at_def by (metis append_take_drop_id)
  then show "sublist p s" by (metis sublist_appendI)
qed

lemma match_ranges_ordered: "ordered (match_ranges pat s off) \<and> starts_from off (match_ranges pat s off) \<and> ends_by (length s) (match_ranges pat s off)"
  if "off \<le> length s"
  using that
proof (induction pat s off rule: match_ranges.induct)
  case (1 pat s off)
  show ?case
  proof (cases "pat = [] \<or> str_find pat (drop off s) = None")
    case True
    then show ?thesis by (auto simp: match_ranges.simps [of pat s off])
  next
    case False
    then obtain i where i: "pat \<noteq> []" "str_find pat (drop off s) = Some i" by auto
    from str_find_SomeD [OF i(2)] have len: "off + i + length pat \<le> length s" using "1.prems" by auto
    from "1.IH" [OF i len] i len show ?thesis
      by (simp add: match_ranges.simps [of pat s off] ordered_Cons) (auto intro: starts_from_mono)
  qed
qed

lemma match_ranges_occurs: "r \<in> set (match_ranges pat s off) \<Longrightarrow> off \<le> length s \<Longrightarrow> occurs_at pat s (fst r) \<and> snd r = fst r + length pat"
proof (induction pat s off rule: match_ranges.induct)
  case (1 pat s off)
  from "1.prems"(1) have ne: "pat \<noteq> []" by (auto simp: match_ranges.simps [of pat s off])
  from "1.prems"(1) ne obtain i where i: "str_find pat (drop off s) = Some i"
    by (cases "str_find pat (drop off s)") (auto simp: match_ranges.simps [of pat s off])
  from str_find_SomeD [OF i] have len: "off + i + length pat \<le> length s" using "1.prems"(2) by auto
  have here: "occurs_at pat s (off + i)" using str_find_first [OF i] "1.prems"(2) by (simp add: occurs_at_drop)
  from "1.prems"(1) ne i have "r = (off + i, off + i + length pat) \<or> r \<in> set (match_ranges pat s (off + i + length pat))"
    by (auto simp: match_ranges.simps [of pat s off])
  with here "1.IH" [OF ne i _ len] show ?case by auto
qed

text \<open>A part of a match of a pattern is part of the pattern.\<close>

lemma occurs_within:
  assumes "occurs_at q s a" "occurs_at p s i" "a \<le> i" "i + length p \<le> a + length q"
  shows "sublist p q"
proof -
  have "drop (i - a) q = drop (i - a) (take (length q) (drop a s))" using assms(1) by (simp add: occurs_at_def)
  also have "\<dots> = take (length q - (i - a)) (drop i s)" using assms(3) by (simp add: drop_take)
  finally have "take (length p) (drop (i - a) q) = take (length p) (drop i s)" using assms(3,4) by (simp add: min_def)
  also have "\<dots> = p" using assms(2) by (simp add: occurs_at_def)
  finally show ?thesis by (metis sublist_take sublist_drop sublist_order.order_trans)
qed

section \<open>Kept text\<close>

fun kept :: "string \<Rightarrow> nat \<Rightarrow> range list \<Rightarrow> string list" where
  "kept s off [] = [drop off s]"
| "kept s off (r # rs) = take (fst r - off) (drop off s) # kept s (snd r) rs"

lemma kept_nonempty [simp]: "kept s off rs \<noteq> []"
  by (cases rs) auto

lemma fill_ranges_kept: "fill_ranges s off rs = join_with REDACTED (kept s off rs)"
proof (induction s off rs rule: fill_ranges.induct)
  case (2 s off r rs)
  then show ?case by (cases "kept s (snd r) rs") auto
qed simp

definition apart :: "range \<Rightarrow> range \<Rightarrow> bool" where
  "apart r q \<longleftrightarrow> snd r \<le> fst q \<or> snd q \<le> fst r"

lemma kept_occurs:
  "seg \<in> set (kept s off rs) \<Longrightarrow> ordered rs \<Longrightarrow> starts_from off rs \<Longrightarrow> ends_by (length s) rs \<Longrightarrow> off \<le> length s \<Longrightarrow> occurs_at p seg j \<Longrightarrow>
   \<exists>i \<ge> off. occurs_at p s i \<and> (\<forall>r \<in> set rs. apart r (i, i + length p))"
proof (induction s off rs rule: kept.induct)
  case (1 s off)
  then have "occurs_at p s (off + j)" by (simp add: occurs_at_drop)
  then show ?case by (intro exI [of _ "off + j"]) simp
next
  case (2 s off r rs)
  have r: "off \<le> fst r" "fst r < snd r" "snd r \<le> length s" "ordered rs" "starts_from (snd r) rs" "ends_by (length s) rs"
    using "2.prems"(2-4) by (simp_all add: ordered_Cons)
  show ?case
  proof (cases "seg = take (fst r - off) (drop off s)")
    case True
    with "2.prems"(6) r have len: "j + length p \<le> fst r - off" and "occurs_at p (drop off s) j"
      by (auto simp: occurs_at_def drop_take)
    then have "occurs_at p s (off + j)" using "2.prems"(5) by (simp add: occurs_at_drop)
    moreover have "apart q (off + j, off + j + length p)" if "q \<in> set (r # rs)" for q
    proof -
      have "fst r \<le> fst q" using that r(2,5) by (auto simp: starts_from_def)
      then have "off + j + length p \<le> fst q" using len r(1) by linarith
      then show ?thesis by (simp add: apart_def)
    qed
    ultimately show ?thesis by (intro exI [of _ "off + j"]) auto
  next
    case False
    with "2.prems"(1) have "seg \<in> set (kept s (snd r) rs)" by auto
    from "2.IH" [OF this r(4-6,3) "2.prems"(6)] obtain i where "snd r \<le> i" "occurs_at p s i" "\<forall>q \<in> set rs. apart q (i, i + length p)" by blast
    moreover from this(1) r(1,2) have "off \<le> i" "apart r (i, i + length p)" by (auto simp: apart_def)
    ultimately show ?thesis by auto
  qed
qed

lemma covered_not_apart: "covered rs x \<Longrightarrow> fst x < snd x \<Longrightarrow> \<exists>r \<in> set rs. \<not> apart r x"
  unfolding covered_def apart_def by (metis le_less_trans less_le_trans not_le)

text \<open>A value that shares neither end of the marker and is no part of it occurs in the joined text only within a kept piece.\<close>

lemma sublist_appendE:
  assumes "sublist p (a @ b)"
  shows "sublist p a \<or> sublist p b \<or> (\<exists>x y. p = x @ y \<and> x \<noteq> [] \<and> y \<noteq> [] \<and> suffix x a \<and> prefix y b)"
proof -
  from assms consider "sublist p a" | "sublist p b" | x y where "p = x @ y" "suffix x a" "prefix y b"
    by (auto simp: sublist_append)
  then show ?thesis
  proof cases
    case (3 x y)
    then show ?thesis by (cases "x = []"; cases "y = []") (auto dest: prefix_imp_sublist suffix_imp_sublist)
  qed simp_all
qed

lemma sublist_join:
  "m \<noteq> [] \<Longrightarrow> hd m \<notin> set p \<Longrightarrow> last m \<notin> set p \<Longrightarrow> \<not> sublist p m \<Longrightarrow>
   sublist p (join_with m segs) \<Longrightarrow> segs \<noteq> [] \<Longrightarrow> \<exists>seg \<in> set segs. sublist p seg"
proof (induction m segs rule: join_with.induct)
  case (3 m a b segs)
  let ?rest = "join_with m (b # segs)"
  note assms = "3.prems"(1-4)
  have rest: "\<exists>seg \<in> set (a # b # segs). sublist p seg" if "sublist p ?rest" using that 3 by auto
  have "sublist p (a @ (m @ ?rest))" using 3 by simp
  then consider "sublist p a" | "sublist p (m @ ?rest)" | x y where "p = x @ y" "suffix x a" "prefix y (m @ ?rest)" "y \<noteq> []" "x \<noteq> []"
    using sublist_appendE by blast
  then show ?case
  proof cases
    case 2
    then consider "sublist p m" | "sublist p ?rest" | x y where "p = x @ y" "suffix x m" "x \<noteq> []"
      using sublist_appendE by blast
    then show ?thesis
    proof cases
      case (3 x y)
      then have "last m \<in> set p" by (auto simp: suffix_def)
      with assms(3) show ?thesis by simp
    qed (use assms(4) rest in auto)
  next
    case (3 x y)
    then have "hd m \<in> set y" using assms(1) by (cases y; cases m) auto
    with 3(1) assms(2) show ?thesis by simp
  qed auto
qed auto

section \<open>What is left of the patterns\<close>

text \<open>The matches that are to be replaced: all occurrences of the patterns, as ranges.\<close>

definition matches_of :: "string list \<Rightarrow> string \<Rightarrow> range set" where
  "matches_of pats s = {(i, i + length p) | i p. p \<in> set pats \<and> occurs_at p s i}"

definition hidden :: "string \<Rightarrow> bool" where
  "hidden p \<longleftrightarrow> p \<noteq> [] \<and> CHR 0xE2 \<notin> set p \<and> CHR 0xBA \<notin> set p \<and> \<not> sublist p REDACTED"

lemma REDACTED_ends: "REDACTED \<noteq> []" "hd REDACTED = CHR 0xE2" "last REDACTED = CHR 0xBA"
  by (simp_all add: REDACTED_def)

lemma hidden_join:
  assumes "hidden p" "sublist p (join_with REDACTED segs)" "segs \<noteq> []"
  shows "\<exists>seg \<in> set segs. sublist p seg"
  using sublist_join [OF REDACTED_ends(1), of p segs] assms REDACTED_ends(2,3) by (simp add: hidden_def)

lemma replace_ranges_covers:
  assumes "ordered rs" "ends_by (length s) rs" "\<And>i. occurs_at p s i \<Longrightarrow> covered rs (i, i + length p)" "hidden p"
  shows "\<not> sublist p (replace_ranges s rs)"
proof
  assume sub: "sublist p (replace_ranges s rs)"
  let ?ms = "match_ranges REDACTED s 0" and ?adj = "rev (adjust rs (match_ranges REDACTED s 0) [])"
  have p: "p \<noteq> []" using assms(4) by (simp add: hidden_def)
  have mark: "ordered ?ms" "ends_by (length s) ?ms" using match_ranges_ordered [of 0 s REDACTED] by simp_all
  have adj: "chain (adjust rs ?ms [])" "ends_by (length s) (adjust rs ?ms [])"
    "\<And>x. x \<in> set rs \<Longrightarrow> covered ?ms x \<or> covered (adjust rs ?ms []) x"
    using adjust [of rs ?ms "[]" "length s"] assms(1,2) mark by auto
  show False
  proof (cases "rs = []")
    case True
    with sub obtain i where "occurs_at p s i" by (auto simp: replace_ranges_def occurs_at_sublist)
    from assms(3) [OF this] True show False by (simp add: covered_def)
  next
    case False
    with sub have "sublist p (join_with REDACTED (kept s 0 ?adj))" by (simp add: replace_ranges_def fill_ranges_kept)
    from hidden_join [OF assms(4) this] obtain seg j where seg: "seg \<in> set (kept s 0 ?adj)" "occurs_at p seg j"
      by (auto simp: occurs_at_sublist)
    have "ordered ?adj" "starts_from 0 ?adj" "ends_by (length s) ?adj" using adj(1,2) by (simp_all add: ordered_def starts_from_def ends_by_def)
    from kept_occurs [OF seg(1) this _ seg(2)] obtain i where
      i: "occurs_at p s i" "\<forall>r \<in> set (adjust rs ?ms []). apart r (i, i + length p)" by auto
    from assms(3) [OF i(1)] obtain r where r: "r \<in> set rs" "fst r \<le> i" "i + length p \<le> snd r" by (auto simp: covered_def)
    from adj(3) [OF r(1)] show False
    proof
      assume "covered (adjust rs ?ms []) r"
      from covered_within [OF this] r have "covered (adjust rs ?ms []) (i, i + length p)" by simp
      from covered_not_apart [OF this] i(2) p show False by auto
    next
      assume "covered ?ms r"
      then obtain m where m: "m \<in> set ?ms" "fst m \<le> fst r" "snd r \<le> snd m" by (auto simp: covered_def)
      from match_ranges_occurs [OF m(1)] have "occurs_at REDACTED s (fst m)" "snd m = fst m + length REDACTED" by simp_all
      with occurs_within [OF _ i(1), of REDACTED "fst m"] m r assms(4) show False by (auto simp: hidden_def)
    qed
  qed
qed

lemma replace_ranges_Nil [simp]: "replace_ranges s [] = s"
  by (simp add: replace_ranges_def)

text \<open>What the automaton promises, with and without regard to the case of ASCII letters.\<close>

definition finds :: "(string \<Rightarrow> range list) \<Rightarrow> string list \<Rightarrow> bool" where
  "finds matcher pats \<longleftrightarrow> (\<forall>s. set (matcher s) = matches_of pats s \<and> sorted (map snd (matcher s)))"

definition finds_any_case :: "(string \<Rightarrow> range list) \<Rightarrow> string list \<Rightarrow> bool" where
  "finds_any_case matcher pats \<longleftrightarrow>
     (\<forall>s. set (matcher s) = matches_of (map (map ascii_lower) pats) (map ascii_lower s) \<and> sorted (map snd (matcher s)))"

lemma replace_matches_hides:
  assumes "sorted (map snd found)" "\<forall>f \<in> set found. fst f < snd f \<and> snd f \<le> length s"
    "\<And>i. occurs_at p s i \<Longrightarrow> (i, i + length p) \<in> set found" "hidden p"
  shows "\<not> sublist p (replace_matches found s)"
proof (cases "MAX_SECRET_MATCHES < length found")
  case True
  with assms(4) show ?thesis by (simp add: replace_matches_def hidden_def)
next
  case False
  from push_matches [OF chain_Nil assms(1), of "length s"] assms(2) have fold: "chain (fold push_match found [])"
    "subsumes (fold push_match found []) found" "ends_by (length s) (fold push_match found [])" by simp_all
  have "\<not> sublist p (replace_ranges s (rev (fold push_match found [])))"
  proof (rule replace_ranges_covers)
    show "covered (rev (fold push_match found [])) (i, i + length p)" if "occurs_at p s i" for i
    proof -
      from fold(2) assms(3) [OF that] have "covered (fold push_match found []) (i, i + length p)" by (simp add: subsumes_def)
      then show ?thesis by (simp add: covered_def)
    qed
  qed (use fold assms(4) in \<open>simp_all add: ordered_def ends_by_def\<close>)
  with False show ?thesis by (simp add: replace_matches_def)
qed

lemma matches_of_bounds: "\<forall>p \<in> set pats. p \<noteq> [] \<Longrightarrow> f \<in> matches_of pats s \<Longrightarrow> fst f < snd f \<and> snd f \<le> length s"
  by (auto simp: matches_of_def occurs_at_def)

lemma finds_hides:
  assumes "finds matcher pats" "\<forall>p \<in> set pats. p \<noteq> []" "p \<in> set pats" "hidden p"
  shows "\<not> sublist p (replace_matches (matcher s) s)"
proof (rule replace_matches_hides [OF _ _ _ assms(4)])
  have m: "set (matcher s) = matches_of pats s" "sorted (map snd (matcher s))" using assms(1) by (simp_all add: finds_def)
  from m show "sorted (map snd (matcher s))" "\<forall>f \<in> set (matcher s). fst f < snd f \<and> snd f \<le> length s"
    using matches_of_bounds [OF assms(2)] by simp_all
  show "(i, i + length p) \<in> set (matcher s)" if "occurs_at p s i" for i
    using that assms(3) unfolding m(1) matches_of_def by blast
qed

lemma occurs_at_lower: "occurs_at p s i \<Longrightarrow> occurs_at (map ascii_lower p) (map ascii_lower s) i"
  by (auto simp: occurs_at_def drop_map take_map)

lemma finds_any_case_hides:
  assumes "finds_any_case matcher pats" "\<forall>p \<in> set pats. p \<noteq> []" "p \<in> set pats" "eq_ignore_ascii_case q p" "hidden q"
  shows "\<not> sublist q (replace_matches (matcher s) s)"
proof (rule replace_matches_hides [OF _ _ _ assms(5)])
  let ?pats = "map (map ascii_lower) pats" and ?s = "map ascii_lower s"
  have m: "set (matcher s) = matches_of ?pats ?s" "sorted (map snd (matcher s))" using assms(1) by (simp_all add: finds_any_case_def)
  have "\<forall>p \<in> set ?pats. p \<noteq> []" using assms(2) by simp
  from matches_of_bounds [OF this, of _ ?s] m
  show "sorted (map snd (matcher s))" "\<forall>f \<in> set (matcher s). fst f < snd f \<and> snd f \<le> length s" by simp_all
  show "(i, i + length q) \<in> set (matcher s)" if "occurs_at q s i" for i
  proof -
    have eq: "map ascii_lower q = map ascii_lower p" using assms(4) by (simp add: eq_ignore_ascii_case_def)
    then have "length q = length p" by (metis length_map)
    with occurs_at_lower [OF that] eq assms(3) show ?thesis
      unfolding m(1) matches_of_def by (intro CollectI exI [of _ i] exI [of _ "map ascii_lower p"]) simp
  qed
qed

section \<open>The fallback finds every occurrence\<close>

definition continuation :: "char \<Rightarrow> bool" where
  "continuation c \<longleftrightarrow> 128 \<le> byte c \<and> byte c \<le> 191"

text \<open>In a Rust string the bytes of a character after its first are continuation bytes.\<close>

definition aligned :: "string \<Rightarrow> bool" where
  "aligned s \<longleftrightarrow> (\<forall>i < length s. \<forall>j. \<not> continuation (s ! i) \<longrightarrow> i < j \<longrightarrow> j < i + len_utf8 (s ! i) \<longrightarrow> j < length s \<and> continuation (s ! j))"

lemma utf8_head_char:
  assumes "utf8_head s = (True, n)" "s \<noteq> []"
  shows "n = len_utf8 (hd s)" "\<not> continuation (hd s)" "n \<le> length s" "0 < j \<Longrightarrow> j < n \<Longrightarrow> continuation (s ! j)"
proof -
  let ?b = "byte (hd s)"
  have "n = len_utf8 (hd s) \<and> \<not> continuation (hd s) \<and> n \<le> length s \<and> (\<forall>j. 0 < j \<longrightarrow> j < n \<longrightarrow> continuation (s ! j))"
  proof -
    consider "?b < 128" "n = 1" | "194 \<le> ?b" "?b \<le> 223" "n = 2" "in_range 128 191 s 1"
      | "224 \<le> ?b" "?b \<le> 239" "n = 3" "in_range 128 191 s 1" "in_range 128 191 s 2"
      | "240 \<le> ?b" "?b \<le> 244" "n = 4" "in_range 128 191 s 1" "in_range 128 191 s 2" "in_range 128 191 s 3"
      using assms(1) by (auto simp: utf8_head_def Let_def in_range_def split: if_splits)
    then show ?thesis
    proof cases
      case 1
      with assms(2) show ?thesis by (cases s) (auto simp: len_utf8_def continuation_def)
    next
      case 2
      have "j = 1" if "0 < j" "j < 2" for j :: nat using that by linarith
      then have "\<forall>j. 0 < j \<longrightarrow> j < n \<longrightarrow> continuation (s ! j)" using 2 by (metis continuation_def in_range_def)
      with 2 show ?thesis by (auto simp: len_utf8_def continuation_def in_range_def)
    next
      case 3
      then have "j = 1 \<or> j = 2" if "0 < j" "j < n" for j using that by linarith
      with 3 show ?thesis by (auto simp: len_utf8_def continuation_def in_range_def)
    next
      case 4
      then have "j = 1 \<or> j = 2 \<or> j = 3" if "0 < j" "j < n" for j using that by linarith
      with 4 show ?thesis by (auto simp: len_utf8_def continuation_def in_range_def)
    qed
  qed
  then show "n = len_utf8 (hd s)" "\<not> continuation (hd s)" "n \<le> length s" "0 < j \<Longrightarrow> j < n \<Longrightarrow> continuation (s ! j)" by blast+
qed

lemma is_utf8_aligned: "is_utf8 s \<Longrightarrow> aligned s"
proof (induction s rule: is_utf8.induct)
  case (1 s)
  show ?case
  proof (cases "s = []")
    case False
    obtain n where n: "utf8_head s = (True, n)" "is_utf8 (drop n s)"
      using "1.prems" False by (cases "utf8_head s") (auto simp: is_utf8.simps [of s])
    have IH: "aligned (drop n s)" using "1.IH" [OF False, of True n] n by simp
    note h = utf8_head_char [OF n(1) False]
    show ?thesis
      unfolding aligned_def
    proof (intro allI impI)
      fix i j
      assume i: "i < length s" "\<not> continuation (s ! i)" and j: "i < j" "j < i + len_utf8 (s ! i)"
      consider "i = 0" | "0 < i" "i < n" | "n \<le> i" by linarith
      then show "j < length s \<and> continuation (s ! j)"
      proof cases
        case 1
        with h j False show ?thesis by (auto simp: hd_conv_nth)
      next
        case 2
        with h(4) i(2) show ?thesis by simp
      next
        case 3
        then have at: "i - n < length (drop n s)" "drop n s ! (i - n) = s ! i" "i - n < j - n" "j - n < i - n + len_utf8 (s ! i)"
          "drop n s ! (j - n) = s ! j"
          using i(1) j h(3) by auto
        from IH i(2) at have "j - n < length (drop n s) \<and> continuation (drop n s ! (j - n))" unfolding aligned_def by metis
        with 3 j(1) h(3) at(5) show ?thesis by auto
      qed
    qed
  qed (simp add: aligned_def)
qed

lemma is_utf8_starts: "is_utf8 p \<Longrightarrow> p \<noteq> [] \<Longrightarrow> \<not> continuation (hd p)"
  using utf8_head_char(2) [of p] by (cases "utf8_head p") (auto simp: is_utf8.simps [of p])

lemma next_match_none:
  assumes "next_match s pats off = None" "p \<in> set pats"
  shows "str_find p (drop off s) = None"
  using assms by (auto simp: next_match_def Let_def min_pos_None List.map_filter_def)

lemma occurs_at_hd: "occurs_at p s i \<Longrightarrow> p \<noteq> [] \<Longrightarrow> i < length s \<and> s ! i = hd p"
  by (cases p) (auto simp: occurs_at_def hd_drop_conv_nth dest!: arg_cong [where f = hd])

lemma next_match_first:
  assumes "next_match s pats off = Some (start, n)" "off \<le> length s"
  shows "off \<le> start" "occurs_at p s i \<Longrightarrow> p \<in> set pats \<Longrightarrow> off \<le> i \<Longrightarrow> start < i \<or> i = start \<and> length p \<le> n"
    "\<exists>p \<in> set pats. occurs_at p s start \<and> n = length p"
proof -
  from next_match_found(1) [OF assms(1)] obtain q k where
    q: "q \<in> set pats" "str_find q (drop off s) = Some k" "start = off + k" "n = length q" by blast
  show "off \<le> start" using q(3) by simp
  have "occurs_at q s start" using str_find_first [OF q(2)] assms(2) q(3) by (simp add: occurs_at_drop)
  with q show "\<exists>p \<in> set pats. occurs_at p s start \<and> n = length p" by blast
  assume p: "occurs_at p s i" "p \<in> set pats" "off \<le> i"
  then have at: "occurs_at p (drop off s) (i - off)" using assms(2) by (simp add: occurs_at_drop)
  with str_find_none [of p "drop off s" "i - off"] obtain j where j: "str_find p (drop off s) = Some j" by fastforce
  with str_find_first [OF j] at have "j \<le> i - off" by (meson not_le)
  then have "off + j \<le> i" using p(3) by simp
  moreover from next_match_found(2) [OF assms(1)] p(2) j have "start < off + j \<or> start = off + j \<and> length p \<le> n" by blast
  ultimately show "start < i \<or> i = start \<and> length p \<le> n" by linarith
qed

definition well_formed :: "string list \<Rightarrow> bool" where
  "well_formed pats \<longleftrightarrow> (\<forall>p \<in> set pats. p \<noteq> [] \<and> is_utf8 p)"

lemma next_char:
  assumes "next_match s pats off = Some (start, n)" "off \<le> length s" "well_formed pats" "is_utf8 s" "occurs_at p s i" "p \<in> set pats" "start < i"
  shows "after_char s start \<le> i"
proof -
  have first: "j < length s \<and> \<not> continuation (s ! j)" if "q \<in> set pats" "occurs_at q s j" for q j
  proof -
    have "q \<noteq> []" "is_utf8 q" using assms(3) that(1) by (simp_all add: well_formed_def)
    with occurs_at_hd [OF that(2)] is_utf8_starts [of q] show ?thesis by simp
  qed
  from next_match_first(3) [OF assms(1,2)] obtain q where "q \<in> set pats" "occurs_at q s start" by blast
  from first [OF this] have start: "start < length s" "\<not> continuation (s ! start)" by simp_all
  have i: "\<not> continuation (s ! i)" using first [OF assms(6,5)] by simp
  have "\<not> i < start + len_utf8 (s ! start)"
    using is_utf8_aligned [OF assms(4)] start assms(7) i unfolding aligned_def by metis
  then show ?thesis using start(1) by (simp add: after_char_def)
qed

lemma fallback_loop:
  assumes "well_formed pats" "is_utf8 s" "chain rs" "rs \<noteq> [] \<Longrightarrow> fst (hd rs) < off" "ends_by (length s) rs"
  shows "chain (fallback_loop s pats off k rs) \<and> ends_by (length s) (fallback_loop s pats off k rs)
    \<and> subsumes (fallback_loop s pats off k rs) rs
    \<and> (\<forall>p \<in> set pats. \<forall>i \<ge> off. occurs_at p s i \<longrightarrow> covered (fallback_loop s pats off k rs) (i, i + length p))"
  using assms
proof (induction s pats off k rs rule: fallback_loop.induct)
  case (1 s pats off k rs)
  consider (stop) "\<not> off < length s" | (none) "off < length s" "next_match s pats off = None"
    | (over) start n where "off < length s" "next_match s pats off = Some (start, n)" "k = MAX_SECRET_MATCHES"
    | (more) start n where "off < length s" "next_match s pats off = Some (start, n)" "k \<noteq> MAX_SECRET_MATCHES"
    by fastforce
  then show ?case
  proof cases
    case stop
    have "\<not> occurs_at p s i" if "p \<in> set pats" "off \<le> i" for p i
      using occurs_at_hd [of p s i] that stop "1.prems"(1) by (auto simp: well_formed_def)
    with stop "1.prems" subsumes_subset [of rs rs] show ?thesis by (simp add: fallback_loop.simps [of s pats off])
  next
    case none
    have "\<not> occurs_at p s i" if "p \<in> set pats" "off \<le> i" for p i
      using str_find_none [OF next_match_none [OF none(2) that(1)], of "i - off"] that none(1) by (simp add: occurs_at_drop)
    with none "1.prems" subsumes_subset [of rs rs] show ?thesis by (simp add: fallback_loop.simps [of s pats off])
  next
    case over
    have "covered [(0, length s)] (i, i + length p)" if "occurs_at p s i" for p i
      using that by (auto simp: covered_def occurs_at_def)
    moreover have "subsumes [(0, length s)] rs" using "1.prems"(5) by (auto simp: subsumes_def covered_def ends_by_def)
    moreover have "chain [(0, length s)]" "ends_by (length s) [(0, length s)]" using over(1) by (auto simp: chain_Cons_ends)
    ultimately show ?thesis using over by (simp add: fallback_loop.simps [of s pats off])
  next
    case more
    let ?r = "(start, start + n)" and ?off = "after_char s start"
    let ?rs = "push_adjusted ?r rs"
    from next_match_first(3) [OF more(2)] more(1) obtain q where q: "q \<in> set pats" "occurs_at q s start" "n = length q" by auto
    then have r: "fst ?r < snd ?r" "snd ?r \<le> length s" using "1.prems"(1) by (auto simp: well_formed_def occurs_at_def)
    have "off \<le> start" using next_match_first(1) [OF more(2)] more(1) by simp
    then have "rs \<noteq> [] \<Longrightarrow> fst (hd rs) \<le> fst ?r" using "1.prems"(4) by force
    note push = push_adjusted [OF "1.prems"(3) r(1) this]
    have "fst (hd ?rs) < ?off" using push(3) after_char_gt [of start s] by simp
    moreover have "ends_by (length s) ?rs" using push(5) "1.prems"(5) r(2) by simp
    ultimately have IH: "chain (fallback_loop s pats ?off (k + 1) ?rs)" "ends_by (length s) (fallback_loop s pats ?off (k + 1) ?rs)"
      "subsumes (fallback_loop s pats ?off (k + 1) ?rs) ?rs"
      "\<forall>p \<in> set pats. \<forall>i \<ge> ?off. occurs_at p s i \<longrightarrow> covered (fallback_loop s pats ?off (k + 1) ?rs) (i, i + length p)"
      using "1.IH" [OF more(1,2) refl more(3) "1.prems"(1,2) push(1)] by blast+
    have eq: "fallback_loop s pats off k rs = fallback_loop s pats ?off (k + 1) ?rs"
      using more by (simp add: fallback_loop.simps [of s pats off])
    have sub: "subsumes (fallback_loop s pats ?off (k + 1) ?rs) (?r # rs)" by (rule subsumes_trans [OF IH(3) push(4)])
    have "covered (fallback_loop s pats ?off (k + 1) ?rs) (i, i + length p)" if p: "p \<in> set pats" "off \<le> i" "occurs_at p s i" for p i
    proof (cases "start < i")
      case True
      from next_char [OF more(2) _ "1.prems"(1,2) p(3,1) True] more(1) IH(4) p show ?thesis by auto
    next
      case False
      with next_match_first(2) [OF more(2) _ p(3,1,2)] more(1) have "i = start" "length p \<le> n" by auto
      with sub covered_within [of _ ?r "(i, i + length p)"] show ?thesis by simp
    qed
    with IH(1,2) sub show ?thesis unfolding eq by simp
  qed
qed

lemma fallback_hides:
  assumes "well_formed pats" "is_utf8 s" "p \<in> set pats" "length t = length s" "\<And>i. occurs_at q t i \<Longrightarrow> occurs_at p s i"
    "hidden q" "length q = length p"
  shows "\<not> sublist q (replace_ranges t (fallback_ranges s pats))"
proof -
  let ?rs = "fallback_loop s pats 0 0 []"
  have loop: "chain ?rs" "ends_by (length s) ?rs" "\<And>i. occurs_at p s i \<Longrightarrow> covered ?rs (i, i + length p)"
    using fallback_loop [OF assms(1,2) chain_Nil, of 0 0] assms(3) by simp_all
  show ?thesis
    unfolding fallback_ranges_def
  proof (rule replace_ranges_covers)
    show "ordered (rev ?rs)" "ends_by (length t) (rev ?rs)" using loop(1,2) assms(4) by (simp_all add: ordered_def ends_by_def)
    show "covered (rev ?rs) (i, i + length q)" if "occurs_at q t i" for i
      using loop(3) [OF assms(5) [OF that]] assms(7) by (simp add: covered_def)
  qed (rule assms(6))
qed

lemma is_utf8_lower: "is_utf8 (map ascii_lower s) = is_utf8 s"
proof (induction s rule: is_utf8.induct)
  case (1 s)
  have b: "byte (ascii_lower c) = (if 65 \<le> byte c \<and> byte c \<le> 90 then byte c + 32 else byte c)" for c
    by (simp add: ascii_lower_def byte_def)
  have r: "in_range lo hi (map ascii_lower s) i = in_range lo hi s i" if "128 \<le> lo" for lo hi i
    using that by (auto simp: in_range_def b split: if_splits)
  show ?case
  proof (cases "s = []")
    case False
    have "byte (hd (map ascii_lower s)) < 128 \<longleftrightarrow> byte (hd s) < 128" "byte (hd s) < 128 \<or> byte (hd (map ascii_lower s)) = byte (hd s)"
      using False by (auto simp: b hd_map)
    then have "utf8_head (map ascii_lower s) = utf8_head s"
      by (cases "byte (hd s) < 128") (simp_all add: utf8_head_def Let_def r)
    with False 1 show ?thesis by (subst (1 2) is_utf8.simps) (auto simp: drop_map split: prod.splits)
  qed simp
qed

end
