(* ===== verification/Redact.thy ===== *)
theory Redact
  imports Scrub Vars Json_Patch "HOL-Library.Char_ord" "HOL-Library.List_Lexorder" "HOL-Library.Product_Lexorder"
begin

text \<open>
  The redactor of an execution (\<^verbatim>\<open>crates/anvil-engine/src/redact.rs\<close>, with \<^verbatim>\<open>encode_query_component\<close> of
  \<^verbatim>\<open>crates/anvil-auth/src/lib.rs\<close>): the names and the secret values it knows, the patterns it scrubs
  from text, and the redaction of header values, URLs, JSON bodies and findings.

  What other crates do is a field of \<open>redact_externs\<close>: the automaton of \<^verbatim>\<open>aho_corasick\<close> (which may
  not be buildable), \<^verbatim>\<open>hex\<close>, \<^verbatim>\<open>base64\<close>, \<^verbatim>\<open>percent_encoding\<close>, \<^verbatim>\<open>form_urlencoded\<close> and \<^verbatim>\<open>serde_json\<close>.
\<close>

record redact_externs =
  rx_build :: "bool \<Rightarrow> string list \<Rightarrow> (string \<Rightarrow> range list) option"
  rx_hex :: "string \<Rightarrow> string"
  rx_base64 :: "string \<Rightarrow> string"
  rx_percent_encode :: "(char \<Rightarrow> bool) \<Rightarrow> string \<Rightarrow> string"
  rx_percent_decode :: "string \<Rightarrow> string"
  rx_byte_serialize :: "string \<Rightarrow> string"
  rx_json_quote :: "string \<Rightarrow> string option"
  rx_json_parse :: "string \<Rightarrow> json option"
  rx_json_print :: "json \<Rightarrow> string option"

section \<open>Names\<close>

definition MIN_SECRET_LEN :: nat where "MIN_SECRET_LEN = 4"
definition MAX_DECODED_WINDOWS :: nat where "MAX_DECODED_WINDOWS = 64"
definition MAX_DECODE_ROUNDS :: nat where "MAX_DECODE_ROUNDS = 3"

definition URL_HEADERS :: "string list" where
  "URL_HEADERS = [''location'', ''content-location'', ''referer'']"

definition URL_EVIDENCE :: "string list" where
  "URL_EVIDENCE = [''redirect.authorization_endpoint'', ''body.problem.type'', ''body.problem.instance'']"

definition SENSITIVE_HEADERS :: "string list" where
  "SENSITIVE_HEADERS =
     [''authorization'', ''proxy-authorization'', ''cookie'', ''set-cookie'', ''x-api-key'', ''api-key'', ''apikey'', ''x-auth-token'',
      ''x-access-token'', ''x-amz-security-token'', ''x-csrf-token'', ''dpop'', ''x-functions-key'', ''ocp-apim-subscription-key'']"

definition SENSITIVE_NAME_PARTS :: "string list" where
  "SENSITIVE_NAME_PARTS =
     [''password'', ''passwd'', ''secret'', ''token'', ''apikey'', ''api_key'', ''api-key'', ''access_key'', ''private_key'', ''signature'',
      ''sig'', ''session'', ''credential'', ''auth'']"

abbreviation lower :: "string \<Rightarrow> string" where
  "lower s \<equiv> map ascii_lower s"

definition contains_str :: "string \<Rightarrow> string \<Rightarrow> bool" where
  "contains_str s p \<longleftrightarrow> str_find p s \<noteq> None"

definition ends_with :: "string \<Rightarrow> string \<Rightarrow> bool" where
  "ends_with s p \<longleftrightarrow> is_prefix_of (rev p) (rev s)"

definition is_sensitive_name :: "string \<Rightarrow> string list \<Rightarrow> bool" where
  "is_sensitive_name name extra \<longleftrightarrow>
     (let n = lower name
      in n \<in> set SENSITIVE_HEADERS \<or> list_ex (\<lambda>e. eq_ignore_ascii_case e n) extra
         \<or> list_ex (\<lambda>p. n = p \<or> contains_str n p \<and> length n \<le> 48) SENSITIVE_NAME_PARTS)"

definition is_credential_name :: "string \<Rightarrow> string list \<Rightarrow> bool" where
  "is_credential_name name extra \<longleftrightarrow>
     (let n = lower name
      in n \<in> set SENSITIVE_HEADERS \<or> list_ex (\<lambda>e. eq_ignore_ascii_case e n) extra
         \<or> list_ex (contains_str n) SENSITIVE_NAME_PARTS \<or> ends_with n ''-key'' \<or> ends_with n ''_key'')"

section \<open>The redactor and its patterns\<close>

record redactor =
  rd_secrets :: "string list"
  rd_matcher :: "(string \<Rightarrow> range list) option"
  rd_any_case :: "(string \<Rightarrow> range list) option"
  rd_any_case_fallback :: "string list"
  rd_fallback_patterns :: "string list"
  rd_extra_names :: "string list"

definition sort_longest_first :: "string list \<Rightarrow> string list" where
  "sort_longest_first v = remdups_adj (sort_key (\<lambda>s. (- int (length s), s)) v)"

definition is_ascii_alphanumeric :: "char \<Rightarrow> bool" where
  "is_ascii_alphanumeric c \<longleftrightarrow>
     48 \<le> byte c \<and> byte c \<le> 57 \<or> 65 \<le> byte c \<and> byte c \<le> 90 \<or> 97 \<le> byte c \<and> byte c \<le> 122"

definition QUERY_COMPONENT :: "char \<Rightarrow> bool" where
  "QUERY_COMPONENT c \<longleftrightarrow> \<not> is_ascii_alphanumeric c \<and> c \<notin> set ''-_.~''"

definition encode_query_component :: "redact_externs \<Rightarrow> string \<Rightarrow> string" where
  "encode_query_component X s = rx_percent_encode X QUERY_COMPONENT s"

fun lower_hex_from :: "nat \<Rightarrow> string \<Rightarrow> string" where
  "lower_hex_from hex_left [] = []"
| "lower_hex_from hex_left (c # cs) =
     (if 0 < hex_left then ascii_lower c # lower_hex_from (hex_left - 1) cs
      else c # lower_hex_from (if c = CHR ''%'' then 2 else 0) cs)"

definition lower_hex :: "string \<Rightarrow> string" where
  "lower_hex encoded = lower_hex_from 0 encoded"

definition encoded_forms :: "redact_externs \<Rightarrow> string \<Rightarrow> string list" where
  "encoded_forms X s =
     (let upper = encode_query_component X s
      in filter (\<lambda>f. f \<noteq> s) [upper, lower_hex upper, rx_byte_serialize X s])"

definition json_escaped :: "redact_externs \<Rightarrow> string \<Rightarrow> string option" where
  "json_escaped X s =
     Option.bind (rx_json_quote X s) (\<lambda>q. let inner = butlast (tl q) in if inner \<noteq> s then Some inner else None)"

definition secret_forms :: "redact_externs \<Rightarrow> string \<Rightarrow> string list" where
  "secret_forms X s = [s, rx_hex X s] @ encoded_forms X s @ (case json_escaped X s of None \<Rightarrow> [] | Some e \<Rightarrow> [e])"

definition patterns_of :: "redact_externs \<Rightarrow> string list \<Rightarrow> string list" where
  "patterns_of X secs = sort_longest_first (concat (map (secret_forms X) secs))"

definition reindex :: "redact_externs \<Rightarrow> redactor \<Rightarrow> redactor" where
  "reindex X r =
     (let secs = sort_longest_first (rd_secrets r);
          patterns = patterns_of X secs;
          any_case = (if patterns = [] then None else rx_build X True patterns);
          matcher = (if patterns = [] then None else rx_build X False patterns)
      in r\<lparr>rd_secrets := secs, rd_any_case := any_case,
           rd_any_case_fallback := (if any_case = None then map lower patterns else []),
           rd_matcher := matcher,
           rd_fallback_patterns := (if patterns \<noteq> [] \<and> matcher = None then patterns else [])\<rparr>)"

definition new_redactor :: "redact_externs \<Rightarrow> string list \<Rightarrow> string list \<Rightarrow> redactor" where
  "new_redactor X secs extra_names =
     reindex X \<lparr>rd_secrets = filter (\<lambda>s. MIN_SECRET_LEN \<le> length s) secs, rd_matcher = None, rd_any_case = None,
                rd_any_case_fallback = [], rd_fallback_patterns = [], rd_extra_names = extra_names\<rparr>"

text \<open>The loop that takes in names that are not there yet.\<close>

definition add_names :: "string list \<Rightarrow> string list \<Rightarrow> string list" where
  "add_names names extra = fold (\<lambda>n all. if list_ex (\<lambda>x. eq_ignore_ascii_case x n) all then all else all @ [n]) names extra"

definition add_values :: "string list \<Rightarrow> string list \<Rightarrow> string list" where
  "add_values vs secs = fold (\<lambda>s all. if s \<in> set all then all else all @ [s]) vs secs"

text \<open>The three lists the redactor reads of a resolver: the secrets used, what they decode to in a payload,
  and the names of the fields marked sensitive.\<close>

definition for_execution :: "redact_externs \<Rightarrow> string list \<Rightarrow> string list \<Rightarrow> string list \<Rightarrow> string list \<Rightarrow> redactor" where
  "for_execution X used decoded sensitive names = new_redactor X (used @ decoded) (add_names sensitive names)"

definition take_in :: "redact_externs \<Rightarrow> string list \<Rightarrow> string list \<Rightarrow> redactor \<Rightarrow> redactor" where
  "take_in X vs names r =
     (let secs = add_values vs (rd_secrets r);
          r1 = (if length secs \<noteq> length (rd_secrets r) then reindex X (r\<lparr>rd_secrets := secs\<rparr>) else r\<lparr>rd_secrets := secs\<rparr>)
      in r1\<lparr>rd_extra_names := add_names names (rd_extra_names r1)\<rparr>)"

definition refresh_used_secrets :: "redact_externs \<Rightarrow> string list \<Rightarrow> string list \<Rightarrow> string list \<Rightarrow> redactor \<Rightarrow> redactor" where
  "refresh_used_secrets X used decoded sensitive r =
     take_in X (filter (\<lambda>s. MIN_SECRET_LEN \<le> length s) (used @ decoded)) sensitive r"

definition absorb :: "redact_externs \<Rightarrow> redactor \<Rightarrow> redactor \<Rightarrow> redactor" where
  "absorb X other r = take_in X (rd_secrets other) (rd_extra_names other) r"

definition add_secret :: "redact_externs \<Rightarrow> string \<Rightarrow> redactor \<Rightarrow> redactor" where
  "add_secret X s r =
     (if MIN_SECRET_LEN \<le> length s \<and> s \<notin> set (rd_secrets r) then reindex X (r\<lparr>rd_secrets := rd_secrets r @ [s]\<rparr>) else r)"

section \<open>Text\<close>

definition redact_text :: "redactor \<Rightarrow> string \<Rightarrow> string" where
  "redact_text r s =
     (case rd_matcher r of
        None \<Rightarrow> if rd_fallback_patterns r = [] then s else fallback_redact s (rd_fallback_patterns r)
      | Some matcher \<Rightarrow> replace_matches (matcher s) s)"

definition text_any_case :: "redactor \<Rightarrow> string \<Rightarrow> string" where
  "text_any_case r s =
     (case rd_any_case r of
        Some m \<Rightarrow> replace_matches (m s) s
      | None \<Rightarrow> if rd_any_case_fallback r = [] then s
                else replace_ranges s (fallback_ranges (lower s) (rd_any_case_fallback r)))"

definition contains_bytes :: "string \<Rightarrow> string \<Rightarrow> bool" where
  "contains_bytes hay needle \<longleftrightarrow> needle \<noteq> [] \<and> length needle \<le> length hay
     \<and> list_ex (\<lambda>i. eq_ignore_ascii_case (take (length needle) (drop i hay)) needle) [0..<length hay - length needle + 1]"

definition plus_as_space :: "string \<Rightarrow> string" where
  "plus_as_space l = map (\<lambda>b. if b = CHR ''+'' then CHR '' '' else b) l"

definition has_escape :: "string \<Rightarrow> bool" where
  "has_escape s \<longleftrightarrow> CHR ''%'' \<in> set s \<or> CHR ''+'' \<in> set s"

fun hides_rounds :: "redact_externs \<Rightarrow> string list \<Rightarrow> nat \<Rightarrow> string \<Rightarrow> bool" where
  "hides_rounds X secs 0 layer = False"
| "hides_rounds X secs (Suc k) layer =
     (let decoded = rx_percent_decode X layer; form = rx_percent_decode X (plus_as_space layer)
      in list_ex (\<lambda>s. contains_bytes decoded s \<or> contains_bytes form s) secs
         \<or> decoded \<noteq> layer \<and> hides_rounds X secs k decoded)"

definition hides_secret :: "redact_externs \<Rightarrow> redactor \<Rightarrow> string \<Rightarrow> bool" where
  "hides_secret X r component \<longleftrightarrow>
     rd_secrets r \<noteq> [] \<and> has_escape component \<and> hides_rounds X (rd_secrets r) MAX_DECODE_ROUNDS component"

definition metadata_text :: "redact_externs \<Rightarrow> redactor \<Rightarrow> string \<Rightarrow> string" where
  "metadata_text X r s = (if hides_secret X r s then REDACTED else text_any_case r s)"

definition next_layers :: "redact_externs \<Rightarrow> string list \<Rightarrow> string list" where
  "next_layers X ls =
     fold (\<lambda>d acc. if d \<in> set acc then acc else acc @ [d])
       (concat (map (\<lambda>l. [rx_percent_decode X l, rx_percent_decode X (plus_as_space l)]) ls)) []"

fun reveals_rounds :: "redact_externs \<Rightarrow> string list \<Rightarrow> nat \<Rightarrow> string list \<Rightarrow> bool" where
  "reveals_rounds X secs left ls =
     (list_ex (\<lambda>l. list_ex (contains_bytes l) secs) ls
      \<or> (case left of 0 \<Rightarrow> False | Suc k \<Rightarrow> reveals_rounds X secs k (next_layers X ls)))"

declare reveals_rounds.simps [simp del]

definition reveals_secret :: "redact_externs \<Rightarrow> redactor \<Rightarrow> string \<Rightarrow> bool" where
  "reveals_secret X r s \<longleftrightarrow> rd_secrets r \<noteq> []
     \<and> (if \<not> has_escape s then list_ex (contains_bytes s) (rd_secrets r)
        else reveals_rounds X (rd_secrets r) MAX_DECODE_ROUNDS [s])"

section \<open>URLs\<close>

definition same_delimiters :: "string \<Rightarrow> string \<Rightarrow> string \<Rightarrow> bool" where
  "same_delimiters before after delimiters \<longleftrightarrow> filter (\<lambda>b. b \<in> set delimiters) before = filter (\<lambda>b. b \<in> set delimiters) after"

definition is_scheme :: "string \<Rightarrow> bool" where
  "is_scheme s \<longleftrightarrow> s \<noteq> [] \<and> list_all (\<lambda>b. is_ascii_alphanumeric b \<or> b \<in> set ''+-.'') s"

definition split_once_str :: "string \<Rightarrow> string \<Rightarrow> (string \<times> string) option" where
  "split_once_str pat s = map_option (\<lambda>i. (take i s, drop (i + length pat) s)) (str_find pat s)"

definition cut_at :: "string \<Rightarrow> string \<Rightarrow> string \<times> string" where
  "cut_at delims s = (takeWhile (\<lambda>c. c \<notin> set delims) s, dropWhile (\<lambda>c. c \<notin> set delims) s)"

definition redact_userinfo :: "string \<Rightarrow> string" where
  "redact_userinfo u =
     (let mask = (\<lambda>h rest.
            case cut_at ''/?#'' rest of (authority, tail) \<Rightarrow>
              (case rposition (\<lambda>c. c = CHR ''@'') authority of
                 Some at \<Rightarrow> h @ REDACTED @ ''@'' @ drop (at + 1) authority @ tail
               | None \<Rightarrow> u))
      in if is_prefix_of ''//'' u then mask ''//'' (drop 2 u)
         else case split_once_str ''://'' u of
                Some (scheme, rest) \<Rightarrow> mask (scheme @ ''://'') rest
              | None \<Rightarrow> u)"

definition pairs :: "redact_externs \<Rightarrow> redactor \<Rightarrow> string \<Rightarrow> string" where
  "pairs X r q =
     join_with ''&'' (map (\<lambda>kv.
       case split_once CHR ''='' kv of
         Some (k, v) \<Rightarrow>
           (let dk = from_utf8_lossy (rx_percent_decode X k);
                k1 = (if hides_secret X r k then REDACTED else k)
            in if is_sensitive_name dk (rd_extra_names r) \<or> hides_secret X r v then k1 @ ''='' @ REDACTED else k1 @ ''='' @ v)
       | None \<Rightarrow> if hides_secret X r kv then REDACTED else kv) (split_char CHR ''&'' q))"

definition url_path :: "redact_externs \<Rightarrow> redactor \<Rightarrow> string \<Rightarrow> string" where
  "url_path X r s =
     (case (case split_once_str ''://'' s of
              Some (scheme, rest) \<Rightarrow> (case cut_at ''/'' rest of (authority, path) \<Rightarrow> (scheme @ ''://'' @ authority, path))
            | None \<Rightarrow> ([], s)) of
        (origin, path) \<Rightarrow>
          origin @ join_with ''/'' (map (\<lambda>seg. if hides_secret X r seg then REDACTED else seg) (split_char CHR ''/'' path)))"

definition scheme_split :: "string \<Rightarrow> (string \<times> string) option" where
  "scheme_split u = (case split_once_str ''://'' u of Some (s, rest) \<Rightarrow> if is_scheme s then Some (s, rest) else None | None \<Rightarrow> None)"

definition seal :: "redact_externs \<Rightarrow> redactor \<Rightarrow> string \<Rightarrow> string" where
  "seal X r u =
     (if \<not> reveals_secret X r u then u
      else let sealed = (case scheme_split u of
                           Some (s, rest) \<Rightarrow> s @ ''://'' @ fst (cut_at ''/?#'' rest) @ ''/'' @ REDACTED
                         | None \<Rightarrow> REDACTED)
           in if reveals_secret X r sealed then REDACTED else sealed)"

text \<open>The parts of \<^verbatim>\<open>url\<close>: the components of a URL redacted one by one, and the origin of one that a
  secret crosses.\<close>

definition url_components :: "redact_externs \<Rightarrow> redactor \<Rightarrow> string \<Rightarrow> string" where
  "url_components X r u =
     (let (base, frag) = (case split_once CHR ''#'' u of Some (b, f) \<Rightarrow> (b, Some f) | None \<Rightarrow> (u, None));
          (before_query, query) = (case split_once CHR ''?'' base of Some (p, q) \<Rightarrow> (p, Some q) | None \<Rightarrow> (base, None));
          out = url_path X r before_query;
          out = (case query of Some q \<Rightarrow> out @ ''?'' @ pairs X r q | None \<Rightarrow> out);
          out = redact_userinfo out
      in case frag of Some f \<Rightarrow> out @ ''#'' @ pairs X r f | None \<Rightarrow> out)"

definition url_origin :: "redact_externs \<Rightarrow> redactor \<Rightarrow> string \<Rightarrow> string" where
  "url_origin X r u =
     (case scheme_split (redact_userinfo u) of
        None \<Rightarrow> REDACTED
      | Some (s, rest) \<Rightarrow>
          (let origin = s @ ''://'' @ fst (cut_at ''/?#'' rest)
           in if text_any_case r origin \<noteq> origin \<or> reveals_secret X r origin then REDACTED else origin @ ''/'' @ REDACTED))"

definition redact_url :: "redact_externs \<Rightarrow> redactor \<Rightarrow> string \<Rightarrow> string" where
  "redact_url X r u =
     (if \<not> same_delimiters u (text_any_case r u) '':/?#&=@'' then url_origin X r u
      else seal X r (text_any_case r (url_components X r u)))"

section \<open>Header values\<close>

definition set_cookie_attrs :: "redact_externs \<Rightarrow> redactor \<Rightarrow> string \<Rightarrow> string" where
  "set_cookie_attrs X r attrs =
     join_with '';'' (map (\<lambda>attr.
       case split_once CHR ''='' attr of
         Some (name, v) \<Rightarrow> if lower (trim name) \<in> {''path'', ''domain''} \<and> hides_secret X r (trim v) then name @ ''='' @ REDACTED else attr
       | None \<Rightarrow> attr) (split_char CHR '';'' attrs))"

text \<open>\<^verbatim>\<open>anchor_value_start\<close>: the offset of the value of the first \<^verbatim>\<open>anchor\<close> parameter.\<close>

definition anchor_at :: "string \<Rightarrow> range \<Rightarrow> nat option" where
  "anchor_at s m =
     (case trim_start (drop (snd m) s) of
        c # cs \<Rightarrow> if c = CHR ''='' \<and> ends_with (trim_end (take (fst m) s)) '';'' then Some (length s - length (trim_start cs)) else None
      | [] \<Rightarrow> None)"

definition anchor_value_start :: "string \<Rightarrow> nat option" where
  "anchor_value_start s =
     (case List.map_filter (anchor_at s) (match_ranges ''anchor'' (lower s) 0) of [] \<Rightarrow> None | at # _ \<Rightarrow> Some at)"

lemma trim_start_length: "length (trim_start s) \<le> length s"
  by (rule suffix_length_le [OF trim_start_suffix])

lemma anchor_value_start_bounds:
  assumes "anchor_value_start s = Some at"
  shows "0 < at \<and> at \<le> length s"
proof -
  from assms have "at \<in> set (List.map_filter (anchor_at s) (match_ranges ''anchor'' (lower s) 0))"
    by (auto simp: anchor_value_start_def split: list.splits)
  then obtain m where m: "m \<in> set (match_ranges ''anchor'' (lower s) 0)" "anchor_at s m = Some at"
    by (auto simp: List.map_filter_def)
  from match_ranges_occurs [OF m(1)] have len: "0 < snd m" "snd m \<le> length s" by (auto simp: occurs_at_def)
  from m(2) obtain cs where cs: "trim_start (drop (snd m) s) = CHR ''='' # cs" "at = length s - length (trim_start cs)"
    by (auto simp: anchor_at_def split: list.splits if_splits)
  have "length (trim_start cs) < length s"
    using trim_start_length [of cs] trim_start_length [of "drop (snd m) s"] len unfolding cs(1) by simp
  with cs(2) show ?thesis by simp
qed

text \<open>The value at the head of the text redacted, and what follows it.\<close>

definition anchor_value :: "redact_externs \<Rightarrow> redactor \<Rightarrow> string \<Rightarrow> string \<times> string" where
  "anchor_value X r v =
     (if is_prefix_of [CHR 0x22] v then
        (case split_once CHR 0x22 (tl v) of
           Some (inner, after) \<Rightarrow> ([CHR 0x22] @ redact_url X r inner @ [CHR 0x22], after)
         | None \<Rightarrow> ([CHR 0x22] @ redact_url X r (tl v), []))
      else case cut_at '';,'' v of (inner, after) \<Rightarrow> (redact_url X r inner, after))"

lemma split_once_shorter:
  assumes "split_once d s = Some (a, b)"
  shows "length b < length s"
proof -
  from assms have b: "d \<in> set s" "b = tl (dropWhile (\<lambda>c. c \<noteq> d) s)" by (auto simp: split_once_def split: if_splits)
  then have "dropWhile (\<lambda>c. c \<noteq> d) s \<noteq> []" by (auto simp: dropWhile_eq_Nil_conv)
  then have "length b < length (dropWhile (\<lambda>c. c \<noteq> d) s)" using b(2) by (cases "dropWhile (\<lambda>c. c \<noteq> d) s") auto
  with length_dropWhile_le [of "\<lambda>c. c \<noteq> d" s] show ?thesis by simp
qed

lemma anchor_value_shorter: "anchor_value X r v = (redacted, after) \<Longrightarrow> length after \<le> length v"
  using split_once_shorter [of "CHR 0x22" "tl v" _ after] length_dropWhile_le [of "\<lambda>c. c \<notin> set '';,''" v]
  by (auto simp: anchor_value_def cut_at_def split: option.splits if_splits)

function link_params :: "redact_externs \<Rightarrow> redactor \<Rightarrow> string \<Rightarrow> string" where
  "link_params X r rest =
     (case anchor_value_start rest of
        None \<Rightarrow> rest
      | Some at \<Rightarrow> (case anchor_value X r (drop at rest) of (redacted, after) \<Rightarrow> take at rest @ redacted @ link_params X r after))"
  by auto
termination
proof (relation "measure (\<lambda>(X, r, rest). length rest)", goal_cases)
  case (2 X r rest at redacted after)
  then have "0 < at" "at \<le> length rest" "length after \<le> length (drop at rest)"
    using anchor_value_start_bounds [of rest at] anchor_value_shorter [of X r "drop at rest" redacted after] by simp_all
  then show ?case by simp
qed simp

declare link_params.simps [simp del]

function redact_link :: "redact_externs \<Rightarrow> redactor \<Rightarrow> string \<Rightarrow> string" where
  "redact_link X r rest =
     (case split_once CHR ''<'' rest of
        None \<Rightarrow> link_params X r rest
      | Some (before, inside) \<Rightarrow>
          (case split_once CHR ''>'' inside of
             None \<Rightarrow> link_params X r rest
           | Some (target, after) \<Rightarrow> link_params X r before @ ''<'' @ redact_url X r target @ ''>'' @ redact_link X r after))"
  by auto
termination
proof (relation "measure (\<lambda>(X, r, rest). length rest)", goal_cases)
  case (2 X r rest x before inside y target after)
  then have "length inside < length rest" "length after < length inside" using split_once_shorter by metis+
  then show ?case by simp
qed simp

declare redact_link.simps [simp del]

definition refresh :: "redact_externs \<Rightarrow> redactor \<Rightarrow> string \<Rightarrow> string" where
  "refresh X r v =
     (case str_find ''url='' (lower v) of
        None \<Rightarrow> redact_url X r v
      | Some at \<Rightarrow>
          (let h = take (at + 4) v; target = drop (at + 4) v
           in if 1 < length target \<and> hd target \<in> {CHR 0x22, CHR 0x27} \<and> last target = hd target
              then h @ [hd target] @ redact_url X r (butlast (tl target)) @ [hd target]
              else h @ redact_url X r target))"

text \<open>The parts of \<^verbatim>\<open>header\<close>: the value with encoded cookie names and attributes inspected, and the
  last step on a value that is scrubbed.\<close>

definition prepared_cookie :: "redact_externs \<Rightarrow> redactor \<Rightarrow> bool \<Rightarrow> string \<Rightarrow> string \<Rightarrow> string option" where
  "prepared_cookie X r sensitive name v =
     (if sensitive \<and> eq_ignore_ascii_case name ''set-cookie'' then
        map_option (\<lambda>(key, rest).
          let k = (if hides_secret X r (trim key) then REDACTED else key)
          in case split_once CHR '';'' rest of
               Some (credential, attrs) \<Rightarrow> k @ ''='' @ credential @ '';'' @ set_cookie_attrs X r attrs
             | None \<Rightarrow> k @ ''='' @ rest) (split_once CHR ''='' v)
      else if sensitive \<and> eq_ignore_ascii_case name ''cookie'' then
        Some (join_with '';'' (map (\<lambda>part.
          case split_once CHR ''='' part of
            Some (key, rest) \<Rightarrow> if hides_secret X r (trim key) then REDACTED @ ''='' @ rest else part
          | None \<Rightarrow> part) (split_char CHR '';'' v)))
      else None)"

definition masked_cookie :: "redact_externs \<Rightarrow> redactor \<Rightarrow> string \<Rightarrow> string" where
  "masked_cookie X r v =
     join_with ''; '' (map (\<lambda>c.
       case split_once CHR ''='' c of
         Some (k, _) \<Rightarrow> (if hides_secret X r (trim k) then REDACTED else trim k) @ ''='' @ REDACTED
       | None \<Rightarrow> REDACTED) (split_char CHR '';'' v))"

definition masked_set_cookie :: "redact_externs \<Rightarrow> redactor \<Rightarrow> string \<Rightarrow> string" where
  "masked_set_cookie X r v =
     (case split_once CHR ''='' v of
        Some (k, rest) \<Rightarrow>
          (if hides_secret X r (trim k) then REDACTED else trim k) @ ''='' @ REDACTED
          @ (case split_once CHR '';'' rest of Some (_, a) \<Rightarrow> '';'' @ set_cookie_attrs X r a | None \<Rightarrow> [])
      | None \<Rightarrow> REDACTED)"

definition masked_header :: "redact_externs \<Rightarrow> redactor \<Rightarrow> string \<Rightarrow> string \<Rightarrow> string" where
  "masked_header X r name v0 =
     (let v = redact_text r v0; n = lower name
      in case (if n = ''authorization'' \<or> n = ''proxy-authorization'' then split_once CHR '' '' v else None) of
           Some (scheme, _) \<Rightarrow> scheme @ '' '' @ REDACTED
         | None \<Rightarrow> if n = ''cookie'' then masked_cookie X r v
                   else if n = ''set-cookie'' then masked_set_cookie X r v
                   else REDACTED)"

definition redact_header :: "redact_externs \<Rightarrow> redactor \<Rightarrow> string \<Rightarrow> string \<Rightarrow> string" where
  "redact_header X r name v =
     (let sensitive = is_sensitive_name name (rd_extra_names r);
          finish = (\<lambda>scrubbed. if sensitive then masked_header X r name scrubbed else redact_text r scrubbed)
      in if \<not> sensitive \<and> list_ex (eq_ignore_ascii_case name) URL_HEADERS then redact_url X r v
         else if \<not> sensitive \<and> (eq_ignore_ascii_case name ''link'' \<or> eq_ignore_ascii_case name ''refresh'') then
           (if \<not> same_delimiters v (text_any_case r v) ('':/?#&=@<>;'' @ [CHR 0x22, CHR 0x27]) then REDACTED
            else text_any_case r (if eq_ignore_ascii_case name ''link'' then redact_link X r v else refresh X r v))
         else case prepared_cookie X r sensitive name v of
                None \<Rightarrow> finish (text_any_case r v)
              | Some prepared \<Rightarrow>
                  (if prepared = v then finish (text_any_case r v)
                   else if \<not> same_delimiters v (text_any_case r v) '';='' then REDACTED
                   else finish (text_any_case r prepared)))"

definition inferred :: "redact_externs \<Rightarrow> redactor \<Rightarrow> string \<Rightarrow> string" where
  "inferred X r line =
     (let scrubbed = text_any_case r line
      in case (if is_prefix_of ''auth '' line then split_once_str '': '' (drop 5 line) else None) of
           Some (k, v) \<Rightarrow>
             (if ends_with k ''.htu'' then
                (if \<not> is_prefix_of (''auth '' @ k @ '': '') scrubbed \<or> \<not> same_delimiters line scrubbed '' :/?#&=@'' then REDACTED
                 else text_any_case r (''auth '' @ k @ '': '' @ redact_url X r v))
              else metadata_text X r line)
         | None \<Rightarrow> metadata_text X r line)"

definition redact_headers :: "redact_externs \<Rightarrow> redactor \<Rightarrow> (string \<times> string) list \<Rightarrow> (string \<times> string) list" where
  "redact_headers X r h =
     map (\<lambda>(n, v).
       let name = text_any_case r n
       in (name, if name \<noteq> n \<or> contains_str name REDACTED then REDACTED else metadata_text X r (redact_header X r n v))) h"

section \<open>JSON bodies\<close>

definition is_leaf :: "json \<Rightarrow> bool" where
  "is_leaf v \<longleftrightarrow> (case v of JString _ \<Rightarrow> True | JNumber _ \<Rightarrow> True | _ \<Rightarrow> False)"

fun json_value :: "redactor \<Rightarrow> json \<Rightarrow> nat \<Rightarrow> json" where
  "json_value r (JObject m) depth =
     (if 64 < depth then JObject m
      else JObject (map (\<lambda>(k, v).
        (k, if is_sensitive_name k (rd_extra_names r) \<and> is_leaf v then JString REDACTED
            else json_value r v (depth + 1))) m))"
| "json_value r (JArray a) depth = (if 64 < depth then JArray a else JArray (map (\<lambda>v. json_value r v (depth + 1)) a))"
| "json_value r v depth = v"

definition json_text :: "redact_externs \<Rightarrow> redactor \<Rightarrow> string \<Rightarrow> string" where
  "json_text X r body =
     (case rx_json_parse X body of
        Some v \<Rightarrow> redact_text r (case rx_json_print X (json_value r v 0) of Some s \<Rightarrow> s | None \<Rightarrow> [])
      | None \<Rightarrow> redact_text r body)"

section \<open>What scrubbed text no longer holds\<close>

text \<open>
  What the crates promise: an automaton that is built finds every occurrence, and an encoder of a
  text that is not empty returns a text that is not empty, in ASCII unless it is a JSON string.
\<close>

definition automaton_ok :: "redact_externs \<Rightarrow> bool" where
  "automaton_ok X \<longleftrightarrow> (\<forall>pats m. rx_build X False pats = Some m \<longrightarrow> finds m pats)
     \<and> (\<forall>pats m. rx_build X True pats = Some m \<longrightarrow> finds_any_case m pats)"

definition ascii_form :: "string \<Rightarrow> bool" where
  "ascii_form s \<longleftrightarrow> s \<noteq> [] \<and> list_all (\<lambda>c. byte c < 128) s"

definition encoders_ok :: "redact_externs \<Rightarrow> bool" where
  "encoders_ok X \<longleftrightarrow>
     (\<forall>s. s \<noteq> [] \<longrightarrow> is_utf8 s \<longrightarrow>
        ascii_form (rx_hex X s) \<and> ascii_form (encode_query_component X s) \<and> ascii_form (rx_byte_serialize X s)
        \<and> (\<forall>q. rx_json_quote X s = Some q \<longrightarrow> butlast (tl q) \<noteq> [] \<and> is_utf8 (butlast (tl q))))"

lemma ascii_form_lower_hex: "list_all (\<lambda>c. byte c < 128) s \<Longrightarrow> list_all (\<lambda>c. byte c < 128) (lower_hex_from k s) \<and> (s \<noteq> [] \<longrightarrow> lower_hex_from k s \<noteq> [])"
proof (induction s arbitrary: k)
  case (Cons c s)
  then have "byte (ascii_lower c) < 128" by (auto simp: ascii_lower_def byte_def)
  with Cons show ?case by auto
qed simp

lemma ascii_formD: "ascii_form s \<Longrightarrow> s \<noteq> [] \<and> is_utf8 s"
  by (simp add: ascii_form_def is_utf8_ascii)

lemma secret_forms_well_formed:
  assumes "encoders_ok X" "s \<noteq> []" "is_utf8 s"
  shows "well_formed (secret_forms X s)"
proof -
  have e: "ascii_form (rx_hex X s)" "ascii_form (encode_query_component X s)" "ascii_form (rx_byte_serialize X s)"
    "\<And>q. rx_json_quote X s = Some q \<Longrightarrow> butlast (tl q) \<noteq> [] \<and> is_utf8 (butlast (tl q))"
    using assms unfolding encoders_ok_def by blast+
  have low: "ascii_form (lower_hex (encode_query_component X s))"
    using ascii_form_lower_hex [of "encode_query_component X s" 0] e(2) by (simp add: ascii_form_def lower_hex_def)
  have enc: "p \<noteq> [] \<and> is_utf8 p" if "p \<in> set (encoded_forms X s)" for p
    using that ascii_formD [OF e(2)] ascii_formD [OF e(3)] ascii_formD [OF low] by (auto simp: encoded_forms_def Let_def split: if_splits)
  have esc: "p \<noteq> [] \<and> is_utf8 p" if "json_escaped X s = Some p" for p
  proof -
    from that obtain q where q: "rx_json_quote X s = Some q" "p = butlast (tl q)"
      by (auto simp: json_escaped_def Let_def bind_eq_Some_conv split: if_splits)
    show ?thesis unfolding q(2) by (rule e(4) [OF q(1)])
  qed
  show ?thesis
    unfolding well_formed_def
  proof
    fix p
    assume "p \<in> set (secret_forms X s)"
    then consider "p = s" | "p = rx_hex X s" | "p \<in> set (encoded_forms X s)" | "json_escaped X s = Some p"
      by (auto simp: secret_forms_def split: option.splits)
    then show "p \<noteq> [] \<and> is_utf8 p"
      by cases (metis assms(2,3) ascii_formD [OF e(1)] enc esc)+
  qed
qed

definition secrets_ok :: "string list \<Rightarrow> bool" where
  "secrets_ok secs \<longleftrightarrow> (\<forall>x \<in> set secs. MIN_SECRET_LEN \<le> length x \<and> is_utf8 x)"

definition indexed :: "redact_externs \<Rightarrow> redactor \<Rightarrow> bool" where
  "indexed X r \<longleftrightarrow> secrets_ok (rd_secrets r)
     \<and> (\<exists>pats. (\<forall>x \<in> set (rd_secrets r). set (secret_forms X x) \<subseteq> set pats) \<and> well_formed pats
         \<and> (case rd_matcher r of Some m \<Rightarrow> finds m pats | None \<Rightarrow> rd_fallback_patterns r = pats)
         \<and> (case rd_any_case r of Some m \<Rightarrow> finds_any_case m pats | None \<Rightarrow> rd_any_case_fallback r = map lower pats))"

lemma set_sort_longest_first [simp]: "set (sort_longest_first v) = set v"
  by (simp add: sort_longest_first_def)

lemma reindex_fields:
  fixes X r
  defines "pats \<equiv> patterns_of X (sort_longest_first (rd_secrets r))"
  shows "rd_secrets (reindex X r) = sort_longest_first (rd_secrets r)"
    and "rd_matcher (reindex X r) = (if pats = [] then None else rx_build X False pats)"
    and "rd_any_case (reindex X r) = (if pats = [] then None else rx_build X True pats)"
    and "rd_matcher (reindex X r) = None \<Longrightarrow> rd_fallback_patterns (reindex X r) = pats"
    and "rd_any_case (reindex X r) = None \<Longrightarrow> rd_any_case_fallback (reindex X r) = map lower pats"
  by (simp_all add: reindex_def Let_def pats_def)

lemma reindex_indexed:
  assumes "automaton_ok X" "encoders_ok X" "secrets_ok (rd_secrets r)"
  shows "indexed X (reindex X r)"
proof -
  let ?pats = "patterns_of X (sort_longest_first (rd_secrets r))"
  have sec: "well_formed (secret_forms X x)" if "x \<in> set (rd_secrets r)" for x
  proof (rule secret_forms_well_formed [OF assms(2)])
    show "x \<noteq> []" "is_utf8 x" using assms(3) that by (auto simp: secrets_ok_def MIN_SECRET_LEN_def)
  qed
  have pats: "set ?pats = (\<Union>x \<in> set (rd_secrets r). set (secret_forms X x))" by (simp add: patterns_of_def)
  show ?thesis
    unfolding indexed_def reindex_fields(1)
  proof (intro conjI exI [of _ ?pats])
    show "secrets_ok (sort_longest_first (rd_secrets r))" using assms(3) by (simp add: secrets_ok_def)
    show "\<forall>x \<in> set (sort_longest_first (rd_secrets r)). set (secret_forms X x) \<subseteq> set ?pats" unfolding pats by auto
    show "well_formed ?pats" using sec unfolding well_formed_def pats by auto
    show "case rd_matcher (reindex X r) of Some m \<Rightarrow> finds m ?pats | None \<Rightarrow> rd_fallback_patterns (reindex X r) = ?pats"
      using assms(1) reindex_fields(2,4) [of X r] by (auto simp: automaton_ok_def split: option.splits if_splits)
    show "case rd_any_case (reindex X r) of Some m \<Rightarrow> finds_any_case m ?pats | None \<Rightarrow> rd_any_case_fallback (reindex X r) = map lower ?pats"
      using assms(1) reindex_fields(3,5) [of X r] by (auto simp: automaton_ok_def split: option.splits if_splits)
  qed
qed

lemma indexed_hides:
  assumes "indexed X r" "x \<in> set (rd_secrets r)" "p \<in> set (secret_forms X x)" "is_utf8 s" "hidden p"
  shows "\<not> sublist p (redact_text r s)"
proof -
  from assms(1-3) obtain pats where pats: "p \<in> set pats" "well_formed pats"
    "case rd_matcher r of Some m \<Rightarrow> finds m pats | None \<Rightarrow> rd_fallback_patterns r = pats" unfolding indexed_def by blast
  show ?thesis
  proof (cases "rd_matcher r")
    case None
    have "\<not> sublist p (replace_ranges s (fallback_ranges s pats))"
      by (rule fallback_hides [OF pats(2) assms(4) pats(1) refl _ assms(5) refl])
    with None pats show ?thesis by (auto simp: redact_text_def fallback_redact_def)
  next
    case (Some m)
    then have "finds m pats" "\<forall>p \<in> set pats. p \<noteq> []" using pats(2,3) by (simp_all add: well_formed_def)
    from finds_hides [OF this pats(1) assms(5)] Some show ?thesis by (simp add: redact_text_def)
  qed
qed

lemma indexed_hides_any_case:
  assumes "indexed X r" "x \<in> set (rd_secrets r)" "p \<in> set (secret_forms X x)" "is_utf8 s" "eq_ignore_ascii_case q p" "hidden q"
  shows "\<not> sublist q (text_any_case r s)"
proof -
  from assms(1-3) obtain pats where pats: "p \<in> set pats" "well_formed pats"
    "case rd_any_case r of Some m \<Rightarrow> finds_any_case m pats | None \<Rightarrow> rd_any_case_fallback r = map lower pats" unfolding indexed_def by blast
  have eq: "lower q = lower p" using assms(5) by (simp add: eq_ignore_ascii_case_def)
  show ?thesis
  proof (cases "rd_any_case r")
    case None
    have "\<not> sublist q (replace_ranges s (fallback_ranges (lower s) (map lower pats)))"
    proof (rule fallback_hides [where p = "lower p"])
      show "well_formed (map lower pats)" using pats(2) by (auto simp: well_formed_def is_utf8_lower)
      show "is_utf8 (lower s)" using assms(4) by (simp add: is_utf8_lower)
      show "occurs_at (lower p) (lower s) i" if "occurs_at q s i" for i using occurs_at_lower [OF that] eq by simp
      show "length q = length (lower p)" using arg_cong [OF eq, of length] by simp
    qed (use pats(1) assms(6) in simp_all)
    with None pats show ?thesis by (auto simp: text_any_case_def)
  next
    case (Some m)
    then have "finds_any_case m pats" "\<forall>p \<in> set pats. p \<noteq> []" using pats(2,3) by (simp_all add: well_formed_def)
    from finds_any_case_hides [OF this pats(1) assms(5,6)] Some show ?thesis by (simp add: text_any_case_def)
  qed
qed

section \<open>The redactors an execution builds\<close>

text \<open>Every redactor comes from one of the constructors and the operations that teach it more.\<close>

inductive built :: "redact_externs \<Rightarrow> redactor \<Rightarrow> bool" for X where
  built_new: "list_all is_utf8 secs \<Longrightarrow> built X (new_redactor X secs names)"
| built_refresh: "built X r \<Longrightarrow> list_all is_utf8 (used @ decoded) \<Longrightarrow> built X (refresh_used_secrets X used decoded sensitive r)"
| built_absorb: "built X r \<Longrightarrow> built X other \<Longrightarrow> built X (absorb X other r)"
| built_add: "built X r \<Longrightarrow> is_utf8 s \<Longrightarrow> built X (add_secret X s r)"

lemma add_values_set: "set (add_values vs secs) = set secs \<union> set vs"
  unfolding add_values_def by (induction vs arbitrary: secs) auto

lemma add_values_length: "length (add_values vs secs) = length secs \<Longrightarrow> add_values vs secs = secs"
proof -
  have "\<exists>ext. add_values vs secs = secs @ ext"
    unfolding add_values_def
  proof (induction vs arbitrary: secs)
    case (Cons v vs)
    then show ?case by (cases "v \<in> set secs") (auto, metis append.assoc)
  qed simp
  then show "length (add_values vs secs) = length secs \<Longrightarrow> add_values vs secs = secs" by auto
qed

lemma reindex_secrets [simp]: "set (rd_secrets (reindex X r)) = set (rd_secrets r)"
  by (simp add: reindex_fields(1))

lemma take_in_secrets: "set (rd_secrets (take_in X vs names r)) = set (rd_secrets r) \<union> set vs"
  by (simp add: take_in_def Let_def add_values_set)

lemma indexed_names [simp]: "indexed X (r\<lparr>rd_extra_names := ns\<rparr>) = indexed X r"
  by (simp add: indexed_def cong: option.case_cong)

lemma take_in_indexed:
  assumes "automaton_ok X" "encoders_ok X" "indexed X r" "secrets_ok vs"
  shows "indexed X (take_in X vs names r)"
proof (cases "length (add_values vs (rd_secrets r)) = length (rd_secrets r)")
  case True
  have "r\<lparr>rd_secrets := rd_secrets r\<rparr> = r" by simp
  with True add_values_length [OF True] assms(3) show ?thesis by (simp add: take_in_def Let_def)
next
  case False
  have "secrets_ok (add_values vs (rd_secrets r))" using assms(3,4) by (auto simp: secrets_ok_def add_values_set indexed_def)
  with False reindex_indexed [OF assms(1,2)] show ?thesis by (simp add: take_in_def Let_def)
qed

lemma built_indexed:
  assumes "automaton_ok X" "encoders_ok X"
  shows "built X r \<Longrightarrow> indexed X r"
proof (induction rule: built.induct)
  case (built_new secs names)
  then show ?case unfolding new_redactor_def
    by (intro reindex_indexed assms) (auto simp: secrets_ok_def list_all_iff)
next
  case (built_refresh r used decoded sensitive)
  then show ?case unfolding refresh_used_secrets_def
    by (intro take_in_indexed assms) (auto simp: secrets_ok_def list_all_iff)
next
  case (built_absorb r other)
  then show ?case unfolding absorb_def by (intro take_in_indexed assms) (auto simp: indexed_def)
next
  case (built_add r s)
  then have "secrets_ok (rd_secrets r)" by (simp add: indexed_def)
  then have "MIN_SECRET_LEN \<le> length s \<Longrightarrow> secrets_ok (rd_secrets (r\<lparr>rd_secrets := rd_secrets r @ [s]\<rparr>))"
    using built_add.hyps(2) by (simp add: secrets_ok_def)
  from reindex_indexed [OF assms this] built_add show ?case by (simp add: add_secret_def)
qed

text \<open>What each operation knows afterwards.\<close>

lemma for_execution_knows:
  "set (rd_secrets (for_execution X used decoded sensitive names)) = {x \<in> set used \<union> set decoded. MIN_SECRET_LEN \<le> length x}"
  by (auto simp: for_execution_def new_redactor_def)

lemma refresh_knows:
  "set (rd_secrets (refresh_used_secrets X used decoded sensitive r)) =
     set (rd_secrets r) \<union> {x \<in> set used \<union> set decoded. MIN_SECRET_LEN \<le> length x}"
  by (auto simp: refresh_used_secrets_def take_in_secrets)

lemma absorb_knows: "set (rd_secrets (absorb X other r)) = set (rd_secrets r) \<union> set (rd_secrets other)"
  by (simp add: absorb_def take_in_secrets)

lemma add_secret_knows: "MIN_SECRET_LEN \<le> length s \<Longrightarrow> set (rd_secrets (add_secret X s r)) = insert s (set (rd_secrets r))"
  by (auto simp: add_secret_def)

section \<open>What a URL reveals\<close>

text \<open>
  The texts a reader gets by undoing percent encoding, with \<^verbatim>\<open>+\<close> read as itself or as a blank at
  each layer; a text tells a secret when one of them contains it, in any letter case.
\<close>

primrec decodings :: "redact_externs \<Rightarrow> nat \<Rightarrow> string \<Rightarrow> string set" where
  "decodings X 0 s = {s}"
| "decodings X (Suc k) s = decodings X k (rx_percent_decode X s) \<union> decodings X k (rx_percent_decode X (plus_as_space s))"

definition tells :: "redact_externs \<Rightarrow> string list \<Rightarrow> string \<Rightarrow> bool" where
  "tells X secs s \<longleftrightarrow>
     (\<exists>k \<le> MAX_DECODE_ROUNDS. \<exists>d \<in> decodings X k s. \<exists>x \<in> set secs. \<exists>q. x \<noteq> [] \<and> eq_ignore_ascii_case q x \<and> sublist q d)"

definition decoder_ok :: "redact_externs \<Rightarrow> bool" where
  "decoder_ok X \<longleftrightarrow> (\<forall>s. CHR ''%'' \<notin> set s \<longrightarrow> rx_percent_decode X s = s)"

lemma contains_bytes_iff: "contains_bytes hay needle \<longleftrightarrow> needle \<noteq> [] \<and> (\<exists>q. eq_ignore_ascii_case q needle \<and> sublist q hay)"
proof
  assume "contains_bytes hay needle"
  then obtain i where "needle \<noteq> []" "eq_ignore_ascii_case (take (length needle) (drop i hay)) needle"
    unfolding contains_bytes_def list_ex_iff by blast
  then show "needle \<noteq> [] \<and> (\<exists>q. eq_ignore_ascii_case q needle \<and> sublist q hay)"
    by (metis sublist_drop sublist_order.order_trans sublist_take)
next
  assume r: "needle \<noteq> [] \<and> (\<exists>q. eq_ignore_ascii_case q needle \<and> sublist q hay)"
  then obtain q i where q: "eq_ignore_ascii_case q needle" "occurs_at q hay i" by (auto simp: occurs_at_sublist)
  have "length q = length needle" using q(1) by (auto simp: eq_ignore_ascii_case_def dest: arg_cong [of _ _ length])
  with q have i: "i \<in> set [0..<length hay - length needle + 1]" "take (length needle) (drop i hay) = q" "length needle \<le> length hay"
    by (auto simp: occurs_at_def)
  with q(1) r show "contains_bytes hay needle" unfolding contains_bytes_def list_ex_iff by blast
qed

lemma next_layers_set: "set (next_layers X ls) = (\<Union>l \<in> set ls. {rx_percent_decode X l, rx_percent_decode X (plus_as_space l)})"
proof -
  have "set (fold (\<lambda>d acc. if d \<in> set acc then acc else acc @ [d]) ds acc) = set acc \<union> set ds" for ds acc :: "string list"
    by (induction ds arbitrary: acc) auto
  then show ?thesis by (auto simp: next_layers_def)
qed

lemma reveals_rounds_iff:
  "reveals_rounds X secs n ls \<longleftrightarrow> (\<exists>k \<le> n. \<exists>l \<in> set ls. \<exists>d \<in> decodings X k l. list_ex (contains_bytes d) secs)"
proof (induction n arbitrary: ls)
  case 0
  show ?case by (simp add: reveals_rounds.simps [of X secs 0] list_ex_iff)
next
  case (Suc n)
  have "reveals_rounds X secs (Suc n) ls \<longleftrightarrow> (\<exists>l \<in> set ls. list_ex (contains_bytes l) secs)
    \<or> (\<exists>k \<le> n. \<exists>l \<in> set ls. \<exists>d \<in> decodings X (Suc k) l. list_ex (contains_bytes d) secs)"
    unfolding reveals_rounds.simps [of X secs "Suc n"] by (simp add: Suc.IH next_layers_set list_ex_iff) blast
  also have "\<dots> \<longleftrightarrow> (\<exists>k \<le> Suc n. \<exists>l \<in> set ls. \<exists>d \<in> decodings X k l. list_ex (contains_bytes d) secs)"
  proof -
    have "(\<exists>k \<le> Suc n. P k) \<longleftrightarrow> P 0 \<or> (\<exists>k \<le> n. P (Suc k))" for P by (metis Suc_le_mono le0 not0_implies_Suc)
    from this [of "\<lambda>k. \<exists>l \<in> set ls. \<exists>d \<in> decodings X k l. list_ex (contains_bytes d) secs"] show ?thesis by simp
  qed
  finally show ?case .
qed

lemma plain_decodings:
  assumes "decoder_ok X" "\<not> has_escape s"
  shows "decodings X k s = {s}"
proof (induction k)
  case (Suc k)
  have "plus_as_space s = s" using assms(2) by (auto simp: plus_as_space_def has_escape_def intro: map_idI)
  with Suc assms show ?case by (simp add: decoder_ok_def has_escape_def)
qed simp

lemma reveals_secret_iff:
  assumes "decoder_ok X"
  shows "reveals_secret X r s \<longleftrightarrow> tells X (rd_secrets r) s"
proof (cases "has_escape s")
  case True
  then show ?thesis
    by (auto simp: reveals_secret_def tells_def reveals_rounds_iff list_ex_iff contains_bytes_iff)
next
  case False
  with plain_decodings [OF assms False] show ?thesis
    by (auto simp: reveals_secret_def tells_def list_ex_iff contains_bytes_iff)
qed

section \<open>URLs that are shown\<close>

lemma seal_reveals: "seal X r u = REDACTED \<or> \<not> reveals_secret X r (seal X r u)"
  by (simp add: seal_def Let_def)

lemma url_origin_cases:
  "url_origin X r u = REDACTED
   \<or> (\<exists>origin. url_origin X r u = origin @ ''/'' @ REDACTED \<and> \<not> reveals_secret X r origin)"
  by (auto simp: url_origin_def Let_def split: option.splits)

lemma redact_url_cases:
  "redact_url X r u = REDACTED \<or> \<not> reveals_secret X r (redact_url X r u)
   \<or> (\<exists>origin. redact_url X r u = origin @ ''/'' @ REDACTED \<and> \<not> reveals_secret X r origin)"
  using seal_reveals [of X r "text_any_case r (url_components X r u)"] url_origin_cases [of X r u]
  by (auto simp: redact_url_def)

section \<open>Header values of credentials\<close>

lemma redact_header_sensitive:
  assumes "is_sensitive_name name (rd_extra_names r)"
  shows "redact_header X r name v = REDACTED \<or> (\<exists>w. redact_header X r name v = masked_header X r name w)"
  using assms by (auto simp: redact_header_def Let_def split: option.splits)

lemma masked_header_credential:
  assumes "lower name \<noteq> ''cookie''" "lower name \<noteq> ''set-cookie''"
  shows "masked_header X r name w = REDACTED
    \<or> lower name \<in> {''authorization'', ''proxy-authorization''} \<and> (\<exists>scheme. CHR '' '' \<notin> set scheme \<and> masked_header X r name w = scheme @ '' '' @ REDACTED)"
  using assms by (auto simp: masked_header_def Let_def split_once_def dest: set_takeWhileD split: option.splits if_splits)

lemma masked_header_cookie:
  assumes "lower name = ''cookie''"
  shows "\<exists>ns. masked_header X r name w = join_with ''; '' (map (\<lambda>n. n @ REDACTED) ns)"
proof -
  let ?f = "\<lambda>c. case split_once CHR ''='' c of Some (k, _) \<Rightarrow> (if hides_secret X r (trim k) then REDACTED else trim k) @ ''='' | None \<Rightarrow> []"
  have "masked_header X r name w = join_with ''; '' (map (\<lambda>n. n @ REDACTED) (map ?f (split_char CHR '';'' (redact_text r w))))"
    using assms by (auto simp: masked_header_def masked_cookie_def Let_def intro!: arg_cong [where f = "join_with _"] split: option.splits)
  then show ?thesis by blast
qed

section \<open>Fields of JSON bodies\<close>

text \<open>A value inside another: how deep it is, and the key of the object that holds it.\<close>

inductive inside :: "json \<Rightarrow> nat \<Rightarrow> string option \<Rightarrow> json \<Rightarrow> bool" for v where
  inside_root: "inside v 0 None v"
| inside_field: "inside v d k (JObject m) \<Longrightarrow> (key, w) \<in> set m \<Longrightarrow> inside v (Suc d) (Some key) w"
| inside_item: "inside v d k (JArray a) \<Longrightarrow> w \<in> set a \<Longrightarrow> inside v (Suc d) None w"

definition kept_value :: "redactor \<Rightarrow> nat \<Rightarrow> string option \<Rightarrow> json \<Rightarrow> bool" where
  "kept_value r d k w \<longleftrightarrow> w = JString REDACTED
     \<or> (\<exists>w'. w = json_value r w' d \<and> (\<forall>key. k = Some key \<longrightarrow> is_sensitive_name key (rd_extra_names r) \<longrightarrow> \<not> is_leaf w'))"

lemma is_leaf_json_value [simp]: "is_leaf (json_value r v d) = is_leaf v"
  by (cases v) (auto simp: is_leaf_def)

lemma json_value_object: "json_value r v d = JObject m \<Longrightarrow> d \<le> 64 \<Longrightarrow> \<exists>m'. v = JObject m' \<and> m = map (\<lambda>(k, v).
        (k, if is_sensitive_name k (rd_extra_names r) \<and> is_leaf v then JString REDACTED else json_value r v (d + 1))) m'"
  by (cases v) auto

lemma json_value_array: "json_value r v d = JArray a \<Longrightarrow> d \<le> 64 \<Longrightarrow> \<exists>a'. v = JArray a' \<and> a = map (\<lambda>v. json_value r v (d + 1)) a'"
  by (cases v) auto

lemma inside_json_value: "inside (json_value r v 0) d k w \<Longrightarrow> d \<le> 65 \<Longrightarrow> kept_value r d k w"
proof (induction rule: inside.induct)
  case inside_root
  then show ?case by (auto simp: kept_value_def)
next
  case (inside_field d k m key w)
  then have "kept_value r d k (JObject m)" by simp
  then obtain w' where "json_value r w' d = JObject m" unfolding kept_value_def using json.distinct by metis
  from json_value_object [OF this] inside_field.prems obtain m' where
    "m = map (\<lambda>(k, v). (k, if is_sensitive_name k (rd_extra_names r) \<and> is_leaf v then JString REDACTED else json_value r v (d + 1))) m'" by auto
  with inside_field.hyps(2) obtain v' where
    v': "w = (if is_sensitive_name key (rd_extra_names r) \<and> is_leaf v' then JString REDACTED else json_value r v' (d + 1))" by auto
  show ?case
  proof (cases "is_sensitive_name key (rd_extra_names r) \<and> is_leaf v'")
    case False
    with v' show ?thesis unfolding kept_value_def by auto
  qed (use v' in \<open>simp add: kept_value_def\<close>)
next
  case (inside_item d k a w)
  then have "kept_value r d k (JArray a)" by simp
  then obtain w' where "json_value r w' d = JArray a" unfolding kept_value_def using json.distinct by metis
  from json_value_array [OF this] inside_item.prems obtain a' where "a = map (\<lambda>v. json_value r v (d + 1)) a'" by auto
  with inside_item.hyps(2) show ?case unfolding kept_value_def by auto
qed

section \<open>A concrete set of crates\<close>

text \<open>An automaton that tries every position, encoders that write two hexadecimal digits a byte, and no JSON.\<close>

definition try_all :: "string list \<Rightarrow> string \<Rightarrow> range list" where
  "try_all pats s =
     sort_key snd (concat (map (\<lambda>p. map (\<lambda>i. (i, i + length p)) (filter (occurs_at p s) [0..<length s + 1])) pats))"

definition two_hex_of :: "char \<Rightarrow> string" where
  "two_hex_of c = [hex_digit (byte c div 16), hex_digit (byte c mod 16)]"

definition demo_crates :: redact_externs where
  "demo_crates =
     \<lparr>rx_build = (\<lambda>any_case pats. Some (if any_case then (\<lambda>s. try_all (map lower pats) (lower s)) else try_all pats)),
      rx_hex = (\<lambda>s. concat (map two_hex_of s)), rx_base64 = (\<lambda>s. s),
      rx_percent_encode = (\<lambda>P s. concat (map (\<lambda>c. if P c then CHR ''%'' # two_hex_of c else [c]) s)),
      rx_percent_decode = (\<lambda>s. s), rx_byte_serialize = (\<lambda>s. concat (map two_hex_of s)),
      rx_json_quote = (\<lambda>_. None), rx_json_parse = (\<lambda>_. None), rx_json_print = (\<lambda>_. None)\<rparr>"

lemma try_all_finds: "set (try_all pats s) = matches_of pats s" "sorted (map snd (try_all pats s))"
proof -
  have "i < length s + 1" if "occurs_at p s i" for p i using that by (auto simp: occurs_at_def)
  then show "set (try_all pats s) = matches_of pats s" by (auto simp: try_all_def matches_of_def image_iff simp del: upt_Suc)
  show "sorted (map snd (try_all pats s))" by (simp add: try_all_def)
qed

lemma demo_automaton_ok: "automaton_ok demo_crates"
  by (simp add: automaton_ok_def demo_crates_def finds_def finds_any_case_def try_all_finds)

lemma two_hex_of_ascii: "list_all (\<lambda>c. byte c < 128) (two_hex_of c)"
proof -
  have "byte (hex_digit n) < 128" if "n < 16" for n using that by (simp add: hex_digit_def byte_def of_char_of)
  moreover have "byte c < 256" by (simp add: byte_def)
  ultimately show ?thesis by (simp add: two_hex_of_def)
qed

lemma demo_encoders_ok: "encoders_ok demo_crates"
proof -
  have hex: "ascii_form (concat (map two_hex_of s))" if "s \<noteq> []" for s
    using that two_hex_of_ascii by (cases s) (auto simp: ascii_form_def two_hex_of_def list_all_iff)
  have keep: "byte c < 128" if "\<not> QUERY_COMPONENT c" for c
    using that by (auto simp: QUERY_COMPONENT_def is_ascii_alphanumeric_def byte_def)
  have "ascii_form (encode_query_component demo_crates s)" if "s \<noteq> []" for s
    using that two_hex_of_ascii keep
    by (cases s) (auto simp: ascii_form_def encode_query_component_def demo_crates_def two_hex_of_def list_all_iff byte_def)
  with hex show ?thesis by (simp add: encoders_ok_def) (simp add: demo_crates_def)
qed

lemma demo_built: "built demo_crates (add_secret demo_crates ''s3cr3t'' (new_redactor demo_crates [] []))"
  by (intro built_add built_new is_utf8_ascii) (simp_all add: byte_def)

section \<open>Properties\<close>



text \<open>
  C16.  A redacted URL tells no secret: no text that undoing up to three layers of percent encoding
  gives, with \<open>+\<close> read either way at each layer, contains a secret in any letter case.  Where a
  secret crosses the URL's structure, that holds of the origin, and the marker is all that follows it.
\<close>

theorem redacted_url_tells_nothing:
  assumes "decoder_ok X"
  shows "redact_url X r u = REDACTED \<or> \<not> tells X (rd_secrets r) (redact_url X r u)
    \<or> (\<exists>origin. redact_url X r u = origin @ ''/'' @ REDACTED \<and> \<not> tells X (rd_secrets r) origin)"
  using redact_url_cases [of X r u] by (simp add: reveals_secret_iff [OF assms])

theorem redacted_url_tells_nothing_witness:
  fixes r u
  defines "r \<equiv> add_secret demo_crates ''s3cr3t'' (new_redactor demo_crates [] [])" and "u \<equiv> ''http://h/a?b=s3cr3t''"
  shows "redact_url demo_crates r u = REDACTED \<or> \<not> tells demo_crates (rd_secrets r) (redact_url demo_crates r u)
    \<or> (\<exists>origin. redact_url demo_crates r u = origin @ ''/'' @ REDACTED \<and> \<not> tells demo_crates (rd_secrets r) origin)"
  by (rule redacted_url_tells_nothing) (simp add: decoder_ok_def demo_crates_def)

text \<open>
  The value of a header with a sensitive name shows nothing of its credential: it is the marker,
  or for an authorization header one word and the marker, or for cookies names each followed by the marker.
\<close>

lemma sensitive_header_masked:
  assumes "is_sensitive_name name (rd_extra_names r)" "lower name \<noteq> ''set-cookie''"
  shows "redact_header X r name v = REDACTED
    \<or> lower name \<in> {''authorization'', ''proxy-authorization''} \<and> (\<exists>w. CHR '' '' \<notin> set w \<and> redact_header X r name v = w @ '' '' @ REDACTED)
    \<or> lower name = ''cookie'' \<and> (\<exists>ns. redact_header X r name v = join_with ''; '' (map (\<lambda>n. n @ REDACTED) ns))"
proof (cases "redact_header X r name v = REDACTED")
  case False
  with redact_header_sensitive [OF assms(1)] obtain w where w: "redact_header X r name v = masked_header X r name w" by blast
  show ?thesis
    unfolding w using masked_header_credential [of name X r w] masked_header_cookie [of name X r w] assms(2) by metis
qed simp

text \<open>
  In a redacted JSON value every string or number held under a sensitive name, up to the depth
  the walk reaches, is the marker.
\<close>

lemma json_fields_masked:
  assumes "inside (json_value r v 0) d (Some key) w" "d \<le> 65" "is_sensitive_name key (rd_extra_names r)" "is_leaf w"
  shows "w = JString REDACTED"
  using inside_json_value [OF assms(1,2)] assms(3,4) by (auto simp: kept_value_def)

end
