(* ===== verification/Redact_Evidence.thy ===== *)
theory Redact_Evidence
  imports Redact
begin

text \<open>
  Redaction of evidence: diagnostic findings (\<^verbatim>\<open>finding\<close> and \<^verbatim>\<open>replace_each_once\<close> of
  \<^verbatim>\<open>crates/anvil-engine/src/redact.rs\<close>, on the types of \<^verbatim>\<open>crates/anvil-domain/src/diagnostics.rs\<close>), the forms a
  secret takes inside a decoded payload (\<^verbatim>\<open>note_decoded_secrets\<close>), and the excerpts of
  \<^verbatim>\<open>crates/anvil-domain/src/secret.rs\<close> that are redacted before they are cut.
\<close>

section \<open>Findings\<close>

datatype confidence = ConflictingEvidence | ConfidenceUnknown | Likely | Confirmed
datatype source_scope =
    LocalClient | ForwardProxy | ClientToPeer | GatewayAdmission | GatewayToUpstream | UpstreamApplication | ResponseDelivery | ScopeUnknown
datatype owner = Caller | GatewayOperator | ApiOwner | NetworkAdministrator | IdentityProvider | OwnerUnknown
datatype severity = SevInfo | SevWarning | SevError
datatype evidence_source =
    LocalValidation | NativeTransport | TlsVerifier | HttpStatus | HttpHeader | HttpTrailer | GrpcStatus | WebSocketClose | BodyCompletion
  | BodyContent | FerrumMarkerTrusted | FerrumMarkerUnverified | GatewayDetail | Configuration | Assertion

record evidence =
  ev_source :: evidence_source
  ev_key :: string
  ev_value :: string
  ev_attempt :: "32 word option"

record remediation =
  rm_text :: string
  rm_owner :: owner

record diagnostic_finding =
  df_code :: string
  df_rule_id :: string
  df_rule_version :: "32 word"
  df_title :: string
  df_explanation :: string
  df_scope :: source_scope
  df_confidence :: confidence
  df_severity :: severity
  df_evidence :: "evidence list"
  df_alternatives :: "string list"
  df_does_not_prove :: "string list"
  df_remediation :: "remediation list"
  df_owner :: owner
  df_confirm_with :: "string list"

text \<open>
  The pass of \<^verbatim>\<open>replace_each_once\<close> over pairs ordered by length: \<open>None\<close> is a pass that never ends,
  because the text to replace at its position is empty.
\<close>

function replace_pass :: "(string \<times> string) list \<Rightarrow> string \<Rightarrow> string option" where
  "replace_pass by_length rest =
     (if rest = [] then Some []
      else case find (\<lambda>p. is_prefix_of (fst p) rest) by_length of
             Some (from, into) \<Rightarrow> if from = [] then None else map_option ((@) into) (replace_pass by_length (drop (length from) rest))
           | None \<Rightarrow> map_option ((@) (take (len_utf8 (hd rest)) rest)) (replace_pass by_length (drop (len_utf8 (hd rest)) rest)))"
  by auto
termination
  by (relation "measure (\<lambda>(_, rest). length rest)") (auto simp: len_utf8_def)

declare replace_pass.simps [simp del]

definition replace_each_once :: "string \<Rightarrow> (string \<times> string) list \<Rightarrow> string option" where
  "replace_each_once s ps = (if ps = [] then Some s else replace_pass (sort_key (\<lambda>p. - int (length (fst p))) ps) s)"

lemma replace_each_once_ends:
  assumes "\<forall>p \<in> set ps. fst p \<noteq> []"
  shows "\<exists>out. replace_each_once s ps = Some out"
proof -
  have "\<exists>out. replace_pass qs s = Some out" if "\<forall>p \<in> set qs. fst p \<noteq> []" for qs s
    using that
  proof (induction qs s rule: replace_pass.induct)
    case (1 qs s)
    show ?case
    proof (cases "s = [] \<or> find (\<lambda>p. is_prefix_of (fst p) s) qs = None")
      case True
      with 1 show ?thesis by (subst replace_pass.simps) (auto split: option.splits)
    next
      case False
      then obtain p where p: "s \<noteq> []" "find (\<lambda>p. is_prefix_of (fst p) s) qs = Some p" by auto
      then have "fst p \<noteq> []" using "1.prems" by (auto simp: find_Some_iff)
      with p "1.IH"(2) [OF p(1) p(2), of "fst p" "snd p"] "1.prems" show ?thesis
        by (subst replace_pass.simps) (auto split: prod.splits)
    qed
  qed
  then show ?thesis using assms by (simp add: replace_each_once_def)
qed

definition redact_evidence :: "redact_externs \<Rightarrow> redactor \<Rightarrow> evidence \<Rightarrow> evidence \<times> (string \<times> string) list" where
  "redact_evidence X r e =
     (if ev_key e \<notin> set URL_EVIDENCE then (e\<lparr>ev_value := metadata_text X r (ev_value e)\<rparr>, [])
      else (let redacted = redact_url X r (ev_value e)
            in (e\<lparr>ev_value := redacted\<rparr>,
                if ev_value e \<noteq> [] \<and> redacted \<noteq> ev_value e then [(ev_value e, redacted)] else [])))"

definition finding :: "redact_externs \<Rightarrow> redactor \<Rightarrow> diagnostic_finding \<Rightarrow> diagnostic_finding option" where
  "finding X r f =
     (let evs = map (redact_evidence X r) (df_evidence f); urls = concat (map snd evs)
      in Option.bind (replace_each_once (df_explanation f) urls) (\<lambda>explanation.
         Option.bind (those (map (\<lambda>m. replace_each_once (rm_text m) urls) (df_remediation f))) (\<lambda>texts.
           Some (f\<lparr>df_title := metadata_text X r (df_title f), df_evidence := map fst evs,
                   df_explanation := metadata_text X r explanation,
                   df_alternatives := map (metadata_text X r) (df_alternatives f),
                   df_does_not_prove := map (metadata_text X r) (df_does_not_prove f),
                   df_confirm_with := map (metadata_text X r) (df_confirm_with f),
                   df_remediation := map2 (\<lambda>m t. m\<lparr>rm_text := metadata_text X r t\<rparr>) (df_remediation f) texts\<rparr>))))"

section \<open>Secrets inside decoded payloads\<close>

datatype payload_encoding = EncText | EncHex | EncBase64

definition PREVIEW_BYTES :: nat where "PREVIEW_BYTES = 2048"

fun trim_0x :: "string \<Rightarrow> string" where
  "trim_0x (a # b # s) = (if a = CHR ''0'' \<and> b = CHR ''x'' then trim_0x s else a # b # s)"
| "trim_0x s = s"

text \<open>The characters that are neither white space nor a colon.\<close>

function clean_hex :: "string \<Rightarrow> string" where
  "clean_hex s =
     (if s = [] then []
      else if 0 < ws_len s then clean_hex (drop (ws_len s) s)
      else if hd s = CHR '':'' then clean_hex (tl s)
      else hd s # clean_hex (tl s))"
  by auto
termination
  by (relation "measure length") (auto simp: neq_Nil_conv)

declare clean_hex.simps [simp del]

definition decode_needle :: "payload_encoding \<Rightarrow> string \<Rightarrow> string" where
  "decode_needle enc s = (case enc of EncText \<Rightarrow> [] | EncHex \<Rightarrow> lower (clean_hex (trim_0x (trim s))) | EncBase64 \<Rightarrow> trim s)"

definition window_of :: "payload_encoding \<Rightarrow> nat \<Rightarrow> range \<Rightarrow> range" where
  "window_of enc len m =
     (let (chars, bytes) = (if enc = EncHex then (2, 1) else (4, 3))
      in (fst m div chars * bytes, min ((snd m + chars - 1) div chars * bytes) len))"

definition secret_windows :: "string \<Rightarrow> payload_encoding \<Rightarrow> string \<Rightarrow> nat \<Rightarrow> range list" where
  "secret_windows s enc canon len =
     (if decode_needle enc s = [] then []
      else take MAX_DECODED_WINDOWS (map (window_of enc len) (match_ranges (decode_needle enc s) canon 0)))"

definition is_char_boundary :: "string \<Rightarrow> nat \<Rightarrow> bool" where
  "is_char_boundary s i \<longleftrightarrow> i = 0 \<or> i = length s \<or> i < length s \<and> \<not> continuation (s ! i)"

fun floor_boundary :: "string \<Rightarrow> nat \<Rightarrow> nat" where
  "floor_boundary s 0 = 0"
| "floor_boundary s (Suc i) = (if is_char_boundary s (Suc i) then Suc i else floor_boundary s i)"

function ceil_boundary :: "string \<Rightarrow> nat \<Rightarrow> nat" where
  "ceil_boundary s i = (if is_char_boundary s i \<or> length s \<le> i then i else ceil_boundary s (i + 1))"
  by auto
termination
  by (relation "measure (\<lambda>(s, i). length s - i)") auto

declare ceil_boundary.simps [simp del]

definition str_slice :: "string \<Rightarrow> nat \<Rightarrow> nat \<Rightarrow> string" where
  "str_slice s a b = take (b - a) (drop a s)"

text \<open>\<open>None\<close> is the panic of a slice that is out of range.\<close>

definition window_forms :: "redact_externs \<Rightarrow> string \<Rightarrow> range \<Rightarrow> string list option" where
  "window_forms X decoded w =
     (if fst w \<le> snd w \<and> snd w \<le> length decoded then
        Some (rx_hex X (str_slice decoded (fst w) (snd w)) #
              (if is_utf8 decoded then [str_slice decoded (floor_boundary decoded (fst w)) (ceil_boundary decoded (snd w))]
               else if is_utf8 (str_slice decoded (fst w) (snd w)) then [str_slice decoded (fst w) (snd w)] else []))
      else None)"

definition preview_forms :: "redact_externs \<Rightarrow> string \<Rightarrow> string list" where
  "preview_forms X decoded =
     rx_hex X (take (PREVIEW_BYTES div 2) decoded) #
     (if is_utf8 decoded then [take (floor_boundary decoded (min (length decoded) PREVIEW_BYTES)) decoded] else [])"

definition secret_window_forms :: "redact_externs \<Rightarrow> payload_encoding \<Rightarrow> string \<Rightarrow> string \<Rightarrow> string \<Rightarrow> string list option" where
  "secret_window_forms X enc canon decoded s =
     (let windows = secret_windows s enc canon (length decoded)
      in if windows = [] then Some (preview_forms X decoded)
         else map_option concat (those (map (window_forms X decoded) windows)))"

definition note_decoded_secrets :: "redact_externs \<Rightarrow> string list \<Rightarrow> nat \<Rightarrow> payload_encoding \<Rightarrow> string \<Rightarrow> string list \<Rightarrow> string list option" where
  "note_decoded_secrets X used since enc decoded known =
     (if enc = EncText then Some known
      else (let canon = (if enc = EncHex then rx_hex X decoded else rx_base64 X decoded);
                fresh = filter (\<lambda>s. MIN_SECRET_LEN \<le> length s) (drop since used)
            in map_option (\<lambda>fs. add_values (filter (\<lambda>f. MIN_SECRET_LEN \<le> length f) (concat fs)) known)
                 (those (map (secret_window_forms X enc canon decoded) fresh))))"

section \<open>Excerpts\<close>

definition REDACT_LOOKAHEAD_BYTES :: nat where "REDACT_LOOKAHEAD_BYTES = 64 * 1024"

definition floor_char_boundary :: "string \<Rightarrow> nat \<Rightarrow> nat" where
  "floor_char_boundary s i = floor_boundary s (min i (length s))"

definition common_prefix_len :: "string \<Rightarrow> string \<Rightarrow> nat" where
  "common_prefix_len a b = length (takeWhile (\<lambda>(x, y). x = y) (zip a b))"

definition redact_then_cut :: "(string \<Rightarrow> string) \<Rightarrow> string \<Rightarrow> nat \<Rightarrow> string" where
  "redact_then_cut redact window cut_off =
     (if length window \<le> cut_off then redact window
      else (let whole = redact window
            in if whole = window then take cut_off window
               else (let h = redact (take cut_off window); tail = redact (drop cut_off window)
                     in if length whole = length h + length tail \<and> is_prefix_of h whole \<and> ends_with whole tail then h
                        else take (floor_char_boundary h (common_prefix_len whole h)) h @ REDACTED)))"

text \<open>The offset of the character with an index, or the length.\<close>

function char_offset :: "nat \<Rightarrow> string \<Rightarrow> nat" where
  "char_offset n s = (if n = 0 \<or> s = [] then 0 else min (len_utf8 (hd s)) (length s) + char_offset (n - 1) (drop (len_utf8 (hd s)) s))"
  by auto
termination
  by (relation "measure fst") auto

declare char_offset.simps [simp del]

definition redacted_excerpt :: "(string \<Rightarrow> string) option \<Rightarrow> string \<Rightarrow> nat \<Rightarrow> string" where
  "redacted_excerpt redact s max_chars =
     (let cut_off = char_offset max_chars s
      in case redact of
           Some r \<Rightarrow> redact_then_cut r (take (floor_char_boundary s (saturating_add_u64 cut_off REDACT_LOOKAHEAD_BYTES)) s) cut_off
         | None \<Rightarrow> take cut_off s)"

datatype sensitive_value = Template string | SecretRef string string

definition is_pure_reference :: "sensitive_value \<Rightarrow> bool" where
  "is_pure_reference sv =
     (case sv of
        SecretRef _ _ \<Rightarrow> True
      | Template v \<Rightarrow>
          (let t = trim v
           in t = [] \<or> is_prefix_of ''{{'' t \<and> ends_with t ''}}'' \<and> length (match_ranges ''{{'' t 0) = 1))"

section \<open>Lemmas\<close>

subsection \<open>Metadata\<close>

lemma built_hides_automaton:
  assumes "automaton_ok X" "encoders_ok X" "built X r" "x \<in> set (rd_secrets r)" "p \<in> set (secret_forms X x)" "hidden p"
  shows "rd_matcher r = Some m \<Longrightarrow> \<not> sublist p (redact_text r s)"
    and "rd_any_case r = Some m \<Longrightarrow> eq_ignore_ascii_case q p \<Longrightarrow> hidden q \<Longrightarrow> \<not> sublist q (text_any_case r s)"
proof -
  have "indexed X r" by (rule built_indexed [OF assms(1-3)])
  with assms(4,5) obtain pats where pats: "p \<in> set pats" "\<forall>p \<in> set pats. p \<noteq> []"
    "case rd_matcher r of Some m \<Rightarrow> finds m pats | None \<Rightarrow> rd_fallback_patterns r = pats"
    "case rd_any_case r of Some m \<Rightarrow> finds_any_case m pats | None \<Rightarrow> rd_any_case_fallback r = map lower pats"
    unfolding indexed_def well_formed_def by blast
  show "rd_matcher r = Some m \<Longrightarrow> \<not> sublist p (redact_text r s)"
    using finds_hides [OF _ pats(2,1) assms(6)] pats(3) by (simp add: redact_text_def)
  show "rd_any_case r = Some m \<Longrightarrow> eq_ignore_ascii_case q p \<Longrightarrow> hidden q \<Longrightarrow> \<not> sublist q (text_any_case r s)"
    using finds_any_case_hides [OF _ pats(2,1)] pats(4) by (simp add: text_any_case_def)
qed

lemma metadata_hides: "(\<And>t. \<not> sublist q (text_any_case r t)) \<Longrightarrow> hidden q \<Longrightarrow> \<not> sublist q (metadata_text X r s)"
  by (simp add: metadata_text_def hidden_def)

text \<open>The texts of a finding that are not URLs.\<close>

definition finding_texts :: "diagnostic_finding \<Rightarrow> string set" where
  "finding_texts f = {df_title f, df_explanation f} \<union> set (df_alternatives f) \<union> set (df_does_not_prove f) \<union> set (df_confirm_with f)
     \<union> rm_text ` set (df_remediation f) \<union> ev_value ` {e \<in> set (df_evidence f). ev_key e \<notin> set URL_EVIDENCE}"

lemma those_Some: "\<forall>x \<in> set xs. \<exists>y. f x = Some y \<Longrightarrow> \<exists>ys. those (map f xs) = Some ys \<and> length ys = length xs"
  by (induction xs) auto

lemma redact_evidence_urls: "p \<in> set (snd (redact_evidence X r e)) \<Longrightarrow> fst p \<noteq> []"
  by (auto simp: redact_evidence_def Let_def split: if_splits)

lemma finding_returns: "\<exists>explanation texts. finding X r f =
    Some (f\<lparr>df_title := metadata_text X r (df_title f), df_evidence := map (\<lambda>e. fst (redact_evidence X r e)) (df_evidence f),
            df_explanation := metadata_text X r explanation,
            df_alternatives := map (metadata_text X r) (df_alternatives f),
            df_does_not_prove := map (metadata_text X r) (df_does_not_prove f),
            df_confirm_with := map (metadata_text X r) (df_confirm_with f),
            df_remediation := map2 (\<lambda>m t. m\<lparr>rm_text := metadata_text X r t\<rparr>) (df_remediation f) texts\<rparr>)"
proof -
  let ?urls = "concat (map snd (map (redact_evidence X r) (df_evidence f)))"
  have ends: "\<exists>out. replace_each_once t ?urls = Some out" for t
    by (rule replace_each_once_ends) (auto dest: redact_evidence_urls)
  obtain explanation where e: "replace_each_once (df_explanation f) ?urls = Some explanation" using ends by blast
  obtain texts where t: "those (map (\<lambda>m. replace_each_once (rm_text m) ?urls) (df_remediation f)) = Some texts"
    using those_Some [of "df_remediation f" "\<lambda>m. replace_each_once (rm_text m) ?urls"] ends by blast
  from e t show ?thesis by (auto simp: finding_def Let_def comp_def)
qed

lemma finding_texts_metadata: "finding X r f = Some f' \<Longrightarrow> t \<in> finding_texts f' \<Longrightarrow> \<exists>s. t = metadata_text X r s"
proof -
  assume f: "finding X r f = Some f'" and t: "t \<in> finding_texts f'"
  from finding_returns [of X r f] f obtain explanation texts where
    f': "f' = f\<lparr>df_title := metadata_text X r (df_title f), df_evidence := map (\<lambda>e. fst (redact_evidence X r e)) (df_evidence f),
            df_explanation := metadata_text X r explanation,
            df_alternatives := map (metadata_text X r) (df_alternatives f),
            df_does_not_prove := map (metadata_text X r) (df_does_not_prove f),
            df_confirm_with := map (metadata_text X r) (df_confirm_with f),
            df_remediation := map2 (\<lambda>m t. m\<lparr>rm_text := metadata_text X r t\<rparr>) (df_remediation f) texts\<rparr>" by auto
  have "\<exists>s. ev_value (fst (redact_evidence X r e)) = metadata_text X r s" if "ev_key (fst (redact_evidence X r e)) \<notin> set URL_EVIDENCE" for e
    using that by (auto simp: redact_evidence_def Let_def split: if_splits)
  with t show "\<exists>s. t = metadata_text X r s" unfolding f' finding_texts_def by (auto dest!: set_zip_leftD)
qed

subsection \<open>Windows\<close>

definition hex_ok :: "redact_externs \<Rightarrow> bool" where
  "hex_ok X \<longleftrightarrow> (\<exists>h. (\<forall>c. length (h c) = 2) \<and> (\<forall>s. rx_hex X s = concat (map h s)))"

definition base64_ok :: "redact_externs \<Rightarrow> bool" where
  "base64_ok X \<longleftrightarrow> (\<forall>s. length (rx_base64 X s) = 4 * ((length s + 2) div 3))"

lemma concat_pairs:
  assumes "\<And>c. length (h c) = 2"
  shows "length (concat (map h s)) = 2 * length s" "drop (2 * a) (concat (map h s)) = concat (map h (drop a s))"
    "take (2 * a) (concat (map h s)) = concat (map h (take a s))"
proof -
  show len: "length (concat (map h s)) = 2 * length s" by (induction s) (simp_all add: assms)
  have both: "drop (2 * a) (concat (map h s)) = concat (map h (drop a s)) \<and> take (2 * a) (concat (map h s)) = concat (map h (take a s))"
  proof (induction s arbitrary: a)
    case (Cons c s)
    then show ?case by (cases a) (simp_all add: assms)
  qed simp
  then show "drop (2 * a) (concat (map h s)) = concat (map h (drop a s))" "take (2 * a) (concat (map h s)) = concat (map h (take a s))" by simp_all
qed

lemma window_of_bounds:
  assumes "fst m < snd m" "snd m \<le> length canon" "enc = EncHex \<and> length canon = 2 * n \<or> enc = EncBase64 \<and> length canon = 4 * ((n + 2) div 3)"
  shows "fst (window_of enc n m) \<le> snd (window_of enc n m) \<and> snd (window_of enc n m) \<le> n"
  using assms(3)
proof
  assume e: "enc = EncHex \<and> length canon = 2 * n"
  then have "fst m div 2 \<le> (snd m + 1) div 2" "fst m div 2 \<le> n" using assms(1,2) by (auto intro: div_le_mono)
  with e show ?thesis by (simp add: window_of_def)
next
  assume e: "enc = EncBase64 \<and> length canon = 4 * ((n + 2) div 3)"
  then have k: "fst m div 4 < (n + 2) div 3" using assms(1,2) by (simp add: div_less_iff_less_mult)
  have "fst m div 4 \<le> (snd m + 3) div 4" using assms(1) by (auto intro: div_le_mono)
  moreover have "fst m div 4 * 3 \<le> n" using k by linarith
  ultimately show ?thesis using e by (simp add: window_of_def)
qed

lemma secret_windows_bounds:
  assumes "w \<in> set (secret_windows s enc canon n)" "enc = EncHex \<and> length canon = 2 * n \<or> enc = EncBase64 \<and> length canon = 4 * ((n + 2) div 3)"
  shows "fst w \<le> snd w \<and> snd w \<le> n"
proof -
  from assms(1) have ne: "decode_needle enc s \<noteq> []" by (auto simp: secret_windows_def)
  with assms(1) have "w \<in> set (map (window_of enc n) (match_ranges (decode_needle enc s) canon 0))"
    unfolding secret_windows_def by (metis in_set_takeD)
  with ne obtain m where m: "m \<in> set (match_ranges (decode_needle enc s) canon 0)" "w = window_of enc n m" "decode_needle enc s \<noteq> []" by auto
  from match_ranges_occurs [OF m(1)] m(3) have "fst m < snd m" "snd m \<le> length canon" by (auto simp: occurs_at_def)
  from window_of_bounds [OF this assms(2)] m(2) show ?thesis by simp
qed

lemma note_decoded_returns:
  assumes "hex_ok X" "base64_ok X"
  shows "\<exists>known'. note_decoded_secrets X used since enc decoded known = Some known' \<and> set known \<subseteq> set known'"
proof (cases "enc = EncText")
  case False
  let ?canon = "if enc = EncHex then rx_hex X decoded else rx_base64 X decoded"
  have len: "enc = EncHex \<and> length ?canon = 2 * length decoded \<or> enc = EncBase64 \<and> length ?canon = 4 * ((length decoded + 2) div 3)"
    using False assms by (cases enc) (auto simp: hex_ok_def base64_ok_def concat_pairs(1))
  have "\<exists>fs. secret_window_forms X enc ?canon decoded s = Some fs" for s
  proof -
    have "\<forall>w \<in> set (secret_windows s enc ?canon (length decoded)). \<exists>fs. window_forms X decoded w = Some fs"
      using secret_windows_bounds [OF _ len] by (auto simp: window_forms_def)
    from those_Some [OF this] show ?thesis by (auto simp: secret_window_forms_def Let_def)
  qed
  then have "\<exists>fss. those (map (secret_window_forms X enc ?canon decoded) (filter (\<lambda>s. MIN_SECRET_LEN \<le> length s) (drop since used))) = Some fss"
    using those_Some [of "filter (\<lambda>s. MIN_SECRET_LEN \<le> length s) (drop since used)" "secret_window_forms X enc ?canon decoded"] by blast
  with False show ?thesis by (auto simp: note_decoded_secrets_def Let_def add_values_set)
qed (simp add: note_decoded_secrets_def)

lemma those_member: "those (map f xs) = Some ys \<Longrightarrow> x \<in> set xs \<Longrightarrow> \<exists>y. f x = Some y \<and> y \<in> set ys"
  by (induction xs arbitrary: ys) (auto split: option.splits)

lemma match_ranges_some: "occurs_at p s i \<Longrightarrow> p \<noteq> [] \<Longrightarrow> match_ranges p s 0 \<noteq> []"
  using str_find_none [of p s i] by (auto simp: match_ranges.simps [of p s 0] split: option.splits)

lemma occurs_at_slice: "a + n \<le> length s \<Longrightarrow> occurs_at (take n (drop a s)) s a"
  by (simp add: occurs_at_def)

lemma hex_window_covers:
  assumes "hex_ok X" "occurs_at needle (rx_hex X decoded) i" "needle \<noteq> []" "w = window_of EncHex (length decoded) (i, i + length needle)"
  shows "sublist needle (rx_hex X (str_slice decoded (fst w) (snd w)))" "2 * ((length needle + 1) div 2) \<le> length (rx_hex X (str_slice decoded (fst w) (snd w)))"
proof -
  from assms(1) obtain h where h: "\<And>c. length (h c) = 2" "\<And>s. rx_hex X s = concat (map h s)" unfolding hex_ok_def by blast
  let ?a = "i div 2" and ?b = "(i + length needle + 1) div 2" and ?canon = "rx_hex X decoded"
  have len: "i + length needle \<le> 2 * length decoded" using assms(2) by (simp add: occurs_at_def h(2) concat_pairs(1) [OF h(1)])
  then have w: "fst w = ?a" "snd w = ?b" "?b \<le> length decoded" using assms(4) by (simp_all add: window_of_def)
  have win: "rx_hex X (str_slice decoded (fst w) (snd w)) = take (2 * (?b - ?a)) (drop (2 * ?a) ?canon)"
    by (simp add: w str_slice_def h(2) concat_pairs [OF h(1)])
  have long: "2 * ?a \<le> i" "i + length needle \<le> 2 * ?b" by linarith+
  have "length (rx_hex X (str_slice decoded (fst w) (snd w))) = 2 * (?b - ?a)"
    using w by (simp add: h(2) concat_pairs [OF h(1)] str_slice_def)
  moreover have "length needle \<le> 2 * k \<Longrightarrow> (length needle + 1) div 2 \<le> k" for k by presburger
  moreover have "length needle \<le> 2 * (?b - ?a)" using long by linarith
  ultimately show "2 * ((length needle + 1) div 2) \<le> length (rx_hex X (str_slice decoded (fst w) (snd w)))" by simp
  have "occurs_at (take (2 * (?b - ?a)) (drop (2 * ?a) ?canon)) ?canon (2 * ?a)"
  proof (rule occurs_at_slice)
    have "?a \<le> ?b" "length ?canon = 2 * length decoded" using concat_pairs(1) [OF h(1)] by (simp_all add: h(2) div_le_mono)
    then show "2 * ?a + 2 * (?b - ?a) \<le> length ?canon" using w(3) by simp
  qed
  from occurs_within [OF this assms(2)] long show "sublist needle (rx_hex X (str_slice decoded (fst w) (snd w)))"
    unfolding win using w(3) by (simp add: h(2) concat_pairs(1) [OF h(1)])
qed

lemma secret_window_forms_hex:
  assumes "hex_ok X" "sublist (decode_needle EncHex s) (rx_hex X decoded)" "2 < length (decode_needle EncHex s)"
    "secret_window_forms X EncHex (rx_hex X decoded) decoded s = Some fs"
  shows "\<exists>f \<in> set fs. MIN_SECRET_LEN \<le> length f \<and> sublist (decode_needle EncHex s) f"
proof -
  let ?needle = "decode_needle EncHex s" and ?canon = "rx_hex X decoded"
  have ne: "?needle \<noteq> []" using assms(3) by auto
  with assms(2) obtain m ms where m: "match_ranges ?needle ?canon 0 = m # ms"
    using match_ranges_some by (metis list.exhaust occurs_at_sublist)
  let ?w = "window_of EncHex (length decoded) m"
  have win: "?w \<in> set (secret_windows s EncHex ?canon (length decoded))"
    using ne m by (simp add: secret_windows_def MAX_DECODED_WINDOWS_def)
  with assms(4) obtain fss where "those (map (window_forms X decoded) (secret_windows s EncHex ?canon (length decoded))) = Some fss" "fs = concat fss"
    by (auto simp: secret_window_forms_def Let_def split: if_splits)
  with those_member [OF _ win] obtain gs where gs: "window_forms X decoded ?w = Some gs" "set gs \<subseteq> set fs" by fastforce
  from match_ranges_occurs [of m ?needle ?canon 0] m have occ: "occurs_at ?needle ?canon (fst m)" "m = (fst m, fst m + length ?needle)"
    by (simp_all add: prod_eq_iff)
  have "4 \<le> 2 * ((length ?needle + 1) div 2)" using assms(3) by presburger
  with hex_window_covers [OF assms(1) occ(1) ne, of ?w] occ(2) have
    "sublist ?needle (rx_hex X (str_slice decoded (fst ?w) (snd ?w)))" "MIN_SECRET_LEN \<le> length (rx_hex X (str_slice decoded (fst ?w) (snd ?w)))"
    by (simp_all add: MIN_SECRET_LEN_def)
  moreover have "rx_hex X (str_slice decoded (fst ?w) (snd ?w)) \<in> set gs" using gs(1) by (auto simp: window_forms_def split: if_splits)
  ultimately show ?thesis using gs(2) by blast
qed

lemma note_decoded_hex:
  assumes "hex_ok X" "s \<in> set (drop since used)" "MIN_SECRET_LEN \<le> length s" "note_decoded_secrets X used since EncHex decoded known = Some known'"
    "sublist (decode_needle EncHex s) (rx_hex X decoded)" "2 < length (decode_needle EncHex s)"
  shows "\<exists>f \<in> set known'. MIN_SECRET_LEN \<le> length f \<and> sublist (decode_needle EncHex s) f"
proof -
  let ?fresh = "filter (\<lambda>s. MIN_SECRET_LEN \<le> length s) (drop since used)"
  from assms(4) obtain fss where fss: "those (map (secret_window_forms X EncHex (rx_hex X decoded) decoded) ?fresh) = Some fss"
    "set known' = set known \<union> set (filter (\<lambda>f. MIN_SECRET_LEN \<le> length f) (concat fss))"
    by (auto simp: note_decoded_secrets_def Let_def add_values_set)
  from those_member [OF fss(1), of s] assms(2,3) obtain fs where fs: "secret_window_forms X EncHex (rx_hex X decoded) decoded s = Some fs" "fs \<in> set fss"
    by auto
  from secret_window_forms_hex [OF assms(1,5,6) fs(1)] obtain f where "f \<in> set fs" "MIN_SECRET_LEN \<le> length f" "sublist (decode_needle EncHex s) f" by blast
  with fs(2) fss(2) show ?thesis by auto
qed

subsection \<open>Cuts\<close>

lemma hidden_append_REDACTED:
  assumes "hidden q" "sublist q (a @ REDACTED)"
  shows "sublist q a"
proof -
  have "sublist q (join_with REDACTED [a, []])" using assms(2) by simp
  from hidden_join [OF assms(1) this] assms(1) show ?thesis by (auto simp: hidden_def)
qed

lemma sublist_take_trans: "sublist q (take n s) \<Longrightarrow> sublist q s"
  using sublist_order.order_trans sublist_take by blast

lemma redact_then_cut_hides:
  assumes "\<And>t. \<not> sublist q (redact t)" "hidden q"
  shows "\<not> sublist q (redact_then_cut redact window n)"
proof
  assume sub: "sublist q (redact_then_cut redact window n)"
  then consider "sublist q (redact window)" | "redact window = window" "sublist q (take n window)" | "sublist q (redact (take n window))"
    | k where "sublist q (take k (redact (take n window)) @ REDACTED)"
    by (auto simp: redact_then_cut_def Let_def split: if_splits)
  then show False
    by cases (metis assms(1) assms(2) hidden_append_REDACTED sublist_take_trans)+
qed

section \<open>Properties\<close>

lemma demo_automata:
  "\<exists>m. rd_matcher (add_secret demo_crates ''s3cr3t'' (new_redactor demo_crates [] [])) = Some m"
  "\<exists>m. rd_any_case (add_secret demo_crates ''s3cr3t'' (new_redactor demo_crates [] [])) = Some m"
proof -
  have "''s3cr3t'' \<in> set (patterns_of demo_crates (sort_longest_first [''s3cr3t'']))" by (simp add: patterns_of_def secret_forms_def)
  then have "patterns_of demo_crates (sort_longest_first [''s3cr3t'']) \<noteq> []" by auto
  moreover have "add_secret demo_crates ''s3cr3t'' (new_redactor demo_crates [] []) =
      reindex demo_crates ((new_redactor demo_crates [] [])\<lparr>rd_secrets := [''s3cr3t'']\<rparr>)"
    by (simp add: add_secret_def new_redactor_def reindex_fields(1) sort_longest_first_def MIN_SECRET_LEN_def)
  moreover have "\<exists>m. rx_build demo_crates b pats = Some m" for b pats by (simp add: demo_crates_def)
  ultimately show "\<exists>m. rd_matcher (add_secret demo_crates ''s3cr3t'' (new_redactor demo_crates [] [])) = Some m"
    "\<exists>m. rd_any_case (add_secret demo_crates ''s3cr3t'' (new_redactor demo_crates [] [])) = Some m"
    by (simp_all add: reindex_fields(2,3))
qed


definition demo_finding :: diagnostic_finding where
  "demo_finding = \<lparr>df_code = ''c'', df_rule_id = ''r'', df_rule_version = 1, df_title = ''s3cr3t'', df_explanation = ''see http://h/s3cr3t'',
     df_scope = ClientToPeer, df_confidence = Likely, df_severity = SevInfo,
     df_evidence = [\<lparr>ev_source = BodyContent, ev_key = ''body.problem.type'', ev_value = ''http://h/s3cr3t'', ev_attempt = None\<rparr>],
     df_alternatives = [], df_does_not_prove = [], df_remediation = [], df_owner = Caller, df_confirm_with = []\<rparr>"


text \<open>
  Noting what the secrets of an encoded payload decode to never slices out of range, keeps what is
  known, and for a hexadecimal payload that contains a secret (cleaned as the decoder cleans it, of at
  least three digits) registers a form that contains it.
\<close>

lemma decoded_secrets_noted:
  assumes "hex_ok X" "base64_ok X"
  shows "\<exists>known'. note_decoded_secrets X used since enc decoded known = Some known' \<and> set known \<subseteq> set known'
    \<and> (\<forall>s \<in> set (drop since used). enc = EncHex \<longrightarrow> MIN_SECRET_LEN \<le> length s \<longrightarrow> 2 < length (decode_needle enc s) \<longrightarrow>
         sublist (decode_needle enc s) (rx_hex X decoded) \<longrightarrow> (\<exists>f \<in> set known'. MIN_SECRET_LEN \<le> length f \<and> sublist (decode_needle enc s) f))"
proof -
  from note_decoded_returns [OF assms] obtain known' where
    k: "note_decoded_secrets X used since enc decoded known = Some known'" "set known \<subseteq> set known'" by blast
  with note_decoded_hex [OF assms(1)] show ?thesis by blast
qed



end
