(* ===== verification/Ws_Deflate.thy ===== *)
theory Ws_Deflate
  imports Net_Addr
begin

text \<open>
  \<^verbatim>\<open>permessage-deflate\<close> of the WebSocket adapter (\<^verbatim>\<open>crates/anvil-transport/src/ws_deflate.rs\<close>): the offer, the
  parser of the server's answer, the check of the answer against the offer, and the meter that counts
  messages and payload bytes from frame headers.  Window sizes are \<^verbatim>\<open>u8\<close> values that the parser bounds;
  the meter's counters are 64-bit words.  A panic of the meter is \<open>None\<close>.
\<close>

unbundle bit_operations_syntax

section \<open>The offer and the answer\<close>

definition EXTENSION :: string where "EXTENSION = ''permessage-deflate''"

record deflate_offer =
  of_server_nct :: bool
  of_client_nct :: bool
  of_server_bits :: "nat option"
  of_client_bits :: "nat option"

record ws_deflate_params =
  dp_server_nct :: bool
  dp_client_nct :: bool
  dp_server_bits :: "nat option"
  dp_client_bits :: "nat option"
  dp_client_compresses :: bool

text \<open>The setup of the codec of \<^verbatim>\<open>tungstenite\<close>.\<close>

record deflate_config =
  dc_compress :: bool
  dc_compress_window_bits :: nat
  dc_compress_nct :: bool
  dc_decompress_nct :: bool
  dc_level :: nat

text \<open>The names of the four parameters.\<close>

definition SERVER_NCT :: string where "SERVER_NCT = ''server_no_context_takeover''"
definition CLIENT_NCT :: string where "CLIENT_NCT = ''client_no_context_takeover''"
definition SERVER_BITS :: string where "SERVER_BITS = ''server_max_window_bits''"
definition CLIENT_BITS :: string where "CLIENT_BITS = ''client_max_window_bits''"

lemma param_names [simp]:
  "SERVER_NCT \<noteq> CLIENT_NCT" "SERVER_NCT \<noteq> SERVER_BITS" "SERVER_NCT \<noteq> CLIENT_BITS" "CLIENT_NCT \<noteq> SERVER_NCT" "CLIENT_NCT \<noteq> SERVER_BITS"
  "CLIENT_NCT \<noteq> CLIENT_BITS" "SERVER_BITS \<noteq> SERVER_NCT" "SERVER_BITS \<noteq> CLIENT_NCT" "SERVER_BITS \<noteq> CLIENT_BITS" "CLIENT_BITS \<noteq> SERVER_NCT"
  "CLIENT_BITS \<noteq> CLIENT_NCT" "CLIENT_BITS \<noteq> SERVER_BITS"
  by (simp_all add: SERVER_NCT_def CLIENT_NCT_def SERVER_BITS_def CLIENT_BITS_def)

definition header_value :: "deflate_offer \<Rightarrow> string" where
  "header_value ofr =
     EXTENSION
     @ (if of_server_nct ofr then ''; '' @ SERVER_NCT else [])
     @ (if of_client_nct ofr then ''; '' @ CLIENT_NCT else [])
     @ (case of_server_bits ofr of Some b \<Rightarrow> ''; '' @ SERVER_BITS @ ''='' @ show_nat b | None \<Rightarrow> [])
     @ (case of_client_bits ofr of Some b \<Rightarrow> ''; '' @ CLIENT_BITS @ ''='' @ show_nat b | None \<Rightarrow> ''; '' @ CLIENT_BITS)"

definition describe_deflate :: "ws_deflate_params \<Rightarrow> string" where
  "describe_deflate p =
     (let bits = (\<lambda>b. ''2^'' @ show_nat (case b of Some n \<Rightarrow> n | None \<Rightarrow> 15))
      in ''permessage-deflate negotiated: server window '' @ bits (dp_server_bits p) @ '' with''
         @ (if dp_server_nct p then ''out'' else []) @ '' context takeover, Anvil window '' @ bits (dp_client_bits p) @ '' with''
         @ (if dp_client_nct p then ''out'' else []) @ '' context takeover''
         @ (if dp_client_compresses p then []
            else ''; Anvil sends its messages uncompressed because it cannot compress within a 256-byte window''))"

definition is_tchar :: "char \<Rightarrow> bool" where
  "is_tchar c \<longleftrightarrow> 48 \<le> byte c \<and> byte c \<le> 57 \<or> 65 \<le> byte c \<and> byte c \<le> 90 \<or> 97 \<le> byte c \<and> byte c \<le> 122
     \<or> c \<in> set (''!#$%&'' @ [CHR 0x27] @ ''*+-.^_'' @ [CHR 0x60] @ ''|~'')"

definition is_token :: "string \<Rightarrow> bool" where
  "is_token s \<longleftrightarrow> s \<noteq> [] \<and> list_all is_tchar s"

text \<open>\<^verbatim>\<open>split_outside_quotes\<close>: inside a quoted string, after a backslash, the part so far.\<close>

fun split_quoted :: "char \<Rightarrow> bool \<Rightarrow> bool \<Rightarrow> string \<Rightarrow> string \<Rightarrow> string + string list" where
  "split_quoted sep quot esc part [] = (if quot then Inl ''an unterminated quoted string'' else Inr [part])"
| "split_quoted sep quot esc part (c # cs) =
     (if esc then split_quoted sep quot False (part @ [c]) cs
      else if c = CHR 0x5C \<and> quot then split_quoted sep quot True (part @ [c]) cs
      else if c = CHR 0x22 then split_quoted sep (\<not> quot) False (part @ [c]) cs
      else if c = sep \<and> \<not> quot then map_sum id ((#) part) (split_quoted sep quot False [] cs)
      else split_quoted sep quot False (part @ [c]) cs)"

definition split_outside_quotes :: "string \<Rightarrow> char \<Rightarrow> string + string list" where
  "split_outside_quotes s sep = split_quoted sep False False [] s"

fun unescape :: "bool \<Rightarrow> string \<Rightarrow> string" where
  "unescape esc [] = []"
| "unescape esc (c # cs) = (if \<not> esc \<and> c = CHR 0x5C then unescape True cs else c # unescape False cs)"

type_synonym ext_param = "string \<times> string option"
type_synonym element = "string \<times> ext_param list"

definition parse_value :: "string \<Rightarrow> string option \<Rightarrow> string + string option" where
  "parse_value k v =
     (case v of
        None \<Rightarrow> Inr None
      | Some v \<Rightarrow>
          (if 2 \<le> length v \<and> hd v = CHR 0x22 \<and> last v = CHR 0x22 then
             (let s = unescape False (butlast (tl v))
              in if is_token s then Inr (Some s) else Inl (''the value of '' @ k @ '' is not a token''))
           else if is_token v then Inr (Some v)
           else Inl (''the value of '' @ k @ '' is not a token'')))"

definition parse_param :: "string \<Rightarrow> string \<Rightarrow> string + ext_param" where
  "parse_param name p =
     (case (case split_once CHR ''='' p of Some (k, v) \<Rightarrow> (trim k, Some (trim v)) | None \<Rightarrow> (trim p, None)) of
        (k, v) \<Rightarrow>
          (if \<not> is_token k then Inl ([CHR 0x27] @ trim p @ [CHR 0x27] @ '' is not a valid parameter of '' @ name)
           else map_sum id (\<lambda>v. (map ascii_lower k, v)) (parse_value k v)))"

fun parse_params :: "string \<Rightarrow> string list \<Rightarrow> string + ext_param list" where
  "parse_params name [] = Inr []"
| "parse_params name (p # ps) =
     (case parse_param name p of
        Inl e \<Rightarrow> Inl e
      | Inr q \<Rightarrow> map_sum id ((#) q) (parse_params name ps))"

definition parse_element :: "string \<Rightarrow> string + element" where
  "parse_element item =
     (case split_outside_quotes item CHR '';'' of
        Inl e \<Rightarrow> Inl e
      | Inr parts \<Rightarrow>
          (let name = trim (case parts of [] \<Rightarrow> [] | p # _ \<Rightarrow> p)
           in if \<not> is_token name then Inl ([CHR 0x27] @ name @ [CHR 0x27] @ '' is not a valid extension name'')
              else map_sum id (\<lambda>ps. (map ascii_lower name, ps)) (parse_params name (tl parts))))"

fun parse_items :: "string list \<Rightarrow> string + element list" where
  "parse_items [] = Inr []"
| "parse_items (i # is) =
     (if trim i = [] then parse_items is
      else case parse_element i of Inl e \<Rightarrow> Inl e | Inr el \<Rightarrow> map_sum id ((#) el) (parse_items is))"

fun parse_extensions :: "string list \<Rightarrow> string + element list" where
  "parse_extensions [] = Inr []"
| "parse_extensions (v # vs) =
     (case split_outside_quotes v CHR '','' of
        Inl e \<Rightarrow> Inl e
      | Inr items \<Rightarrow>
          (case parse_items items of Inl e \<Rightarrow> Inl e | Inr els \<Rightarrow> map_sum id ((@) els) (parse_extensions vs)))"

definition window_bits :: "string \<Rightarrow> string option \<Rightarrow> string + nat" where
  "window_bits name v =
     (case v of
        None \<Rightarrow> Inl (name @ '' has no value, but the answer must give one (8 to 15)'')
      | Some s \<Rightarrow>
          (case (if \<not> is_prefix_of ''0'' s then parse_unsigned 255 s else None) of
             Some b \<Rightarrow> if 8 \<le> b \<and> b \<le> 15 then Inr b else Inl (name @ ''='' @ s @ '' is not a window size from 8 to 15'')
           | None \<Rightarrow> Inl (name @ ''='' @ s @ '' is not a window size from 8 to 15'')))"

text \<open>The loop of \<^verbatim>\<open>negotiate\<close> over the parameters: what the answer sets, and the names it has seen.\<close>

record answer_params =
  ap_server_nct :: bool
  ap_client_nct :: bool
  ap_server_bits :: "nat option"
  ap_client_bits :: "nat option"

definition read_param :: "ext_param \<Rightarrow> answer_params \<Rightarrow> string + answer_params" where
  "read_param p a =
     (case p of (k, v) \<Rightarrow>
        (if k = SERVER_NCT \<or> k = CLIENT_NCT then
           (case v of
              Some v \<Rightarrow> Inl (k @ '' takes no value, but the answer gives '' @ k @ ''='' @ v)
            | None \<Rightarrow> Inr (if k = SERVER_NCT then a\<lparr>ap_server_nct := True\<rparr> else a\<lparr>ap_client_nct := True\<rparr>))
         else if k = SERVER_BITS then map_sum id (\<lambda>b. a\<lparr>ap_server_bits := Some b\<rparr>) (window_bits k v)
         else if k = CLIENT_BITS then map_sum id (\<lambda>b. a\<lparr>ap_client_bits := Some b\<rparr>) (window_bits k v)
         else Inl (k @ '' is not a permessage-deflate parameter'')))"

fun read_params :: "string list \<Rightarrow> ext_param list \<Rightarrow> answer_params \<Rightarrow> string + answer_params" where
  "read_params seen [] a = Inr a"
| "read_params seen (p # ps) a =
     (if fst p \<in> set seen then Inl (''the answer repeats '' @ fst p)
      else case read_param p a of Inl e \<Rightarrow> Inl e | Inr a' \<Rightarrow> read_params (seen @ [fst p]) ps a')"

definition no_answer_params :: answer_params where
  "no_answer_params = \<lparr>ap_server_nct = False, ap_client_nct = False, ap_server_bits = None, ap_client_bits = None\<rparr>"

text \<open>The checks of an answer against the offer: the reason for a refusal.\<close>

definition refuse_server_nct :: "deflate_offer \<Rightarrow> answer_params \<Rightarrow> string option" where
  "refuse_server_nct ofr a =
     (if of_server_nct ofr \<and> \<not> ap_server_nct a
      then Some ''the offer asked for server_no_context_takeover, but the answer does not include it'' else None)"

definition refuse_server_bits :: "deflate_offer \<Rightarrow> answer_params \<Rightarrow> string option" where
  "refuse_server_bits ofr a =
     (case of_server_bits ofr of
        None \<Rightarrow> None
      | Some asked \<Rightarrow>
          (case ap_server_bits a of
             None \<Rightarrow> Some (''the offer asked for server_max_window_bits='' @ show_nat asked @ '', but the answer does not include it'')
           | Some b \<Rightarrow>
               if asked < b
               then Some (''the answer'' @ [CHR 0x27] @ ''s server_max_window_bits='' @ show_nat b @ '' is larger than the '' @ show_nat asked @ '' Anvil asked for'')
               else None))"

definition refuse_client_bits :: "deflate_offer \<Rightarrow> answer_params \<Rightarrow> string option" where
  "refuse_client_bits ofr a =
     (case (of_client_bits ofr, ap_client_bits a) of
        (Some limit, Some b) \<Rightarrow>
          if limit < b
          then Some (''the answer'' @ [CHR 0x27] @ ''s client_max_window_bits='' @ show_nat b @ '' is larger than the '' @ show_nat limit @ '' Anvil offered'')
          else None
      | _ \<Rightarrow> None)"

type_synonym agreed = "ws_deflate_params \<times> deflate_config"

definition agreed_on :: "deflate_offer \<Rightarrow> answer_params \<Rightarrow> agreed" where
  "agreed_on ofr a =
     (let client_nct = (ap_client_nct a \<or> of_client_nct ofr);
          client_window = (case ap_client_bits a of Some b \<Rightarrow> Some b | None \<Rightarrow> of_client_bits ofr);
          bits = (case client_window of Some b \<Rightarrow> b | None \<Rightarrow> 15);
          client_compresses = (9 \<le> bits)
      in (\<lparr>dp_server_nct = ap_server_nct a, dp_client_nct = client_nct, dp_server_bits = ap_server_bits a,
           dp_client_bits = client_window, dp_client_compresses = client_compresses\<rparr>,
          \<lparr>dc_compress = client_compresses, dc_compress_window_bits = max bits 9, dc_compress_nct = client_nct,
           dc_decompress_nct = ap_server_nct a, dc_level = 6\<rparr>))"

definition check_answer :: "deflate_offer \<Rightarrow> answer_params \<Rightarrow> string + agreed" where
  "check_answer ofr a =
     (case refuse_server_nct ofr a of
        Some e \<Rightarrow> Inl e
      | None \<Rightarrow>
          (case refuse_server_bits ofr a of
             Some e \<Rightarrow> Inl e
           | None \<Rightarrow> (case refuse_client_bits ofr a of Some e \<Rightarrow> Inl e | None \<Rightarrow> Inr (agreed_on ofr a))))"

definition not_offered :: "string \<Rightarrow> string" where
  "not_offered name = ''the server accepted the extension '' @ [CHR 0x27] @ name @ [CHR 0x27] @ '', which Anvil did not offer''"

definition negotiate :: "deflate_offer option \<Rightarrow> string list \<Rightarrow> bool \<Rightarrow> string + agreed option" where
  "negotiate offer answer raw_offer =
     (case parse_extensions answer of
        Inl e \<Rightarrow> Inl (''the Sec-WebSocket-Extensions answer is malformed: '' @ e)
      | Inr [] \<Rightarrow> Inr None
      | Inr (first # others) \<Rightarrow>
          (case (if fst first = EXTENSION then offer else None) of
             None \<Rightarrow>
               Inl (not_offered (fst first)
                    @ (if raw_offer
                       then ''; Anvil runs only a permessage-deflate it offered itself, not one offered through a custom Sec-WebSocket-Extensions header''
                       else []))
           | Some ofr \<Rightarrow>
               (case others of
                  extra # _ \<Rightarrow>
                    Inl (if fst extra = EXTENSION then ''the answer names permessage-deflate more than once'' else not_offered (fst extra))
                | [] \<Rightarrow>
                    (case read_params [] (snd first) no_answer_params of
                       Inl e \<Rightarrow> Inl e
                     | Inr a \<Rightarrow> map_sum id Some (check_answer ofr a)))))"

section \<open>The frame meter\<close>

record ws_totals =
  wt_messages :: "64 word"
  wt_compressed :: "64 word"
  wt_payload_bytes :: "64 word"
  wt_wire_bytes :: "64 word"

record dir_meter =
  dm_header :: "octet list"
  dm_have :: nat
  dm_need :: nat
  dm_skip :: "64 word"
  dm_data :: bool
  dm_totals :: ws_totals

definition new_meter :: dir_meter where
  "new_meter = \<lparr>dm_header = replicate 14 0, dm_have = 0, dm_need = 0, dm_skip = 0, dm_data = False,
     dm_totals = \<lparr>wt_messages = 0, wt_compressed = 0, wt_payload_bytes = 0, wt_wire_bytes = 0\<rparr>\<rparr>"

definition extended_len :: "octet \<Rightarrow> nat" where
  "extended_len b = (if b AND 0x7f = 126 then 2 else if b AND 0x7f = 127 then 8 else 0)"

definition mask_len :: "octet \<Rightarrow> nat" where
  "mask_len b = (if b AND 0x80 \<noteq> 0 then 4 else 0)"

text \<open>The payload length of the header, and the end of a header.\<close>

definition frame_len :: "octet list \<Rightarrow> 64 word" where
  "frame_len h =
     (if h ! 1 AND 0x7f = 126 then ucast (be_word [h ! 2, h ! 3] :: 16 word)
      else if h ! 1 AND 0x7f = 127 then be_word (take 8 (drop 2 h))
      else ucast (h ! 1 AND 0x7f))"

definition end_header :: "dir_meter \<Rightarrow> dir_meter" where
  "end_header m =
     (let h = dm_header m; opcode = h ! 0 AND 0x0f; t = dm_totals m;
          t = (if opcode = 1 \<or> opcode = 2
               then t\<lparr>wt_messages := wt_messages t + 1,
                      wt_compressed := (if h ! 0 AND 0x40 \<noteq> 0 then wt_compressed t + 1 else wt_compressed t)\<rparr>
               else t)
      in m\<lparr>dm_data := (opcode = 0 \<or> opcode = 1 \<or> opcode = 2), dm_totals := t, dm_skip := frame_len h, dm_have := 0, dm_need := 2\<rparr>)"

text \<open>
  The turns of the loop of \<^verbatim>\<open>feed\<close>: payload bytes that pass, header bytes that are copied, and what
  follows when the bytes that are there are enough to go on.
\<close>

definition pass_payload :: "nat \<Rightarrow> dir_meter \<Rightarrow> dir_meter" where
  "pass_payload n m =
     m\<lparr>dm_totals := (if dm_data m then (dm_totals m)\<lparr>wt_wire_bytes := wt_wire_bytes (dm_totals m) + of_nat n\<rparr> else dm_totals m),
       dm_skip := dm_skip m - of_nat n\<rparr>"

definition copy_header :: "octet list \<Rightarrow> dir_meter \<Rightarrow> dir_meter" where
  "copy_header bytes m =
     m\<lparr>dm_header := take (dm_have m) (dm_header m) @ bytes @ drop (dm_have m + length bytes) (dm_header m),
       dm_have := dm_have m + length bytes\<rparr>"

definition extend_header :: "dir_meter \<Rightarrow> dir_meter" where
  "extend_header m =
     (if dm_have m = 2 then m\<lparr>dm_need := 2 + extended_len (dm_header m ! 1) + mask_len (dm_header m ! 1)\<rparr> else m)"

definition after_copy :: "dir_meter \<Rightarrow> dir_meter" where
  "after_copy m =
     (if dm_have m < dm_need m then m
      else let m2 = extend_header m in if dm_have m2 < dm_need m2 then m2 else end_header m2)"

definition want_header :: "dir_meter \<Rightarrow> dir_meter" where
  "want_header m = (if dm_need m = 0 then m\<lparr>dm_need := 2\<rparr> else m)"

definition meter_turn :: "dir_meter \<Rightarrow> octet list \<Rightarrow> (dir_meter \<times> octet list) option" where
  "meter_turn m buf =
     (if 0 < dm_skip m then (let n = min (unat (dm_skip m)) (length buf) in Some (pass_payload n m, drop n buf))
      else
        (let m1 = want_header m; n = min (dm_need m1 - dm_have m1) (length buf)
         in if dm_need m1 < dm_have m1 \<or> length (dm_header m1) < dm_have m1 + n then None
            else Some (after_copy (copy_header (take n buf) m1), drop n buf)))"

text \<open>A state in which the next turn takes no byte: it ends a header that is complete.\<close>

definition stuck :: "dir_meter \<Rightarrow> nat" where
  "stuck m = (if 0 < dm_skip m \<or> dm_have m < dm_need (want_header m) then 0 else 1)"

lemma end_header_simps [simp]: "dm_have (end_header m) = 0" "dm_need (end_header m) = 2" "dm_skip (end_header m) = frame_len (dm_header m)"
  "dm_header (end_header m) = dm_header m"
  by (simp_all add: end_header_def Let_def)

lemma stuck_after_copy: "stuck (after_copy m) = 0"
proof -
  have "stuck m = 0" if "dm_have m < dm_need m" for m using that by (simp add: stuck_def want_header_def)
  then show ?thesis unfolding after_copy_def Let_def by simp
qed

lemma meter_turn_skip:
  assumes "0 < dm_skip m" "meter_turn m buf = Some (m', rest)"
  shows "rest = drop (min (unat (dm_skip m)) (length buf)) buf"
  using assms by (simp add: meter_turn_def Let_def)

lemma meter_turn_header:
  assumes "\<not> 0 < dm_skip m" "meter_turn m buf = Some (m', rest)"
  shows "rest = drop (min (dm_need (want_header m) - dm_have (want_header m)) (length buf)) buf" "stuck m' = 0"
proof -
  from assms have "rest = drop (min (dm_need (want_header m) - dm_have (want_header m)) (length buf)) buf \<and> (\<exists>x. m' = after_copy x)"
    unfolding meter_turn_def Let_def by (simp split: if_splits) blast
  then show "rest = drop (min (dm_need (want_header m) - dm_have (want_header m)) (length buf)) buf" "stuck m' = 0"
    using stuck_after_copy by auto
qed

lemma want_header_have [simp]: "dm_have (want_header m) = dm_have m"
  by (simp add: want_header_def)

lemma meter_turn_shrinks:
  assumes "meter_turn m buf = Some (m', rest)" "buf \<noteq> []"
  shows "length rest < length buf \<or> length rest = length buf \<and> stuck m' < stuck m"
proof (cases "0 < dm_skip m")
  case True
  then have "0 < unat (dm_skip m)" by (simp add: word_gt_0 unat_gt_0)
  with meter_turn_skip [OF True assms(1)] assms(2) show ?thesis by simp
next
  case False
  show ?thesis
  proof (cases "dm_have m < dm_need (want_header m)")
    case True
    with meter_turn_header(1) [OF False assms(1)] assms(2) show ?thesis by simp
  next
    case h: False
    then have "stuck m = 1" using False by (simp add: stuck_def)
    with meter_turn_header [OF False assms(1)] h show ?thesis by simp
  qed
qed

function meter_feed :: "dir_meter \<Rightarrow> octet list \<Rightarrow> dir_meter option" where
  "meter_feed m buf =
     (if buf = [] then Some m
      else case meter_turn m buf of None \<Rightarrow> None | Some (m', rest) \<Rightarrow> meter_feed m' rest)"
  by auto
termination
proof (relation "measures [\<lambda>(m, buf). length buf, \<lambda>(m, buf). stuck m]", goal_cases)
  case (2 m buf x m' rest)
  then show ?case using meter_turn_shrinks [of m buf m' rest] by auto
qed simp

declare meter_feed.simps [simp del]

record frame_meter =
  fm_read :: dir_meter
  fm_written :: dir_meter

definition meter_totals :: "frame_meter \<Rightarrow> ws_totals \<times> ws_totals" where
  "meter_totals fm = (dm_totals (fm_written fm), dm_totals (fm_read fm))"

text \<open>What the stream wrapper does with the bytes of a read and of a write that succeeded.\<close>

definition poll_read :: "octet list \<Rightarrow> frame_meter \<Rightarrow> frame_meter option" where
  "poll_read filled fm = map_option (\<lambda>m. fm\<lparr>fm_read := m\<rparr>) (meter_feed (fm_read fm) filled)"

definition poll_write :: "octet list \<Rightarrow> nat \<Rightarrow> frame_meter \<Rightarrow> frame_meter option" where
  "poll_write bytes n fm = map_option (\<lambda>m. fm\<lparr>fm_written := m\<rparr>) (meter_feed (fm_written fm) (take n bytes))"

section \<open>Reading the parameters of an answer\<close>

text \<open>The window size a value means, and the parameters an answer may carry.\<close>

definition window_text :: "string \<Rightarrow> nat option" where
  "window_text s =
     (case parse_unsigned 255 s of
        Some b \<Rightarrow> if \<not> is_prefix_of ''0'' s \<and> 8 \<le> b \<and> b \<le> 15 then Some b else None
      | None \<Rightarrow> None)"

definition valid_param :: "ext_param \<Rightarrow> bool" where
  "valid_param p \<longleftrightarrow>
     (case p of
        (k, None) \<Rightarrow> k \<in> {SERVER_NCT, CLIENT_NCT}
      | (k, Some s) \<Rightarrow> k \<in> {SERVER_BITS, CLIENT_BITS} \<and> window_text s \<noteq> None)"

definition bits_in :: "ext_param list \<Rightarrow> string \<Rightarrow> nat option" where
  "bits_in ps k = Option.bind (Option.bind (map_of ps k) id) window_text"

definition params_of :: "ext_param list \<Rightarrow> answer_params" where
  "params_of ps =
     \<lparr>ap_server_nct = (SERVER_NCT \<in> fst ` set ps), ap_client_nct = (CLIENT_NCT \<in> fst ` set ps),
      ap_server_bits = bits_in ps SERVER_BITS, ap_client_bits = bits_in ps CLIENT_BITS\<rparr>"

definition set_param :: "ext_param \<Rightarrow> answer_params \<Rightarrow> answer_params" where
  "set_param p a =
     (case p of (k, v) \<Rightarrow>
        (if k = SERVER_NCT then a\<lparr>ap_server_nct := True\<rparr>
         else if k = CLIENT_NCT then a\<lparr>ap_client_nct := True\<rparr>
         else if k = SERVER_BITS then a\<lparr>ap_server_bits := Option.bind v window_text\<rparr>
         else a\<lparr>ap_client_bits := Option.bind v window_text\<rparr>))"

lemma window_bits_iff: "window_bits k v = Inr b \<longleftrightarrow> (\<exists>s. v = Some s \<and> window_text s = Some b)"
  by (auto simp: window_bits_def window_text_def split: option.splits if_splits)

lemma map_sum_Inr_iff: "map_sum f g x = Inr y \<longleftrightarrow> (\<exists>z. x = Inr z \<and> y = g z)"
  by (cases x) auto

lemma read_param_iff: "read_param p a = Inr a' \<longleftrightarrow> valid_param p \<and> a' = set_param p a"
proof (cases p)
  case (Pair k v)
  consider "k = SERVER_NCT" | "k = CLIENT_NCT" | "k = SERVER_BITS"
    | "k = CLIENT_BITS" | "k \<notin> {SERVER_NCT, CLIENT_NCT, SERVER_BITS, CLIENT_BITS}"
    by blast
  then show ?thesis
  proof cases
    case 3
    then show ?thesis using Pair
      by (auto simp: read_param_def valid_param_def set_param_def map_sum_Inr_iff window_bits_iff split: option.splits)
  next
    case 4
    then show ?thesis using Pair
      by (auto simp: read_param_def valid_param_def set_param_def map_sum_Inr_iff window_bits_iff split: option.splits)
  qed (use Pair in \<open>auto simp: read_param_def valid_param_def set_param_def split: option.splits\<close>)
qed

lemma read_params_iff:
  "read_params seen ps a = Inr a' \<longleftrightarrow>
     distinct (map fst ps) \<and> fst ` set ps \<inter> set seen = {} \<and> (\<forall>p \<in> set ps. valid_param p) \<and> a' = fold set_param ps a"
proof (induction ps arbitrary: seen a)
  case (Cons p ps)
  show ?case
  proof (cases "fst p \<in> set seen \<or> \<not> valid_param p")
    case True
    then have "\<nexists>x. read_param p a = Inr x" if "fst p \<notin> set seen" using that read_param_iff [of p a] by blast
    with True show ?thesis by (cases "read_param p a") auto
  next
    case False
    then have "read_param p a = Inr (set_param p a)" by (simp add: read_param_iff)
    with False Cons.IH [of "seen @ [fst p]" "set_param p a"] show ?thesis by auto
  qed
qed auto

lemma set_param_simps:
  "set_param (SERVER_NCT, v) a = a\<lparr>ap_server_nct := True\<rparr>" "set_param (CLIENT_NCT, v) a = a\<lparr>ap_client_nct := True\<rparr>"
  "set_param (SERVER_BITS, v) a = a\<lparr>ap_server_bits := Option.bind v window_text\<rparr>"
  "set_param (CLIENT_BITS, v) a = a\<lparr>ap_client_bits := Option.bind v window_text\<rparr>"
  by (simp_all add: set_param_def)

lemma bits_in_Cons: "bits_in ((k, v) # ps) k' = (if k = k' then Option.bind v window_text else bits_in ps k')"
  by (simp add: bits_in_def)

lemma fold_set_param:
  assumes "distinct (map fst ps)" "\<forall>p \<in> set ps. valid_param p"
  shows "fold set_param ps a =
    \<lparr>ap_server_nct = (ap_server_nct a \<or> SERVER_NCT \<in> fst ` set ps),
     ap_client_nct = (ap_client_nct a \<or> CLIENT_NCT \<in> fst ` set ps),
     ap_server_bits = (if SERVER_BITS \<in> fst ` set ps then bits_in ps SERVER_BITS else ap_server_bits a),
     ap_client_bits = (if CLIENT_BITS \<in> fst ` set ps then bits_in ps CLIENT_BITS else ap_client_bits a)\<rparr>"
  using assms
proof (induction ps arbitrary: a)
  case (Cons p ps)
  obtain k v where p: "p = (k, v)" by fastforce
  have ps: "distinct (map fst ps)" "\<forall>p \<in> set ps. valid_param p" using Cons.prems by auto
  note IH = Cons.IH [OF ps]
  have k: "k \<notin> fst ` set ps" using Cons.prems(1) p by auto
  consider "k = SERVER_NCT" | "k = CLIENT_NCT" | "k = SERVER_BITS" | "k = CLIENT_BITS"
    using Cons.prems(2) p by (auto simp: valid_param_def split: option.splits)
  then show ?case
    by cases (use k in \<open>simp_all add: IH p set_param_simps bits_in_Cons\<close>)
qed simp

lemma bits_in_absent: "k \<notin> fst ` set ps \<Longrightarrow> bits_in ps k = None"
  by (simp add: bits_in_def map_of_eq_None_iff [THEN iffD2])

lemma fold_set_param_new:
  "distinct (map fst ps) \<Longrightarrow> \<forall>p \<in> set ps. valid_param p \<Longrightarrow> fold set_param ps no_answer_params = params_of ps"
  using fold_set_param [of ps no_answer_params]
  by (simp add: no_answer_params_def params_of_def bits_in_absent)

definition fits :: "deflate_offer \<Rightarrow> ext_param list \<Rightarrow> bool" where
  "fits ofr ps \<longleftrightarrow> distinct (map fst ps) \<and> (\<forall>p \<in> set ps. valid_param p)
     \<and> (of_server_nct ofr \<longrightarrow> SERVER_NCT \<in> fst ` set ps)
     \<and> (\<forall>n. of_server_bits ofr = Some n \<longrightarrow> (\<exists>b \<le> n. bits_in ps SERVER_BITS = Some b))
     \<and> (\<forall>n b. of_client_bits ofr = Some n \<longrightarrow> bits_in ps CLIENT_BITS = Some b \<longrightarrow> b \<le> n)"

lemma check_answer_iff:
  "check_answer ofr a = Inr ag \<longleftrightarrow>
     (of_server_nct ofr \<longrightarrow> ap_server_nct a) \<and> (\<forall>n. of_server_bits ofr = Some n \<longrightarrow> (\<exists>b \<le> n. ap_server_bits a = Some b))
     \<and> (\<forall>n b. of_client_bits ofr = Some n \<longrightarrow> ap_client_bits a = Some b \<longrightarrow> b \<le> n) \<and> ag = agreed_on ofr a"
  by (auto simp: check_answer_def refuse_server_nct_def refuse_server_bits_def refuse_client_bits_def split: option.splits if_splits)

lemma answer_fits:
  "(\<exists>a. read_params [] ps no_answer_params = Inr a \<and> check_answer ofr a = Inr ag) \<longleftrightarrow> fits ofr ps \<and> ag = agreed_on ofr (params_of ps)"
proof (cases "distinct (map fst ps) \<and> (\<forall>p \<in> set ps. valid_param p)")
  case True
  then have "read_params [] ps no_answer_params = Inr a \<longleftrightarrow> a = params_of ps" for a by (simp add: read_params_iff fold_set_param_new)
  then have "(\<exists>a. read_params [] ps no_answer_params = Inr a \<and> check_answer ofr a = Inr ag) \<longleftrightarrow> check_answer ofr (params_of ps) = Inr ag" by auto
  with True show ?thesis unfolding check_answer_iff fits_def by (simp add: params_of_def)
next
  case False
  then show ?thesis by (auto simp: read_params_iff fits_def)
qed

lemma negotiate_iff:
  "negotiate (Some ofr) answer raw = Inr (Some ag) \<longleftrightarrow>
     (\<exists>ps. parse_extensions answer = Inr [(EXTENSION, ps)] \<and> fits ofr ps \<and> ag = agreed_on ofr (params_of ps))"
proof
  assume n: "negotiate (Some ofr) answer raw = Inr (Some ag)"
  then obtain ps where ps: "parse_extensions answer = Inr [(EXTENSION, ps)]"
    by (auto simp: negotiate_def split: sum.splits list.splits if_splits)
  with n have "\<exists>a. read_params [] ps no_answer_params = Inr a \<and> check_answer ofr a = Inr ag"
    by (auto simp: negotiate_def map_sum_Inr_iff split: sum.splits)
  with ps show "\<exists>ps. parse_extensions answer = Inr [(EXTENSION, ps)] \<and> fits ofr ps \<and> ag = agreed_on ofr (params_of ps)"
    unfolding answer_fits by blast
next
  assume "\<exists>ps. parse_extensions answer = Inr [(EXTENSION, ps)] \<and> fits ofr ps \<and> ag = agreed_on ofr (params_of ps)"
  then obtain ps where ps: "parse_extensions answer = Inr [(EXTENSION, ps)]" "fits ofr ps \<and> ag = agreed_on ofr (params_of ps)" by blast
  from ps(2) [folded answer_fits] ps(1) show "negotiate (Some ofr) answer raw = Inr (Some ag)" by (auto simp: negotiate_def)
qed

section \<open>The meter reads frames\<close>

definition meter_ok :: "dir_meter \<Rightarrow> bool" where
  "meter_ok m \<longleftrightarrow> length (dm_header m) = 14 \<and> dm_have m < dm_need (want_header m)
     \<and> dm_need (want_header m) = (if dm_have m < 2 then 2 else 2 + extended_len (dm_header m ! 1) + mask_len (dm_header m ! 1))"

lemma want_header_simps [simp]: "dm_header (want_header m) = dm_header m" "dm_skip (want_header m) = dm_skip m" "dm_totals (want_header m) = dm_totals m"
  "0 < dm_need (want_header m)" "want_header (want_header m) = want_header m"
  by (simp_all add: want_header_def)

lemma copy_header_simps [simp]: "dm_have (copy_header bs m) = dm_have m + length bs" "dm_need (copy_header bs m) = dm_need m"
  "dm_skip (copy_header bs m) = dm_skip m" "dm_totals (copy_header bs m) = dm_totals m"
  by (simp_all add: copy_header_def)

lemma copy_header_length: "dm_have m + length bs \<le> length (dm_header m) \<Longrightarrow> length (dm_header (copy_header bs m)) = length (dm_header m)"
  by (simp add: copy_header_def)

lemma header_need: "2 + extended_len b + mask_len b \<le> 14"
  by (simp add: extended_len_def mask_len_def)

lemma meter_ok_room: "meter_ok m \<Longrightarrow> dm_have m < dm_need (want_header m) \<and> dm_need (want_header m) \<le> 14 \<and> length (dm_header m) = 14"
  using header_need by (auto simp: meter_ok_def)

lemma feed_Nil [simp]: "meter_feed m [] = Some m"
  by (simp add: meter_feed.simps)

lemma meter_skip:
  assumes "0 < dm_skip m" "buf \<noteq> []" "n = min (unat (dm_skip m)) (length buf)"
  shows "meter_feed m buf = meter_feed (pass_payload n m) (drop n buf)"
  using assms by (simp add: meter_feed.simps [of m buf] meter_turn_def Let_def)

lemma meter_header:
  assumes "dm_skip m = 0" "buf \<noteq> []" "dm_have m < dm_need (want_header m)" "dm_need (want_header m) \<le> length (dm_header m)"
    "n = min (dm_need (want_header m) - dm_have m) (length buf)"
  shows "meter_feed m buf = meter_feed (after_copy (copy_header (take n buf) (want_header m))) (drop n buf)"
proof -
  have "dm_have m + n \<le> length (dm_header m)" "\<not> dm_need (want_header m) < dm_have m" using assms(3-5) by auto
  then show ?thesis using assms(1,2,5) by (simp add: meter_feed.simps [of m buf] meter_turn_def Let_def)
qed

lemma meter_header_byte:
  assumes "dm_skip m = 0" "dm_have m < dm_need (want_header m)" "dm_need (want_header m) \<le> length (dm_header m)"
  shows "meter_feed m [x] = Some (after_copy (copy_header [x] (want_header m)))"
proof -
  have "1 = min (dm_need (want_header m) - dm_have m) (length [x])" using assms(2) by (auto simp: min_def)
  from meter_header [OF assms(1) _ assms(2,3) this] show ?thesis by simp
qed

lemma pass_payload_add: "pass_payload b (pass_payload a m) = pass_payload (a + b) m"
  by (simp add: pass_payload_def algebra_simps)

lemma copy_header_add:
  assumes "dm_have m + length a + length b \<le> length (dm_header m)"
  shows "copy_header b (copy_header a m) = copy_header (a @ b) m"
proof -
  have "drop (dm_have m + length a + length b) (take (dm_have m) (dm_header m) @ a @ drop (dm_have m + length a) (dm_header m))
      = drop (dm_have m + length a + length b) (dm_header m)" using assms by (simp add: add.commute add.left_commute)
  then show ?thesis using assms by (simp add: copy_header_def add.assoc)
qed

lemma after_copy_wait: "dm_have m < dm_need m \<Longrightarrow> after_copy m = m"
  by (simp add: after_copy_def)

lemma feed_Cons:
  assumes "meter_ok m"
  shows "meter_feed m (x # xs) = Option.bind (meter_feed m [x]) (\<lambda>m'. meter_feed m' xs)"
proof (cases "xs = []")
  case False
  show ?thesis
  proof (cases "0 < dm_skip m")
    case True
    let ?k = "unat (dm_skip m)"
    have k: "0 < ?k" using True by (simp add: word_gt_0 unat_gt_0)
    then have one: "meter_feed m [x] = Some (pass_payload 1 m)" using meter_skip [OF True, of "[x]" 1] by simp
    show ?thesis
    proof (cases "?k = 1")
      case True
      with one meter_skip [OF \<open>0 < dm_skip m\<close>, of "x # xs" 1] show ?thesis by simp
    next
      case k1: False
      let ?n = "min (?k - 1) (length xs)"
      have sk: "unat (dm_skip (pass_payload 1 m)) = ?k - 1" using True by (simp add: pass_payload_def unat_minus_one word_gt_0)
      then have "0 < dm_skip (pass_payload 1 m)" using k k1 by (metis One_nat_def diff_is_0_eq' le_neq_implies_less less_one linorder_not_less unat_0 word_gt_0 zero_less_diff)
      from meter_skip [OF this False, of ?n] sk have "meter_feed (pass_payload 1 m) xs = meter_feed (pass_payload (Suc ?n) m) (drop ?n xs)"
        by (simp add: pass_payload_add)
      moreover have "meter_feed m (x # xs) = meter_feed (pass_payload (Suc ?n) m) (drop (Suc ?n) (x # xs))"
        by (rule meter_skip [OF True]) (use k k1 in auto)
      ultimately show ?thesis using one by simp
    qed
  next
    case h: False
    then have skip: "dm_skip m = 0" by (simp add: word_gt_0)
    let ?m = "want_header m" and ?r = "dm_need (want_header m) - dm_have m"
    note room = meter_ok_room [OF assms]
    have one: "meter_feed m [x] = Some (after_copy (copy_header [x] ?m))" using meter_header_byte [OF skip] room by simp
    show ?thesis
    proof (cases "?r = 1")
      case True
      with one meter_header [OF skip, of "x # xs" 1] room show ?thesis by simp
    next
      case r1: False
      let ?c = "copy_header [x] ?m" and ?n = "min (?r - 1) (length xs)"
      have "dm_have ?c < dm_need ?c" using r1 room by auto
      then have c: "after_copy ?c = ?c" "want_header ?c = ?c" by (simp_all add: after_copy_wait want_header_def [of ?c])
      have "dm_have m + Suc ?n \<le> 14" using room by auto
      then have tot: "copy_header (take ?n xs) ?c = copy_header (x # take ?n xs) ?m" using copy_header_add [of ?m "[x]" "take ?n xs"] room by simp
      have "meter_feed ?c xs = meter_feed (after_copy (copy_header (x # take ?n xs) ?m)) (drop ?n xs)"
        using meter_header [of ?c xs ?n] False room \<open>dm_have ?c < dm_need ?c\<close> c(2) tot skip by (simp add: copy_header_length)
      moreover have "meter_feed m (x # xs) = meter_feed (after_copy (copy_header (take (Suc ?n) (x # xs)) ?m)) (drop (Suc ?n) (x # xs))"
        by (rule meter_header [OF skip]) (use r1 room in auto)
      ultimately show ?thesis using one c(1) by simp
    qed
  qed
qed (cases "meter_feed m [x]"; simp)

lemma copy_header_nth: "j < dm_have m \<Longrightarrow> dm_have m + length bs \<le> length (dm_header m) \<Longrightarrow> dm_header (copy_header bs m) ! j = dm_header m ! j"
  by (simp add: copy_header_def nth_append)

lemma meter_byte_ok:
  assumes "meter_ok m"
  shows "\<exists>m'. meter_feed m [x] = Some m' \<and> meter_ok m'"
proof (cases "0 < dm_skip m")
  case True
  then have "0 < unat (dm_skip m)" by (simp add: word_gt_0 unat_gt_0)
  then have "meter_feed m [x] = Some (pass_payload 1 m)" using meter_skip [OF True, of "[x]" 1] by simp
  moreover have "meter_ok (pass_payload 1 m)" using assms by (simp add: meter_ok_def pass_payload_def want_header_def split: if_splits)
  ultimately show ?thesis by blast
next
  case False
  then have skip: "dm_skip m = 0" by (simp add: word_gt_0)
  note room = meter_ok_room [OF assms]
  let ?c = "copy_header [x] (want_header m)"
  have one: "meter_feed m [x] = Some (after_copy ?c)" using meter_header_byte [OF skip] room by simp
  have len: "length (dm_header ?c) = 14" using room by (simp add: copy_header_length)
  have want: "want_header ?c = ?c" by (simp add: want_header_def [of ?c])
  have need: "dm_need (want_header m) = (if dm_have m < 2 then 2 else 2 + extended_len (dm_header m ! 1) + mask_len (dm_header m ! 1))"
    using assms by (simp add: meter_ok_def)
  have "meter_ok (after_copy ?c)"
  proof (cases "dm_have ?c < dm_need ?c")
    case True
    then have "meter_ok ?c" using need len want copy_header_nth [of 1 "want_header m" "[x]"] room
      by (auto simp: meter_ok_def split: if_splits)
    with True show ?thesis by (simp add: after_copy_wait)
  next
    case False
    let ?e = "extend_header ?c"
    have "meter_ok ?e" if "dm_have ?e < dm_need ?e"
    proof -
      have "dm_have ?c = 2" using that False by (auto simp: extend_header_def split: if_splits)
      then show ?thesis using that len by (auto simp: meter_ok_def extend_header_def want_header_def)
    qed
    moreover have "meter_ok (end_header ?e)" using len by (simp add: meter_ok_def want_header_def extend_header_def)
    ultimately show ?thesis using False by (auto simp: after_copy_def Let_def)
  qed
  with one show ?thesis by blast
qed

lemma meter_append: "meter_ok m \<Longrightarrow> meter_feed m (a @ b) = Option.bind (meter_feed m a) (\<lambda>m'. meter_feed m' b)"
proof (induction a arbitrary: m)
  case (Cons x a)
  obtain m' where m': "meter_feed m [x] = Some m'" "meter_ok m'" using meter_byte_ok [OF Cons.prems] by blast
  then show ?case using Cons.IH [OF m'(2)] feed_Cons [OF Cons.prems, of x "a @ b"] feed_Cons [OF Cons.prems, of x a] by simp
qed simp

lemma meter_feed_ok: "meter_ok m \<Longrightarrow> \<exists>m'. meter_feed m buf = Some m' \<and> meter_ok m'"
proof (induction buf arbitrary: m)
  case (Cons x xs)
  obtain m' where m': "meter_feed m [x] = Some m'" "meter_ok m'" using meter_byte_ok [OF Cons.prems] by blast
  with Cons.IH [OF m'(2)] show ?case using feed_Cons [OF Cons.prems, of x xs] by simp
qed simp

interpretation meter: guarded_machine meter_ok "\<lambda>chunk m. meter_feed m chunk"
  by unfold_locales (rule meter_feed_ok)

lemma run_feed: "meter_ok m \<Longrightarrow> run_ops (\<lambda>chunk m. meter_feed m chunk) chunks m = meter_feed m (concat chunks)"
proof (induction chunks arbitrary: m)
  case (Cons c cs)
  obtain m' where m': "meter_feed m c = Some m'" "meter_ok m'" using meter_feed_ok [OF Cons.prems] by blast
  with Cons.IH [OF m'(2)] meter_append [OF Cons.prems, of c "concat cs"] show ?case by simp
qed simp

lemma new_meter_ok: "meter_ok new_meter"
  by (simp add: meter_ok_def new_meter_def want_header_def)

subsection \<open>Frames\<close>

text \<open>A frame on the wire (RFC 6455, section 5.2): two octets, the extended length, the mask, the payload.\<close>

record ws_frame =
  fr_first :: octet
  fr_second :: octet
  fr_extended :: "octet list"
  fr_mask :: "octet list"
  fr_payload :: "octet list"

definition frame_ok :: "ws_frame \<Rightarrow> bool" where
  "frame_ok f \<longleftrightarrow>
     (let l7 = fr_second f AND 0x7f; n = length (fr_payload f)
      in (if l7 = 126 then n < 2 ^ 16 \<and> fr_extended f = to_be 2 (of_nat n :: 16 word)
          else if l7 = 127 then n < 2 ^ 64 \<and> fr_extended f = to_be 8 (of_nat n :: 64 word)
          else n = unat l7 \<and> fr_extended f = [])
         \<and> length (fr_mask f) = (if fr_second f AND 0x80 \<noteq> 0 then 4 else 0))"

definition frame_bytes :: "ws_frame \<Rightarrow> octet list" where
  "frame_bytes f = [fr_first f, fr_second f] @ fr_extended f @ fr_mask f @ fr_payload f"

definition starts_message :: "ws_frame \<Rightarrow> bool" where
  "starts_message f \<longleftrightarrow> fr_first f AND 0x0f \<in> {1, 2}"

definition carries_data :: "ws_frame \<Rightarrow> bool" where
  "carries_data f \<longleftrightarrow> fr_first f AND 0x0f \<in> {0, 1, 2}"

definition count_frame :: "ws_frame \<Rightarrow> ws_totals \<Rightarrow> ws_totals" where
  "count_frame f t =
     \<lparr>wt_messages = wt_messages t + (if starts_message f then 1 else 0),
      wt_compressed = wt_compressed t + (if starts_message f \<and> fr_first f AND 0x40 \<noteq> 0 then 1 else 0),
      wt_payload_bytes = wt_payload_bytes t,
      wt_wire_bytes = wt_wire_bytes t + (if carries_data f then of_nat (length (fr_payload f)) else 0)\<rparr>"

definition between_frames :: "dir_meter \<Rightarrow> bool" where
  "between_frames m \<longleftrightarrow> meter_ok m \<and> dm_have m = 0 \<and> dm_skip m = 0"

lemma frame_ok_lengths:
  assumes "frame_ok f"
  shows "length (fr_extended f) = extended_len (fr_second f)" "length (fr_mask f) = mask_len (fr_second f)"
  using assms by (auto simp: frame_ok_def Let_def extended_len_def mask_len_def split: if_splits)

lemma frame_len_header:
  assumes "frame_ok f" "h = [fr_first f, fr_second f] @ fr_extended f @ fr_mask f @ rest"
  shows "frame_len h = of_nat (length (fr_payload f))"
proof -
  let ?l7 = "fr_second f AND 0x7f" and ?n = "length (fr_payload f)"
  have second: "h ! 1 = fr_second f" by (simp add: assms(2))
  consider (short) "?l7 \<noteq> 126" "?l7 \<noteq> 127" | (medium) "?l7 = 126" | (long) "?l7 = 127" by blast
  then show ?thesis
  proof cases
    case short
    with assms(1) have "?n = unat ?l7" by (simp add: frame_ok_def Let_def)
    then have "of_nat ?n = (ucast ?l7 :: 64 word)" by (simp only: of_nat_unat)
    with short second show ?thesis by (simp add: frame_len_def)
  next
    case medium
    with assms(1) have n: "?n < 2 ^ 16" "fr_extended f = to_be 2 (of_nat ?n :: 16 word)" by (simp_all add: frame_ok_def Let_def)
    then have "[h ! 2, h ! 3] = to_be 2 (of_nat ?n :: 16 word)" by (simp add: assms(2) to_be_def numeral_2_eq_2)
    then have "be_word [h ! 2, h ! 3] = (of_nat ?n :: 16 word)" using n(1) by (simp add: be_word_from_be from_to_be unat_of_nat)
    moreover have "ucast (of_nat ?n :: 16 word) = (of_nat ?n :: 64 word)"
      using n(1) of_nat_unat [of "of_nat ?n :: 16 word", where 'a = "64 word"] by (simp add: unat_of_nat)
    ultimately show ?thesis using medium second by (simp add: frame_len_def)
  next
    case long
    with assms(1) have n: "?n < 2 ^ 64" "fr_extended f = to_be 8 (of_nat ?n :: 64 word)" by (simp_all add: frame_ok_def Let_def)
    then have "take 8 (drop 2 h) = to_be 8 (of_nat ?n :: 64 word)" by (simp add: assms(2))
    then have "(be_word (take 8 (drop 2 h)) :: 64 word) = of_nat ?n" using n(1) by (simp add: be_word_from_be from_to_be unat_of_nat)
    with long second show ?thesis by (simp add: frame_len_def)
  qed
qed

lemma copy_header_data:
  "dm_have m + length bs \<le> length (dm_header m) \<Longrightarrow> dm_header (copy_header bs m) = take (dm_have m) (dm_header m) @ bs @ drop (dm_have m + length bs) (dm_header m)"
  by (simp add: copy_header_def)

lemma meter_two:
  assumes "between_frames m"
  shows "\<exists>c. meter_feed m [a, b] = Some (after_copy c) \<and> dm_have c = 2 \<and> dm_need c = 2 \<and> dm_skip c = 0 \<and> dm_totals c = dm_totals m
    \<and> dm_header c = [a, b] @ drop 2 (dm_header m)"
proof -
  have ok: "meter_ok m" "dm_have m = 0" "dm_skip m = 0" using assms by (simp_all add: between_frames_def)
  then have need: "dm_need (want_header m) = 2" "length (dm_header m) = 14" by (simp_all add: meter_ok_def)
  have "meter_feed m [a, b] = meter_feed (after_copy (copy_header (take 2 [a, b]) (want_header m))) (drop 2 [a, b])"
    by (rule meter_header [OF ok(3)]) (simp_all add: ok(2) need)
  then have "meter_feed m [a, b] = Some (after_copy (copy_header [a, b] (want_header m)))" by simp
  then show ?thesis by (intro exI [of _ "copy_header [a, b] (want_header m)"]) (simp add: ok need copy_header_data numeral_2_eq_2)
qed

lemma meter_rest:
  assumes "dm_have d = 2" "dm_need d = 2 + length bs" "bs \<noteq> []" "dm_skip d = 0" "length (dm_header d) = 14" "length bs \<le> 12"
  shows "meter_feed d bs = Some (end_header (copy_header bs d))" "dm_header (copy_header bs d) = take 2 (dm_header d) @ bs @ drop (2 + length bs) (dm_header d)"
proof -
  have want: "want_header d = d" using assms(2) by (simp add: want_header_def)
  have "meter_feed d bs = meter_feed (after_copy (copy_header (take (length bs) bs) (want_header d))) (drop (length bs) bs)"
    by (rule meter_header) (simp_all add: assms want)
  then have "meter_feed d bs = Some (after_copy (copy_header bs d))" by (simp add: want)
  moreover have "after_copy (copy_header bs d) = end_header (copy_header bs d)"
    using assms(1-3) by (simp add: after_copy_def extend_header_def Let_def)
  ultimately show "meter_feed d bs = Some (end_header (copy_header bs d))" by simp
  show "dm_header (copy_header bs d) = take 2 (dm_header d) @ bs @ drop (2 + length bs) (dm_header d)"
    using copy_header_data [of d bs] assms by simp
qed

lemma meter_frame_header:
  assumes "between_frames m" "frame_ok f"
  shows "\<exists>m0 rest. meter_feed m ([fr_first f, fr_second f] @ fr_extended f @ fr_mask f) = Some (end_header m0)
    \<and> dm_header m0 = [fr_first f, fr_second f] @ fr_extended f @ fr_mask f @ rest \<and> dm_totals m0 = dm_totals m"
proof -
  define bs where "bs = fr_extended f @ fr_mask f"
  obtain c where c: "meter_feed m [fr_first f, fr_second f] = Some (after_copy c)" "dm_have c = 2" "dm_need c = 2" "dm_skip c = 0" "dm_totals c = dm_totals m"
    "dm_header c = [fr_first f, fr_second f] @ drop 2 (dm_header m)" using meter_two [OF assms(1)] by blast
  obtain d where "d = extend_header c" by simp
  then have d: "dm_have d = 2" "dm_need d = 2 + length bs" "dm_header d = dm_header c" "dm_totals d = dm_totals m" "dm_skip d = 0"
    using c(2-6) frame_ok_lengths [OF assms(2)] by (simp_all add: extend_header_def bs_def)
  have after: "after_copy c = (if bs = [] then end_header d else d)"
    using c(2,3) d(1,2) \<open>d = extend_header c\<close> by (simp add: after_copy_def Let_def)
  have len: "length bs \<le> 12" using header_need [of "fr_second f"] frame_ok_lengths [OF assms(2)] by (simp add: bs_def)
  have hl: "length (dm_header d) = 14" using d(3) c(6) assms(1) by (simp add: between_frames_def meter_ok_def)
  have all: "meter_feed m ([fr_first f, fr_second f] @ bs) = meter_feed (after_copy c) bs"
    using meter_append [of m "[fr_first f, fr_second f]" bs] c(1) assms(1) by (simp add: between_frames_def)
  have take2: "take 2 (dm_header d) = [fr_first f, fr_second f]" using d(3) c(6) by simp
  show ?thesis
  proof (cases "bs = []")
    case True
    have "dm_header d = [fr_first f, fr_second f] @ bs @ drop 2 (dm_header m)" using d(3) c(6) True by simp
    with all True d(4) after show ?thesis unfolding bs_def by (intro exI [of _ d] exI [of _ "drop 2 (dm_header m)"]) simp
  next
    case False
    note rest = meter_rest [OF d(1,2) False d(5) hl len]
    have "dm_totals (copy_header bs d) = dm_totals m" using d(4) by simp
    with all False after rest take2 show ?thesis
      unfolding bs_def by (intro exI [of _ "copy_header (fr_extended f @ fr_mask f) d"] exI [of _ "drop (2 + length bs) (dm_header d)"]) (auto simp: bs_def)
  qed
qed

lemma meter_payload: "unat (dm_skip m) = length p \<Longrightarrow> meter_feed m p = Some (if p = [] then m else pass_payload (length p) m)"
proof (cases "p = []")
  case False
  assume "unat (dm_skip m) = length p"
  moreover from this False have "0 < dm_skip m" by (metis length_0_conv unsigned_0 word_gt_0)
  ultimately show ?thesis using meter_skip [of m p "length p"] False by simp
qed simp

lemma meter_frame:
  assumes "between_frames m" "frame_ok f"
  shows "\<exists>m'. meter_feed m (frame_bytes f) = Some m' \<and> between_frames m' \<and> dm_totals m' = count_frame f (dm_totals m)"
proof -
  let ?h = "[fr_first f, fr_second f] @ fr_extended f @ fr_mask f" and ?p = "fr_payload f"
  from meter_frame_header [OF assms] obtain m0 rest where m0: "meter_feed m ?h = Some (end_header m0)" "dm_header m0 = ?h @ rest" "dm_totals m0 = dm_totals m" by auto
  have ok: "meter_ok m" using assms(1) by (simp add: between_frames_def)
  have bound: "length ?p < 2 ^ 64" using assms(2) unsigned_less [of "fr_second f AND 0x7f", where 'a = nat]
    by (auto simp: frame_ok_def Let_def split: if_splits)
  have skip: "dm_skip (end_header m0) = of_nat (length ?p)" using frame_len_header [OF assms(2), of "dm_header m0" rest] m0(2) by simp
  then have "unat (dm_skip (end_header m0)) = length ?p" using bound by (simp add: unat_of_nat)
  from meter_payload [OF this] have pay: "meter_feed (end_header m0) ?p = Some (if ?p = [] then end_header m0 else pass_payload (length ?p) (end_header m0))" .
  let ?m' = "if ?p = [] then end_header m0 else pass_payload (length ?p) (end_header m0)"
  have res: "meter_feed m (frame_bytes f) = Some ?m'" using meter_append [OF ok, of ?h ?p] m0(1) pay by (simp add: frame_bytes_def)
  moreover have "meter_ok ?m'" using meter_feed_ok [OF ok, of "frame_bytes f"] res by auto
  moreover have "dm_have ?m' = 0" "dm_skip ?m' = 0" using skip by (simp_all add: pass_payload_def)
  moreover have "dm_totals ?m' = count_frame f (dm_totals m)"
    using m0(2,3) by (auto simp: pass_payload_def end_header_def count_frame_def starts_message_def carries_data_def Let_def)
  ultimately show ?thesis unfolding between_frames_def by blast
qed

lemma meter_frames:
  "between_frames m \<Longrightarrow> list_all frame_ok fs \<Longrightarrow>
   \<exists>m'. meter_feed m (concat (map frame_bytes fs)) = Some m' \<and> between_frames m' \<and> dm_totals m' = fold count_frame fs (dm_totals m)"
proof (induction fs arbitrary: m)
  case (Cons f fs)
  obtain m1 where m1: "meter_feed m (frame_bytes f) = Some m1" "between_frames m1" "dm_totals m1 = count_frame f (dm_totals m)"
    using meter_frame [OF Cons.prems(1)] Cons.prems(2) by auto
  with Cons.IH [OF m1(2)] Cons.prems show ?case
    using meter_append [of m "frame_bytes f" "concat (map frame_bytes fs)"] by (auto simp: between_frames_def)
qed simp

lemma fold_count_frame:
  "fold count_frame fs t =
     \<lparr>wt_messages = wt_messages t + of_nat (length (filter starts_message fs)),
      wt_compressed = wt_compressed t + of_nat (length (filter (\<lambda>f. starts_message f \<and> fr_first f AND 0x40 \<noteq> 0) fs)),
      wt_payload_bytes = wt_payload_bytes t,
      wt_wire_bytes = wt_wire_bytes t + of_nat (sum_list (map (\<lambda>f. length (fr_payload f)) (filter carries_data fs)))\<rparr>"
  by (induction fs arbitrary: t) (auto simp: count_frame_def algebra_simps)

section \<open>Printing and parsing extensions\<close>

definition render_param :: "ext_param \<Rightarrow> string" where
  "render_param p = fst p @ (case snd p of Some v \<Rightarrow> ''='' @ v | None \<Rightarrow> [])"

definition render_element :: "element \<Rightarrow> string" where
  "render_element el = join_with ''; '' (fst el # map render_param (snd el))"

definition render_extensions :: "element list \<Rightarrow> string" where
  "render_extensions els = join_with '', '' (map render_element els)"

definition token_element :: "element \<Rightarrow> bool" where
  "token_element el \<longleftrightarrow> is_token (fst el) \<and> (\<forall>p \<in> set (snd el). is_token (fst p) \<and> (\<forall>v. snd p = Some v \<longrightarrow> is_token v))"

definition normal_element :: "element \<Rightarrow> element" where
  "normal_element el = (map ascii_lower (fst el), map (\<lambda>p. (map ascii_lower (fst p), snd p)) (snd el))"

lemma tchar_plain: "is_tchar c \<Longrightarrow> ascii_black c \<and> c \<noteq> CHR 0x22 \<and> c \<noteq> CHR '';'' \<and> c \<noteq> CHR '','' \<and> c \<noteq> CHR ''=''"
  by (auto simp: is_tchar_def ascii_black_def byte_def)

lemma token_chars: "is_token t \<Longrightarrow> CHR 0x22 \<notin> set t \<and> CHR '';'' \<notin> set t \<and> CHR '','' \<notin> set t \<and> CHR ''='' \<notin> set t"
  unfolding is_token_def list_all_iff using tchar_plain by blast

lemma token_trim: "is_token t \<Longrightarrow> trim t = t \<and> trim (CHR '' '' # t) = t \<and> t \<noteq> []"
proof -
  assume t: "is_token t"
  then have "t \<noteq> []" "ascii_black (hd t)" "ascii_black (last t)" unfolding is_token_def list_all_iff using tchar_plain by auto
  then show ?thesis using trim_black [of t] trim_space [of t] by simp
qed

lemma split_quoted_plain:
  "CHR 0x22 \<notin> set s \<Longrightarrow> sep \<noteq> CHR 0x22 \<Longrightarrow>
   split_quoted sep False False part s = Inr ((part @ hd (split_char sep s)) # tl (split_char sep s))"
proof (induction s arbitrary: part)
  case (Cons c s)
  then show ?case by (cases "split_char sep s") auto
qed simp

lemma split_outside_plain: "CHR 0x22 \<notin> set s \<Longrightarrow> sep \<noteq> CHR 0x22 \<Longrightarrow> split_outside_quotes s sep = Inr (split_char sep s)"
  using split_quoted_plain [of s sep "[]"] by (cases "split_char sep s") (simp_all add: split_outside_quotes_def)

lemma not_in_join: "c \<notin> set sep \<Longrightarrow> \<forall>x \<in> set xs. c \<notin> set x \<Longrightarrow> c \<notin> set (join_with sep xs)"
  by (induction sep xs rule: join_with.induct) simp_all

lemma render_param_chars:
  assumes "is_token (fst p)" "\<forall>v. snd p = Some v \<longrightarrow> is_token v"
  shows "CHR 0x22 \<notin> set (render_param p)" "CHR '';'' \<notin> set (render_param p)" "CHR '','' \<notin> set (render_param p)"
  using assms token_chars [OF assms(1)] token_chars by (auto simp: render_param_def split: option.splits)

lemma parse_param_render:
  assumes "is_token (fst p)" "\<forall>v. snd p = Some v \<longrightarrow> is_token v"
  shows "parse_param name (CHR '' '' # render_param p) = Inr (map ascii_lower (fst p), snd p)"
proof (cases "snd p")
  case None
  with token_chars [OF assms(1)] token_trim [OF assms(1)] assms(1) show ?thesis
    by (simp add: render_param_def parse_param_def split_once_def parse_value_def)
next
  case (Some v)
  have v: "is_token v" using assms(2) Some by simp
  then have "hd v \<noteq> CHR 0x22" using token_chars [OF v] token_trim [OF v] by (metis list.set_sel(1))
  moreover have "split_once CHR ''='' (CHR '' '' # fst p @ ''='' @ v) = Some (CHR '' '' # fst p, v)"
    using split_once_append [of "CHR ''=''" "CHR '' '' # fst p" v] token_chars [OF assms(1)] by simp
  ultimately show ?thesis using Some token_trim [OF assms(1)] token_trim [OF v] assms(1) v
    by (simp add: render_param_def parse_param_def parse_value_def)
qed

lemma parse_params_render:
  "\<forall>p \<in> set ps. is_token (fst p) \<and> (\<forall>v. snd p = Some v \<longrightarrow> is_token v) \<Longrightarrow>
   parse_params name (map ((#) CHR '' '') (map render_param ps)) = Inr (map (\<lambda>p. (map ascii_lower (fst p), snd p)) ps)"
  by (induction ps) (simp_all add: parse_param_render)

lemma render_element_chars:
  assumes "token_element el"
  shows "CHR 0x22 \<notin> set (render_element el)" "CHR '','' \<notin> set (render_element el)"
proof -
  have parts: "CHR 0x22 \<notin> set x \<and> CHR '','' \<notin> set x" if x: "x \<in> set (fst el # map render_param (snd el))" for x
  proof (cases "x = fst el")
    case True
    with assms token_chars [of "fst el"] show ?thesis by (simp add: token_element_def)
  next
    case False
    with x obtain p where "p \<in> set (snd el)" "x = render_param p" by auto
    with assms render_param_chars [of p] show ?thesis by (simp add: token_element_def)
  qed
  show "CHR 0x22 \<notin> set (render_element el)" unfolding render_element_def by (rule not_in_join) (use parts in \<open>simp_all del: set_map\<close>)
  show "CHR '','' \<notin> set (render_element el)" unfolding render_element_def by (rule not_in_join) (use parts in \<open>simp_all del: set_map\<close>)
qed

lemma parse_element_render:
  assumes "token_element el"
  shows "parse_element (render_element el) = Inr (normal_element el)" "parse_element (CHR '' '' # render_element el) = Inr (normal_element el)"
proof -
  have name: "is_token (fst el)" "\<forall>p \<in> set (snd el). is_token (fst p) \<and> (\<forall>v. snd p = Some v \<longrightarrow> is_token v)"
    using assms by (simp_all add: token_element_def)
  have parts: "split_char CHR '';'' (render_element el) = fst el # map ((#) CHR '' '') (map render_param (snd el))"
    unfolding render_element_def
  proof (rule split_char_join_space)
    have "CHR '';'' \<notin> set (render_param p)" if "p \<in> set (snd el)" for p using render_param_chars(2) [of p] name(2) that by simp
    then show "\<forall>x \<in> set (fst el # map render_param (snd el)). CHR '';'' \<notin> set x" using token_chars [OF name(1)] by simp
  qed simp
  have split: "split_outside_quotes (render_element el) CHR '';'' = Inr (fst el # map ((#) CHR '' '') (map render_param (snd el)))"
    "split_outside_quotes (CHR '' '' # render_element el) CHR '';'' = Inr ((CHR '' '' # fst el) # map ((#) CHR '' '') (map render_param (snd el)))"
    using render_element_chars(1) [OF assms] parts by (simp_all add: split_outside_plain)
  show "parse_element (render_element el) = Inr (normal_element el)" "parse_element (CHR '' '' # render_element el) = Inr (normal_element el)"
    using token_trim [OF name(1)] name(1) parse_params_render [OF name(2)]
    by (simp_all add: parse_element_def split normal_element_def)
qed

lemma render_element_trim: "token_element el \<Longrightarrow> trim (render_element el) \<noteq> [] \<and> trim (CHR '' '' # render_element el) \<noteq> []"
proof -
  assume el: "token_element el"
  then have "is_token (fst el)" by (simp add: token_element_def)
  then obtain c t where ct: "fst el = c # t" "ascii_black c" unfolding is_token_def using tchar_plain by (cases "fst el") auto
  then obtain r where "render_element el = c # r" by (cases "snd el") (auto simp: render_element_def)
  with trim_nonempty [OF ct(2)] show ?thesis by (simp add: trim_space)
qed

lemma parse_items_render:
  "\<forall>el \<in> set els. token_element el \<Longrightarrow> parse_items (map ((#) CHR '' '') (map render_element els)) = Inr (map normal_element els)"
  by (induction els) (simp_all add: parse_element_render render_element_trim)

lemma parse_render_extensions:
  assumes "\<forall>el \<in> set (el # els). token_element el"
  shows "parse_extensions [render_extensions (el # els)] = Inr (map normal_element (el # els))"
proof -
  have "split_char CHR '','' (render_extensions (el # els)) = render_element el # map ((#) CHR '' '') (map render_element els)"
    unfolding render_extensions_def using split_char_join_space [of "CHR '',''" "render_element el" "map render_element els"] assms render_element_chars(2) by simp
  moreover have "CHR 0x22 \<notin> set (render_extensions (el # els))"
    unfolding render_extensions_def by (rule not_in_join) (use assms render_element_chars(1) in auto)
  ultimately show ?thesis using assms parse_items_render [of els]
    by (simp add: split_outside_plain parse_element_render render_element_trim)
qed

text \<open>The offer as an element, and the answer that repeats it.\<close>

definition offer_params :: "deflate_offer \<Rightarrow> ext_param list" where
  "offer_params ofr =
     (if of_server_nct ofr then [(SERVER_NCT, None)] else []) @ (if of_client_nct ofr then [(CLIENT_NCT, None)] else [])
     @ (case of_server_bits ofr of Some b \<Rightarrow> [(SERVER_BITS, Some (show_nat b))] | None \<Rightarrow> [])
     @ [(CLIENT_BITS, map_option show_nat (of_client_bits ofr))]"

lemma join_semicolon: "join_with ''; '' (x # xs) = x @ concat (map ((@) ''; '') xs)"
  by (induction xs arbitrary: x) auto

lemma header_value_element: "header_value ofr = render_element (EXTENSION, offer_params ofr)"
  unfolding render_element_def fst_conv snd_conv join_semicolon
  by (simp add: header_value_def offer_params_def render_param_def split: option.splits)

lemma name_tokens: "is_token EXTENSION" "is_token SERVER_NCT" "is_token CLIENT_NCT" "is_token SERVER_BITS" "is_token CLIENT_BITS"
  by code_simp+

lemma names_lower: "map ascii_lower EXTENSION = EXTENSION" "map ascii_lower SERVER_NCT = SERVER_NCT" "map ascii_lower CLIENT_NCT = CLIENT_NCT"
  "map ascii_lower SERVER_BITS = SERVER_BITS" "map ascii_lower CLIENT_BITS = CLIENT_BITS"
  by code_simp+

lemma show_nat_token: "is_token (show_nat n)"
  using show_nat_digits [of n] by (auto simp: is_token_def list_all_iff is_digit_def is_tchar_def)

lemma window_text_show: "8 \<le> b \<Longrightarrow> b \<le> 15 \<Longrightarrow> window_text (show_nat b) = Some b"
proof -
  assume b: "8 \<le> b" "b \<le> 15"
  have "list_all (\<lambda>b. \<not> is_prefix_of ''0'' (show_nat b)) [8, 9, 10, 11, 12, 13, 14, 15]" by code_simp
  moreover have "b \<in> set [8, 9, 10, 11, 12, 13, 14, 15]" using b by auto
  ultimately have "\<not> is_prefix_of ''0'' (show_nat b)" unfolding list_all_iff by blast
  with b show ?thesis by (simp add: window_text_def)
qed

lemma offer_token_element: "token_element (EXTENSION, offer_params ofr)"
  using name_tokens show_nat_token by (auto simp: token_element_def offer_params_def split: option.splits if_splits)

lemma offer_normal: "normal_element (EXTENSION, offer_params ofr) = (EXTENSION, offer_params ofr)"
  by (simp add: normal_element_def offer_params_def names_lower split: option.splits)

lemma bits_in_append: "k \<notin> fst ` set ps \<Longrightarrow> bits_in (ps @ qs) k = bits_in qs k"
  by (simp add: bits_in_def map_add_def map_of_eq_None_iff [THEN iffD2] split: option.splits)

lemma offer_bits:
  assumes "\<forall>b. of_server_bits ofr = Some b \<longrightarrow> 8 \<le> b \<and> b \<le> 15" "of_client_bits ofr = Some c" "8 \<le> c" "c \<le> 15"
  shows "bits_in (offer_params ofr) SERVER_BITS = of_server_bits ofr" "bits_in (offer_params ofr) CLIENT_BITS = Some c"
  using assms by (cases "of_server_bits ofr"; auto simp: offer_params_def bits_in_Cons window_text_show bits_in_def)+

lemma offer_valid:
  assumes "\<forall>b. of_server_bits ofr = Some b \<longrightarrow> 8 \<le> b \<and> b \<le> 15" "of_client_bits ofr = Some c" "8 \<le> c" "c \<le> 15"
  shows "distinct (map fst (offer_params ofr))" "\<forall>p \<in> set (offer_params ofr). valid_param p"
    "SERVER_NCT \<in> fst ` set (offer_params ofr) \<longleftrightarrow> of_server_nct ofr" "CLIENT_NCT \<in> fst ` set (offer_params ofr) \<longleftrightarrow> of_client_nct ofr"
  using assms by (cases "of_server_bits ofr"; auto simp: offer_params_def valid_param_def window_text_show)+

section \<open>Properties\<close>


text \<open>
  A printed list of extensions is parsed back, with its names in lower case; and a server that
  repeats a complete offer is accepted with the parameters that were offered.
\<close>

lemma offer_repeated:
  assumes "\<forall>el \<in> set (el # els). token_element el"
    and "\<forall>b. of_server_bits ofr = Some b \<longrightarrow> 8 \<le> b \<and> b \<le> 15" "of_client_bits ofr = Some c" "8 \<le> c" "c \<le> 15"
  shows "parse_extensions [render_extensions (el # els)] = Inr (map normal_element (el # els))
    \<and> (\<exists>p cfg. negotiate (Some ofr) [header_value ofr] raw = Inr (Some (p, cfg))
         \<and> dp_server_nct p = of_server_nct ofr \<and> dp_client_nct p = of_client_nct ofr
         \<and> dp_server_bits p = of_server_bits ofr \<and> dp_client_bits p = of_client_bits ofr)"
proof
  show "parse_extensions [render_extensions (el # els)] = Inr (map normal_element (el # els))" by (rule parse_render_extensions [OF assms(1)])
  note bits = offer_bits [OF assms(2-5)] and valid = offer_valid [OF assms(2-5)]
  let ?ps = "offer_params ofr"
  have "fits ofr ?ps" unfolding fits_def using valid bits assms(3) by auto
  moreover have "parse_extensions [header_value ofr] = Inr [(EXTENSION, ?ps)]"
    using parse_render_extensions [of "(EXTENSION, ?ps)" "[]"] offer_token_element [of ofr] offer_normal [of ofr]
    by (simp add: header_value_element render_extensions_def)
  ultimately have "negotiate (Some ofr) [header_value ofr] raw = Inr (Some (agreed_on ofr (params_of ?ps)))" unfolding negotiate_iff by blast
  then show "\<exists>p cfg. negotiate (Some ofr) [header_value ofr] raw = Inr (Some (p, cfg))
      \<and> dp_server_nct p = of_server_nct ofr \<and> dp_client_nct p = of_client_nct ofr
      \<and> dp_server_bits p = of_server_bits ofr \<and> dp_client_bits p = of_client_bits ofr"
    using valid(3,4) bits assms(3) by (simp add: agreed_on_def params_of_def Let_def)
qed

text \<open>
  C34.  However the bytes of a direction are split, the meter never indexes outside its header buffer,
  and on a sequence of well-formed frames it counts the messages (frames that open a text or binary
  message), those of them with RSV1, and the payload bytes of data frames.
\<close>

theorem meter_counts:
  assumes "list_all frame_ok fs" "concat chunks = concat (map frame_bytes fs)"
  shows "(\<forall>cs. \<exists>m. run_ops (\<lambda>chunk m. meter_feed m chunk) cs new_meter = Some m)
    \<and> (\<exists>m. run_ops (\<lambda>chunk m. meter_feed m chunk) chunks new_meter = Some m
         \<and> dm_totals m = \<lparr>wt_messages = of_nat (length (filter starts_message fs)),
              wt_compressed = of_nat (length (filter (\<lambda>f. starts_message f \<and> fr_first f AND 0x40 \<noteq> 0) fs)),
              wt_payload_bytes = 0,
              wt_wire_bytes = of_nat (sum_list (map (\<lambda>f. length (fr_payload f)) (filter carries_data fs)))\<rparr>)"
proof
  show "\<forall>cs. \<exists>m. run_ops (\<lambda>chunk m. meter_feed m chunk) cs new_meter = Some m" using meter.run_ok [OF new_meter_ok] by blast
  have "between_frames new_meter" using new_meter_ok by (simp add: between_frames_def) (simp add: new_meter_def)
  from meter_frames [OF this assms(1)] obtain m where m: "meter_feed new_meter (concat (map frame_bytes fs)) = Some m"
    "dm_totals m = fold count_frame fs (dm_totals new_meter)" by blast
  moreover have "run_ops (\<lambda>chunk m. meter_feed m chunk) chunks new_meter = meter_feed new_meter (concat chunks)" by (rule run_feed [OF new_meter_ok])
  ultimately show "\<exists>m. run_ops (\<lambda>chunk m. meter_feed m chunk) chunks new_meter = Some m
         \<and> dm_totals m = \<lparr>wt_messages = of_nat (length (filter starts_message fs)),
              wt_compressed = of_nat (length (filter (\<lambda>f. starts_message f \<and> fr_first f AND 0x40 \<noteq> 0) fs)),
              wt_payload_bytes = 0,
              wt_wire_bytes = of_nat (sum_list (map (\<lambda>f. length (fr_payload f)) (filter carries_data fs)))\<rparr>"
    using assms(2) by (simp add: fold_count_frame new_meter_def)
qed

theorem meter_counts_witness:
  "\<exists>m. run_ops (\<lambda>chunk m. meter_feed m chunk) [[0xC1], [2, 7], [8]] new_meter = Some m \<and> wt_messages (dm_totals m) = 1 \<and> wt_wire_bytes (dm_totals m) = 2"
proof -
  let ?f = "\<lparr>fr_first = 0xC1, fr_second = 2, fr_extended = [], fr_mask = [], fr_payload = [7, 8]\<rparr>"
  have "frame_ok ?f" by (simp add: frame_ok_def Let_def)
  then show ?thesis using meter_counts [of "[?f]" "[[0xC1], [2, 7], [8]]"]
    by (auto simp: frame_bytes_def starts_message_def carries_data_def)
qed

text \<open>A value with a plus sign and leading zeros is taken for a window size.\<close>

lemma window_bits_takes_sign: "window_bits CLIENT_BITS (Some ''+09'') = Inr 9"
  by code_simp

end
