(* ===== verification/Auth_Sign.thy ===== *)
theory Auth_Sign
  imports Redact Xml_Limits
begin

text \<open>
  Credentials of one send (\<^verbatim>\<open>crates/anvil-auth/src\<close>: \<^verbatim>\<open>digest.rs\<close>, \<^verbatim>\<open>hmac_sig.rs\<close>, \<^verbatim>\<open>dpop.rs\<close>, \<^verbatim>\<open>jwt.rs\<close>, \<^verbatim>\<open>wsse.rs\<close>, with the
  types of \<^verbatim>\<open>crates/anvil-domain/src/auth.rs\<close>): the body digest, the HMAC request signature, DPoP proofs, signed
  and inspected JWTs, and the WS-Security header spliced into a SOAP envelope.

  Bytes are strings.  Digests, MACs, base64, key parsing, JWT encoding, dates and the XML parser are
  fields of \<open>auth_externs\<close>; the random bytes of a send are an argument, and the time is in seconds.
\<close>

section \<open>Types\<close>

datatype auth_error = AuthInvalid string | Acquisition string | AuthUnsupported string | InteractionRequired string | AuthCanceled string

datatype key_location = KeyHeader | KeyQuery | KeyCookie
datatype jwt_algorithm = HS256 | HS384 | HS512 | RS256 | ES256
datatype hmac_profile = FerrumV2 | FerrumV1Legacy
datatype hmac_algorithm = HmacSha256 | HmacSha384 | HmacSha512
datatype body_digest_header = ContentDigest | LegacyDigest
datatype wsse_password_type = PasswordText | PasswordDigest
datatype digest_alg = Sha256 | Sha512

record jwt_claims =
  jc_iss :: "string option"
  jc_sub :: "string option"
  jc_aud :: "string option"
  jc_expires_in_secs :: "int option"
  jc_not_before_offset_secs :: "int option"

record jwt_header =
  jh_alg :: jwt_algorithm
  jh_typ :: "string option"
  jh_kid :: "string option"
  jh_jwk :: "(string \<times> string) option"

record hmac_params =
  hp_profile :: hmac_profile
  hp_username :: string
  hp_secret :: string
  hp_algorithm :: hmac_algorithm
  hp_digest_header :: body_digest_header
  hp_namespace :: string
  hp_allow_unsafe_legacy :: bool

record signable_request =
  sr_method :: string
  sr_scheme :: string
  sr_authority :: string
  sr_raw_path :: string
  sr_raw_query :: string
  sr_headers :: "(string \<times> string) list"
  sr_body :: string

text \<open>What the parser reports of an envelope: the root's name, whether a \<^verbatim>\<open>Security\<close> element is inside, the prefix of
  its namespace, the byte range of its \<^verbatim>\<open>Header\<close> child and the start of its \<^verbatim>\<open>Body\<close> child.\<close>

record envelope_info =
  ei_root :: string
  ei_has_security :: bool
  ei_prefix :: string
  ei_header :: "(nat \<times> nat) option"
  ei_body_start :: "nat option"

datatype xml_parse_error = NodesLimitReached | XmlMalformed string

record auth_externs =
  ax_sha1 :: "string \<Rightarrow> string"
  ax_sha256 :: "string \<Rightarrow> string"
  ax_sha512 :: "string \<Rightarrow> string"
  ax_hmac :: "hmac_algorithm \<Rightarrow> string \<Rightarrow> string \<Rightarrow> string"
  ax_base64 :: "string \<Rightarrow> string"
  ax_base64url :: "string \<Rightarrow> string"
  ax_base64url_decode :: "string \<Rightarrow> string option"
  ax_hex :: "string \<Rightarrow> string"
  ax_http_date :: "int \<Rightarrow> string"
  ax_rfc3339 :: "int \<Rightarrow> string"
  ax_uuid :: "string \<Rightarrow> string"
  ax_public_point :: "string \<Rightarrow> string + string"
  ax_encoding_key :: "jwt_algorithm \<Rightarrow> string \<Rightarrow> string option"
  ax_jwt_encode :: "jwt_header \<Rightarrow> json \<Rightarrow> string \<Rightarrow> string + string"
  ax_json_parse :: "string \<Rightarrow> json option"
  ax_percent_encode :: "(char \<Rightarrow> bool) \<Rightarrow> string \<Rightarrow> string"
  ax_parse_envelope :: "string \<Rightarrow> xml_parse_error + envelope_info"
  ax_debug :: "string \<Rightarrow> string"

definition has_header :: "signable_request \<Rightarrow> string \<Rightarrow> bool" where
  "has_header req name \<longleftrightarrow> list_ex (\<lambda>(n, _). eq_ignore_ascii_case n name) (sr_headers req)"

definition ascii_upper :: "char \<Rightarrow> char" where
  "ascii_upper c = (if 97 \<le> byte c \<and> byte c \<le> 122 then char_of (byte c - 32) else c)"

section \<open>Body digests and HMAC signatures\<close>

definition digest_header :: "auth_externs \<Rightarrow> body_digest_header \<Rightarrow> digest_alg \<Rightarrow> string \<Rightarrow> string \<times> string" where
  "digest_header X kind alg body =
     (let (label, bytes) = (case alg of Sha256 \<Rightarrow> (''sha-256'', ax_sha256 X body) | Sha512 \<Rightarrow> (''sha-512'', ax_sha512 X body));
          b64 = ax_base64 X bytes
      in case kind of
           ContentDigest \<Rightarrow> (''Content-Digest'', label @ ''=:'' @ b64 @ '':'')
         | LegacyDigest \<Rightarrow> (''Digest'', label @ ''='' @ b64))"

definition profile_name :: "hmac_profile \<Rightarrow> string" where
  "profile_name p = (case p of FerrumV2 \<Rightarrow> ''ferrum-hmac-v2'' | FerrumV1Legacy \<Rightarrow> ''ferrum-hmac-v1'')"

definition alg_name :: "hmac_algorithm \<Rightarrow> string" where
  "alg_name a = (case a of HmacSha256 \<Rightarrow> ''hmac-sha256'' | HmacSha384 \<Rightarrow> ''hmac-sha384'' | HmacSha512 \<Rightarrow> ''hmac-sha512'')"

definition quote_param :: "string \<Rightarrow> string" where
  "quote_param s = replace_char CHR 0x22 [CHR 0x5C, CHR 0x22] (replace_char CHR 0x5C [CHR 0x5C, CHR 0x5C] s)"

definition fresh_nonce :: "auth_externs \<Rightarrow> string \<Rightarrow> string" where
  "fresh_nonce X rnd = ax_hex X (take 16 rnd)"

definition signing_string :: "hmac_profile \<Rightarrow> string list \<Rightarrow> string option \<Rightarrow> string" where
  "signing_string profile parts nonce =
     join_with [CHR 0x0A] (profile_name profile # parts @ (case nonce of Some n \<Rightarrow> [n] | None \<Rightarrow> []))"

record signed =
  sg_headers :: "(string \<times> string) list"
  sg_signing_string :: string
  sg_signature :: string
  sg_nonce :: "string option"

definition namespace_of :: "hmac_params \<Rightarrow> string" where
  "namespace_of p = (if hp_namespace p = [] then ''ferrum'' else hp_namespace p)"

definition nonce_of :: "hmac_params \<Rightarrow> string \<Rightarrow> string option" where
  "nonce_of p nonce = (case hp_profile p of FerrumV2 \<Rightarrow> Some nonce | FerrumV1Legacy \<Rightarrow> None)"

text \<open>The signature over a request with a date and a digest value, and the header that carries it.\<close>

definition hmac_signature :: "auth_externs \<Rightarrow> hmac_params \<Rightarrow> signable_request \<Rightarrow> string \<Rightarrow> string \<Rightarrow> string option \<Rightarrow> string \<times> string" where
  "hmac_signature X p req date dvalue nonce =
     (let ss = signing_string (hp_profile p)
                 [namespace_of p, hp_username p, sr_authority req, map ascii_upper (sr_method req), sr_raw_path req, sr_raw_query req, date, dvalue] nonce
      in (ss, ax_base64 X (ax_hmac X (hp_algorithm p) (hp_secret p) ss)))"

definition hmac_authorization :: "hmac_params \<Rightarrow> string option \<Rightarrow> string \<Rightarrow> string" where
  "hmac_authorization p nonce sig =
     ''hmac username='' @ [CHR 0x22] @ quote_param (hp_username p) @ [CHR 0x22] @ '', algorithm='' @ [CHR 0x22] @ alg_name (hp_algorithm p) @ [CHR 0x22]
     @ (case nonce of Some n \<Rightarrow> '', nonce='' @ [CHR 0x22] @ n @ [CHR 0x22] | None \<Rightarrow> [])
     @ '', signature='' @ [CHR 0x22] @ sig @ [CHR 0x22]"

definition sign_with :: "auth_externs \<Rightarrow> hmac_params \<Rightarrow> signable_request \<Rightarrow> string \<Rightarrow> string \<Rightarrow> auth_error + signed" where
  "sign_with X p req date nonce =
     (if hp_profile p = FerrumV1Legacy \<and> \<not> hp_allow_unsafe_legacy p then
        Inl (AuthInvalid ''the legacy ferrum-hmac-v1 profile is replayable and is disabled; enable the unsafe legacy option explicitly or use ferrum-hmac-v2'')
      else if trim (hp_username p) = [] then Inl (AuthInvalid ''HMAC username is empty'')
      else if hp_secret p = [] then Inl (AuthInvalid ''HMAC secret is empty'')
      else if has_header req ''digest'' \<or> has_header req ''content-digest'' then
        Inl (AuthInvalid ''HMAC signing computes the body digest itself; remove the manual Digest/Content-Digest header (the gateway rejects requests carrying both or a mismatched digest)'')
      else (let (dname, dvalue) = digest_header X (hp_digest_header p) Sha256 (sr_body req);
                n = nonce_of p nonce;
                (ss, sig) = hmac_signature X p req date dvalue n
            in Inr \<lparr>sg_headers = [(''Authorization'', hmac_authorization p n sig), (''Date'', date), (dname, dvalue)],
                    sg_signing_string = ss, sg_signature = sig, sg_nonce = n\<rparr>))"

definition hmac_sign :: "auth_externs \<Rightarrow> hmac_params \<Rightarrow> signable_request \<Rightarrow> int \<Rightarrow> string \<Rightarrow> auth_error + signed" where
  "hmac_sign X p req now rnd = sign_with X p req (ax_http_date X now) (fresh_nonce X rnd)"

section \<open>DPoP proofs\<close>

record dpop_proof =
  pf_jwt :: string
  pf_jti :: string
  pf_jkt :: string
  pf_htu :: string

definition htu_of :: "string \<Rightarrow> string \<Rightarrow> string \<Rightarrow> auth_error + string" where
  "htu_of scheme authority raw_path =
     (let s = lower scheme
      in if s \<noteq> ''http'' \<and> s \<noteq> ''https'' then Inl (AuthInvalid (''DPoP htu requires http or https, got '' @ s))
         else (let host = lower (trim authority);
                   host = (if s = ''http'' \<and> ends_with host '':80'' \<or> s = ''https'' \<and> ends_with host '':443''
                           then (case rposition (\<lambda>c. c = CHR '':'') host of Some i \<Rightarrow> take i host | None \<Rightarrow> host) else host);
                   path = fst (cut_at ''?#'' raw_path);
                   path = (if is_prefix_of ''/'' path then path else CHR ''/'' # path)
               in Inr (s @ ''://'' @ host @ path)))"

definition ath :: "auth_externs \<Rightarrow> string \<Rightarrow> string" where
  "ath X token = ax_base64url X (ax_sha256 X token)"

definition public_jwk :: "auth_externs \<Rightarrow> string \<Rightarrow> auth_error + string \<times> string" where
  "public_jwk X pem =
     (case ax_public_point X pem of
        Inl e \<Rightarrow> Inl (AuthInvalid (''DPoP key must be a P-256 private key in PKCS#8 or SEC1 PEM: '' @ e))
      | Inr bytes \<Rightarrow>
          (if length bytes \<noteq> 65 \<or> byte (hd bytes) \<noteq> 4 then Inl (AuthInvalid ''unexpected P-256 public key encoding'')
           else Inr (ax_base64url X (take 32 (drop 1 bytes)), ax_base64url X (take 32 (drop 33 bytes)))))"

definition jq :: "string \<Rightarrow> string" where
  "jq s = [CHR 0x22] @ s @ [CHR 0x22]"

definition thumbprint :: "auth_externs \<Rightarrow> string \<Rightarrow> string \<Rightarrow> string" where
  "thumbprint X x y =
     ax_base64url X (ax_sha256 X (''{'' @ jq ''crv'' @ '':'' @ jq ''P-256'' @ '','' @ jq ''kty'' @ '':'' @ jq ''EC'' @ '','' @ jq ''x'' @ '':'' @ jq x @ '','' @ jq ''y'' @ '':'' @ jq y @ ''}''))"

definition number_of_i64 :: "int \<Rightarrow> json" where
  "number_of_i64 i = JNumber (if 0 \<le> i then PosInt (of_int i) else NegInt (of_int i))"

definition dpop_claims :: "auth_externs \<Rightarrow> string \<Rightarrow> string \<Rightarrow> string \<Rightarrow> string option \<Rightarrow> string option \<Rightarrow> int \<Rightarrow> json" where
  "dpop_claims X meth target jti token nonce now =
     (let base = [(''htm'', JString (map ascii_upper meth)), (''htu'', JString target), (''iat'', number_of_i64 now), (''jti'', JString jti)];
          with_ath = (case token of Some t \<Rightarrow> map_set ''ath'' (JString (ath X t)) base | None \<Rightarrow> base)
      in JObject (case nonce of Some n \<Rightarrow> map_set ''nonce'' (JString n) with_ath | None \<Rightarrow> with_ath))"

definition dpop_header :: "string \<Rightarrow> string \<Rightarrow> jwt_header" where
  "dpop_header x y = \<lparr>jh_alg = ES256, jh_typ = Some ''dpop+jwt'', jh_kid = None, jh_jwk = Some (x, y)\<rparr>"

definition dpop_prove :: "auth_externs \<Rightarrow> string \<Rightarrow> string \<Rightarrow> string \<Rightarrow> string option \<Rightarrow> string option \<Rightarrow> int \<Rightarrow> string \<Rightarrow> auth_error + dpop_proof" where
  "dpop_prove X pem meth target token nonce now rnd =
     (case public_jwk X pem of
        Inl e \<Rightarrow> Inl e
      | Inr (x, y) \<Rightarrow>
          (let jti = ax_uuid X rnd; claims = dpop_claims X meth target jti token nonce now
           in case ax_encoding_key X ES256 pem of
                Some e \<Rightarrow> Inl (AuthInvalid (''DPoP key: '' @ e))
              | None \<Rightarrow>
                  (case ax_jwt_encode X (dpop_header x y) claims pem of
                     Inl e \<Rightarrow> Inl (AuthInvalid (''DPoP signing failed: '' @ e))
                   | Inr jwt \<Rightarrow> Inr \<lparr>pf_jwt = jwt, pf_jti = jti, pf_jkt = thumbprint X x y, pf_htu = target\<rparr>)))"

section \<open>JSON web tokens\<close>

text \<open>Arithmetic of \<^verbatim>\<open>i64\<close>.\<close>

definition wrap_i64 :: "int \<Rightarrow> int" where
  "wrap_i64 i = sint (of_int i :: 64 word)"

definition insert_opt :: "string \<Rightarrow> json option \<Rightarrow> (string \<times> json) list \<Rightarrow> (string \<times> json) list" where
  "insert_opt k v m = (case v of Some j \<Rightarrow> map_set k j m | None \<Rightarrow> m)"

definition jwt_body :: "jwt_claims \<Rightarrow> (string \<times> json) list \<Rightarrow> int \<Rightarrow> (string \<times> json) list" where
  "jwt_body claims extra ts =
     (let m = fold (\<lambda>(k, v). map_set k v) extra [];
          m = map_set ''iat'' (number_of_i64 ts) m;
          m = insert_opt ''iss'' (map_option JString (jc_iss claims)) m;
          m = insert_opt ''sub'' (map_option JString (jc_sub claims)) m;
          m = insert_opt ''aud'' (map_option JString (jc_aud claims)) m;
          m = insert_opt ''exp'' (map_option (\<lambda>e. number_of_i64 (wrap_i64 (ts + e))) (jc_expires_in_secs claims)) m
      in insert_opt ''nbf'' (map_option (\<lambda>n. number_of_i64 (wrap_i64 (ts + n))) (jc_not_before_offset_secs claims)) m)"

definition jwt_key_error :: "auth_externs \<Rightarrow> jwt_algorithm \<Rightarrow> string \<Rightarrow> string option" where
  "jwt_key_error X alg key =
     (case alg of
        RS256 \<Rightarrow> map_option ((@) ''RS256 key is not a valid RSA PEM: '') (ax_encoding_key X alg key)
      | ES256 \<Rightarrow> map_option ((@) ''ES256 key is not a valid P-256 PEM: '') (ax_encoding_key X alg key)
      | _ \<Rightarrow> if key = [] then Some ''JWT HMAC secret is empty'' else None)"

definition jwt_sign :: "auth_externs \<Rightarrow> jwt_algorithm \<Rightarrow> string \<Rightarrow> jwt_claims \<Rightarrow> json \<Rightarrow> string option \<Rightarrow> int \<Rightarrow> auth_error + string" where
  "jwt_sign X alg key claims extra kid now =
     (case (case extra of JObject m \<Rightarrow> Some m | JNull \<Rightarrow> Some [] | _ \<Rightarrow> None) of
        None \<Rightarrow> Inl (AuthInvalid ''additional JWT claims must be a JSON object'')
      | Some obj \<Rightarrow>
          (case jwt_key_error X alg key of
             Some e \<Rightarrow> Inl (AuthInvalid e)
           | None \<Rightarrow>
               (case ax_jwt_encode X \<lparr>jh_alg = alg, jh_typ = Some ''JWT'', jh_kid = kid, jh_jwk = None\<rparr> (JObject (jwt_body claims obj now)) key of
                  Inl e \<Rightarrow> Inl (AuthInvalid (''JWT signing failed: '' @ e))
                | Inr t \<Rightarrow> Inr t)))"

datatype time_status = TimeValid | TimeExpired | TimeNotYetValid | TimeNoExpiry

record inspection =
  in_header :: json
  in_claims :: json
  in_time_status :: time_status
  in_signature_verified :: bool
  in_notes :: "string list"

definition as_i64 :: "json \<Rightarrow> int option" where
  "as_i64 v =
     (case v of
        JNumber (PosInt w) \<Rightarrow> if unat w < 2 ^ 63 then Some (uint w) else None
      | JNumber (NegInt w) \<Rightarrow> Some (sint w)
      | _ \<Rightarrow> None)"

definition jwt_segment :: "auth_externs \<Rightarrow> string \<Rightarrow> auth_error + json" where
  "jwt_segment X s =
     (case ax_base64url_decode X (rev (dropWhile (\<lambda>c. c = CHR ''='') (rev s))) of
        None \<Rightarrow> Inl (AuthInvalid ''JWT segment is not base64url'')
      | Some b \<Rightarrow> (case ax_json_parse X b of None \<Rightarrow> Inl (AuthInvalid ''JWT segment is not JSON'') | Some j \<Rightarrow> Inr j))"

definition time_status_of :: "int \<Rightarrow> int \<Rightarrow> int option \<Rightarrow> int option \<Rightarrow> time_status" where
  "time_status_of ts leeway exp nbf =
     (case nbf of
        Some n \<Rightarrow> if wrap_i64 (ts + leeway) < n then TimeNotYetValid
                  else (case exp of Some e \<Rightarrow> if e \<le> wrap_i64 (ts - leeway) then TimeExpired else TimeValid | None \<Rightarrow> TimeNoExpiry)
      | None \<Rightarrow> (case exp of Some e \<Rightarrow> if e \<le> wrap_i64 (ts - leeway) then TimeExpired else TimeValid | None \<Rightarrow> TimeNoExpiry))"

definition inspect_notes :: "auth_externs \<Rightarrow> time_status \<Rightarrow> int option \<Rightarrow> int option \<Rightarrow> json \<Rightarrow> string list" where
  "inspect_notes X st exp nbf h =
     [''Decoded only: the signature has not been verified.'']
     @ (case (st, nbf, exp) of
          (TimeNotYetValid, Some n, _) \<Rightarrow> [''Not valid until '' @ ax_rfc3339 X n @ '' (local clock).'']
        | (TimeExpired, _, Some e) \<Rightarrow> [''Expired at '' @ ax_rfc3339 X e @ '' (local clock).'']
        | _ \<Rightarrow> [])
     @ (case json_get h ''alg'' of
          Some (JString a) \<Rightarrow>
            if eq_ignore_ascii_case a ''none''
            then [''Header declares alg '' @ jq ''none'' @ '': the token is unsigned and must never be accepted as verified.''] else []
        | _ \<Rightarrow> [])"

definition inspect :: "auth_externs \<Rightarrow> string \<Rightarrow> int \<Rightarrow> int \<Rightarrow> auth_error + inspection" where
  "inspect X token now leeway =
     (let parts = split_char CHR ''.'' (trim token)
      in if length parts \<noteq> 3 then Inl (AuthInvalid ''not a compact JWS (expected three dot-separated parts)'')
         else (case jwt_segment X (parts ! 0) of
                 Inl e \<Rightarrow> Inl e
               | Inr h \<Rightarrow>
                   (case jwt_segment X (parts ! 1) of
                      Inl e \<Rightarrow> Inl e
                    | Inr claims \<Rightarrow>
                        (let exp = Option.bind (json_get claims ''exp'') as_i64; nbf = Option.bind (json_get claims ''nbf'') as_i64;
                             st = time_status_of now leeway exp nbf
                         in Inr \<lparr>in_header = h, in_claims = claims, in_time_status = st, in_signature_verified = False,
                                 in_notes = inspect_notes X st exp nbf h\<rparr>))))"

section \<open>WS-Security\<close>

definition WSSE_NS :: string where "WSSE_NS = ''http://docs.oasis-open.org/wss/2004/01/oasis-200401-wss-wssecurity-secext-1.0.xsd''"
definition WSU_NS :: string where "WSU_NS = ''http://docs.oasis-open.org/wss/2004/01/oasis-200401-wss-wssecurity-utility-1.0.xsd''"
definition PW_TEXT :: string where "PW_TEXT = ''http://docs.oasis-open.org/wss/2004/01/oasis-200401-wss-username-token-profile-1.0#PasswordText''"
definition PW_DIGEST :: string where "PW_DIGEST = ''http://docs.oasis-open.org/wss/2004/01/oasis-200401-wss-username-token-profile-1.0#PasswordDigest''"
definition B64_ENC :: string where "B64_ENC = ''http://docs.oasis-open.org/wss/2004/01/oasis-200401-wss-soap-message-security-1.0#Base64Binary''"
definition MAX_ENVELOPE_NODES :: nat where "MAX_ENVELOPE_NODES = 1000000"

definition ENVELOPE_XML_LIMITS :: xml_limits where
  "ENVELOPE_XML_LIMITS =
     \<lparr>attributes_per_element = 256, attribute_pairs = 2 ^ 20, attribute_name_bytes = 1024, xmlns_declarations = 4096,
      xmlns_prefix_bytes = 256, xmlns_uri_bytes = 2048, in_scope_namespaces = 128, namespace_scope_work = 2 ^ 24\<rparr>"

definition password_digest :: "auth_externs \<Rightarrow> string \<Rightarrow> string \<Rightarrow> string \<Rightarrow> string" where
  "password_digest X nonce created password = ax_base64 X (ax_sha1 X (nonce @ created @ password))"

definition xml_escape :: "string \<Rightarrow> string" where
  "xml_escape s =
     replace_char CHR 0x27 ''&apos;'' (replace_char CHR 0x22 ''&quot;'' (replace_char CHR ''>'' ''&gt;''
       (replace_char CHR ''<'' ''&lt;'' (replace_char CHR ''&'' ''&amp;'' s))))"

definition security_header :: "auth_externs \<Rightarrow> string \<Rightarrow> string \<Rightarrow> wsse_password_type \<Rightarrow> nat option \<Rightarrow> string option \<Rightarrow> int \<Rightarrow> string \<Rightarrow> string" where
  "security_header X username password ptype ttl saml now nonce =
     (let created = ax_rfc3339 X now;
          (ptype_uri, pw) = (case ptype of
             PasswordText \<Rightarrow> (PW_TEXT, xml_escape password)
           | PasswordDigest \<Rightarrow> (PW_DIGEST, password_digest X nonce created password))
      in ''<wsse:Security xmlns:wsse='' @ jq WSSE_NS @ '' xmlns:wsu='' @ jq WSU_NS @ ''>''
         @ (case ttl of
              Some t \<Rightarrow> ''<wsu:Timestamp wsu:Id='' @ jq ''TS-1'' @ ''><wsu:Created>'' @ created @ ''</wsu:Created><wsu:Expires>''
                        @ ax_rfc3339 X (now + int t) @ ''</wsu:Expires></wsu:Timestamp>''
            | None \<Rightarrow> [])
         @ ''<wsse:UsernameToken wsu:Id='' @ jq ''UT-1'' @ ''><wsse:Username>'' @ xml_escape username @ ''</wsse:Username><wsse:Password Type=''
         @ jq ptype_uri @ ''>'' @ pw @ ''</wsse:Password><wsse:Nonce EncodingType='' @ jq B64_ENC @ ''>'' @ ax_base64 X nonce
         @ ''</wsse:Nonce><wsu:Created>'' @ created @ ''</wsu:Created></wsse:UsernameToken>''
         @ (case saml of Some a \<Rightarrow> trim a | None \<Rightarrow> [])
         @ ''</wsse:Security>'')"

text \<open>\<^verbatim>\<open>start_tag_end\<close>: the quote that is open, and the offset.\<close>

fun tag_end_from :: "char option \<Rightarrow> nat \<Rightarrow> string \<Rightarrow> nat option" where
  "tag_end_from quot i [] = None"
| "tag_end_from quot i (b # bs) =
     (case quot of
        Some q \<Rightarrow> tag_end_from (if b = q then None else Some q) (i + 1) bs
      | None \<Rightarrow>
          (if b = CHR 0x22 \<or> b = CHR 0x27 then tag_end_from (Some b) (i + 1) bs
           else if b = CHR ''>'' then Some (i + 1)
           else tag_end_from None (i + 1) bs))"

definition start_tag_end :: "string \<Rightarrow> nat option" where
  "start_tag_end tag = tag_end_from None 0 tag"

record inserted =
  is_body :: string
  is_token_secrets :: "string list"

definition wsse_token_secrets :: "auth_externs \<Rightarrow> wsse_password_type \<Rightarrow> string \<Rightarrow> int \<Rightarrow> string \<Rightarrow> string list" where
  "wsse_token_secrets X ptype password now nonce =
     (case ptype of PasswordText \<Rightarrow> [] | PasswordDigest \<Rightarrow> [password_digest X nonce (ax_rfc3339 X now) password, ax_base64 X nonce])"

definition wrap_header :: "string \<Rightarrow> string \<Rightarrow> string" where
  "wrap_header ns_prefix header_xml =
     (let q = (if ns_prefix = [] then ''Header'' else ns_prefix @ '':Header'') in ''<'' @ q @ ''>'' @ header_xml @ ''</'' @ q @ ''>'')"

text \<open>The splice of the header into the text at the positions the parser gave.\<close>

definition splice_header :: "string \<Rightarrow> envelope_info \<Rightarrow> string \<Rightarrow> auth_error + string" where
  "splice_header txt env header_xml =
     (case ei_header env of
        Some (a, b) \<Rightarrow>
          (case start_tag_end (take (b - a) (drop a txt)) of
             None \<Rightarrow> Inl (AuthInvalid ''malformed Header'')
           | Some i \<Rightarrow>
               (if ends_with (take i (drop a txt)) ''/>'' then Inr (take a txt @ wrap_header (ei_prefix env) header_xml @ drop b txt)
                else Inr (take (a + i) txt @ header_xml @ drop (a + i) txt)))
      | None \<Rightarrow>
          (case ei_body_start env of
             None \<Rightarrow> Inl (AuthInvalid ''SOAP envelope has no Body'')
           | Some at \<Rightarrow> Inr (take at txt @ wrap_header (ei_prefix env) header_xml @ drop at txt)))"

definition parse_checked :: "auth_externs \<Rightarrow> string \<Rightarrow> string \<Rightarrow> string \<Rightarrow> auth_error + envelope_info" where
  "parse_checked X what malformed txt =
     (case check_xml_limits txt ENVELOPE_XML_LIMITS of
        Inl e \<Rightarrow> Inl (AuthInvalid (what @ '' envelope is too complex to parse safely: '' @ show_exceeded e))
      | Inr _ \<Rightarrow>
          (case ax_parse_envelope X txt of
             Inl NodesLimitReached \<Rightarrow> Inl (AuthInvalid (what @ '' envelope is too complex to parse safely: more than '' @ show_nat MAX_ENVELOPE_NODES @ '' nodes''))
           | Inl (XmlMalformed e) \<Rightarrow> Inl (AuthInvalid (malformed @ '' envelope is not well-formed XML: '' @ e))
           | Inr env \<Rightarrow> Inr env))"

definition insert_security_token ::
    "auth_externs \<Rightarrow> string \<Rightarrow> string \<Rightarrow> string \<Rightarrow> wsse_password_type \<Rightarrow> nat option \<Rightarrow> string option \<Rightarrow> int \<Rightarrow> string \<Rightarrow> auth_error + inserted" where
  "insert_security_token X body username password ptype ttl saml now rnd =
     (let nonce = take 16 rnd; header_xml = security_header X username password ptype ttl saml now nonce
      in if \<not> is_utf8 body then Inl (AuthInvalid ''SOAP envelope is not UTF-8'')
         else case parse_checked X ''SOAP'' ''SOAP'' body of
                Inl e \<Rightarrow> Inl e
              | Inr env \<Rightarrow>
                  (if ei_root env \<noteq> ''Envelope'' then Inl (AuthInvalid ''WS-Security requires a SOAP Envelope body'')
                   else if ei_has_security env then
                     Inl (AuthInvalid ''the envelope already contains a wsse:Security header; remove it or disable WS-Security auth'')
                   else case splice_header body env header_xml of
                          Inl e \<Rightarrow> Inl e
                        | Inr out \<Rightarrow>
                            (case parse_checked X ''WS-Security'' ''rewritten SOAP'' out of
                               Inl e \<Rightarrow> Inl e
                             | Inr _ \<Rightarrow> Inr \<lparr>is_body = out, is_token_secrets = wsse_token_secrets X ptype password now nonce\<rparr>)))"

definition insert_security ::
    "auth_externs \<Rightarrow> string \<Rightarrow> string \<Rightarrow> string \<Rightarrow> wsse_password_type \<Rightarrow> nat option \<Rightarrow> string option \<Rightarrow> int \<Rightarrow> string \<Rightarrow> auth_error + string" where
  "insert_security X body username password ptype ttl saml now rnd =
     map_sum id is_body (insert_security_token X body username password ptype ttl saml now rnd)"

end
