(* ===== verification/Auth_Compose.thy ===== *)
theory Auth_Compose
  imports Auth_Sign
begin

text \<open>
  The credentials of a request composed (\<^verbatim>\<open>apply\<close> of \<^verbatim>\<open>crates/anvil-auth/src/lib.rs\<close>): profiles in order, each against
  the request as the earlier ones leave it, with the conflicts that are refused.
\<close>

section \<open>Profiles and what they change\<close>

datatype resolved_auth =
    AuthNone
  | ApiKey string string key_location
  | Basic string string
  | Bearer string string
  | Jwt jwt_algorithm string jwt_claims json "string option" string string
  | OAuth2 string string
  | Hmac hmac_params
  | Dpop string string bool "string option"
  | Wsse string string wsse_password_type "nat option" "string option"
  | JwtSvid string string string
  | Multi "resolved_auth list"

record applied =
  ap_set_headers :: "(string \<times> string) list"
  ap_append_query :: "(string \<times> string) list"
  ap_body :: "string option"
  ap_label :: string
  ap_secrets :: "string list"
  ap_facts :: "(string \<times> string) list"

definition no_changes :: applied where
  "no_changes = \<lparr>ap_set_headers = [], ap_append_query = [], ap_body = None, ap_label = [], ap_secrets = [], ap_facts = []\<rparr>"

text \<open>\<^verbatim>\<open>{:?}\<close> of the enumerations in labels.\<close>

definition debug_location :: "key_location \<Rightarrow> string" where
  "debug_location l = (case l of KeyHeader \<Rightarrow> ''Header'' | KeyQuery \<Rightarrow> ''Query'' | KeyCookie \<Rightarrow> ''Cookie'')"

definition debug_jwt_alg :: "jwt_algorithm \<Rightarrow> string" where
  "debug_jwt_alg a = (case a of HS256 \<Rightarrow> ''HS256'' | HS384 \<Rightarrow> ''HS384'' | HS512 \<Rightarrow> ''HS512'' | RS256 \<Rightarrow> ''RS256'' | ES256 \<Rightarrow> ''ES256'')"

definition debug_profile :: "hmac_profile \<Rightarrow> string" where
  "debug_profile p = (case p of FerrumV2 \<Rightarrow> ''FerrumV2'' | FerrumV1Legacy \<Rightarrow> ''FerrumV1Legacy'')"

definition debug_ptype :: "wsse_password_type \<Rightarrow> string" where
  "debug_ptype p = (case p of PasswordText \<Rightarrow> ''PasswordText'' | PasswordDigest \<Rightarrow> ''PasswordDigest'')"

primrec auth_label :: "resolved_auth \<Rightarrow> string" where
  "auth_label AuthNone = ''none''"
| "auth_label (ApiKey name v l) = ''api_key('' @ debug_location l @ '' '' @ name @ '')''"
| "auth_label (Basic user pw) = ''basic(user '' @ user @ '')''"
| "auth_label (Bearer tok pre) = ''bearer''"
| "auth_label (Jwt alg key cl ex kid hn pre) = ''jwt('' @ debug_jwt_alg alg @ '')''"
| "auth_label (OAuth2 tok ty) = ''oauth2(access token)''"
| "auth_label (Hmac p) = ''hmac('' @ debug_profile (hp_profile p) @ '', user '' @ hp_username p @ '')''"
| "auth_label (Dpop tok pem sch n) = ''dpop(bound access token)''"
| "auth_label (Wsse user pw pt ttl saml) = ''ws-security('' @ debug_ptype pt @ '', user '' @ user @ '')''"
| "auth_label (JwtSvid tok hn pre) = ''jwt_svid('' @ hn @ '')''"
| "auth_label (Multi parts) = ''multi['' @ join_with '', '' (map auth_label parts) @ '']''"

definition set_header :: "string \<Rightarrow> string \<Rightarrow> applied \<Rightarrow> applied" where
  "set_header name v a = a\<lparr>ap_set_headers := filter (\<lambda>(n, _). \<not> eq_ignore_ascii_case n name) (ap_set_headers a) @ [(name, v)]\<rparr>"

definition add_secrets :: "string list \<Rightarrow> applied \<Rightarrow> applied" where
  "add_secrets ss a = a\<lparr>ap_secrets := ap_secrets a @ ss\<rparr>"

definition add_facts :: "(string \<times> string) list \<Rightarrow> applied \<Rightarrow> applied" where
  "add_facts fs a = a\<lparr>ap_facts := ap_facts a @ fs\<rparr>"

fun flatten :: "resolved_auth \<Rightarrow> resolved_auth list" where
  "flatten AuthNone = []"
| "flatten (Multi parts) = concat (map flatten parts)"
| "flatten other = [other]"

definition absorb_header :: "string \<times> string \<Rightarrow> signable_request \<Rightarrow> signable_request" where
  "absorb_header h req =
     (case h of (n, v) \<Rightarrow>
        req\<lparr>sr_headers := filter (\<lambda>(h, _). \<not> eq_ignore_ascii_case h n) (sr_headers req) @ [(n, v)],
            sr_authority := (if eq_ignore_ascii_case n ''host'' then v else sr_authority req)\<rparr>)"

definition absorb_query :: "auth_externs \<Rightarrow> string \<times> string \<Rightarrow> signable_request \<Rightarrow> signable_request" where
  "absorb_query X kv req =
     (let pair = ax_percent_encode X QUERY_COMPONENT (fst kv) @ ''='' @ ax_percent_encode X QUERY_COMPONENT (snd kv)
      in req\<lparr>sr_raw_query := (if sr_raw_query req = [] then pair else sr_raw_query req @ ''&'' @ pair)\<rparr>)"

definition absorb_step :: "auth_externs \<Rightarrow> applied \<Rightarrow> signable_request \<Rightarrow> signable_request" where
  "absorb_step X step req =
     (let req = fold absorb_header (ap_set_headers step) req;
          req = fold (absorb_query X) (ap_append_query step) req
      in case ap_body step of Some b \<Rightarrow> req\<lparr>sr_body := b\<rparr> | None \<Rightarrow> req)"

section \<open>Refused conflicts\<close>

record signature =
  si_label :: string
  si_query :: bool
  si_body :: bool
  si_headers :: "string list"

record composed =
  co_headers :: "(string \<times> string \<times> bool) list"
  co_cookies :: "(string \<times> string) list"
  co_query :: "(string \<times> string) list"
  co_signatures :: "signature list"

definition nothing_composed :: composed where
  "nothing_composed = \<lparr>co_headers = [], co_cookies = [], co_query = [], co_signatures = []\<rparr>"

definition cookie_key :: "resolved_auth \<Rightarrow> string option" where
  "cookie_key step = (case step of ApiKey name _ KeyCookie \<Rightarrow> Some name | _ \<Rightarrow> None)"

definition would_change :: "applied \<Rightarrow> signature \<Rightarrow> string option" where
  "would_change out sig =
     (if si_query sig \<and> ap_append_query out \<noteq> [] then Some ''query''
      else if si_body sig \<and> ap_body out \<noteq> None then Some ''body''
      else map_option (\<lambda>(n, _). n @ '' header'') (find (\<lambda>(n, _). list_ex (eq_ignore_ascii_case n) (si_headers sig)) (ap_set_headers out)))"

definition check_signature :: "string \<Rightarrow> applied \<Rightarrow> signature \<Rightarrow> auth_error option" where
  "check_signature label out sig =
     map_option (\<lambda>what. AuthInvalid (''the auth profile '' @ label @ '' would change the '' @ what @ '' after '' @ si_label sig
       @ '' signed the request, so the signature would not match what is sent; put '' @ label @ '' before '' @ si_label sig @ '' in the multi-auth list''))
       (would_change out sig)"

fun check_headers :: "string \<Rightarrow> bool \<Rightarrow> (string \<times> string) list \<Rightarrow> composed \<Rightarrow> auth_error + composed" where
  "check_headers label cookie [] c = Inr c"
| "check_headers label cookie ((n, v) # hs) c =
     (let key = lower n; merge = (cookie \<and> key = ''cookie'')
      in case find (\<lambda>(h, _). h = key) (co_headers c) of
           Some (_, owner, owner_merge) \<Rightarrow>
             (if \<not> (merge \<and> owner_merge) then
                Inl (AuthInvalid (''several auth profiles would each set the '' @ n @ '' header ('' @ owner @ '' and '' @ label @ ''); choose one profile for '' @ n))
              else check_headers label cookie hs c)
         | None \<Rightarrow> check_headers label cookie hs (c\<lparr>co_headers := co_headers c @ [(key, label, merge)]\<rparr>))"

definition check_cookie :: "string \<Rightarrow> string option \<Rightarrow> composed \<Rightarrow> auth_error + composed" where
  "check_cookie label cookie c =
     (case cookie of
        None \<Rightarrow> Inr c
      | Some name \<Rightarrow>
          (case find (\<lambda>(n, _). n = name) (co_cookies c) of
             Some (_, owner) \<Rightarrow>
               Inl (AuthInvalid (''several auth profiles would each send the cookie '' @ [CHR 0x27] @ name @ [CHR 0x27] @ '' ('' @ owner @ '' and '' @ label @ ''); give each cookie credential its own name''))
           | None \<Rightarrow> Inr (c\<lparr>co_cookies := co_cookies c @ [(name, label)]\<rparr>)))"

fun check_query :: "string \<Rightarrow> (string \<times> string) list \<Rightarrow> composed \<Rightarrow> auth_error + composed" where
  "check_query label [] c = Inr c"
| "check_query label ((k, v) # ks) c =
     (case find (\<lambda>(q, _). q = k) (co_query c) of
        Some (_, owner) \<Rightarrow>
          Inl (AuthInvalid (''several auth profiles would each add the query parameter '' @ [CHR 0x27] @ k @ [CHR 0x27] @ '' ('' @ owner @ '' and '' @ label @ ''); give each query credential its own name''))
      | None \<Rightarrow> check_query label ks (c\<lparr>co_query := co_query c @ [(k, label)]\<rparr>))"

definition signature_of :: "resolved_auth \<Rightarrow> signature option" where
  "signature_of step =
     (case step of
        Hmac _ \<Rightarrow> Some \<lparr>si_label = auth_label step, si_query = True, si_body = True, si_headers = [''host'', ''date'', ''digest'', ''content-digest'']\<rparr>
      | Dpop _ _ _ _ \<Rightarrow> Some \<lparr>si_label = auth_label step, si_query = False, si_body = False, si_headers = [''host'']\<rparr>
      | _ \<Rightarrow> None)"

definition check :: "resolved_auth \<Rightarrow> applied \<Rightarrow> composed \<Rightarrow> auth_error + composed" where
  "check step out c =
     (let label = auth_label step
      in case List.map_filter (check_signature label out) (co_signatures c) of
           e # _ \<Rightarrow> Inl e
         | [] \<Rightarrow>
             (case check_headers label (cookie_key step \<noteq> None) (ap_set_headers out) c of
                Inl e \<Rightarrow> Inl e
              | Inr c1 \<Rightarrow>
                  (case check_cookie label (cookie_key step) c1 of
                     Inl e \<Rightarrow> Inl e
                   | Inr c2 \<Rightarrow>
                       (case check_query label (ap_append_query out) c2 of
                          Inl e \<Rightarrow> Inl e
                        | Inr c3 \<Rightarrow> Inr (case signature_of step of Some sig \<Rightarrow> c3\<lparr>co_signatures := co_signatures c3 @ [sig]\<rparr> | None \<Rightarrow> c3)))))"

section \<open>One profile\<close>

definition is_cookie_octet :: "char \<Rightarrow> bool" where
  "is_cookie_octet c \<longleftrightarrow> (let b = byte c in b = 33 \<or> 35 \<le> b \<and> b \<le> 43 \<or> 45 \<le> b \<and> b \<le> 58 \<or> 60 \<le> b \<and> b \<le> 91 \<or> 93 \<le> b \<and> b \<le> 126)"

definition is_token_char :: "char \<Rightarrow> bool" where
  "is_token_char c \<longleftrightarrow> is_ascii_alphanumeric c \<or> c \<in> set (''!#$%&'' @ [CHR 0x27] @ ''*+-.^_'' @ [CHR 0x60] @ ''|~'')"

definition unquoted :: "string \<Rightarrow> string" where
  "unquoted v = (if is_prefix_of [CHR 0x22] v \<and> ends_with (tl v) [CHR 0x22] then butlast (tl v) else v)"

definition cookie_pairs :: "signable_request \<Rightarrow> string list" where
  "cookie_pairs req =
     filter (\<lambda>p. p \<noteq> []) (map trim (concat (map (\<lambda>(_, v). split_char CHR '';'' v) (filter (\<lambda>(n, _). eq_ignore_ascii_case n ''cookie'') (sr_headers req)))))"

definition pair_name :: "string \<Rightarrow> string" where
  "pair_name p = trim (case split_once CHR ''='' p of Some (n, _) \<Rightarrow> n | None \<Rightarrow> p)"

definition with_cookie :: "auth_externs \<Rightarrow> signable_request \<Rightarrow> string \<Rightarrow> string \<Rightarrow> auth_error + string" where
  "with_cookie X req name v =
     (if \<not> list_all is_token_char name then
        Inl (AuthInvalid (''the cookie API key name '' @ ax_debug X name @ '' is not a valid cookie name; use letters, digits and !#$%&'' @ [CHR 0x27] @ ''*+-.^_'' @ [CHR 0x60] @ ''|~ only''))
      else if \<not> list_all is_cookie_octet (unquoted v) then
        Inl (AuthInvalid (''the cookie API key '' @ [CHR 0x27] @ name @ [CHR 0x27] @ '' has an invalid cookie value (no whitespace, control or non-ASCII characters, '' @ [CHR 0x22] @ '', ; or '' @ [CHR 0x5C] @ '')''))
      else Inr (join_with ''; '' (filter (\<lambda>p. pair_name p \<noteq> name) (cookie_pairs req) @ [name @ ''='' @ v])))"

definition prefixed :: "string \<Rightarrow> string \<Rightarrow> string" where
  "prefixed pre token = (if pre = [] then token else pre @ '' '' @ token)"

definition saml_secrets :: "string option \<Rightarrow> string list" where
  "saml_secrets saml =
     (case saml of
        None \<Rightarrow> []
      | Some a \<Rightarrow>
          (let t = trim a; e = xml_escape t
           in [a] @ (if t \<noteq> a then [t] else []) @ (if e \<noteq> t then [e] else [])))"

fun apply_step :: "auth_externs \<Rightarrow> resolved_auth \<Rightarrow> signable_request \<Rightarrow> int \<Rightarrow> string \<Rightarrow> applied \<Rightarrow> auth_error + applied" where
  "apply_step X (ApiKey name v location) req now rnd out =
     (if trim name = [] then Inl (AuthInvalid ''API key name is empty'')
      else case location of
             KeyHeader \<Rightarrow> Inr (set_header name v (add_secrets [v] out))
           | KeyQuery \<Rightarrow> Inr ((add_secrets [v] out)\<lparr>ap_append_query := ap_append_query out @ [(name, v)]\<rparr>)
           | KeyCookie \<Rightarrow> map_sum id (\<lambda>c. set_header ''Cookie'' c (add_secrets [v] out)) (with_cookie X req name v))"
| "apply_step X (Basic username password) req now rnd out =
     (if CHR '':'' \<in> set username then Inl (AuthInvalid (''Basic auth user names cannot contain '' @ [CHR 0x27] @ '':'' @ [CHR 0x27]))
      else (let token = ax_base64 X (username @ '':'' @ password)
            in Inr (set_header ''Authorization'' (''Basic '' @ token) (add_secrets [password, token] out))))"
| "apply_step X (Bearer token pre) req now rnd out = Inr (set_header ''Authorization'' (prefixed pre token) (add_secrets [token] out))"
| "apply_step X (Jwt alg key claims extra kid header_name pre) req now rnd out =
     map_sum id (\<lambda>token. set_header header_name (prefixed pre token) (add_secrets [key, token] out)) (jwt_sign X alg key claims extra kid now)"
| "apply_step X (OAuth2 access_token token_type) req now rnd out =
     Inr (set_header ''Authorization''
           ((if eq_ignore_ascii_case token_type ''bearer'' \<or> token_type = [] then ''Bearer'' else token_type) @ '' '' @ access_token)
           (add_secrets [access_token] out))"
| "apply_step X (Hmac p) req now rnd out =
     map_sum id (\<lambda>s. add_facts [(''hmac.nonce'', case sg_nonce s of Some n \<Rightarrow> n | None \<Rightarrow> [])]
                       (fold (\<lambda>(n, v). set_header n v) (sg_headers s) (add_secrets [hp_secret p] out)))
       (hmac_sign X p req now rnd)"
| "apply_step X (Dpop access_token pem dpop_scheme nonce) req now rnd out =
     (case htu_of (sr_scheme req) (sr_authority req) (sr_raw_path req) of
        Inl e \<Rightarrow> Inl e
      | Inr target \<Rightarrow>
          map_sum id (\<lambda>pf. add_facts [(''dpop.jti'', pf_jti pf), (''dpop.jkt'', pf_jkt pf), (''dpop.htu'', pf_htu pf)]
              (set_header ''DPoP'' (pf_jwt pf)
                (set_header ''Authorization'' ((if dpop_scheme then ''DPoP'' else ''Bearer'') @ '' '' @ access_token) (add_secrets [access_token, pem] out))))
            (dpop_prove X pem (sr_method req) target (Some access_token) nonce now rnd))"
| "apply_step X (Wsse username password ptype ttl saml) req now rnd out =
     map_sum id (\<lambda>ins. (add_secrets ([password] @ is_token_secrets ins
              @ (if xml_escape password \<noteq> password then [xml_escape password] else []) @ saml_secrets saml) out)\<lparr>ap_body := Some (is_body ins)\<rparr>)
       (insert_security_token X (sr_body req) username password ptype ttl saml now rnd)"
| "apply_step X (JwtSvid token header_name pre) req now rnd out =
     (if token = [] then Inl (AuthInvalid ''no JWT-SVID is available for this request'')
      else Inr (set_header header_name (prefixed pre token) (add_secrets [token] out)))"
| "apply_step X AuthNone req now rnd out = Inr out"
| "apply_step X (Multi parts) req now rnd out = Inr out"

section \<open>The composition\<close>

definition merge_applied :: "applied \<Rightarrow> applied \<Rightarrow> applied" where
  "merge_applied out a =
     (let a = fold (\<lambda>(n, v). set_header n v) (ap_set_headers out) a
      in a\<lparr>ap_append_query := ap_append_query a @ ap_append_query out,
           ap_body := (case ap_body out of Some b \<Rightarrow> Some b | None \<Rightarrow> ap_body a),
           ap_secrets := ap_secrets a @ ap_secrets out, ap_facts := ap_facts a @ ap_facts out\<rparr>)"

text \<open>The random bytes of the profiles, one after the other.\<close>

fun apply_loop :: "auth_externs \<Rightarrow> int \<Rightarrow> string list \<Rightarrow> resolved_auth list \<Rightarrow> signable_request \<Rightarrow> composed \<Rightarrow> applied \<Rightarrow> auth_error + applied" where
  "apply_loop X now rnds [] effective c a = Inr a"
| "apply_loop X now rnds (step # steps) effective c a =
     (case apply_step X step effective now (case rnds of [] \<Rightarrow> [] | r # _ \<Rightarrow> r) no_changes of
        Inl e \<Rightarrow> Inl e
      | Inr out \<Rightarrow>
          (case check step out c of
             Inl e \<Rightarrow> Inl e
           | Inr c' \<Rightarrow>
               apply_loop X now (tl rnds) steps (if steps \<noteq> [] then absorb_step X out effective else effective) c' (merge_applied out a)))"

definition apply_auth :: "auth_externs \<Rightarrow> resolved_auth \<Rightarrow> signable_request \<Rightarrow> int \<Rightarrow> string list \<Rightarrow> auth_error + applied" where
  "apply_auth X auth req now rnds =
     (let steps = flatten auth;
          hmac = length (filter (\<lambda>s. case s of Hmac _ \<Rightarrow> True | _ \<Rightarrow> False) steps);
          dpop = length (filter (\<lambda>s. case s of Dpop _ _ _ _ \<Rightarrow> True | _ \<Rightarrow> False) steps)
      in if 1 < hmac then Inl (AuthInvalid ''a multi-auth set can hold one HMAC profile'')
         else if 1 < dpop then Inl (AuthInvalid ''a multi-auth set can hold one DPoP profile'')
         else apply_loop X now rnds steps req nothing_composed (no_changes\<lparr>ap_label := auth_label auth\<rparr>))"

section \<open>The request that is sent\<close>

text \<open>The values of a header of a request, and the request's fields that no header touches.\<close>

definition hdr :: "signable_request \<Rightarrow> string \<Rightarrow> string list" where
  "hdr req name = map snd (filter (\<lambda>(n, _). eq_ignore_ascii_case n name) (sr_headers req))"

lemma eq_ignore_sym: "eq_ignore_ascii_case a b \<longleftrightarrow> eq_ignore_ascii_case b a"
  by (auto simp: eq_ignore_ascii_case_def)

lemma absorb_header_fields [simp]:
  "sr_method (absorb_header h r) = sr_method r" "sr_scheme (absorb_header h r) = sr_scheme r"
  "sr_raw_path (absorb_header h r) = sr_raw_path r" "sr_raw_query (absorb_header h r) = sr_raw_query r" "sr_body (absorb_header h r) = sr_body r"
  by (cases h; simp add: absorb_header_def)+

lemma absorb_query_fields [simp]:
  "sr_method (absorb_query X q r) = sr_method r" "sr_scheme (absorb_query X q r) = sr_scheme r" "sr_authority (absorb_query X q r) = sr_authority r"
  "sr_raw_path (absorb_query X q r) = sr_raw_path r" "sr_headers (absorb_query X q r) = sr_headers r" "sr_body (absorb_query X q r) = sr_body r"
  by (simp_all add: absorb_query_def Let_def)

lemma absorb_headers_fields [simp]:
  "sr_method (fold absorb_header hs r) = sr_method r" "sr_scheme (fold absorb_header hs r) = sr_scheme r"
  "sr_raw_path (fold absorb_header hs r) = sr_raw_path r" "sr_raw_query (fold absorb_header hs r) = sr_raw_query r"
  "sr_body (fold absorb_header hs r) = sr_body r"
  by (induction hs arbitrary: r) simp_all

lemma absorb_queries_fields [simp]:
  "sr_method (fold (absorb_query X) qs r) = sr_method r" "sr_scheme (fold (absorb_query X) qs r) = sr_scheme r"
  "sr_authority (fold (absorb_query X) qs r) = sr_authority r" "sr_raw_path (fold (absorb_query X) qs r) = sr_raw_path r"
  "sr_headers (fold (absorb_query X) qs r) = sr_headers r" "sr_body (fold (absorb_query X) qs r) = sr_body r"
  by (induction qs arbitrary: r) simp_all

lemma absorb_query_commutes: "absorb_query X q (absorb_header h r) = absorb_header h (absorb_query X q r)"
  by (cases h) (simp add: absorb_header_def absorb_query_def Let_def)

lemma absorb_queries_commute:
  "fold (absorb_query X) qs (fold absorb_header hs r) = fold absorb_header hs (fold (absorb_query X) qs r)"
proof (induction hs arbitrary: r)
  case (Cons h hs)
  have "fold (absorb_query X) qs (absorb_header h r') = absorb_header h (fold (absorb_query X) qs r')" for r'
    by (induction qs arbitrary: r') (simp_all add: absorb_query_commutes)
  then show ?case using Cons.IH by simp
qed simp

lemma absorb_body_commutes:
  "fold absorb_header hs (r\<lparr>sr_body := b\<rparr>) = (fold absorb_header hs r)\<lparr>sr_body := b\<rparr>"
  "fold (absorb_query X) qs (r\<lparr>sr_body := b\<rparr>) = (fold (absorb_query X) qs r)\<lparr>sr_body := b\<rparr>"
proof -
  have h: "absorb_header h (r'\<lparr>sr_body := b\<rparr>) = (absorb_header h r')\<lparr>sr_body := b\<rparr>" for h r'
    by (cases h) (simp add: absorb_header_def)
  have q: "absorb_query X q (r'\<lparr>sr_body := b\<rparr>) = (absorb_query X q r')\<lparr>sr_body := b\<rparr>" for q r'
    by (simp add: absorb_query_def Let_def)
  show "fold absorb_header hs (r\<lparr>sr_body := b\<rparr>) = (fold absorb_header hs r)\<lparr>sr_body := b\<rparr>"
    by (induction hs arbitrary: r) (simp_all add: h)
  show "fold (absorb_query X) qs (r\<lparr>sr_body := b\<rparr>) = (fold (absorb_query X) qs r)\<lparr>sr_body := b\<rparr>"
    by (induction qs arbitrary: r) (simp_all add: q)
qed

text \<open>Requests that agree but for one header: setting that header makes them equal.\<close>

definition agree_but :: "string \<Rightarrow> signable_request \<Rightarrow> signable_request \<Rightarrow> bool" where
  "agree_but n r s \<longleftrightarrow> (\<forall>v. absorb_header (n, v) r = absorb_header (n, v) s)"

lemma agree_but_iff:
  "agree_but n r s \<longleftrightarrow>
     filter (\<lambda>(h, _). \<not> eq_ignore_ascii_case h n) (sr_headers r) = filter (\<lambda>(h, _). \<not> eq_ignore_ascii_case h n) (sr_headers s)
     \<and> (\<not> eq_ignore_ascii_case n ''host'' \<longrightarrow> sr_authority r = sr_authority s)
     \<and> sr_method r = sr_method s \<and> sr_scheme r = sr_scheme s \<and> sr_raw_path r = sr_raw_path s \<and> sr_raw_query r = sr_raw_query s \<and> sr_body r = sr_body s"
  by (cases r; cases s) (auto simp: agree_but_def absorb_header_def)

lemma agree_but_absorb:
  assumes "agree_but n r s"
  shows "agree_but n (absorb_header h r) (absorb_header h s)"
proof -
  obtain m v where h: "h = (m, v)" by fastforce
  let ?P = "\<lambda>(h, _ :: string). \<not> eq_ignore_ascii_case h n" and ?Q = "\<lambda>(h, _ :: string). \<not> eq_ignore_ascii_case h m"
  have "filter ?Q (filter ?P (sr_headers r)) = filter ?Q (filter ?P (sr_headers s))" using assms by (simp only: agree_but_iff)
  then have "filter ?P (filter ?Q (sr_headers r)) = filter ?P (filter ?Q (sr_headers s))" by (simp add: conj_commute)
  with assms show ?thesis by (simp add: agree_but_iff h absorb_header_def)
qed

lemma agree_but_fold: "agree_but n r s \<Longrightarrow> agree_but n (fold absorb_header hs r) (fold absorb_header hs s)"
  by (induction hs arbitrary: r s) (simp_all add: agree_but_absorb)

lemma agree_but_same: "eq_ignore_ascii_case m n \<Longrightarrow> agree_but n (absorb_header (m, v) r) r"
  by (simp add: agree_but_iff absorb_header_def) (simp add: eq_ignore_ascii_case_def)

lemma agree_but_trans: "agree_but n r s \<Longrightarrow> agree_but n s u \<Longrightarrow> agree_but n r u"
  by (simp add: agree_but_def)

lemma absorb_filtered: "agree_but n (fold absorb_header (filter (\<lambda>(h, _). \<not> eq_ignore_ascii_case h n) hs) r) (fold absorb_header hs r)"
proof (induction hs arbitrary: r)
  case (Cons h hs)
  obtain m v where h: "h = (m, v)" by fastforce
  show ?case
  proof (cases "eq_ignore_ascii_case m n")
    case True
    then have "agree_but n r (absorb_header h r)" using agree_but_same [OF True] by (simp add: h agree_but_def)
    then show ?thesis using agree_but_trans [OF Cons.IH [of r] agree_but_fold] True by (simp add: h)
  qed (simp add: h Cons.IH)
qed (simp add: agree_but_def)

lemma absorb_set_header: "fold absorb_header (ap_set_headers (set_header n v a)) r = absorb_header (n, v) (fold absorb_header (ap_set_headers a) r)"
  using absorb_filtered [of n "ap_set_headers a" r] by (simp add: set_header_def agree_but_def)

lemma set_header_fields [simp]:
  "ap_append_query (set_header n v a) = ap_append_query a" "ap_body (set_header n v a) = ap_body a" "ap_label (set_header n v a) = ap_label a"
  "ap_secrets (set_header n v a) = ap_secrets a" "ap_facts (set_header n v a) = ap_facts a"
  by (simp_all add: set_header_def)

lemma set_headers_fields [simp]:
  "ap_append_query (fold (\<lambda>(n, v). set_header n v) hs a) = ap_append_query a" "ap_body (fold (\<lambda>(n, v). set_header n v) hs a) = ap_body a"
  "ap_label (fold (\<lambda>(n, v). set_header n v) hs a) = ap_label a" "ap_secrets (fold (\<lambda>(n, v). set_header n v) hs a) = ap_secrets a"
  "ap_facts (fold (\<lambda>(n, v). set_header n v) hs a) = ap_facts a"
  by (induction hs arbitrary: a) (simp_all add: case_prod_beta)

lemma absorb_set_headers:
  "fold absorb_header (ap_set_headers (fold (\<lambda>(n, v). set_header n v) hs a)) r = fold absorb_header hs (fold absorb_header (ap_set_headers a) r)"
  by (induction hs arbitrary: a) (simp_all add: absorb_set_header case_prod_beta)

text \<open>Absorbing merged changes is absorbing the one and then the other.\<close>

lemma absorb_merge: "absorb_step X (merge_applied out a) req = absorb_step X out (absorb_step X a req)"
  by (simp add: absorb_step_def merge_applied_def Let_def absorb_set_headers absorb_queries_commute absorb_body_commutes split: option.splits)

lemma absorb_nothing [simp]: "absorb_step X (no_changes\<lparr>ap_label := l\<rparr>) req = req"
  by (simp add: absorb_step_def no_changes_def)

lemma absorb_step_fields [simp]:
  "sr_method (absorb_step X out r) = sr_method r" "sr_scheme (absorb_step X out r) = sr_scheme r" "sr_raw_path (absorb_step X out r) = sr_raw_path r"
  by (simp_all add: absorb_step_def Let_def split: option.splits)

lemma hdr_absorb_header: "hdr (absorb_header (n, v) r) m = (if eq_ignore_ascii_case n m then [v] else hdr r m)"
proof -
  have "filter (\<lambda>(h, _). eq_ignore_ascii_case h m) (filter (\<lambda>(h, _). \<not> eq_ignore_ascii_case h n) xs)
      = (if eq_ignore_ascii_case n m then [] else filter (\<lambda>(h, _). eq_ignore_ascii_case h m) xs)" for xs :: "(string \<times> string) list"
    by (induction xs) (auto simp: eq_ignore_ascii_case_def)
  then show ?thesis by (simp add: hdr_def absorb_header_def)
qed

lemma hdr_absorb_other:
  "\<forall>(n, v) \<in> set hs. \<not> eq_ignore_ascii_case n m \<Longrightarrow> hdr (fold absorb_header hs r) m = hdr r m"
  by (induction hs arbitrary: r) (auto simp: hdr_absorb_header)

lemma authority_absorb_other:
  "\<forall>(n, v) \<in> set hs. \<not> eq_ignore_ascii_case n ''host'' \<Longrightarrow> sr_authority (fold absorb_header hs r) = sr_authority r"
  by (induction hs arbitrary: r) (auto simp: absorb_header_def)

lemma hdr_absorb_step: "hdr (absorb_step X out r) m = hdr (fold absorb_header (ap_set_headers out) r) m"
  by (simp add: absorb_step_def Let_def hdr_def split: option.splits)

lemma authority_absorb_step: "sr_authority (absorb_step X out r) = sr_authority (fold absorb_header (ap_set_headers out) r)"
  by (simp add: absorb_step_def Let_def split: option.splits)

section \<open>What a check keeps\<close>

text \<open>A header that a profile other than a cookie key has set.\<close>

definition owned :: "composed \<Rightarrow> string \<Rightarrow> bool" where
  "owned c n \<longleftrightarrow> (\<exists>h l. find (\<lambda>(h, _). h = lower n) (co_headers c) = Some (h, l, False))"

lemma find_append: "find P (xs @ ys) = (case find P xs of Some x \<Rightarrow> Some x | None \<Rightarrow> find P ys)"
  by (induction xs) auto

lemma owned_headers: "co_headers c' = co_headers c \<Longrightarrow> owned c' n = owned c n"
  by (simp add: owned_def)

lemma check_headers_keeps:
  "check_headers label cookie hs c = Inr c' \<Longrightarrow> (owned c n \<longrightarrow> owned c' n) \<and> co_signatures c' = co_signatures c"
proof (induction label cookie hs c rule: check_headers.induct)
  case (2 label cookie n' v hs c)
  then show ?case
    by (auto simp: Let_def owned_def find_append split: option.splits if_splits prod.splits)
qed simp

lemma check_headers_cons:
  assumes "check_headers label cookie ((n, v) # hs) c = Inr c'"
  obtains d where "check_headers label cookie hs d = Inr c'" "\<not> owned c n" "\<forall>m. owned c m \<longrightarrow> owned d m"
  using assms
proof (cases "find (\<lambda>(h, _). h = lower n) (co_headers c)")
  case None
  define d where "d = c\<lparr>co_headers := co_headers c @ [(lower n, label, cookie \<and> lower n = ''cookie'')]\<rparr>"
  have "check_headers label cookie hs d = Inr c'" using assms None by (simp add: Let_def d_def)
  moreover have "\<not> owned c n" "\<forall>m. owned c m \<longrightarrow> owned d m" using None by (auto simp: d_def owned_def find_append)
  ultimately show thesis by (rule that)
next
  case (Some q)
  then show thesis using that [of c] assms by (cases q) (auto simp: Let_def owned_def split: if_splits)
qed

lemma check_headers_respects:
  "check_headers label cookie hs c = Inr c' \<Longrightarrow> owned c n \<Longrightarrow> (m, v) \<in> set hs \<Longrightarrow> \<not> eq_ignore_ascii_case m n"
proof (induction hs arbitrary: c)
  case (Cons h hs)
  obtain k w where h: "h = (k, w)" by fastforce
  obtain d where d: "check_headers label cookie hs d = Inr c'" "\<not> owned c k" "\<forall>m. owned c m \<longrightarrow> owned d m"
    using Cons.prems(1) unfolding h by (rule check_headers_cons)
  then show ?case using Cons.IH [OF d(1)] Cons.prems(2,3) by (auto simp: h owned_def eq_ignore_ascii_case_def)
qed simp

lemma check_headers_owns:
  "check_headers label False hs c = Inr c' \<Longrightarrow> (m, v) \<in> set hs \<Longrightarrow> owned c' m"
proof (induction hs arbitrary: c)
  case (Cons h hs)
  obtain n w where h: "h = (n, w)" by fastforce
  then obtain d where d: "d = c\<lparr>co_headers := co_headers c @ [(lower n, label, False)]\<rparr>" "find (\<lambda>(h, _). h = lower n) (co_headers c) = None"
      "check_headers label False hs d = Inr c'"
    using Cons.prems(1) by (auto simp: Let_def split: option.splits prod.splits)
  then have "owned d n" by (simp add: owned_def find_append)
  with d(3) have "owned c' n" using check_headers_keeps by blast
  with Cons.IH [OF d(3)] Cons.prems(2) h show ?case by auto
qed simp

lemma check_cookie_keeps: "check_cookie label cookie c = Inr c' \<Longrightarrow> co_headers c' = co_headers c \<and> co_signatures c' = co_signatures c"
  by (auto simp: check_cookie_def split: option.splits)

lemma check_query_keeps: "check_query label ks c = Inr c' \<Longrightarrow> co_headers c' = co_headers c \<and> co_signatures c' = co_signatures c"
  by (induction label ks c rule: check_query.induct) (auto split: option.splits)

lemma map_filter_Nil: "List.map_filter f xs = [] \<longleftrightarrow> (\<forall>x \<in> set xs. f x = None)"
  by (induction xs) (simp_all add: List.map_filter_def split: option.splits)

lemma check_cases:
  assumes "check step out c = Inr c'"
  obtains c1 c3 where "\<forall>sig \<in> set (co_signatures c). would_change out sig = None"
    "check_headers (auth_label step) (cookie_key step \<noteq> None) (ap_set_headers out) c = Inr c1"
    "co_headers c3 = co_headers c1" "co_signatures c3 = co_signatures c"
    "c' = (case signature_of step of Some sig \<Rightarrow> c3\<lparr>co_signatures := co_signatures c3 @ [sig]\<rparr> | None \<Rightarrow> c3)"
proof -
  obtain c1 c2 c3 where *: "List.map_filter (check_signature (auth_label step) out) (co_signatures c) = []"
      "check_headers (auth_label step) (cookie_key step \<noteq> None) (ap_set_headers out) c = Inr c1"
      "check_cookie (auth_label step) (cookie_key step) c1 = Inr c2" "check_query (auth_label step) (ap_append_query out) c2 = Inr c3"
      "c' = (case signature_of step of Some sig \<Rightarrow> c3\<lparr>co_signatures := co_signatures c3 @ [sig]\<rparr> | None \<Rightarrow> c3)"
    using assms by (auto simp: check_def Let_def split: list.splits sum.splits)
  then have "\<forall>sig \<in> set (co_signatures c). would_change out sig = None" by (simp add: map_filter_Nil check_signature_def)
  moreover have "co_headers c3 = co_headers c1" "co_signatures c3 = co_signatures c"
    using check_cookie_keeps [OF *(3)] check_query_keeps [OF *(4)] check_headers_keeps [OF *(2)] by auto
  ultimately show thesis using that * by blast
qed

lemma check_keeps:
  assumes "check step out c = Inr c'"
  shows "owned c n \<Longrightarrow> owned c' n" "sig \<in> set (co_signatures c) \<Longrightarrow> sig \<in> set (co_signatures c')"
proof -
  obtain c1 c3 where *: "check_headers (auth_label step) (cookie_key step \<noteq> None) (ap_set_headers out) c = Inr c1"
      "co_headers c3 = co_headers c1" "co_signatures c3 = co_signatures c"
      "c' = (case signature_of step of Some sig \<Rightarrow> c3\<lparr>co_signatures := co_signatures c3 @ [sig]\<rparr> | None \<Rightarrow> c3)"
    using assms by (rule check_cases)
  show "sig \<in> set (co_signatures c) \<Longrightarrow> sig \<in> set (co_signatures c')" using *(3,4) by (simp split: option.splits)
  have "co_headers c' = co_headers c1" using *(2,4) by (simp split: option.splits)
  then show "owned c n \<Longrightarrow> owned c' n" using check_headers_keeps [OF *(1), of n] owned_headers by blast
qed

lemma check_respects:
  assumes "check step out c = Inr c'"
  shows "owned c n \<Longrightarrow> (m, v) \<in> set (ap_set_headers out) \<Longrightarrow> \<not> eq_ignore_ascii_case m n"
    "sig \<in> set (co_signatures c) \<Longrightarrow> would_change out sig = None"
proof -
  obtain c1 where *: "\<forall>sig \<in> set (co_signatures c). would_change out sig = None"
      "check_headers (auth_label step) (cookie_key step \<noteq> None) (ap_set_headers out) c = Inr c1"
    using assms by (rule check_cases)
  show "sig \<in> set (co_signatures c) \<Longrightarrow> would_change out sig = None" using *(1) by blast
  show "owned c n \<Longrightarrow> (m, v) \<in> set (ap_set_headers out) \<Longrightarrow> \<not> eq_ignore_ascii_case m n" using check_headers_respects [OF *(2)] .
qed

lemma check_owns:
  assumes "check step out c = Inr c'" "cookie_key step = None" "(m, v) \<in> set (ap_set_headers out)"
  shows "owned c' m"
proof -
  obtain c1 c3 where *: "check_headers (auth_label step) (cookie_key step \<noteq> None) (ap_set_headers out) c = Inr c1"
      "co_headers c3 = co_headers c1"
      "c' = (case signature_of step of Some sig \<Rightarrow> c3\<lparr>co_signatures := co_signatures c3 @ [sig]\<rparr> | None \<Rightarrow> c3)"
    using assms(1) by (rule check_cases)
  have "co_headers c' = co_headers c1" using *(2,3) by (simp split: option.splits)
  moreover have "owned c1 m" using check_headers_owns *(1) assms(2,3) by simp
  ultimately show "owned c' m" using owned_headers by blast
qed

lemma check_signs:
  assumes "check step out c = Inr c'" "signature_of step = Some sig"
  shows "sig \<in> set (co_signatures c')"
  using assms by (auto elim!: check_cases)

lemma would_change_None:
  assumes "would_change out sig = None"
  shows "si_query sig \<Longrightarrow> ap_append_query out = []" "si_body sig \<Longrightarrow> ap_body out = None"
    "h \<in> set (si_headers sig) \<Longrightarrow> (n, v) \<in> set (ap_set_headers out) \<Longrightarrow> \<not> eq_ignore_ascii_case n h"
  using assms by (auto simp: would_change_def find_None_iff list_ex_iff split: if_splits)

section \<open>The loop over the profiles\<close>

lemma apply_loop_effective: "apply_loop X now rnds steps (if steps \<noteq> [] then e else e') c a = apply_loop X now rnds steps e c a"
  by (cases steps) simp_all

lemma apply_loop_step:
  assumes "apply_loop X now rnds (step # steps) e c a = Inr res"
  obtains out c' where "apply_step X step e now (case rnds of [] \<Rightarrow> [] | r # _ \<Rightarrow> r) no_changes = Inr out" "check step out c = Inr c'"
    "apply_loop X now (tl rnds) steps (absorb_step X out e) c' (merge_applied out a) = Inr res"
  using assms unfolding apply_loop.simps apply_loop_effective by (auto split: sum.splits)

text \<open>After a check, nothing that follows touches an owned header or what a signature covers.\<close>

lemma apply_loop_keeps:
  assumes "apply_loop X now rnds steps e c a = Inr res" "e = absorb_step X a req"
  shows "owned c n \<Longrightarrow> hdr (absorb_step X res req) n = hdr e n"
    and "sig \<in> set (co_signatures c) \<Longrightarrow>
      (si_query sig \<longrightarrow> sr_raw_query (absorb_step X res req) = sr_raw_query e) \<and> (si_body sig \<longrightarrow> sr_body (absorb_step X res req) = sr_body e)
      \<and> (''host'' \<in> set (si_headers sig) \<longrightarrow> sr_authority (absorb_step X res req) = sr_authority e)"
proof (atomize (full), insert assms, induction steps arbitrary: rnds e c a)
  case (Cons step steps)
  obtain out c' where s: "check step out c = Inr c'"
      "apply_loop X now (tl rnds) steps (absorb_step X out e) c' (merge_applied out a) = Inr res"
    using Cons.prems(1) by (rule apply_loop_step)
  have IH: "(owned c' n \<longrightarrow> hdr (absorb_step X res req) n = hdr (absorb_step X out e) n)
      \<and> (sig \<in> set (co_signatures c') \<longrightarrow>
         (si_query sig \<longrightarrow> sr_raw_query (absorb_step X res req) = sr_raw_query (absorb_step X out e))
         \<and> (si_body sig \<longrightarrow> sr_body (absorb_step X res req) = sr_body (absorb_step X out e))
         \<and> (''host'' \<in> set (si_headers sig) \<longrightarrow> sr_authority (absorb_step X res req) = sr_authority (absorb_step X out e)))"
    using Cons.IH [OF s(2)] Cons.prems(2) by (simp add: absorb_merge)
  have "hdr (absorb_step X out e) n = hdr e n" if "owned c n"
    using check_respects(1) [OF s(1) that] by (auto simp: hdr_absorb_step intro!: hdr_absorb_other)
  moreover have "(si_query sig \<longrightarrow> sr_raw_query (absorb_step X out e) = sr_raw_query e) \<and> (si_body sig \<longrightarrow> sr_body (absorb_step X out e) = sr_body e)
      \<and> (''host'' \<in> set (si_headers sig) \<longrightarrow> sr_authority (absorb_step X out e) = sr_authority e)" if "sig \<in> set (co_signatures c)"
  proof -
    note w = would_change_None [OF check_respects(2) [OF s(1) that]]
    show ?thesis using w(1,2) by (auto simp: absorb_step_def Let_def authority_absorb_step split: option.splits intro!: authority_absorb_other dest: w(3))
  qed
  ultimately show ?case using IH check_keeps [OF s(1)] by metis
qed simp

text \<open>Every profile is applied to what the earlier ones leave, and the rest of the loop starts from what it leaves.\<close>

lemma apply_loop_reaches:
  assumes "apply_loop X now rnds steps e c a = Inr res" "e = absorb_step X a req" "step \<in> set steps"
  obtains rnd e1 c1 out c2 a2 rnds2 steps2 where "apply_step X step e1 now rnd no_changes = Inr out" "check step out c1 = Inr c2"
    "apply_loop X now rnds2 steps2 (absorb_step X out e1) c2 a2 = Inr res" "absorb_step X out e1 = absorb_step X a2 req"
  using assms
proof (induction steps arbitrary: rnds e c a thesis)
  case (Cons s steps)
  obtain out c' where s: "apply_step X s e now (case rnds of [] \<Rightarrow> [] | r # _ \<Rightarrow> r) no_changes = Inr out" "check s out c = Inr c'"
      "apply_loop X now (tl rnds) steps (absorb_step X out e) c' (merge_applied out a) = Inr res"
    using Cons.prems(2) by (rule apply_loop_step)
  have e: "absorb_step X out e = absorb_step X (merge_applied out a) req" using Cons.prems(3) by (simp add: absorb_merge)
  show ?case
  proof (cases "step = s")
    case True
    then show ?thesis using Cons.prems(1) s e by blast
  next
    case False
    then show ?thesis using Cons.IH [OF Cons.prems(1) s(3) e] Cons.prems(4) by auto
  qed
qed simp


section \<open>Signatures cover what is sent\<close>

lemma apply_auth_reaches:
  assumes "apply_auth X auth req now rnds = Inr res" "step \<in> set (flatten auth)"
  obtains rnd e1 c1 out c2 a2 rnds2 steps2 where "apply_step X step e1 now rnd no_changes = Inr out" "check step out c1 = Inr c2"
    "apply_loop X now rnds2 steps2 (absorb_step X out e1) c2 a2 = Inr res" "absorb_step X out e1 = absorb_step X a2 req"
proof -
  have "apply_loop X now rnds (flatten auth) req nothing_composed (no_changes\<lparr>ap_label := auth_label auth\<rparr>) = Inr res"
    using assms(1) by (simp add: apply_auth_def Let_def split: if_splits)
  then show thesis by (rule apply_loop_reaches [OF _ _ assms(2)]) (simp, rule that)
qed

definition AUTH_HEADERS :: "string list" where
  "AUTH_HEADERS = [''Authorization'', ''Date'', ''Digest'', ''Content-Digest'', ''DPoP'', ''host'']"

lemma auth_headers_distinct:
  "list_all (\<lambda>a. list_all (\<lambda>b. eq_ignore_ascii_case a b \<longleftrightarrow> a = b) AUTH_HEADERS) AUTH_HEADERS"
  by code_simp

lemma auth_header_eq: "a \<in> set AUTH_HEADERS \<Longrightarrow> b \<in> set AUTH_HEADERS \<Longrightarrow> eq_ignore_ascii_case a b \<longleftrightarrow> a = b"
  using auth_headers_distinct by (simp only: list_all_iff)

lemma fst_digest_header: "fst (digest_header X kind alg body) = (case kind of ContentDigest \<Rightarrow> ''Content-Digest'' | LegacyDigest \<Rightarrow> ''Digest'')"
  by (simp add: digest_header_def Let_def split: digest_alg.splits body_digest_header.splits)

text \<open>Headers with names that differ are set as they come, and each is then the only one of its name.\<close>

lemma set_headers_distinct:
  "distinct (map fst hs) \<Longrightarrow> fst ` set hs \<subseteq> set AUTH_HEADERS \<Longrightarrow> fst ` set (ap_set_headers a) \<subseteq> set AUTH_HEADERS \<Longrightarrow>
   fst ` set (ap_set_headers a) \<inter> fst ` set hs = {} \<Longrightarrow>
   ap_set_headers (fold (\<lambda>(n, v). set_header n v) hs a) = ap_set_headers a @ hs"
proof (induction hs arbitrary: a)
  case (Cons h hs)
  obtain n v where h: "h = (n, v)" by fastforce
  have n: "n \<in> set AUTH_HEADERS" "n \<notin> fst ` set (ap_set_headers a)" using Cons.prems by (auto simp: h)
  have "filter (\<lambda>(m, _). \<not> eq_ignore_ascii_case m n) (ap_set_headers a) = ap_set_headers a"
  proof (unfold filter_id_conv, clarify)
    fix m w assume m: "(m, w) \<in> set (ap_set_headers a)" "eq_ignore_ascii_case m n"
    then have "m \<in> set AUTH_HEADERS" using Cons.prems(3) by force
    then have "m = n" using m(2) n(1) auth_header_eq by blast
    then show False using m(1) n(2) by force
  qed
  then have "ap_set_headers (set_header n v a) = ap_set_headers a @ [h]" by (simp add: set_header_def h)
  then show ?case using Cons.IH [of "set_header n v a"] Cons.prems by (auto simp: h)
qed simp

lemma hdr_absorb_distinct:
  "distinct (map fst hs) \<Longrightarrow> fst ` set hs \<subseteq> set AUTH_HEADERS \<Longrightarrow> (n, v) \<in> set hs \<Longrightarrow> hdr (fold absorb_header hs r) n = [v]"
proof (induction hs arbitrary: r)
  case (Cons h hs)
  show ?case
  proof (cases "(n, v) \<in> set hs")
    case True
    then show ?thesis using Cons by simp
  next
    case False
    then have h: "h = (n, v)" using Cons.prems(3) by simp
    have "\<forall>(m, w) \<in> set hs. \<not> eq_ignore_ascii_case m n"
    proof (clarify)
      fix m w assume m: "(m, w) \<in> set hs" "eq_ignore_ascii_case m n"
      then have "m = n" using Cons.prems(2) auth_header_eq by (auto simp: h image_subset_iff)
      then show False using m(1) Cons.prems(1) by (force simp: h)
    qed
    from hdr_absorb_other [OF this] show ?thesis by (simp add: h hdr_absorb_header eq_ignore_ascii_case_def)
  qed
qed simp

lemma authority_absorb_distinct:
  assumes "fst ` set hs \<subseteq> set AUTH_HEADERS" "''host'' \<notin> fst ` set hs"
  shows "sr_authority (fold absorb_header hs r) = sr_authority r"
proof (rule authority_absorb_other, clarify)
  fix n v assume n: "(n, v) \<in> set hs" "eq_ignore_ascii_case n ''host''"
  then have "n \<in> set AUTH_HEADERS" using assms(1) by force
  then have "n = ''host''" using n(2) auth_header_eq [of n "''host''"] by (simp add: AUTH_HEADERS_def)
  then show False using n(1) assms(2) by force
qed

lemma hmac_step:
  assumes "apply_step X (Hmac p) e now rnd no_changes = Inr out"
  defines "date \<equiv> ax_http_date X now" and "n \<equiv> nonce_of p (fresh_nonce X rnd)"
    and "d \<equiv> digest_header X (hp_digest_header p) Sha256 (sr_body e)"
  shows "ap_set_headers out = [(''Authorization'', hmac_authorization p n (snd (hmac_signature X p e date (snd d) n))), (''Date'', date), d]"
    "ap_append_query out = []" "ap_body out = None"
proof -
  obtain s where s: "hmac_sign X p e now rnd = Inr s"
      "out = add_facts [(''hmac.nonce'', case sg_nonce s of Some n \<Rightarrow> n | None \<Rightarrow> [])]
               (fold (\<lambda>(n, v). set_header n v) (sg_headers s) (add_secrets [hp_secret p] no_changes))"
    using assms(1) by (cases "hmac_sign X p e now rnd") simp_all
  have hs: "sg_headers s = [(''Authorization'', hmac_authorization p n (snd (hmac_signature X p e date (snd d) n))), (''Date'', date), d]"
    using s(1) unfolding hmac_sign_def sign_with_def date_def n_def d_def Let_def
    by (auto split: if_splits prod.splits)
  have "distinct (map fst (sg_headers s))" "fst ` set (sg_headers s) \<subseteq> set AUTH_HEADERS"
    by (simp_all add: hs d_def fst_digest_header AUTH_HEADERS_def split: body_digest_header.splits)
  from set_headers_distinct [OF this, of "add_secrets [hp_secret p] no_changes"]
  show "ap_set_headers out = [(''Authorization'', hmac_authorization p n (snd (hmac_signature X p e date (snd d) n))), (''Date'', date), d]"
    by (simp add: s(2) add_facts_def add_secrets_def no_changes_def hs)
  show "ap_append_query out = []" "ap_body out = None" by (simp_all add: s(2) add_facts_def add_secrets_def no_changes_def)
qed

text \<open>A signing profile's headers are in what is sent as it set them, and what it covers is sent as it saw it.\<close>

definition own_headers :: "applied \<Rightarrow> bool" where
  "own_headers out \<longleftrightarrow> distinct (map fst (ap_set_headers out)) \<and> fst ` set (ap_set_headers out) \<subseteq> set AUTH_HEADERS
     \<and> ''host'' \<notin> fst ` set (ap_set_headers out) \<and> ap_append_query out = [] \<and> ap_body out = None"

lemma signed_step_sent:
  assumes "apply_auth X auth req now rnds = Inr res" "step \<in> set (flatten auth)"
    "signature_of step = Some sig" "cookie_key step = None" "''host'' \<in> set (si_headers sig)"
    and own: "\<And>e rnd out. apply_step X step e now rnd no_changes = Inr out \<Longrightarrow> own_headers out"
  defines "sent \<equiv> absorb_step X res req"
  obtains rnd e out where "apply_step X step e now rnd no_changes = Inr out" "\<forall>(m, v) \<in> set (ap_set_headers out). hdr sent m = [v]"
    "sr_authority sent = sr_authority e" "sr_method sent = sr_method e" "sr_scheme sent = sr_scheme e" "sr_raw_path sent = sr_raw_path e"
    "si_query sig \<longrightarrow> sr_raw_query sent = sr_raw_query e" "si_body sig \<longrightarrow> sr_body sent = sr_body e"
proof -
  obtain rnd e c1 out c2 a2 rnds2 steps2 where r: "apply_step X step e now rnd no_changes = Inr out" "check step out c1 = Inr c2"
      "apply_loop X now rnds2 steps2 (absorb_step X out e) c2 a2 = Inr res" "absorb_step X out e = absorb_step X a2 req"
    using assms(1,2) by (rule apply_auth_reaches)
  note o = own [OF r(1), unfolded own_headers_def]
  have "hdr sent m = [v]" if "(m, v) \<in> set (ap_set_headers out)" for m v
    using apply_loop_keeps(1) [OF r(3,4) check_owns [OF r(2) assms(4) that]] hdr_absorb_distinct [OF _ _ that] o
    by (simp add: hdr_absorb_step sent_def)
  then have "\<forall>(m, v) \<in> set (ap_set_headers out). hdr sent m = [v]" by auto
  moreover have "sr_raw_query (absorb_step X out e) = sr_raw_query e" "sr_body (absorb_step X out e) = sr_body e"
      "sr_authority (absorb_step X out e) = sr_authority e"
    using o authority_absorb_distinct by (simp_all add: absorb_step_def Let_def authority_absorb_step)
  then have "sr_authority sent = sr_authority e" "si_query sig \<longrightarrow> sr_raw_query sent = sr_raw_query e" "si_body sig \<longrightarrow> sr_body sent = sr_body e"
    using apply_loop_keeps(2) [OF r(3,4) check_signs [OF r(2) assms(3)]] assms(5) by (simp_all add: sent_def)
  moreover have "sr_method sent = sr_method e" "sr_scheme sent = sr_scheme e" "sr_raw_path sent = sr_raw_path e"
    using arg_cong [OF r(4), of sr_method] arg_cong [OF r(4), of sr_scheme] arg_cong [OF r(4), of sr_raw_path] by (simp_all add: sent_def)
  ultimately show thesis using that [OF r(1)] by blast
qed

lemma hmac_step_own:
  assumes "apply_step X (Hmac p) e now rnd no_changes = Inr out"
  shows "own_headers out"
  using hmac_step [OF assms]
  by (auto simp: own_headers_def fst_digest_header AUTH_HEADERS_def split: body_digest_header.splits)

lemma dpop_step:
  assumes "apply_step X (Dpop tok pem scheme nonce) e now rnd no_changes = Inr out"
  obtains target pf where "htu_of (sr_scheme e) (sr_authority e) (sr_raw_path e) = Inr target"
    "dpop_prove X pem (sr_method e) target (Some tok) nonce now rnd = Inr pf"
    "ap_set_headers out = [(''Authorization'', (if scheme then ''DPoP'' else ''Bearer'') @ '' '' @ tok), (''DPoP'', pf_jwt pf)]"
    "ap_append_query out = []" "ap_body out = None"
proof -
  have "\<not> eq_ignore_ascii_case ''Authorization'' ''DPoP''"
    using auth_header_eq [of "''Authorization''" "''DPoP''"] by (simp add: AUTH_HEADERS_def)
  then show thesis using assms that
    by (auto simp: no_changes_def add_facts_def add_secrets_def set_header_def split: sum.splits)
       (auto simp: map_sum_def split: sum.splits)
qed

lemma dpop_step_own:
  assumes "apply_step X (Dpop tok pem scheme nonce) e now rnd no_changes = Inr out"
  shows "own_headers out"
  using assms by (rule dpop_step) (simp add: own_headers_def AUTH_HEADERS_def)

text \<open>
  C3.  A signature matches what is sent.  When a set of profiles with an HMAC profile is applied, the request as it
  is sent carries one \<open>Date\<close>, one body digest, of the body that is sent, and one \<open>Authorization\<close> header, whose
  signature is over the authority, method, path, query, date and digest that are sent, whatever profiles come
  before and after it and whatever headers the request had.
\<close>

theorem signature_covers_sent:
  assumes "apply_auth X auth req now rnds = Inr res" "Hmac p \<in> set (flatten auth)"
  defines "sent \<equiv> absorb_step X res req" and "date \<equiv> ax_http_date X now"
  defines "d \<equiv> digest_header X (hp_digest_header p) Sha256 (sr_body sent)"
  shows "hdr sent ''Date'' = [date] \<and> hdr sent (fst d) = [snd d]
    \<and> (\<exists>rnd. let n = nonce_of p (fresh_nonce X rnd)
             in hdr sent ''Authorization'' = [hmac_authorization p n (snd (hmac_signature X p sent date (snd d) n))])"
proof -
  obtain sig where sig: "signature_of (Hmac p) = Some sig" "si_query sig" "si_body sig" "''host'' \<in> set (si_headers sig)"
    by (simp add: signature_of_def)
  obtain rnd e out where r: "apply_step X (Hmac p) e now rnd no_changes = Inr out" "\<forall>(m, v) \<in> set (ap_set_headers out). hdr sent m = [v]"
      and same: "sr_authority sent = sr_authority e" "sr_method sent = sr_method e" "sr_raw_path sent = sr_raw_path e"
        "si_query sig \<longrightarrow> sr_raw_query sent = sr_raw_query e" "si_body sig \<longrightarrow> sr_body sent = sr_body e"
    unfolding sent_def by (rule signed_step_sent [OF assms(1,2) sig(1) _ sig(4) hmac_step_own]) (simp_all add: cookie_key_def)
  have "hmac_signature X p sent = hmac_signature X p e" using same sig by (intro ext) (simp add: hmac_signature_def)
  moreover have "digest_header X (hp_digest_header p) Sha256 (sr_body e) = d" using same(5) sig(3) by (simp add: d_def)
  ultimately show ?thesis using r(2) hmac_step(1) [OF r(1), folded date_def] by (auto simp: Let_def split: prod.splits)
qed

text \<open>
  C7.  A DPoP proof matches what is sent: the one \<open>DPoP\<close> header of the request as it is sent is the proof for the
  method and the URL, of the authority and the path, that are sent, bound to the token in the one
  \<open>Authorization\<close> header.
\<close>

theorem proof_covers_sent:
  assumes "apply_auth X auth req now rnds = Inr res" "Dpop tok pem scheme nonce \<in> set (flatten auth)"
  defines "sent \<equiv> absorb_step X res req"
  shows "\<exists>target pf rnd. htu_of (sr_scheme sent) (sr_authority sent) (sr_raw_path sent) = Inr target
    \<and> dpop_prove X pem (sr_method sent) target (Some tok) nonce now rnd = Inr pf \<and> hdr sent ''DPoP'' = [pf_jwt pf]
    \<and> hdr sent ''Authorization'' = [(if scheme then ''DPoP'' else ''Bearer'') @ '' '' @ tok]"
proof -
  let ?step = "Dpop tok pem scheme nonce"
  obtain sig where sig: "signature_of ?step = Some sig" "''host'' \<in> set (si_headers sig)" by (simp add: signature_of_def)
  obtain rnd e out where r: "apply_step X ?step e now rnd no_changes = Inr out" "\<forall>(m, v) \<in> set (ap_set_headers out). hdr sent m = [v]"
      and same: "sr_authority sent = sr_authority e" "sr_method sent = sr_method e" "sr_scheme sent = sr_scheme e" "sr_raw_path sent = sr_raw_path e"
    unfolding sent_def by (rule signed_step_sent [OF assms(1,2) sig(1) _ sig(2) dpop_step_own]) (simp_all add: cookie_key_def)
  from r(1) show ?thesis by (rule dpop_step) (use r(2) same in auto)
qed

section \<open>Secrets of the credentials\<close>

text \<open>The secret values of a profile, and the credentials made of them that a step records.\<close>

primrec profile_secrets :: "resolved_auth \<Rightarrow> string list" where
  "profile_secrets AuthNone = []"
| "profile_secrets (ApiKey name v l) = [v]"
| "profile_secrets (Basic user pw) = [pw]"
| "profile_secrets (Bearer tok pre) = [tok]"
| "profile_secrets (Jwt alg key cl ex kid hn pre) = [key]"
| "profile_secrets (OAuth2 tok ty) = [tok]"
| "profile_secrets (Hmac p) = [hp_secret p]"
| "profile_secrets (Dpop tok pem sch n) = [tok, pem]"
| "profile_secrets (Wsse user pw pt ttl saml) = pw # (case saml of Some a \<Rightarrow> [a] | None \<Rightarrow> [])"
| "profile_secrets (JwtSvid tok hn pre) = [tok]"
| "profile_secrets (Multi parts) = concat (map profile_secrets parts)"

lemma profile_secrets_flatten: "set (profile_secrets auth) = (\<Union>s \<in> set (flatten auth). set (profile_secrets s))"
  by (induction auth) auto

lemma flatten_simple: "s \<in> set (flatten auth) \<Longrightarrow> s \<noteq> AuthNone \<and> s \<noteq> Multi parts"
  by (induction auth) auto

lemma step_secrets:
  assumes "apply_step X step e now rnd no_changes = Inr out" "step \<in> set (flatten auth)"
  shows "set (profile_secrets step) \<subseteq> set (ap_secrets out)"
  using assms(1) flatten_simple [OF assms(2)]
  by (cases step)
     (auto simp: no_changes_def add_facts_def add_secrets_def saml_secrets_def Let_def map_sum_def split: sum.splits if_splits key_location.splits option.splits)

lemma apply_loop_secrets:
  assumes "apply_loop X now rnds steps e c a = Inr res"
  shows "set (ap_secrets a) \<subseteq> set (ap_secrets res)"
    "set steps \<subseteq> set (flatten auth) \<Longrightarrow> (\<Union>s \<in> set steps. set (profile_secrets s)) \<subseteq> set (ap_secrets res)"
proof (atomize (full), insert assms, induction steps arbitrary: rnds e c a)
  case (Cons step steps)
  obtain out c' where s: "apply_step X step e now (case rnds of [] \<Rightarrow> [] | r # _ \<Rightarrow> r) no_changes = Inr out"
      "apply_loop X now (tl rnds) steps (absorb_step X out e) c' (merge_applied out a) = Inr res"
    using Cons.prems by (rule apply_loop_step)
  have "set (ap_secrets (merge_applied out a)) = set (ap_secrets a) \<union> set (ap_secrets out)" by (simp add: merge_applied_def Let_def)
  then show ?case using Cons.IH [OF s(2)] step_secrets [OF s(1), of auth] by auto
qed simp

lemma apply_auth_loop:
  assumes "apply_auth X auth req now rnds = Inr res"
  shows "apply_loop X now rnds (flatten auth) req nothing_composed (no_changes\<lparr>ap_label := auth_label auth\<rparr>) = Inr res"
  using assms by (simp add: apply_auth_def Let_def split: if_splits)

lemma credentials_recorded:
  assumes "apply_auth X auth req now rnds = Inr res"
  shows "set (profile_secrets auth) \<subseteq> set (ap_secrets res)"
  using apply_loop_secrets(2) [OF apply_auth_loop [OF assms] subset_refl] by (subst profile_secrets_flatten)

section \<open>Cookies, envelopes and claims\<close>

lemma cookie_pairs_clean: "p \<in> set (cookie_pairs req) \<Longrightarrow> CHR '';'' \<notin> set p \<and> trim p = p \<and> p \<noteq> []"
proof -
  assume "p \<in> set (cookie_pairs req)"
  then obtain q v where q: "p = trim q" "q \<in> set (split_char CHR '';'' v)" "p \<noteq> []" by (auto simp: cookie_pairs_def)
  have "CHR '';'' \<notin> set q" by (rule split_char_pieces [OF q(2)])
  then show ?thesis using q trim_infix [of q] by auto
qed

lemma cookie_pairs_read_back:
  assumes "\<forall>p \<in> set ps. CHR '';'' \<notin> set p \<and> trim p = p \<and> p \<noteq> []" "ps \<noteq> []"
  shows "cookie_pairs (req\<lparr>sr_headers := [(''Cookie'', join_with ''; '' ps)]\<rparr>) = ps"
proof -
  obtain q qs where ps: "ps = q # qs" using assms(2) by (cases ps) auto
  have "map trim (split_char CHR '';'' (join_with ''; '' ps)) = ps"
    using assms(1) split_char_join_space [of "CHR '';''" q qs] by (simp add: ps trim_space map_idI)
  moreover have "filter (\<lambda>p. p \<noteq> []) ps = ps" using assms(1) by (simp add: filter_id_conv)
  moreover have "eq_ignore_ascii_case ''Cookie'' ''cookie''" by code_simp
  ultimately show ?thesis by (simp add: cookie_pairs_def)
qed

lemma token_char_black: "is_token_char c \<Longrightarrow> ascii_black c \<and> c \<noteq> CHR '';'' \<and> c \<noteq> CHR ''=''"
  by (auto simp: is_token_char_def is_ascii_alphanumeric_def ascii_black_def byte_def)

lemma cookie_octet_black: "is_cookie_octet c \<Longrightarrow> ascii_black c \<and> c \<noteq> CHR '';''"
  by (auto simp: is_cookie_octet_def ascii_black_def byte_def Let_def)

lemma unquoted_chars: "set v \<subseteq> insert CHR 0x22 (set (unquoted v))"
proof (cases "is_prefix_of [CHR 0x22] v \<and> ends_with (tl v) [CHR 0x22]")
  case True
  then have "\<exists>u. v = CHR 0x22 # u @ [CHR 0x22]" by (cases v; cases "tl v" rule: rev_cases) (auto simp: ends_with_def is_prefix_of_def)
  then show ?thesis by (auto simp: unquoted_def)
qed (auto simp: unquoted_def)

text \<open>The pair a cookie key adds is read as one pair, with the key's name.\<close>

lemma added_pair:
  assumes "list_all is_token_char name" "list_all is_cookie_octet (unquoted v)" "name \<noteq> []"
  defines "p \<equiv> name @ ''='' @ v"
  shows "CHR '';'' \<notin> set p \<and> trim p = p \<and> p \<noteq> []" "pair_name p = name"
proof -
  have name: "\<forall>c \<in> set name. ascii_black c \<and> c \<noteq> CHR '';'' \<and> c \<noteq> CHR ''=''" using assms(1) token_char_black by (auto simp: list_all_iff)
  have "ascii_black CHR 0x22" by (simp add: ascii_black_def byte_def)
  then have v: "\<forall>c \<in> set v. ascii_black c \<and> c \<noteq> CHR '';''"
    using assms(2) cookie_octet_black unquoted_chars [of v] by (auto simp: list_all_iff)
  have "ascii_black CHR ''=''" by (simp add: ascii_black_def byte_def)
  then have "ascii_black (hd p)" "ascii_black (last p)" using name v assms(3) by (auto simp: p_def)
  then show "CHR '';'' \<notin> set p \<and> trim p = p \<and> p \<noteq> []" using name v trim_black [of p] by (auto simp: p_def)
  have "split_once CHR ''='' p = Some (name, v)" using name split_once_append [of "CHR ''=''" name v] by (auto simp: p_def)
  moreover have "trim name = name" using name assms(3) by (intro trim_black) auto
  ultimately show "pair_name p = name" by (simp add: pair_name_def)
qed

text \<open>
  C12.  A cookie credential changes no other cookie.  The \<open>Cookie\<close> header it makes reads back as the cookies the request
  had under other names, in their order, and the credential's own pair after them.
\<close>

theorem cookie_credential_alone:
  assumes "with_cookie X req name v = Inr c" "name \<noteq> []"
  shows "cookie_pairs (req\<lparr>sr_headers := [(''Cookie'', c)]\<rparr>) = filter (\<lambda>p. pair_name p \<noteq> name) (cookie_pairs req) @ [name @ ''='' @ v]
    \<and> pair_name (name @ ''='' @ v) = name"
proof -
  have ok: "list_all is_token_char name" "list_all is_cookie_octet (unquoted v)"
      and c: "c = join_with ''; '' (filter (\<lambda>p. pair_name p \<noteq> name) (cookie_pairs req) @ [name @ ''='' @ v])"
    using assms(1) by (auto simp: with_cookie_def split: if_splits)
  have "\<forall>p \<in> set (filter (\<lambda>p. pair_name p \<noteq> name) (cookie_pairs req) @ [name @ ''='' @ v]). CHR '';'' \<notin> set p \<and> trim p = p \<and> p \<noteq> []"
    using cookie_pairs_clean added_pair(1) [OF ok assms(2)] by auto
  from cookie_pairs_read_back [OF this] show ?thesis using added_pair(2) [OF ok assms(2)] by (simp add: c)
qed


text \<open>The security header goes into the envelope at one place; every other byte stays as it was.\<close>

lemma security_keeps_envelope:
  assumes "insert_security_token X body user pw ptype ttl saml now rnd = Inr ins"
    and ranges: "\<And>env a b. ax_parse_envelope X body = Inr env \<Longrightarrow> ei_header env = Some (a, b) \<Longrightarrow> a \<le> b"
  defines "h \<equiv> security_header X user pw ptype ttl saml now (take 16 rnd)"
  shows "\<exists>env pre old new post. ax_parse_envelope X body = Inr env \<and> \<not> ei_has_security env \<and> body = pre @ old @ post \<and> is_body ins = pre @ new @ post
    \<and> (new = h \<and> old = [] \<or> new = wrap_header (ei_prefix env) h \<and> (old = [] \<or> (\<exists>a b. ei_header env = Some (a, b) \<and> old = take (b - a) (drop a body))))"
proof -
  obtain env out where e: "parse_checked X ''SOAP'' ''SOAP'' body = Inr env" "\<not> ei_has_security env" "splice_header body env h = Inr out" "is_body ins = out"
    using assms(1) by (auto simp: insert_security_token_def Let_def h_def split: if_splits sum.splits)
  have env: "ax_parse_envelope X body = Inr env"
    using e(1) by (auto simp: parse_checked_def split: sum.splits xml_parse_error.splits)
  show ?thesis
  proof (cases "ei_header env")
    case None
    then obtain at where "out = take at body @ wrap_header (ei_prefix env) h @ drop at body"
      using e(3) by (auto simp: splice_header_def split: option.splits)
    then show ?thesis using env e(2,4) by (metis append_Nil append_take_drop_id)
  next
    case (Some r)
    obtain a b where ab: "r = (a, b)" by fastforce
    have le: "a \<le> b" using ranges [OF env] Some ab by simp
    then have split: "body = take a body @ take (b - a) (drop a body) @ drop b body"
      by (metis append_take_drop_id drop_drop le_add_diff_inverse2)
    consider i where "out = take (a + i) body @ h @ drop (a + i) body" | "out = take a body @ wrap_header (ei_prefix env) h @ drop b body"
      using e(3) Some ab by (auto simp: splice_header_def split: option.splits if_splits)
    then show ?thesis
    proof cases
      case 1
      then show ?thesis using env e(2,4) by (metis append_Nil append_take_drop_id)
    next
      case 2
      then show ?thesis using env e(2,4) split Some ab by metis
    qed
  qed
qed

lemma replace_char_chars: "set (replace_char a r s) \<subseteq> (set s - {a}) \<union> set r"
  by (induction s) (auto simp: replace_char_def)

lemma xml_escape_no_markup: "set (xml_escape s) \<inter> {CHR ''<'', CHR ''>'', CHR 0x22, CHR 0x27} = {}"
proof -
  have keep: "c \<notin> set (replace_char a r t)" if "c \<notin> set t \<or> c = a" "c \<notin> set r" for a c r t
    using replace_char_chars [of a r t] that by auto
  show ?thesis unfolding xml_escape_def by (simp add: keep)
qed

text \<open>The registered claims of a token win over extra claims of the same name.\<close>

lemma jwt_insert_opt: "map_of (insert_opt k v m) k' = (case v of Some j \<Rightarrow> if k' = k then Some j else map_of m k' | None \<Rightarrow> map_of m k')"
  by (simp add: insert_opt_def split: option.split)

lemma jwt_registered_claims:
  "map_of (jwt_body claims extra ts) ''iat'' = Some (number_of_i64 ts)"
  "jc_sub claims = Some s \<Longrightarrow> map_of (jwt_body claims extra ts) ''sub'' = Some (JString s)"
  "jc_expires_in_secs claims = Some e \<Longrightarrow> map_of (jwt_body claims extra ts) ''exp'' = Some (number_of_i64 (wrap_i64 (ts + e)))"
  "jc_not_before_offset_secs claims = Some n \<Longrightarrow> map_of (jwt_body claims extra ts) ''nbf'' = Some (number_of_i64 (wrap_i64 (ts + n)))"
  by (simp_all add: jwt_body_def Let_def jwt_insert_opt split: option.split)

lemma as_i64_number: "- (2 ^ 63) \<le> i \<Longrightarrow> i < 2 ^ 63 \<Longrightarrow> as_i64 (number_of_i64 i) = Some i"
proof -
  assume i: "- (2 ^ 63) \<le> i" "i < 2 ^ 63"
  show ?thesis
  proof (cases "0 \<le> i")
    case True
    then have "uint (of_int i :: 64 word) = i" using i(2) by (simp add: unsigned_of_int take_bit_int_eq_self)
    moreover from this have "unat (of_int i :: 64 word) < 2 ^ 63" using i(2) by (simp add: unat_eq_nat_uint nat_less_iff)
    ultimately show ?thesis using True by (simp add: number_of_i64_def as_i64_def)
  next
    case False
    then have "sint (of_int i :: 64 word) = i" using i(1) by (simp add: signed_of_int signed_take_bit_int_eq_self)
    then show ?thesis using False by (simp add: number_of_i64_def as_i64_def)
  qed
qed


section \<open>Examples\<close>

definition plain_crypto :: auth_externs where
  "plain_crypto =
     \<lparr>ax_sha1 = id, ax_sha256 = id, ax_sha512 = id, ax_hmac = (\<lambda>_ k m. k @ m), ax_base64 = id, ax_base64url = id, ax_base64url_decode = Some,
      ax_hex = id, ax_http_date = (\<lambda>_. ''now''), ax_rfc3339 = (\<lambda>_. ''now''), ax_uuid = id, ax_public_point = (\<lambda>_. Inr (CHR 0x04 # replicate 64 CHR ''p'')),
      ax_encoding_key = (\<lambda>_ _. None), ax_jwt_encode = (\<lambda>_ _ k. Inr k), ax_json_parse = (\<lambda>_. None), ax_percent_encode = (\<lambda>_. id),
      ax_parse_envelope = (\<lambda>_. Inl NodesLimitReached), ax_debug = id\<rparr>"

definition demo_hmac :: hmac_params where
  "demo_hmac = \<lparr>hp_profile = FerrumV2, hp_username = ''u'', hp_secret = ''k'', hp_algorithm = HmacSha256, hp_digest_header = ContentDigest,
     hp_namespace = [], hp_allow_unsafe_legacy = False\<rparr>"

definition demo_signable :: signable_request where
  "demo_signable = \<lparr>sr_method = ''get'', sr_scheme = ''https'', sr_authority = ''h'', sr_raw_path = ''/p'', sr_raw_query = ''a=1'',
     sr_headers = [(''date'', ''old''), (''Cookie'', ''s=1; k=2'')], sr_body = ''b''\<rparr>"

definition demo_set :: resolved_auth where
  "demo_set = Multi [ApiKey ''q'' ''v'' KeyQuery, Hmac demo_hmac, ApiKey ''k'' ''v'' KeyCookie]"

definition demo_proof :: resolved_auth where
  "demo_proof = Multi [ApiKey ''Host'' ''h2'' KeyHeader, Dpop ''t'' ''pem'' True None]"

lemma demo_set_applied: "\<exists>res. apply_auth plain_crypto demo_set demo_signable 0 [''r''] = Inr res"
proof -
  have "\<not> isl (apply_auth plain_crypto demo_set demo_signable 0 [''r''])" by code_simp
  then show ?thesis by (cases "apply_auth plain_crypto demo_set demo_signable 0 [''r'']") auto
qed

lemma demo_proof_applied: "\<exists>res. apply_auth plain_crypto demo_proof demo_signable 0 [''r''] = Inr res"
proof -
  have "\<not> isl (apply_auth plain_crypto demo_proof demo_signable 0 [''r''])" by code_simp
  then show ?thesis by (cases "apply_auth plain_crypto demo_proof demo_signable 0 [''r'']") auto
qed

theorem signature_covers_sent_witness:
  "\<exists>res. apply_auth plain_crypto demo_set demo_signable 0 [''r''] = Inr res \<and> hdr (absorb_step plain_crypto res demo_signable) ''Date'' = [''now'']"
proof -
  obtain res where res: "apply_auth plain_crypto demo_set demo_signable 0 [''r''] = Inr res" using demo_set_applied by blast
  have "Hmac demo_hmac \<in> set (flatten demo_set)" by (simp add: demo_set_def)
  from signature_covers_sent [OF res this] res show ?thesis by (simp add: plain_crypto_def)
qed

theorem proof_covers_sent_witness:
  "\<exists>res. apply_auth plain_crypto demo_proof demo_signable 0 [''r''] = Inr res \<and> hdr (absorb_step plain_crypto res demo_signable) ''Authorization'' = [''DPoP t'']"
proof -
  obtain res where res: "apply_auth plain_crypto demo_proof demo_signable 0 [''r''] = Inr res" using demo_proof_applied by blast
  have "Dpop ''t'' ''pem'' True None \<in> set (flatten demo_proof)" by (simp add: demo_proof_def)
  from proof_covers_sent [OF res this] res show ?thesis by auto
qed

theorem cookie_credential_alone_witness:
  "cookie_pairs (demo_signable\<lparr>sr_headers := [(''Cookie'', ''s=1; k=v'')]\<rparr>) = [''s=1'', ''k=v'']"
proof -
  have "with_cookie plain_crypto demo_signable ''k'' ''v'' = Inr ''s=1; k=v''" by code_simp
  from cookie_credential_alone [OF this] have "cookie_pairs (demo_signable\<lparr>sr_headers := [(''Cookie'', ''s=1; k=v'')]\<rparr>)
      = filter (\<lambda>p. pair_name p \<noteq> ''k'') (cookie_pairs demo_signable) @ [''k=v'']" by simp
  moreover have "filter (\<lambda>p. pair_name p \<noteq> ''k'') (cookie_pairs demo_signable) = [''s=1'']" by code_simp
  ultimately show ?thesis by simp
qed

end
