(* ===== verification/Target.thy ===== *)
theory Target
  imports Redact
begin

text \<open>
  Request targets (\<^verbatim>\<open>crates/anvil-engine/src/prepare.rs\<close>): a URL parsed without normalizing its path, the authority a
  request is sent with, and the check of an explicit \<^verbatim>\<open>Host\<close>.

  The URL crate is the parameter record \<open>url_crate\<close>: parsing gives the host's text (an IPv6 address without
  brackets) and the port when it is not the scheme's default; joining gives the text of the joined URL.
\<close>

section \<open>Targets\<close>

record target =
  tg_scheme :: string
  tg_host :: string
  tg_port :: nat
  tg_authority :: string
  tg_path :: string
  tg_query :: string

record url_crate =
  uc_parse :: "string \<Rightarrow> string + string option \<times> nat option"
  uc_join :: "string \<Rightarrow> string \<Rightarrow> string option"

definition request_target :: "target \<Rightarrow> string" where
  "request_target t = (if tg_query t = [] then tg_path t else tg_path t @ ''?'' @ tg_query t)"

definition target_url :: "target \<Rightarrow> string" where
  "target_url t = tg_scheme t @ ''://'' @ tg_authority t @ request_target t"

definition target_origin :: "target \<Rightarrow> string \<times> string \<times> nat" where
  "target_origin t = (tg_scheme t, lower (tg_host t), tg_port t)"

definition request_authority :: "(string \<times> string) list \<Rightarrow> target \<Rightarrow> string" where
  "request_authority headers t =
     (case find (\<lambda>(name, _). eq_ignore_ascii_case name ''host'') headers of Some (_, v) \<Rightarrow> v | None \<Rightarrow> tg_authority t)"

section \<open>Parsing\<close>

definition hex_upper :: "nat \<Rightarrow> char" where
  "hex_upper d = (if d < 10 then char_of (48 + d) else char_of (55 + d))"

definition percent_byte :: "char \<Rightarrow> string" where
  "percent_byte c = [CHR ''%'', hex_upper (byte c div 16), hex_upper (byte c mod 16)]"

definition invalid_in_target :: "char \<Rightarrow> bool" where
  "invalid_in_target c \<longleftrightarrow> c \<in> set ('' '' @ [CHR 0x22] @ ''<>'' @ [CHR 0x5C] @ ''^'' @ [CHR 0x60] @ ''{|}'') \<or> byte c < 32 \<or> byte c = 127 \<or> 128 \<le> byte c"

text \<open>A character that is not ASCII is encoded byte by byte, so the characters are read as their bytes.\<close>

definition encode_target_part :: "string \<Rightarrow> string" where
  "encode_target_part s = concat (map (\<lambda>c. if invalid_in_target c then percent_byte c else [c]) s)"

definition local_failure :: "failure_kind \<Rightarrow> string \<Rightarrow> string \<Rightarrow> transport_failure" where
  "local_failure k msg field = with_field (new_failure Prepare k msg) field"

definition sep_at :: "string \<Rightarrow> (string \<times> string) option" where
  "sep_at s = map_option (\<lambda>i. (take i s, drop (i + 3) s)) (str_find ''://'' s)"

definition parse_scheme_of :: "string \<Rightarrow> string" where
  "parse_scheme_of scheme =
     (if scheme \<in> set [''ws'', ''grpc'', ''tcp'', ''udp''] then ''http''
      else if scheme \<in> set [''wss'', ''grpcs'', ''tls'', ''dtls''] then ''https'' else scheme)"

definition default_port :: "string \<Rightarrow> nat option" where
  "default_port scheme =
     (if scheme \<in> set [''http'', ''ws'', ''grpc''] then Some 80
      else if scheme \<in> set [''https'', ''wss'', ''grpcs''] then Some 443 else None)"

definition explicit_port :: "url_crate \<Rightarrow> string \<Rightarrow> string \<Rightarrow> nat option \<Rightarrow> nat option" where
  "explicit_port U scheme authority parsed =
     (case parsed of
        Some p \<Rightarrow> Some p
      | None \<Rightarrow>
          (if default_port scheme = None then
             (case uc_parse U ((if parse_scheme_of scheme = ''https'' then ''http'' else ''https'') @ ''://'' @ authority @ ''/'') of
                Inl _ \<Rightarrow> None | Inr (_, p) \<Rightarrow> p)
           else None))"

definition authority_of :: "string \<Rightarrow> string \<Rightarrow> nat \<Rightarrow> string" where
  "authority_of scheme host port =
     (let h = (if CHR '':'' \<in> set host then ''['' @ host @ '']'' else host)
      in if Some port = default_port scheme then h else h @ '':'' @ show_nat port)"

definition tail_parts :: "string \<Rightarrow> string \<times> string" where
  "tail_parts tail =
     (let t = takeWhile (\<lambda>c. c \<noteq> CHR ''#'') tail;
          (path, query) = (case split_once CHR ''?'' t of Some pq \<Rightarrow> pq | None \<Rightarrow> (t, []))
      in (if path = [] then ''/'' else encode_target_part path, encode_target_part query))"

definition finish_target :: "url_crate \<Rightarrow> string \<Rightarrow> string \<Rightarrow> string \<Rightarrow> transport_failure + target" where
  "finish_target U scheme authority tail =
     (case uc_parse U (parse_scheme_of scheme @ ''://'' @ authority @ ''/'') of
        Inl e \<Rightarrow> Inl (local_failure InvalidUrl (''invalid host or port in '' @ [CHR 0x27] @ authority @ [CHR 0x27] @ '': '' @ e) ''url'')
      | Inr (None, _) \<Rightarrow> Inl (local_failure InvalidUrl ''the URL has no host'' ''url'')
      | Inr (Some host, parsed) \<Rightarrow>
          (case (case explicit_port U scheme authority parsed of Some p \<Rightarrow> Some p | None \<Rightarrow> default_port scheme) of
             None \<Rightarrow> Inl (local_failure InvalidUrl (scheme @ '':// URLs need an explicit port'') ''url'')
           | Some port \<Rightarrow>
               Inr \<lparr>tg_scheme = scheme, tg_host = host, tg_port = port, tg_authority = authority_of scheme host port,
                    tg_path = fst (tail_parts tail), tg_query = snd (tail_parts tail)\<rparr>))"

definition parse_absolute :: "url_crate \<Rightarrow> string list \<Rightarrow> string \<Rightarrow> transport_failure + target" where
  "parse_absolute U allowed s =
     (case sep_at s of
        None \<Rightarrow> Inl (local_failure InvalidUrl ''the URL has no scheme'' ''url'')
      | Some (scheme0, rest) \<Rightarrow>
          (let scheme = lower scheme0; authority = fst (cut_at ''/?#'' rest)
           in if scheme \<notin> set allowed then
                Inl (local_failure UnsupportedScheme (''scheme '' @ [CHR 0x27] @ scheme @ [CHR 0x27] @ '' is not supported for this protocol (expected '' @ join_with '' or '' allowed @ '')'') ''url'')
              else if authority = [] then Inl (local_failure InvalidUrl ''the URL has no host'' ''url'')
              else if CHR ''@'' \<in> set authority then
                Inl (local_failure InvalidUrl ''credentials embedded in the URL are not sent; use an auth profile (Basic) so they are stored and redacted as secrets'' ''url'')
              else finish_target U scheme authority (snd (cut_at ''/?#'' rest))))"

definition parse_target :: "url_crate \<Rightarrow> string \<Rightarrow> string list \<Rightarrow> (transport_failure + target) \<times> string list" where
  "parse_target U raw0 allowed =
     (let raw = trim raw0
      in if raw = [] then (Inl (local_failure InvalidUrl ''the URL is empty'' ''url''), [])
         else if str_find ''://'' raw \<noteq> None then (parse_absolute U allowed raw, [])
         else (parse_absolute U allowed (hd allowed @ ''://'' @ raw), [''no scheme given; using '' @ hd allowed @ ''://'']))"

section \<open>Explicit hosts\<close>

definition has_ws_char :: "string \<Rightarrow> bool" where
  "has_ws_char s \<longleftrightarrow> list_ex (\<lambda>i. ws_len (drop i s) \<noteq> 0) [0..<length s]"

definition is_hex_digit :: "char \<Rightarrow> bool" where
  "is_hex_digit c \<longleftrightarrow> hex_val c \<noteq> None"

fun is_reg_name :: "string \<Rightarrow> bool" where
  "is_reg_name [] = True"
| "is_reg_name (b # bs) =
     (if b = CHR ''%'' then (case bs of x # y # rest \<Rightarrow> is_hex_digit x \<and> is_hex_digit y \<and> is_reg_name rest | _ \<Rightarrow> False)
      else (is_ascii_alphanumeric b \<or> b \<in> set (''-._~!$&'' @ [CHR 0x27] @ ''()*+,;='')) \<and> is_reg_name bs)"

definition is_ipv6_text :: "string \<Rightarrow> bool" where
  "is_ipv6_text s \<longleftrightarrow> (case read_ipv6 s of Some (_, []) \<Rightarrow> True | _ \<Rightarrow> False)"

definition forbidden_part :: "string \<Rightarrow> string option" where
  "forbidden_part v =
     map_option (\<lambda>(c, part). ''it contains '' @ part @ '' ('' @ [CHR 0x27, c, CHR 0x27] @ '')'')
       (find (\<lambda>(c, _). c \<in> set v) [(CHR ''@'', ''userinfo''), (CHR ''/'', ''a path''), (CHR ''?'', ''a query''), (CHR ''#'', ''a fragment'')])"

text \<open>The host, when it is a name, and the port, or why the value cannot be read.\<close>

definition host_parts :: "string \<Rightarrow> string + string option \<times> string option" where
  "host_parts v =
     (if is_prefix_of ''['' v then
        (case split_once CHR '']'' (tl v) of
           None \<Rightarrow> Inl (''the IPv6 address has no closing '' @ [CHR 0x27] @ '']'' @ [CHR 0x27])
         | Some (literal, after) \<Rightarrow>
             (if \<not> is_ipv6_text literal then Inl ''the address in brackets is not an IPv6 address''
              else if is_prefix_of '':'' after then Inr (None, Some (tl after))
              else if after = [] then Inr (None, None)
              else Inl ''only a port may follow the IPv6 address''))
      else if 1 < length (filter (\<lambda>c. c = CHR '':'') v) then
        Inl (if is_ipv6_text v then ''an IPv6 address must be in brackets ([...])''
             else ''it has more than one '' @ [CHR 0x27] @ '':'' @ [CHR 0x27] @ '' (a single '' @ [CHR 0x27] @ '':'' @ [CHR 0x27] @ '' separates the host from the port)'')
      else (case split_once CHR '':'' v of Some (h, p) \<Rightarrow> Inr (Some h, Some p) | None \<Rightarrow> Inr (Some v, None)))"

definition host_problem :: "string \<Rightarrow> string option" where
  "host_problem v =
     (if v = [] then Some ''it is empty''
      else if has_ws_char v then Some ''it contains whitespace''
      else case forbidden_part v of
             Some why \<Rightarrow> Some why
           | None \<Rightarrow>
               (case host_parts v of
                  Inl why \<Rightarrow> Some why
                | Inr (host, port) \<Rightarrow>
                    (if host = Some [] then Some ''it has no host''
                     else if (case host of Some h \<Rightarrow> \<not> is_reg_name h | None \<Rightarrow> False) then Some ''the host is not a host name or an IPv4 address''
                     else if (case port of Some p \<Rightarrow> \<not> list_all is_digit p \<or> parse_unsigned 65535 p = None | None \<Rightarrow> False) then
                       Some ''the port is not a number from 0 to 65535''
                     else None)))"


section \<open>Well-formed targets\<close>

definition clean :: "string \<Rightarrow> bool" where
  "clean s \<longleftrightarrow> list_all (\<lambda>c. \<not> invalid_in_target c) s"

definition target_ok :: "target \<Rightarrow> bool" where
  "target_ok t \<longleftrightarrow> is_prefix_of ''/'' (tg_path t) \<and> clean (tg_path t) \<and> clean (tg_query t)
     \<and> CHR ''?'' \<notin> set (tg_path t) \<and> CHR ''#'' \<notin> set (tg_path t) \<and> CHR ''#'' \<notin> set (tg_query t)
     \<and> tg_authority t = authority_of (tg_scheme t) (tg_host t) (tg_port t)"

lemma byte_hex_upper: "d < 16 \<Longrightarrow> byte (hex_upper d) = (if d < 10 then 48 + d else 55 + d)"
  by (simp add: hex_upper_def byte_def)

lemma percent_byte_chars: "x \<in> set (percent_byte c) \<Longrightarrow> \<not> invalid_in_target x \<and> x \<notin> set ''/?#''"
proof -
  have "byte c < 256" by (simp add: byte_def)
  then have d: "byte c div 16 < 16" "byte c mod 16 < 16" by auto
  have ok: "\<not> invalid_in_target y \<and> y \<notin> set ''/?#''" if "48 \<le> byte y \<and> byte y \<le> 57 \<or> 65 \<le> byte y \<and> byte y \<le> 70" for y
    using that by (auto simp: invalid_in_target_def byte_def)
  assume "x \<in> set (percent_byte c)"
  then consider "x = CHR ''%''" | "x = hex_upper (byte c div 16)" | "x = hex_upper (byte c mod 16)" by (auto simp: percent_byte_def)
  then show ?thesis
  proof cases
    case 1
    then show ?thesis by (simp add: invalid_in_target_def byte_def)
  next
    case 2
    then show ?thesis using byte_hex_upper [OF d(1)] d(1) ok [of x] by (auto split: if_splits)
  next
    case 3
    then show ?thesis using byte_hex_upper [OF d(2)] d(2) ok [of x] by (auto split: if_splits)
  qed
qed

lemma encode_clean: "clean (encode_target_part s)"
  using percent_byte_chars by (auto simp: clean_def encode_target_part_def list_all_iff)

lemma encode_keeps: "c \<in> set ''/?#'' \<Longrightarrow> c \<in> set (encode_target_part s) \<longleftrightarrow> c \<in> set s"
proof -
  assume c: "c \<in> set ''/?#''"
  then have "\<not> invalid_in_target c" by (auto simp: invalid_in_target_def byte_def)
  then show ?thesis using c percent_byte_chars by (fastforce simp: encode_target_part_def)
qed

lemma encode_clean_id: "clean s \<Longrightarrow> encode_target_part s = s"
  by (induction s) (simp_all add: clean_def encode_target_part_def)

lemma split_once_parts:
  assumes "split_once d s = Some (a, b)"
  shows "s = a @ d # b \<and> d \<notin> set a"
proof -
  have d: "d \<in> set s" "a = takeWhile (\<lambda>c. c \<noteq> d) s" "b = tl (dropWhile (\<lambda>c. c \<noteq> d) s)"
    using assms by (auto simp: split_once_def split: if_splits)
  have ne: "dropWhile (\<lambda>c. c \<noteq> d) s \<noteq> []" using d(1) by (auto simp: dropWhile_eq_Nil_conv)
  with hd_dropWhile [OF ne] have "dropWhile (\<lambda>c. c \<noteq> d) s = d # b" using d(3) by (metis list.collapse)
  then have "s = a @ d # b" using d(2) by (metis takeWhile_dropWhile_id)
  then show ?thesis using d(2) by (metis (mono_tags) set_takeWhileD)
qed

lemma tail_parts_ok:
  assumes "tail = [] \<or> hd tail \<in> set ''/?#''" "tail_parts tail = (path, query)"
  shows "is_prefix_of ''/'' path \<and> clean path \<and> clean query \<and> CHR ''?'' \<notin> set path \<and> CHR ''#'' \<notin> set path \<and> CHR ''#'' \<notin> set query"
proof -
  define t where "t = takeWhile (\<lambda>c. c \<noteq> CHR ''#'') tail"
  define pq where "pq = (case split_once CHR ''?'' t of Some pq \<Rightarrow> pq | None \<Rightarrow> (t, []))"
  have path: "path = (if fst pq = [] then ''/'' else encode_target_part (fst pq))" and query: "query = encode_target_part (snd pq)"
    using assms(2) unfolding tail_parts_def Let_def t_def [symmetric] pq_def [symmetric] by (auto simp: case_prod_beta)
  have t: "CHR ''#'' \<notin> set t" by (auto simp: t_def dest: set_takeWhileD)
  have parts: "\<exists>r. t = fst pq @ r \<and> set (snd pq) \<subseteq> set r \<and> CHR ''?'' \<notin> set (fst pq)"
  proof (cases "split_once CHR ''?'' t")
    case None
    then show ?thesis by (auto simp: pq_def split_once_def split: if_splits)
  next
    case (Some ab)
    then show ?thesis using split_once_parts [of "CHR ''?''" t "fst ab" "snd ab"] by (auto simp: pq_def)
  qed
  have "fst pq \<noteq> [] \<Longrightarrow> hd (fst pq) = CHR ''/''"
    using assms(1) parts by (cases tail; cases "fst pq") (auto simp: t_def split: if_splits)
  then have "is_prefix_of ''/'' path"
    by (cases "fst pq") (auto simp: path is_prefix_of_def encode_target_part_def invalid_in_target_def byte_def)
  moreover have "clean ''/''" by (simp add: clean_def invalid_in_target_def byte_def)
  ultimately show ?thesis using parts t encode_clean by (auto simp: path query encode_keeps)
qed

lemma cut_tail: "snd (cut_at d s) = [] \<or> hd (snd (cut_at d s)) \<in> set d"
  by (induction s) (auto simp: cut_at_def)

lemma finish_target_ok:
  assumes "finish_target U scheme authority tail = Inr t" "tail = [] \<or> hd tail \<in> set ''/?#''"
  shows "target_ok t \<and> tg_scheme t = scheme"
proof -
  have "t = \<lparr>tg_scheme = scheme, tg_host = tg_host t, tg_port = tg_port t, tg_authority = authority_of scheme (tg_host t) (tg_port t),
      tg_path = fst (tail_parts tail), tg_query = snd (tail_parts tail)\<rparr>"
    using assms(1) by (auto simp: finish_target_def split: sum.splits option.splits prod.splits)
  then show ?thesis using tail_parts_ok [OF assms(2), of "fst (tail_parts tail)" "snd (tail_parts tail)"]
    unfolding target_ok_def by (metis prod.collapse target.select_convs)
qed

lemma parse_target_scheme: "fst (parse_target U raw allowed) = Inr t \<Longrightarrow> tg_scheme t \<in> set allowed"
proof -
  assume "fst (parse_target U raw allowed) = Inr t"
  then obtain s where "parse_absolute U allowed s = Inr t" by (auto simp: parse_target_def Let_def split: if_splits)
  then obtain scheme rest where "scheme \<in> set allowed" "finish_target U scheme (fst (cut_at ''/?#'' rest)) (snd (cut_at ''/?#'' rest)) = Inr t"
    by (auto simp: parse_absolute_def Let_def split: if_splits option.splits)
  then show ?thesis using finish_target_ok [OF _ cut_tail] by blast
qed

text \<open>
  C9.  Every target a URL parses into is well formed: its scheme is one of those allowed, its path starts with a slash
  and holds no query or fragment, nothing in it needs encoding any more, and its authority is its
  host, bracketed when it is an IPv6 address, with its port unless that is the scheme's default.
\<close>

theorem parse_target_typed:
  assumes "parse_target U raw allowed = (Inr t, notes)"
  shows "target_ok t \<and> tg_scheme t \<in> set allowed"
proof -
  obtain s where "parse_absolute U allowed s = Inr t"
    using assms by (auto simp: parse_target_def Let_def split: if_splits)
  then obtain scheme rest where "scheme \<in> set allowed" "finish_target U scheme (fst (cut_at ''/?#'' rest)) (snd (cut_at ''/?#'' rest)) = Inr t"
    by (auto simp: parse_absolute_def Let_def split: if_splits option.splits)
  then show ?thesis using finish_target_ok [OF _ cut_tail] by blast
qed

section \<open>A target's URL parses back\<close>

lemma takeWhile_all_append: "\<forall>c \<in> set a. P c \<Longrightarrow> b = [] \<or> \<not> P (hd b) \<Longrightarrow> takeWhile P (a @ b) = a \<and> dropWhile P (a @ b) = b"
  by (induction a) (cases b; simp)+

lemma cut_at_append:
  "\<forall>c \<in> set a. c \<notin> set d \<Longrightarrow> b = [] \<or> hd b \<in> set d \<Longrightarrow> cut_at d (a @ b) = (a, b)"
  using takeWhile_all_append [of a "\<lambda>c. c \<notin> set d" b] by (simp add: cut_at_def)

lemma tail_parts_request_target:
  assumes "target_ok t"
  shows "tail_parts (request_target t) = (tg_path t, tg_query t)"
proof -
  have p: "tg_path t \<noteq> []" using assms by (auto simp: target_ok_def is_prefix_of_def)
  have tw: "takeWhile (\<lambda>c. c \<noteq> CHR ''#'') (request_target t) = request_target t"
    using assms by (auto simp: request_target_def target_ok_def takeWhile_eq_all_conv)
  have so: "(case split_once CHR ''?'' (request_target t) of Some pq \<Rightarrow> pq | None \<Rightarrow> (request_target t, [])) = (tg_path t, tg_query t)"
    using assms split_once_append [of "CHR ''?''" "tg_path t" "tg_query t"]
    by (auto simp: request_target_def target_ok_def split_once_def)
  have "encode_target_part (tg_path t) = tg_path t" "encode_target_part (tg_query t) = tg_query t"
    using assms encode_clean_id by (simp_all add: target_ok_def)
  then show ?thesis using p by (simp only: tail_parts_def Let_def tw so) simp
qed

definition plain_scheme :: "string \<Rightarrow> bool" where
  "plain_scheme s \<longleftrightarrow> s \<noteq> [] \<and> list_all (\<lambda>c. 97 \<le> byte c \<and> byte c \<le> 122) s"

lemma plain_scheme_facts: "plain_scheme s \<Longrightarrow> lower s = s \<and> CHR '':'' \<notin> set s \<and> ascii_black (hd s)"
  by (cases s) (auto simp: plain_scheme_def list_all_iff ascii_black_def byte_def ascii_lower_def intro!: map_idI)

lemma str_find_sep: "CHR '':'' \<notin> set a \<Longrightarrow> str_find ''://'' (a @ ''://'' @ b) = Some (length a)"
  by (induction a) (auto simp: is_prefix_of_def)

lemma byte_space: "CHR '' '' = char_of (32 :: nat)"
  by code_simp

lemma clean_black: "clean s \<Longrightarrow> c \<in> set s \<Longrightarrow> ascii_black c"
proof -
  assume "clean s" "c \<in> set s"
  then have ok: "\<not> invalid_in_target c" by (simp add: clean_def list_all_iff)
  have "c \<noteq> CHR '' ''" "\<not> byte c < 32" "\<not> 128 \<le> byte c" by (rule notI, use ok in \<open>simp add: invalid_in_target_def\<close>)+
  moreover have "byte c = 32 \<Longrightarrow> c = CHR '' ''" by (metis byte_def char_of_char byte_space)
  ultimately show ?thesis by (auto simp: ascii_black_def)
qed

lemma set_show_nat_digits: "c \<in> set (show_nat n) \<Longrightarrow> is_digit c"
  using show_nat_digits [of n] unfolding list_all_iff by blast

lemma digit_not_delim: "is_digit c \<Longrightarrow> c \<notin> set ''/?#@[]:''"
  by (auto simp: is_digit_def byte_def)

lemma authority_chars:
  assumes "c \<in> set ''/?#@''" "c \<notin> set host"
  shows "c \<notin> set (authority_of scheme host port)"
proof -
  have "c \<notin> set (show_nat port)" using assms(1) set_show_nat_digits [of c port] digit_not_delim [of c] by auto
  then show ?thesis using assms by (auto simp: authority_of_def Let_def)
qed

text \<open>What the URL crate gives for a target's authority: its host, and its port unless that is the default.\<close>

definition parses_authority :: "url_crate \<Rightarrow> target \<Rightarrow> bool" where
  "parses_authority U t \<longleftrightarrow>
     uc_parse U (parse_scheme_of (tg_scheme t) @ ''://'' @ tg_authority t @ ''/'')
       = Inr (Some (tg_host t), if default_port (tg_scheme t) = Some (tg_port t) then None else Some (tg_port t))"


section \<open>The grammar of an explicit host\<close>

text \<open>\<^verbatim>\<open>uri-host [":" port]\<close> of RFC 9110 and RFC 3986.\<close>

definition port_text :: "string \<Rightarrow> bool" where
  "port_text p \<longleftrightarrow> p \<noteq> [] \<and> list_all is_digit p \<and> read_digits p \<le> 65535"

definition uri_host :: "string \<Rightarrow> bool" where
  "uri_host h \<longleftrightarrow> h \<noteq> [] \<and> is_reg_name h \<or> (\<exists>lit. h = ''['' @ lit @ '']'' \<and> is_ipv6_text lit)"

definition host_with_port :: "string \<Rightarrow> bool" where
  "host_with_port v \<longleftrightarrow> (\<exists>h. uri_host h \<and> (v = h \<or> (\<exists>p. port_text p \<and> v = h @ '':'' @ p)))"

definition host_char :: "char \<Rightarrow> bool" where
  "host_char c \<longleftrightarrow> ascii_black c \<and> c \<notin> set ''@/?#''"

lemma hex_digit_black: "is_hex_digit c \<Longrightarrow> host_char c \<and> c \<notin> set '':[]''"
  by (auto simp: is_hex_digit_def hex_val_def host_char_def ascii_black_def byte_def Let_def split: if_splits)

lemma reg_name_chars: "is_reg_name h \<Longrightarrow> \<forall>c \<in> set h. host_char c \<and> c \<notin> set '':[]''"
proof (induction h rule: is_reg_name.induct)
  case (2 b bs)
  have plain: "host_char b \<and> b \<notin> set '':[]''" if "is_ascii_alphanumeric b \<or> b \<in> set (''-._~!$&'' @ [CHR 0x27] @ ''()*+,;='')"
    using that by (auto simp: is_ascii_alphanumeric_def host_char_def ascii_black_def byte_def)
  show ?case
  proof (cases "b = CHR ''%''")
    case True
    then obtain x y rest where "bs = x # y # rest" "is_hex_digit x" "is_hex_digit y" "is_reg_name rest"
      using 2(3) by (auto split: list.splits)
    then show ?thesis using 2(1) True hex_digit_black by (auto simp: host_char_def ascii_black_def byte_def)
  next
    case False
    then show ?thesis using 2 plain by auto
  qed
qed simp

text \<open>What the address readers consume.\<close>

definition addr_char :: "char \<Rightarrow> bool" where
  "addr_char c \<longleftrightarrow> is_hex_digit c \<or> c = CHR '':'' \<or> c = CHR ''.''"

definition consumes :: "'a reader \<Rightarrow> bool" where
  "consumes rd \<longleftrightarrow> (\<forall>s x r. rd s = Some (x, r) \<longrightarrow> (\<exists>u. s = u @ r \<and> list_all addr_char u))"

lemma consumes_number: "consumes (read_number radix k z hi)"
proof (unfold consumes_def, clarify)
  fix s x r assume "read_number radix k z hi s = Some (x, r)"
  then have r: "r = drop (length (takeWhile (\<lambda>c. radix_val radix c \<noteq> None) s)) s" by (auto simp: read_number_def Let_def split: if_splits)
  let ?u = "takeWhile (\<lambda>c. radix_val radix c \<noteq> None) s"
  have "list_all addr_char ?u"
    by (auto simp: list_all_iff addr_char_def is_hex_digit_def radix_val_def dest!: set_takeWhileD split: option.splits)
  moreover have "s = ?u @ r" unfolding r by (metis dropWhile_eq_drop takeWhile_dropWhile_id)
  ultimately show "\<exists>u. s = u @ r \<and> list_all addr_char u" by blast
qed

lemma consumes_separator: "consumes rd \<Longrightarrow> addr_char sep \<Longrightarrow> consumes (read_separator sep i rd)"
  unfolding consumes_def read_separator_def
  by (auto split: list.splits if_splits) (metis append_Cons list.pred_inject(2))

lemma consumes_octets: "consumes (read_octets i k)"
proof (induction k arbitrary: i)
  case 0
  then show ?case by (simp add: consumes_def read_octets.simps)
next
  case (Suc k)
  have sep: "consumes (read_separator CHR ''.'' i (read_number 10 3 False 255))" by (rule consumes_separator [OF consumes_number]) (simp add: addr_char_def)
  show ?case
  proof (unfold consumes_def, clarify)
    fix s x r assume "read_octets i (Suc k) s = Some (x, r)"
    then obtain b r1 bs where "read_separator CHR ''.'' i (read_number 10 3 False 255) s = Some (b, r1)" "read_octets (Suc i) k r1 = Some (bs, r)"
      by (auto simp: read_octets.simps split: option.splits)
    then obtain u u' where "s = u @ r1" "r1 = u' @ r" "list_all addr_char u" "list_all addr_char u'"
      using sep Suc.IH [of "Suc i"] unfolding consumes_def by blast
    then show "\<exists>u. s = u @ r \<and> list_all addr_char u" by (intro exI [of _ "u @ u'"]) simp
  qed
qed

lemma consumes_groups: "read_groups i k s = (gs, v4, r) \<Longrightarrow> \<exists>u. s = u @ r \<and> list_all addr_char u"
proof (induction k arbitrary: i s gs v4)
  case 0
  then show ?case by (simp add: read_groups.simps)
next
  case (Suc k)
  have colon: "addr_char CHR '':''" by (simp add: addr_char_def)
  have v4: "consumes (read_separator CHR '':'' i read_ipv4)"
    by (rule consumes_separator [OF _ colon]) (simp add: consumes_octets [unfolded consumes_def] consumes_def read_ipv4_def)
  have grp: "consumes (read_separator CHR '':'' i (read_number 16 4 True 65535))" by (rule consumes_separator [OF consumes_number colon])
  consider bs where "read_separator CHR '':'' i read_ipv4 s = Some (bs, r)"
    | g r1 gs' v4' where "read_separator CHR '':'' i (read_number 16 4 True 65535) s = Some (g, r1)" "read_groups (Suc i) k r1 = (gs', v4', r)"
    | "r = s"
    using Suc.prems by (auto simp: read_groups.simps split: option.splits if_splits prod.splits)
  then show ?case
  proof cases
    case 1
    then show ?thesis using v4 unfolding consumes_def by blast
  next
    case 2
    then obtain u u' where "s = u @ r1" "r1 = u' @ r" "list_all addr_char u" "list_all addr_char u'"
      using grp Suc.IH unfolding consumes_def by blast
    then show ?thesis by (intro exI [of _ "u @ u'"]) simp
  qed simp
qed

lemma ipv6_text_chars: "is_ipv6_text s \<Longrightarrow> list_all addr_char s"
proof -
  assume "is_ipv6_text s"
  then obtain x where x: "read_ipv6 s = Some (x, [])" by (auto simp: is_ipv6_text_def split: option.splits prod.splits list.splits)
  obtain hs v r where g: "read_groups 0 8 s = (hs, v, r)" by (metis prod_cases3)
  obtain u where u: "s = u @ r" "list_all addr_char u" using consumes_groups [OF g] by blast
  obtain ts v' r' where h: "read_groups 0 (8 - (length hs + 1)) (drop 2 r) = (ts, v', r')" by (metis prod_cases3)
  show ?thesis
  proof (cases "length hs = 8")
    case True
    then show ?thesis using x g u by (simp add: read_ipv6_def)
  next
    case False
    then have "take 2 r = ''::''" "r' = []" using x g h by (auto simp: read_ipv6_def split: if_splits)
    moreover obtain u' where "drop 2 r = u' @ r'" "list_all addr_char u'" using consumes_groups [OF h] by blast
    moreover have "r = take 2 r @ drop 2 r" by simp
    ultimately have "r = ''::'' @ u'" "list_all addr_char u'" by simp_all
    then have "list_all addr_char r" by (simp add: addr_char_def)
    then show ?thesis using u by simp
  qed
qed

lemma addr_char_host: "addr_char c \<Longrightarrow> host_char c \<and> c \<noteq> CHR '']''"
  using hex_digit_black by (auto simp: addr_char_def host_char_def ascii_black_def byte_def)

lemma host_chars_plain:
  assumes "\<forall>c \<in> set v. host_char c"
  shows "\<not> has_ws_char v" "forbidden_part v = None"
proof -
  have "ws_len (drop i v) = 0" if "i < length v" for i
    using that assms Cons_nth_drop_Suc [of i v] ws_len_black [of "v ! i" "drop (Suc i) v"] by (auto simp: host_char_def)
  then show "\<not> has_ws_char v" by (auto simp: has_ws_char_def list_ex_iff)
  show "forbidden_part v = None" using assms by (auto simp: forbidden_part_def host_char_def)
qed

definition port_ok :: "string option \<Rightarrow> bool" where
  "port_ok port \<longleftrightarrow> (case port of Some p \<Rightarrow> port_text p | None \<Rightarrow> True)"

lemma port_accepted: "(case port of Some p \<Rightarrow> \<not> list_all is_digit p \<or> parse_unsigned 65535 p = None | None \<Rightarrow> False) \<longleftrightarrow> \<not> port_ok port"
proof (cases port)
  case (Some p)
  have "list_all is_digit p \<Longrightarrow> (case p of c # cs \<Rightarrow> if c = CHR ''+'' then cs else p | [] \<Rightarrow> p) = p"
    by (auto simp: is_digit_def byte_def split: list.splits)
  then show ?thesis using Some by (auto simp: port_ok_def port_text_def parse_unsigned_def)
qed (simp add: port_ok_def)

text \<open>What reading the host and the port accepts, and that it reads every accepted text.\<close>

definition parts_ok :: "string \<Rightarrow> bool" where
  "parts_ok v \<longleftrightarrow>
     (\<exists>host port. host_parts v = Inr (host, port) \<and> (case host of Some h \<Rightarrow> h \<noteq> [] \<and> is_reg_name h | None \<Rightarrow> True) \<and> port_ok port)"

lemma host_problem_None:
  "host_problem v = None \<longleftrightarrow> v \<noteq> [] \<and> \<not> has_ws_char v \<and> forbidden_part v = None \<and> parts_ok v"
  unfolding host_problem_def parts_ok_def port_accepted by (auto split: sum.splits option.splits prod.splits)

lemma host_with_portI: "uri_host h \<Longrightarrow> host_with_port h" "uri_host h \<Longrightarrow> port_text p \<Longrightarrow> host_with_port (h @ '':'' @ p)"
  unfolding host_with_port_def by blast+

lemma uri_hostI: "h \<noteq> [] \<Longrightarrow> is_reg_name h \<Longrightarrow> uri_host h" "is_ipv6_text lit \<Longrightarrow> uri_host (''['' @ lit @ '']'')"
  unfolding uri_host_def by blast+

lemma parts_ok_grammar:
  assumes "parts_ok v"
  shows "host_with_port v"
proof -
  obtain host port where p: "host_parts v = Inr (host, port)" "case host of Some h \<Rightarrow> h \<noteq> [] \<and> is_reg_name h | None \<Rightarrow> True" "port_ok port"
    using assms by (auto simp: parts_ok_def)
  show ?thesis
  proof (cases "is_prefix_of ''['' v")
    case True
    then obtain lit after where l: "split_once CHR '']'' (tl v) = Some (lit, after)" "is_ipv6_text lit"
        and a: "after = [] \<or> (\<exists>q. after = CHR '':'' # q \<and> port = Some q)"
      using p(1) by (auto simp: host_parts_def is_prefix_of_def split: option.splits if_splits)
         (metis append_Cons append_Nil append_take_drop_id list.sel(3) One_nat_def)+
    then have v: "v = (''['' @ lit @ '']'') @ after"
      using split_once_parts [OF l(1)] True by (cases v) (auto simp: is_prefix_of_def)
    note h = uri_hostI(2) [OF l(2)]
    from a show ?thesis
    proof
      assume "after = []"
      then show ?thesis using host_with_portI(1) [OF h] v by simp
    next
      assume "\<exists>q. after = CHR '':'' # q \<and> port = Some q"
      then obtain q where "after = CHR '':'' # q" "port_text q" using p(3) by (auto simp: port_ok_def)
      then show ?thesis using host_with_portI(2) [OF h] v by simp
    qed
  next
    case False
    then have s: "(case split_once CHR '':'' v of Some (h, q) \<Rightarrow> (Some h, Some q) | None \<Rightarrow> (Some v, None)) = (host, port)"
      using p(1) by (auto simp: host_parts_def split: option.splits if_splits prod.splits)
    show ?thesis
    proof (cases "split_once CHR '':'' v")
      case None
      then have "v \<noteq> []" "is_reg_name v" using s p(2) by auto
      then show ?thesis by (intro host_with_portI(1) uri_hostI(1))
    next
      case (Some hq)
      then have "host = Some (fst hq)" "port = Some (snd hq)" "v = fst hq @ '':'' @ snd hq"
        using s split_once_parts [of "CHR '':''" v "fst hq" "snd hq"] by (auto simp: case_prod_beta)
      then have "fst hq \<noteq> []" "is_reg_name (fst hq)" "port_text (snd hq)" using p(2,3) by (simp_all add: port_ok_def)
      then show ?thesis using host_with_portI(2) [OF uri_hostI(1)] \<open>v = _\<close> by simp
    qed
  qed
qed

lemma port_text_chars: "port_text p \<Longrightarrow> c \<in> set p \<Longrightarrow> host_char c \<and> c \<notin> set '':[]''"
  by (auto simp: port_text_def list_all_iff is_digit_def host_char_def ascii_black_def byte_def)

lemma no_colon_count: "CHR '':'' \<notin> set a \<Longrightarrow> CHR '':'' \<notin> set b \<Longrightarrow> length (filter (\<lambda>c. c = CHR '':'') (a @ '':'' @ b)) = 1"
  by (auto simp: filter_empty_conv)

lemma named_parts:
  assumes "h \<noteq> []" "is_reg_name h"
  shows "host_parts h = Inr (Some h, None)" "port_text p \<Longrightarrow> host_parts (h @ '':'' @ p) = Inr (Some h, Some p)"
proof -
  note chars = reg_name_chars [OF assms(2)]
  have c: "CHR '':'' \<notin> set h" using chars by fastforce
  have "hd h \<noteq> CHR ''[''" using chars assms(1) by (metis hd_in_set list.set_intros)
  then have b: "\<not> is_prefix_of ''['' h" "\<not> is_prefix_of ''['' (h @ '':'' @ p)" using assms(1) by (cases h; simp add: is_prefix_of_def)+
  have count: "filter (\<lambda>c. c = CHR '':'') h = []" using c by (auto simp: filter_empty_conv)
  show "host_parts h = Inr (Some h, None)" using b(1) c count by (simp add: host_parts_def split_once_def)
  assume "port_text p"
  then have "CHR '':'' \<notin> set p" using port_text_chars by fastforce
  then have "length (filter (\<lambda>c. c = CHR '':'') (h @ '':'' @ p)) = 1" using no_colon_count [OF c] by simp
  moreover have "split_once CHR '':'' (h @ '':'' @ p) = Some (h, p)" using split_once_append [OF c] by simp
  ultimately show "host_parts (h @ '':'' @ p) = Inr (Some h, Some p)" using b(2) by (simp only: host_parts_def if_False) simp
qed

lemma literal_parts:
  assumes "is_ipv6_text lit"
  shows "host_parts (''['' @ lit @ '']'') = Inr (None, None)" "host_parts ((''['' @ lit @ '']'') @ '':'' @ p) = Inr (None, Some p)"
proof -
  have "CHR '']'' \<notin> set lit" using ipv6_text_chars [OF assms] addr_char_host by (auto simp: list_all_iff)
  then have "split_once CHR '']'' (lit @ CHR '']'' # r) = Some (lit, r)" for r by (rule split_once_append)
  then show "host_parts (''['' @ lit @ '']'') = Inr (None, None)" "host_parts ((''['' @ lit @ '']'') @ '':'' @ p) = Inr (None, Some p)"
    using assms by (simp_all add: host_parts_def is_prefix_of_def)
qed

lemma uri_host_facts:
  assumes "uri_host h"
  shows "h \<noteq> []" "\<forall>c \<in> set h. host_char c" "parts_ok h" "port_text p \<Longrightarrow> parts_ok (h @ '':'' @ p)"
proof -
  have "h \<noteq> [] \<and> (\<forall>c \<in> set h. host_char c) \<and> parts_ok h \<and> (port_text p \<longrightarrow> parts_ok (h @ '':'' @ p))"
  proof (cases "h \<noteq> [] \<and> is_reg_name h")
    case True
    then show ?thesis using reg_name_chars named_parts [of h] by (auto simp: parts_ok_def port_ok_def)
  next
    case False
    then obtain lit where l: "h = ''['' @ lit @ '']''" "is_ipv6_text lit" using assms unfolding uri_host_def by blast
    have "host_char CHR ''['' \<and> host_char CHR '']''" by (simp add: host_char_def ascii_black_def byte_def)
    then have "\<forall>c \<in> set h. host_char c" using ipv6_text_chars [OF l(2)] addr_char_host by (auto simp: l(1) list_all_iff)
    moreover have "parts_ok h" "port_text p \<Longrightarrow> parts_ok (h @ '':'' @ p)"
      using literal_parts [OF l(2)] unfolding parts_ok_def l(1) by (auto simp: port_ok_def)
    ultimately show ?thesis by (simp add: l(1))
  qed
  then show "h \<noteq> []" "\<forall>c \<in> set h. host_char c" "parts_ok h" "port_text p \<Longrightarrow> parts_ok (h @ '':'' @ p)" by blast+
qed

text \<open>
  C11.  An explicit \<open>Host\<close> is accepted exactly when it is \<^verbatim>\<open>uri-host [":" port]\<close>: a registered name or an IPv6 address in
  brackets, alone or followed by a colon and a port from 0 to 65535.
\<close>

theorem host_problem_grammar: "host_problem v = None \<longleftrightarrow> host_with_port v"
proof
  assume "host_problem v = None"
  then show "host_with_port v" using host_problem_None parts_ok_grammar by blast
next
  assume "host_with_port v"
  then obtain h where h: "uri_host h" "v = h \<or> (\<exists>p. port_text p \<and> v = h @ '':'' @ p)" unfolding host_with_port_def by blast
  note f = uri_host_facts [OF h(1)]
  have colon: "host_char CHR '':''" by (simp add: host_char_def ascii_black_def byte_def)
  have "v \<noteq> []" "\<forall>c \<in> set v. host_char c" "parts_ok v"
    using h(2) f colon port_text_chars by auto
  then show "host_problem v = None" using host_problem_None host_chars_plain by blast
qed

section \<open>Examples\<close>

definition demo_url :: url_crate where
  "demo_url = \<lparr>uc_parse = (\<lambda>_. Inr (Some ''h'', None)), uc_join = (\<lambda>base loc. Some loc)\<rparr>"

definition demo_target :: target where
  "demo_target = \<lparr>tg_scheme = ''https'', tg_host = ''h'', tg_port = 443, tg_authority = ''h'', tg_path = ''/p'', tg_query = ''q=1''\<rparr>"

lemma demo_target_ok: "target_ok demo_target"
  by (simp add: target_ok_def demo_target_def is_prefix_of_def clean_def invalid_in_target_def byte_def authority_of_def default_port_def)


theorem parse_target_typed_witness: "target_ok demo_target \<and> tg_scheme demo_target \<in> {''https'', ''http''}"
proof -
  have "parse_target demo_url ''https://h/p?q=1'' [''https'', ''http''] = (Inr demo_target, [])" by code_simp
  from parse_target_typed [OF this] show ?thesis by simp
qed

end
