(* ===== verification/Routes.thy ===== *)
theory Routes
  imports Target Destination Redact_Evidence
begin

text \<open>
  The route of one request (\<^verbatim>\<open>crates/anvil-engine/src/http_exec.rs\<close>, with the profiles of
  \<^verbatim>\<open>crates/anvil-domain/src/tls.rs\<close>): which TLS profile, client identity and proxy a target gets, and which gateway
  profile its response is attributed to.

  The vault, TLS configuration, PKCS#12, SHA-256 and the header types of the HTTP crate are the parameter record
  \<open>route_externs\<close>.  A prepared TLS configuration is its key and its settings; the cache of
  prepared configurations in front of it, keyed by the workspace and that key, is left out.
\<close>

section \<open>Profiles\<close>

record host_binding =
  hb_host :: string
  hb_port :: "nat option"

datatype tls_min_version = Tls12 | Tls13

datatype client_identity =
    PemIdentity string sensitive_value
  | Pkcs12Identity sensitive_value sensitive_value
  | WorkloadIdentity string "string option" bool

record tls_profile =
  tp_id :: string
  tp_name :: string
  tp_verify :: bool
  tp_use_system_roots :: bool
  tp_extra_roots_pem :: "string list"
  tp_client_identity :: "client_identity option"
  tp_bindings :: "host_binding list"
  tp_min_version :: tls_min_version
  tp_server_name_override :: "string option"
  tp_server_spiffe :: "(string option \<times> string option) option"
  tp_updated_at :: int

record tls_settings =
  ts_verify :: bool
  ts_use_system_roots :: bool
  ts_extra_roots_pem :: "string list"
  ts_client_identity :: "(string \<times> string) option"
  ts_min_version :: tls_min_version
  ts_server_name_override :: "string option"
  ts_server_spiffe :: "(string option \<times> string option) option"

record prepared_tls =
  pr_key :: string
  pr_settings :: tls_settings

definition strict_system :: tls_settings where
  "strict_system = \<lparr>ts_verify = True, ts_use_system_roots = True, ts_extra_roots_pem = [], ts_client_identity = None,
     ts_min_version = Tls12, ts_server_name_override = None, ts_server_spiffe = None\<rparr>"

datatype hbone_marker = MarkerNone | FerrumMeshProtocol | IstioProtocol

record key_value =
  kv_name :: string
  kv_value :: string
  kv_enabled :: bool

record hbone_options =
  ho_marker :: hbone_marker
  ho_baggage :: "string option"
  ho_extra_headers :: "key_value list"

record proxy_profile =
  pp_id :: string
  pp_name :: string
  pp_kind :: proxy_kind
  pp_address :: string
  pp_username :: "string option"
  pp_password :: "sensitive_value option"
  pp_no_proxy :: string
  pp_tls_profile_id :: "string option"
  pp_hbone :: "hbone_options option"

record proxy_plan =
  px_kind :: proxy_kind
  px_host :: string
  px_port :: nat
  px_credentials :: "(string \<times> string) option"
  px_tls :: "prepared_tls option"
  px_label :: string
  px_connect_headers :: "(string \<times> string) list"

record integration_profile =
  ip_name :: string
  ip_hosts :: "host_binding list"
  ip_compatibility_id :: string
  ip_require_verified_tls :: bool
  ip_detail :: "(string \<times> sensitive_value \<times> string option) option"

record route_context =
  rc_tls_profiles :: "tls_profile list"
  rc_proxy_profiles :: "proxy_profile list"
  rc_integrations :: "integration_profile list"

record route_settings =
  rs_tls_profile_id :: "string option"
  rs_proxy_profile_id :: "string option"

record route_externs =
  re_secret :: "string \<Rightarrow> string \<Rightarrow> string + string"
  re_prepare :: "tls_settings \<Rightarrow> transport_failure option"
  re_pkcs12 :: "string \<Rightarrow> string \<Rightarrow> transport_failure + string \<times> string"
  re_sha256_hex :: "string \<Rightarrow> string"
  re_header_name :: "string \<Rightarrow> string option"
  re_header_value :: "string \<Rightarrow> bool"

datatype ferrum_trust = NotConfigured | Trusted string string bool

section \<open>Bindings\<close>

definition host_matches :: "string \<Rightarrow> string \<Rightarrow> bool" where
  "host_matches pattern host =
     (let p = lower pattern; h = lower host
      in if is_prefix_of ''*.'' p then Redact.ends_with h (''.'' @ drop 2 p) else p = h)"

definition matches_at :: "host_binding \<Rightarrow> target \<Rightarrow> bool" where
  "matches_at b t \<longleftrightarrow> host_matches (hb_host b) (tg_host t) \<and> (case hb_port b of Some p \<Rightarrow> p = tg_port t | None \<Rightarrow> True)"

definition binding_matches :: "host_binding list \<Rightarrow> target \<Rightarrow> bool" where
  "binding_matches bs t \<longleftrightarrow> bs = [] \<or> list_ex (\<lambda>b. matches_at b t) bs"

definition resolve_sensitive :: "route_externs \<Rightarrow> sensitive_value \<Rightarrow> string + string \<times> bool" where
  "resolve_sensitive E v =
     (case v of
        Template s \<Rightarrow> Inr (s, \<not> is_pure_reference v)
      | SecretRef a b \<Rightarrow> map_sum id (\<lambda>s. (s, True)) (re_secret E a b))"

section \<open>TLS\<close>

definition settings_of_profile :: "tls_profile \<Rightarrow> tls_settings" where
  "settings_of_profile p =
     \<lparr>ts_verify = tp_verify p, ts_use_system_roots = tp_use_system_roots p, ts_extra_roots_pem = tp_extra_roots_pem p, ts_client_identity = None,
      ts_min_version = tp_min_version p,
      ts_server_name_override = (case tp_server_name_override p of Some n \<Rightarrow> if trim n = [] then None else Some n | None \<Rightarrow> None),
      ts_server_spiffe = tp_server_spiffe p\<rparr>"

definition bind_target :: "string \<Rightarrow> nat \<Rightarrow> target" where
  "bind_target host port = \<lparr>tg_scheme = ''https'', tg_host = host, tg_port = port, tg_authority = [], tg_path = ''/'', tg_query = []\<rparr>"

definition identity_invalid :: "string \<Rightarrow> transport_failure" where
  "identity_invalid msg = new_failure Prepare ClientIdentityInvalid msg"

definition identity_material :: "route_externs \<Rightarrow> client_identity \<Rightarrow> transport_failure + (string \<times> string) option" where
  "identity_material E i =
     (case i of
        PemIdentity certs key \<Rightarrow>
          (case resolve_sensitive E key of
             Inl _ \<Rightarrow> Inl (with_field (identity_invalid ''could not resolve the TLS private key; check the vault'') ''tls.client_identity.private_key'')
           | Inr (k, _) \<Rightarrow> Inr (Some (certs, k)))
      | Pkcs12Identity bundle password \<Rightarrow>
          (case resolve_sensitive E bundle of
             Inl _ \<Rightarrow> Inl (identity_invalid ''could not resolve the TLS identity bundle; check the vault'')
           | Inr (b, _) \<Rightarrow>
               (case resolve_sensitive E password of
                  Inl _ \<Rightarrow> Inl (identity_invalid ''could not resolve the TLS identity password; check the vault'')
                | Inr (pw, _) \<Rightarrow> map_sum id Some (re_pkcs12 E b pw)))
      | WorkloadIdentity _ _ _ \<Rightarrow> Inr None)"

text \<open>The identity a profile presents to a host and port, with the notes of what is not presented.\<close>

definition profile_identity :: "route_externs \<Rightarrow> tls_profile \<Rightarrow> string \<Rightarrow> nat \<Rightarrow> transport_failure + (string \<times> string) option \<times> string list" where
  "profile_identity E p host port =
     (case tp_client_identity p of
        None \<Rightarrow> Inr (None, [])
      | Some (WorkloadIdentity _ _ _) \<Rightarrow>
          Inr (None, [''client identity of TLS profile '' @ [CHR 0x27] @ tp_name p @ [CHR 0x27] @ '' (an X.509-SVID from the SPIFFE Workload API) not presented: it is fetched only for TLS requests and TLS proxies that select the profile''])
      | Some i \<Rightarrow>
          (if binding_matches (tp_bindings p) (bind_target host port) then map_sum id (\<lambda>m. (m, [])) (identity_material E i)
           else Inr (None, [''client certificate from TLS profile '' @ [CHR 0x27] @ tp_name p @ [CHR 0x27] @ '' not presented: '' @ host @ '' is not in its host bindings''])))"

definition material_key :: "route_externs \<Rightarrow> tls_profile \<Rightarrow> tls_settings \<Rightarrow> string" where
  "material_key E p s =
     join_with ''|'' [tp_id p, show_int (tp_updated_at p), if ts_client_identity s \<noteq> None then ''true'' else ''false'',
       re_sha256_hex E ((case ts_client_identity s of Some (certs, _) \<Rightarrow> certs | None \<Rightarrow> []) @ concat (ts_extra_roots_pem s))]"

definition prepare_tls :: "route_externs \<Rightarrow> string \<Rightarrow> tls_settings \<Rightarrow> transport_failure + prepared_tls" where
  "prepare_tls E key s = (case re_prepare E s of Some f \<Rightarrow> Inl f | None \<Rightarrow> Inr \<lparr>pr_key = key, pr_settings = s\<rparr>)"

definition prepared_from_profile :: "route_externs \<Rightarrow> tls_profile \<Rightarrow> string \<Rightarrow> nat \<Rightarrow> transport_failure + prepared_tls \<times> string list" where
  "prepared_from_profile E p host port =
     (case profile_identity E p host port of
        Inl f \<Rightarrow> Inl f
      | Inr (identity, notes) \<Rightarrow>
          (let s = (settings_of_profile p)\<lparr>ts_client_identity := identity\<rparr>
           in map_sum id (\<lambda>t. (t, notes)) (prepare_tls E (material_key E p s) s)))"

definition find_tls_profile :: "route_context \<Rightarrow> string \<Rightarrow> tls_profile option" where
  "find_tls_profile ctx pid = find (\<lambda>p. tp_id p = pid) (rc_tls_profiles ctx)"

definition tls_for ::
    "route_externs \<Rightarrow> route_context \<Rightarrow> route_settings \<Rightarrow> target \<Rightarrow> transport_failure + (prepared_tls \<times> string option \<times> host_binding list) \<times> string list" where
  "tls_for E ctx st t =
     (case rs_tls_profile_id st of
        None \<Rightarrow> map_sum id (\<lambda>p. ((p, None, []), [])) (prepare_tls E ''default-strict'' strict_system)
      | Some pid \<Rightarrow>
          (case find_tls_profile ctx pid of
             None \<Rightarrow> Inl (with_field (new_failure Prepare TlsProfileInvalid ''the selected TLS profile no longer exists'') ''settings.tls_profile'')
           | Some p \<Rightarrow> map_sum id (\<lambda>(q, notes). ((q, Some (tp_name p), tp_bindings p), notes)) (prepared_from_profile E p (tg_host t) (tg_port t))))"

text \<open>The profiles as a redirect to another origin sees them: no identity but of a profile bound to the new target.\<close>

definition bound_profiles :: "target \<Rightarrow> route_context \<Rightarrow> route_context" where
  "bound_profiles t ctx =
     ctx\<lparr>rc_tls_profiles := map (\<lambda>p. if \<not> binding_matches (tp_bindings p) t \<or> tp_bindings p = [] then p\<lparr>tp_client_identity := None\<rparr> else p) (rc_tls_profiles ctx)\<rparr>"

definition hop_tls ::
    "route_externs \<Rightarrow> route_context \<Rightarrow> route_settings \<Rightarrow> host_binding list \<Rightarrow> bool \<Rightarrow> target
       \<Rightarrow> transport_failure + (prepared_tls option \<times> string option) \<times> string list" where
  "hop_tls E ctx st bindings cross_origin t =
     (if tg_scheme t = ''https'' then
        (let cross_bound = (binding_matches bindings t \<and> bindings \<noteq> [])
         in map_sum id (\<lambda>((q, name, _), notes). ((Some q, name), notes))
              (tls_for E (if cross_origin \<and> \<not> cross_bound then bound_profiles t ctx else ctx) st t))
      else Inr ((None, None), []))"

section \<open>Proxies\<close>

definition proxy_invalid :: "string \<Rightarrow> string \<Rightarrow> transport_failure" where
  "proxy_invalid msg field = with_field (new_failure Prepare ProxyConfigInvalid msg) field"

definition CONNECTION_SPECIFIC :: "string list" where
  "CONNECTION_SPECIFIC = [''host'', ''connection'', ''upgrade'', ''transfer-encoding'', ''keep-alive'', ''proxy-connection'', ''te'']"

definition HBONE_MARKERS :: "string list" where
  "HBONE_MARKERS = [''x-ferrum-mesh-protocol'', ''x-istio-protocol'']"

definition connect_header :: "route_externs \<Rightarrow> bool \<Rightarrow> string \<Rightarrow> string \<Rightarrow> string \<Rightarrow> transport_failure + string \<times> string" where
  "connect_header E datagram name v field =
     (case re_header_name E (trim name) of
        None \<Rightarrow> Inl (proxy_invalid ([CHR 0x27] @ name @ [CHR 0x27] @ '' is not a valid HBONE CONNECT header name'') field)
      | Some n \<Rightarrow>
          (if n \<in> set CONNECTION_SPECIFIC then
             Inl (proxy_invalid ([CHR 0x27] @ name @ [CHR 0x27] @ '' is a connection-specific header and cannot be sent on an HTTP/2 CONNECT'') field)
           else if datagram \<and> field \<noteq> ''proxy.hbone.marker'' \<and> n \<in> set HBONE_MARKERS then
             Inl (proxy_invalid ([CHR 0x27] @ name @ [CHR 0x27] @ '' is set by Anvil on a UDP tunnel (the marker value udp selects the datagram relay); remove it from the HBONE proxy'' @ [CHR 0x27] @ ''s extra headers'') field)
           else if \<not> re_header_value E v then
             Inl (proxy_invalid (''the value of HBONE CONNECT header '' @ [CHR 0x27] @ name @ [CHR 0x27] @ '' is not a valid header value'') field)
           else Inr (n, v)))"

fun connect_headers_of :: "route_externs \<Rightarrow> bool \<Rightarrow> (string \<times> string \<times> string) list \<Rightarrow> transport_failure + (string \<times> string) list" where
  "connect_headers_of E datagram [] = Inr []"
| "connect_headers_of E datagram ((name, v, field) # hs) =
     (case connect_header E datagram name v field of
        Inl f \<Rightarrow> Inl f
      | Inr h \<Rightarrow> map_sum id (Cons h) (connect_headers_of E datagram hs))"

definition marker_header :: "hbone_marker \<Rightarrow> bool \<Rightarrow> (string \<times> string \<times> string) list" where
  "marker_header m datagram =
     (let v = (if datagram then ''udp'' else ''hbone'')
      in if m = MarkerNone \<and> \<not> datagram then []
         else if m = IstioProtocol then [(''x-istio-protocol'', v, ''proxy.hbone.marker'')]
         else [(''x-ferrum-mesh-protocol'', v, ''proxy.hbone.marker'')])"

definition baggage_header :: "string option \<Rightarrow> (string \<times> string \<times> string) list" where
  "baggage_header b = (case b of Some s \<Rightarrow> if trim s = [] then [] else [(''baggage'', trim s, ''proxy.hbone.baggage'')] | None \<Rightarrow> [])"

definition extra_connect_headers :: "key_value list \<Rightarrow> (string \<times> string \<times> string) list" where
  "extra_connect_headers kvs =
     map (\<lambda>(i, kv). (kv_name kv, kv_value kv, ''proxy.hbone.extra_headers['' @ show_nat i @ '']'')) (filter (\<lambda>(_, kv). kv_enabled kv) (enumerate 0 kvs))"

definition hbone_connect_headers :: "route_externs \<Rightarrow> hbone_options \<Rightarrow> bool \<Rightarrow> transport_failure + (string \<times> string) list" where
  "hbone_connect_headers E h datagram =
     connect_headers_of E datagram (marker_header (ho_marker h) datagram @ baggage_header (ho_baggage h) @ extra_connect_headers (ho_extra_headers h))"

definition find_proxy_profile :: "route_context \<Rightarrow> string \<Rightarrow> proxy_profile option" where
  "find_proxy_profile ctx pid = find (\<lambda>p. pp_id p = pid) (rc_proxy_profiles ctx)"

definition hbone_datagram_connect_headers :: "route_externs \<Rightarrow> route_context \<Rightarrow> route_settings \<Rightarrow> transport_failure + (string \<times> string) list" where
  "hbone_datagram_connect_headers E ctx st =
     hbone_connect_headers E
       (case Option.bind (Option.bind (rs_proxy_profile_id st) (find_proxy_profile ctx)) pp_hbone of
          Some h \<Rightarrow> h | None \<Rightarrow> \<lparr>ho_marker = MarkerNone, ho_baggage = None, ho_extra_headers = []\<rparr>) True"

definition parse_proxy_address :: "string \<Rightarrow> transport_failure + string \<times> nat" where
  "parse_proxy_address address =
     (case rposition (\<lambda>c. c = CHR '':'') address of
        None \<Rightarrow> Inl (proxy_invalid (''proxy address '' @ [CHR 0x27] @ address @ [CHR 0x27] @ '' must be host:port'') ''proxy.address'')
      | Some i \<Rightarrow>
          (case parse_unsigned 65535 (drop (i + 1) address) of
             None \<Rightarrow> Inl (proxy_invalid (''proxy address '' @ [CHR 0x27] @ address @ [CHR 0x27] @ '' has an invalid port'') ''proxy.address'')
           | Some port \<Rightarrow>
               Inr (rev (dropWhile (\<lambda>c. c = CHR '']'') (rev (dropWhile (\<lambda>c. c = CHR ''['') (take i address)))), port)))"

definition proxy_credentials :: "route_externs \<Rightarrow> proxy_profile \<Rightarrow> transport_failure + (string \<times> string) option" where
  "proxy_credentials E p =
     (case pp_username p of
        None \<Rightarrow> Inr None
      | Some u \<Rightarrow>
          (case pp_password p of
             None \<Rightarrow> Inr (Some (u, []))
           | Some pw \<Rightarrow>
               (case resolve_sensitive E pw of
                  Inl _ \<Rightarrow> Inl (proxy_invalid ''could not resolve the proxy password; check the vault'' ''proxy.password'')
                | Inr (v, _) \<Rightarrow> Inr (Some (u, v)))))"

definition proxy_profile_tls :: "route_externs \<Rightarrow> route_context \<Rightarrow> proxy_profile \<Rightarrow> string \<Rightarrow> nat \<Rightarrow> transport_failure + prepared_tls option \<times> string list" where
  "proxy_profile_tls E ctx p host port =
     (case pp_tls_profile_id p of
        None \<Rightarrow> Inr (None, [])
      | Some pid \<Rightarrow>
          (case find_tls_profile ctx pid of
             None \<Rightarrow> Inl (proxy_invalid (''the TLS profile selected for proxy '' @ [CHR 0x27] @ pp_name p @ [CHR 0x27] @ '' no longer exists'') ''proxy.tls_profile'')
           | Some tp \<Rightarrow> map_sum id (\<lambda>(q, notes). (Some q, notes)) (prepared_from_profile E tp host port)))"

definition proxy_tls :: "route_externs \<Rightarrow> proxy_profile \<Rightarrow> prepared_tls option \<Rightarrow> transport_failure + prepared_tls option" where
  "proxy_tls E p profile_tls =
     (case pp_kind p of
        ProxyHttps \<Rightarrow> (case profile_tls of Some t \<Rightarrow> Inr (Some t) | None \<Rightarrow> map_sum id Some (prepare_tls E [] strict_system))
      | ProxyHbone \<Rightarrow>
          (case profile_tls of
             Some t \<Rightarrow> Inr (Some t)
           | None \<Rightarrow> Inl (proxy_invalid (''HBONE proxy '' @ [CHR 0x27] @ pp_name p @ [CHR 0x27] @ '' has no TLS profile: HBONE is HTTP/2 CONNECT over mutual TLS, so it needs the client SVID and the endpoint'' @ [CHR 0x27] @ ''s trust bundle; nothing was sent'') ''proxy.tls_profile''))
      | _ \<Rightarrow> Inr None)"

definition plan_proxy :: "route_externs \<Rightarrow> route_context \<Rightarrow> proxy_profile \<Rightarrow> transport_failure + proxy_plan option \<times> string list" where
  "plan_proxy E ctx p =
     (case parse_proxy_address (pp_address p) of
        Inl f \<Rightarrow> Inl f
      | Inr (host, port) \<Rightarrow>
          (case proxy_credentials E p of
             Inl f \<Rightarrow> Inl f
           | Inr credentials \<Rightarrow>
               (if pp_kind p = ProxyHbone \<and> credentials \<noteq> None then
                  Inl (proxy_invalid ''an HBONE endpoint authenticates the client by its SVID (mutual TLS); remove the proxy username/password'' ''proxy.username'')
                else case proxy_profile_tls E ctx p host port of
                       Inl f \<Rightarrow> Inl f
                     | Inr (profile_tls, notes) \<Rightarrow>
                         (case proxy_tls E p profile_tls of
                            Inl f \<Rightarrow> Inl f
                          | Inr tls \<Rightarrow>
                              (case (case (pp_kind p, pp_hbone p) of (ProxyHbone, Some h) \<Rightarrow> hbone_connect_headers E h False | _ \<Rightarrow> Inr []) of
                                 Inl f \<Rightarrow> Inl f
                               | Inr hs \<Rightarrow>
                                   Inr (Some \<lparr>px_kind = pp_kind p, px_host = host, px_port = port, px_credentials = credentials, px_tls = tls,
                                              px_label = pp_name p @ '' ('' @ pp_address p @ '')'', px_connect_headers = hs\<rparr>, notes))))))"

definition proxy_for :: "route_externs \<Rightarrow> route_context \<Rightarrow> route_settings \<Rightarrow> target \<Rightarrow> transport_failure + proxy_plan option \<times> string list" where
  "proxy_for E ctx st t =
     (case rs_proxy_profile_id st of
        None \<Rightarrow> Inr (None, [])
      | Some pid \<Rightarrow>
          (case find_proxy_profile ctx pid of
             None \<Rightarrow> Inl (proxy_invalid ''the selected proxy profile no longer exists'' ''settings.proxy'')
           | Some p \<Rightarrow>
               (if no_proxy_matches (pp_no_proxy p) (tg_host t) (tg_port t) then
                  Inr (None, [''proxy '' @ [CHR 0x27] @ pp_name p @ [CHR 0x27] @ '' bypassed for '' @ tg_host t @ '' (NO_PROXY)''])
                else plan_proxy E ctx p)))"

section \<open>Gateway profiles\<close>

definition profile_matches :: "integration_profile \<Rightarrow> target \<Rightarrow> bool" where
  "profile_matches i t \<longleftrightarrow> list_ex (\<lambda>b. matches_at b t) (ip_hosts i)"

definition profile_for :: "route_context \<Rightarrow> target \<Rightarrow> integration_profile option" where
  "profile_for ctx t = find (\<lambda>i. profile_matches i t) (rc_integrations ctx)"

fun trust_in :: "integration_profile list \<Rightarrow> target \<Rightarrow> ferrum_trust \<times> bool" where
  "trust_in [] t = (NotConfigured, False)"
| "trust_in (i # is) t =
     (if list_ex (\<lambda>b. matches_at b t) (ip_hosts i)
      then (Trusted (ip_name i) (ip_compatibility_id i) False, ip_require_verified_tls i)
      else trust_in is t)"

definition trust_for :: "route_context \<Rightarrow> target \<Rightarrow> ferrum_trust \<times> bool" where
  "trust_for ctx t = trust_in (rc_integrations ctx) t"

definition shadowed_profiles :: "route_context \<Rightarrow> target \<Rightarrow> string option" where
  "shadowed_profiles ctx t =
     (case map (\<lambda>i. [CHR 0x27] @ ip_name i @ [CHR 0x27]) (filter (\<lambda>i. profile_matches i t) (rc_integrations ctx)) of
        [] \<Rightarrow> None
      | used # ignored \<Rightarrow>
          (if ignored = [] then None
           else Some (''several Ferrum gateway profiles match '' @ tg_authority t @ '': '' @ used @ '' is used and '' @ join_with '', '' ignored
             @ '' ignored; remove the profile you do not want'')))"

definition detail_access_for :: "route_context \<Rightarrow> target \<Rightarrow> (string \<times> sensitive_value \<times> string option) option" where
  "detail_access_for ctx t = Option.bind (profile_for ctx t) ip_detail"


section \<open>Where a client identity goes\<close>

lemma binding_matches_bind: "binding_matches bs (bind_target (tg_host t) (tg_port t)) = binding_matches bs t"
proof -
  have "tg_host (bind_target (tg_host t) (tg_port t)) = tg_host t" "tg_port (bind_target (tg_host t) (tg_port t)) = tg_port t"
    by (simp_all add: bind_target_def)
  then show ?thesis by (simp add: binding_matches_def matches_at_def cong: option.case_cong)
qed

lemma profile_identity_bound:
  assumes "profile_identity E p host port = Inr (Some m, notes)"
  shows "tp_client_identity p \<noteq> None \<and> binding_matches (tp_bindings p) (bind_target host port)"
  using assms by (auto simp: profile_identity_def split: option.splits client_identity.splits if_splits)

lemma prepared_identity_bound:
  assumes "prepared_from_profile E p host port = Inr (q, notes)" "ts_client_identity (pr_settings q) \<noteq> None"
  shows "tp_client_identity p \<noteq> None \<and> binding_matches (tp_bindings p) (bind_target host port)"
proof -
  obtain identity where i: "profile_identity E p host port = Inr (identity, notes)" "ts_client_identity (pr_settings q) = identity"
    using assms(1) by (auto simp: prepared_from_profile_def prepare_tls_def Let_def map_sum_def split: sum.splits prod.splits option.splits)
  then show ?thesis using assms(2) profile_identity_bound by auto
qed

lemma tls_for_identity:
  assumes "tls_for E ctx st t = Inr ((q, name, bs), notes)" "ts_client_identity (pr_settings q) \<noteq> None"
  obtains pid p where "rs_tls_profile_id st = Some pid" "find_tls_profile ctx pid = Some p" "name = Some (tp_name p)" "bs = tp_bindings p"
    "tp_client_identity p \<noteq> None" "binding_matches (tp_bindings p) t"
proof (cases "rs_tls_profile_id st")
  case None
  then have "ts_client_identity (pr_settings q) = None"
    using assms(1) by (auto simp: tls_for_def prepare_tls_def strict_system_def map_sum_def split: sum.splits option.splits)
  then show thesis using assms(2) by simp
next
  case (Some pid)
  then obtain p where p: "find_tls_profile ctx pid = Some p" "prepared_from_profile E p (tg_host t) (tg_port t) = Inr (q, notes)"
      "name = Some (tp_name p)" "bs = tp_bindings p"
    using assms(1) by (auto simp: tls_for_def map_sum_def split: sum.splits option.splits)
  from prepared_identity_bound [OF p(2) assms(2)] show thesis
    using that [OF Some p(1,3,4)] by (simp add: binding_matches_bind)
qed

lemma find_bound_profiles:
  "find_tls_profile (bound_profiles t ctx) pid =
     map_option (\<lambda>p. if \<not> binding_matches (tp_bindings p) t \<or> tp_bindings p = [] then p\<lparr>tp_client_identity := None\<rparr> else p) (find_tls_profile ctx pid)"
proof -
  have "find (\<lambda>p. tp_id p = pid) (map (\<lambda>p. if P p then p\<lparr>tp_client_identity := None\<rparr> else p) ps)
      = map_option (\<lambda>p. if P p then p\<lparr>tp_client_identity := None\<rparr> else p) (find (\<lambda>p. tp_id p = pid) ps)" for P and ps :: "tls_profile list"
    by (induction ps) auto
  then show ?thesis by (simp add: find_tls_profile_def bound_profiles_def)
qed

text \<open>
  C8.  A redirect to another origin presents a client certificate only where its profile is bound: when the TLS
  settings of the new hop hold an identity, the selected profile has bindings and one of them matches the new
  host and port.  A profile without bindings, which may be used anywhere it is selected, presents none there.
\<close>

theorem redirect_identity_bound:
  assumes "hop_tls E ctx st bindings True t = Inr ((Some q, name), notes)" "ts_client_identity (pr_settings q) \<noteq> None"
    and prepared: "bindings = [] \<or> (\<exists>pid p. rs_tls_profile_id st = Some pid \<and> find_tls_profile ctx pid = Some p \<and> bindings = tp_bindings p)"
  shows "\<exists>pid p. rs_tls_profile_id st = Some pid \<and> find_tls_profile ctx pid = Some p \<and> list_ex (\<lambda>b. matches_at b t) (tp_bindings p)"
proof -
  define bound where "bound \<longleftrightarrow> binding_matches bindings t \<and> bindings \<noteq> []"
  obtain bs where tls: "tls_for E (if bound then ctx else bound_profiles t ctx) st t = Inr ((q, name, bs), notes)"
    using assms(1) by (auto simp: hop_tls_def bound_def Let_def map_sum_def split: if_splits sum.splits prod.splits)
  obtain pid p where p: "rs_tls_profile_id st = Some pid" "find_tls_profile (if bound then ctx else bound_profiles t ctx) pid = Some p"
      "tp_client_identity p \<noteq> None" "binding_matches (tp_bindings p) t"
    using tls assms(2) by (rule tls_for_identity)
  show ?thesis
  proof (cases bound)
    case True
    then have "tp_bindings p = bindings" using prepared p(1,2) by (auto simp: bound_def)
    then show ?thesis using p True by (auto simp: bound_def binding_matches_def)
  next
    case False
    then obtain p' where p': "find_tls_profile ctx pid = Some p'"
        "p = (if \<not> binding_matches (tp_bindings p') t \<or> tp_bindings p' = [] then p'\<lparr>tp_client_identity := None\<rparr> else p')"
      using p(2) by (auto simp: find_bound_profiles)
    then have "tp_bindings p' \<noteq> []" "binding_matches (tp_bindings p') t" using p(3) by (auto split: if_splits)
    then show ?thesis using p(1) p'(1) by (auto simp: binding_matches_def)
  qed
qed

section \<open>Tunnels and attribution\<close>

lemma connect_headers_all:
  "connect_headers_of E d hs = Inr out \<Longrightarrow> list_all2 (\<lambda>(name, v, field) h. connect_header E d name v field = Inr h) hs out"
proof (induction hs arbitrary: out)
  case (Cons h hs)
  then show ?case by (cases h) (auto simp: map_sum_def split: sum.splits)
qed simp

text \<open>A datagram tunnel carries one marker header, with the value \<open>udp\<close>, whatever the profile's extra headers are.\<close>

lemma connect_header_shape:
  assumes "connect_header E d name v field = Inr (n, w)"
  shows "re_header_name E (trim name) = Some n \<and> w = v \<and> n \<notin> set CONNECTION_SPECIFIC
    \<and> (d \<and> field \<noteq> ''proxy.hbone.marker'' \<longrightarrow> n \<notin> set HBONE_MARKERS)"
  using assms by (auto simp: connect_header_def split: option.splits if_splits)

lemma trust_profile: "trust_for ctx t = (case profile_for ctx t of
     None \<Rightarrow> (NotConfigured, False) | Some i \<Rightarrow> (Trusted (ip_name i) (ip_compatibility_id i) False, ip_require_verified_tls i))"
proof -
  have "trust_in is t = (case find (\<lambda>i. profile_matches i t) is of
     None \<Rightarrow> (NotConfigured, False) | Some i \<Rightarrow> (Trusted (ip_name i) (ip_compatibility_id i) False, ip_require_verified_tls i))" for "is"
    by (induction "is") (auto simp: profile_matches_def)
  then show ?thesis by (simp add: trust_for_def profile_for_def)
qed

text \<open>
  A UDP tunnel names the datagram relay once: its \<open>CONNECT\<close> starts with one marker header, with the value \<open>udp\<close>, and no
  baggage or extra header of the profile is a marker or a connection-specific header.
\<close>

lemma datagram_connect_marker:
  assumes "hbone_connect_headers E h True = Inr hs" "\<forall>m \<in> set HBONE_MARKERS. re_header_name E m = Some m"
  shows "\<exists>m rest. hs = (m, ''udp'') # rest \<and> m \<in> set HBONE_MARKERS \<and> (\<forall>(n, v) \<in> set rest. n \<notin> set HBONE_MARKERS \<and> n \<notin> set CONNECTION_SPECIFIC)"
proof -
  define ex where "ex = baggage_header (ho_baggage h) @ extra_connect_headers (ho_extra_headers h)"
  define m where "m = (if ho_marker h = IstioProtocol then ''x-istio-protocol'' else ''x-ferrum-mesh-protocol'')"
  have m: "m \<in> set HBONE_MARKERS" "trim m = m" by (auto simp: m_def HBONE_MARKERS_def intro!: trim_black simp: ascii_black_def byte_def)
  have "marker_header (ho_marker h) True = [(m, ''udp'', ''proxy.hbone.marker'')]" by (simp add: marker_header_def m_def)
  then have "connect_headers_of E True ((m, ''udp'', ''proxy.hbone.marker'') # ex) = Inr hs"
    using assms(1) by (simp add: hbone_connect_headers_def ex_def)
  from connect_headers_all [OF this] obtain n w rest where r: "hs = (n, w) # rest"
      "connect_header E True m ''udp'' ''proxy.hbone.marker'' = Inr (n, w)" "list_all2 (\<lambda>(name, v, field) h. connect_header E True name v field = Inr h) ex rest"
    by (auto simp: list_all2_Cons1)
  have "n = m" "w = ''udp''" using connect_header_shape [OF r(2)] assms(2) m by auto
  moreover have "n \<notin> set HBONE_MARKERS \<and> n \<notin> set CONNECTION_SPECIFIC" if mem: "(n, v) \<in> set rest" for n v
  proof -
    obtain i where i: "i < length rest" "rest ! i = (n, v)" using mem unfolding in_set_conv_nth by blast
    obtain name w field where e: "ex ! i = (name, w, field)" by (metis prod_cases3)
    have len: "length ex = length rest" using r(3) by (rule list_all2_lengthD)
    have "connect_header E True name w field = Inr (n, v)" using list_all2_nthD2 [OF r(3) i(1)] e i(2) by simp
    moreover have "field \<noteq> ''proxy.hbone.marker''"
    proof -
      have "(name, w, field) \<in> set ex" using e i(1) len by (metis nth_mem)
      then show ?thesis by (auto simp: ex_def baggage_header_def extra_connect_headers_def split: option.splits if_splits)
    qed
    ultimately show ?thesis using connect_header_shape by blast
  qed
  ultimately show ?thesis using r(1) m(1) by auto
qed


section \<open>Examples\<close>

definition demo_routes :: route_externs where
  "demo_routes = \<lparr>re_secret = (\<lambda>_ _. Inl []), re_prepare = (\<lambda>_. None), re_pkcs12 = (\<lambda>b pw. Inr (b, pw)), re_sha256_hex = id,
     re_header_name = Some, re_header_value = (\<lambda>_. True)\<rparr>"

definition demo_profile :: tls_profile where
  "demo_profile = \<lparr>tp_id = ''1'', tp_name = ''mtls'', tp_verify = True, tp_use_system_roots = True, tp_extra_roots_pem = [],
     tp_client_identity = Some (PemIdentity ''chain'' (Template ''key'')), tp_bindings = [\<lparr>hb_host = ''*.h.test'', hb_port = None\<rparr>], tp_min_version = Tls12,
     tp_server_name_override = None, tp_server_spiffe = None, tp_updated_at = 0\<rparr>"

definition demo_routing :: route_context where
  "demo_routing = \<lparr>rc_tls_profiles = [demo_profile], rc_proxy_profiles = [], rc_integrations = []\<rparr>"

definition demo_selected :: route_settings where
  "demo_selected = \<lparr>rs_tls_profile_id = Some ''1'', rs_proxy_profile_id = None\<rparr>"

definition demo_redirect :: target where
  "demo_redirect = \<lparr>tg_scheme = ''https'', tg_host = ''a.H.test'', tg_port = 443, tg_authority = ''a.H.test'', tg_path = ''/'', tg_query = []\<rparr>"

lemma demo_profile_found: "rs_tls_profile_id demo_selected = Some ''1''" "find_tls_profile demo_routing ''1'' = Some demo_profile"
  by (simp_all add: demo_selected_def find_tls_profile_def demo_routing_def demo_profile_def)

theorem redirect_identity_bound_witness: "list_ex (\<lambda>b. matches_at b demo_redirect) (tp_bindings demo_profile)"
proof -
  have "(case hop_tls demo_routes demo_routing demo_selected [] True demo_redirect of
           Inr ((Some q, _), _) \<Rightarrow> ts_client_identity (pr_settings q) = Some (''chain'', ''key'') | _ \<Rightarrow> False)" by code_simp
  then obtain q name ns where "hop_tls demo_routes demo_routing demo_selected [] True demo_redirect = Inr ((Some q, name), ns)"
      "ts_client_identity (pr_settings q) \<noteq> None"
    by (auto split: sum.splits prod.splits option.splits)
  from redirect_identity_bound [OF this] show ?thesis using demo_profile_found by auto
qed

end
