(* ===== verification/Http_Exec.thy ===== *)
theory Http_Exec
  imports Routes Auth_Compose Cookie_Jar
begin

text \<open>
  One logical HTTP request (\<^verbatim>\<open>execute_viewing\<close> of \<^verbatim>\<open>crates/anvil-engine/src/http_exec.rs\<close>, with \<^verbatim>\<open>h3_exec.rs\<close>, the
  early-data policy of \<^verbatim>\<open>crates/anvil-domain/src/settings.rs\<close> and \<^verbatim>\<open>is_idempotent\<close> of \<^verbatim>\<open>crates/anvil-diagnostics/src/facts.rs\<close>): the
  loop of attempts with fresh credentials each, redirects, the DPoP challenge, the retry after 425, the resend
  after a closed connection, the fallback from HTTP/3 and retries.

  The transport, the clock, random bytes, cancellation and the workspace's cookie jars are fields of \<open>exec_externs\<close>,
  read at the index of the attempt; what was prepared before the loop is \<open>exec_prep\<close>, and the loop's variables
  are \<open>exec_state\<close>.  Timeouts, limits, keep-alive and DNS settings go into every plan unchanged and are left out.
  \<open>xs_sent\<close> records the plans the transport was given, with the reason and the last output of each.
\<close>

section \<open>Types\<close>

datatype attempt_reason =
    Initial
  | Redirect nat
  | Retry failure_kind
  | ProtocolFallback string
  | AuthChallenge string
  | TooEarlyRetry
  | ReusedConnectionClosed failure_kind

datatype http_version_policy = VersionAuto | Http1Only | Http2Only | H2c | Http3Only | Http3WithFallback

datatype early_not_used = MethodNotEligible | RetryAfterTooEarly
datatype early_data_intent = EarlyOff | EarlySend | EarlyHold early_not_used

record early_data_policy =
  ed_enabled :: bool
  ed_extra_methods :: "string list"

record response =
  rp_status :: nat
  rp_headers :: "(string \<times> string) list"

record observation =
  ob_failure :: "transport_failure option"
  ob_dispatch :: dispatch_state
  ob_verified :: bool

record attempt_output =
  ao_observation :: observation
  ao_response :: "response option"

record attempt_plan =
  pl_method :: string
  pl_https :: bool
  pl_host :: string
  pl_port :: nat
  pl_authority :: string
  pl_request_target :: string
  pl_headers :: "(string \<times> string) list"
  pl_body :: string
  pl_version :: http_version_policy
  pl_proxy :: "proxy_plan option"
  pl_tls :: "prepared_tls option"
  pl_isolation :: string
  pl_display_url :: string
  pl_proxy_header :: "header_plan option"
  pl_proxy_header_withheld :: "string option"
  pl_early_data :: early_data_intent

record 'j exec_externs =
  hx_auth :: auth_externs
  hx_redact :: redact_externs
  hx_url :: url_crate
  hx_route :: route_externs
  hx_send :: "attempt_plan \<Rightarrow> nat \<Rightarrow> attempt_reason \<Rightarrow> bool \<Rightarrow> attempt_output list \<times> failure_kind option"
  hx_now :: "nat \<Rightarrow> int"
  hx_random :: "nat \<Rightarrow> string list"
  hx_canceled :: "nat \<Rightarrow> bool"
  hx_backoff_canceled :: "nat \<Rightarrow> bool"
  hx_method_ok :: "string \<Rightarrow> bool"
  hx_jar_header :: "'j \<Rightarrow> target \<Rightarrow> string option \<times> 'j"
  hx_jar_store :: "'j \<Rightarrow> target \<Rightarrow> response \<Rightarrow> redactor \<Rightarrow> bool \<times> 'j"

record exec_prep =
  xp_method :: string
  xp_target :: target
  xp_headers :: "(string \<times> string) list"
  xp_sensitive_headers :: "string list"
  xp_body :: string
  xp_body_uses_secret :: bool
  xp_tls :: "prepared_tls option"
  xp_tls_profile :: "string option"
  xp_bindings :: "host_binding list"
  xp_proxy :: "proxy_plan option"
  xp_proxy_header :: "header_plan option"
  xp_follow :: bool
  xp_max_redirects :: nat
  xp_forward_cross_origin :: bool
  xp_max_retries :: nat
  xp_version :: http_version_policy
  xp_early :: early_data_policy
  xp_cookies :: bool
  xp_routes :: route_settings
  xp_context :: route_context
  xp_redaction_names :: "string list"
  xp_used_secrets :: "string list"
  xp_isolation :: string

record attempt_target =
  at_method :: string
  at_target :: target
  at_headers :: "(string \<times> string) list"
  at_body :: string
  at_with_credentials :: bool
  at_tls :: "prepared_tls option"
  at_tls_profile :: "string option"
  at_proxy :: "proxy_plan option"

record route_hop =
  rh_target :: target
  rh_tls :: "prepared_tls option"
  rh_tls_profile :: "string option"
  rh_proxy :: "proxy_plan option"

definition hop_of :: "attempt_target \<Rightarrow> route_hop" where
  "hop_of a = \<lparr>rh_target = at_target a, rh_tls = at_tls a, rh_tls_profile = at_tls_profile a, rh_proxy = at_proxy a\<rparr>"

record 'j exec_state =
  xs_current :: attempt_target
  xs_auth :: resolved_auth
  xs_redactor :: redactor
  xs_inferred :: "string list"
  xs_attempts :: "observation list"
  xs_last :: "attempt_output option"
  xs_last_hop :: route_hop
  xs_redirects :: nat
  xs_retries :: nat
  xs_dpop_used :: bool
  xs_too_early_retried :: bool
  xs_resent :: "attempt_reason option"
  xs_fallback_repeats :: "attempt_reason option"
  xs_reason :: attempt_reason
  xs_stripped :: bool
  xs_facts :: "(string \<times> string) list"
  xs_jar :: 'j
  xs_sent :: "(attempt_plan \<times> attempt_reason \<times> attempt_output) list"

datatype 'j exec_outcome = ExecLocal transport_failure "'j exec_state" | ExecDone "'j exec_state" | ExecPanic "'j exec_state"
datatype 'j loop_step = LoopStop "'j exec_outcome" | LoopAgain "'j exec_state"

section \<open>Policies\<close>

definition is_idempotent :: "string \<Rightarrow> bool" where
  "is_idempotent meth \<longleftrightarrow> map ascii_upper meth \<in> set [''GET'', ''HEAD'', ''OPTIONS'', ''TRACE'', ''PUT'', ''DELETE'']"

definition DEFAULT_METHODS :: "string list" where "DEFAULT_METHODS = [''GET'', ''HEAD'', ''OPTIONS'']"
definition ALLOWED_EXTRA_METHODS :: "string list" where "ALLOWED_EXTRA_METHODS = [''PUT'', ''DELETE'', ''TRACE'']"

definition early_allows :: "early_data_policy \<Rightarrow> string \<Rightarrow> bool" where
  "early_allows p meth =
     (let m = trim meth
      in ed_enabled p \<and>
         (list_ex (\<lambda>d. eq_ignore_ascii_case d m) DEFAULT_METHODS
          \<or> list_ex (\<lambda>x. eq_ignore_ascii_case (trim x) m \<and> list_ex (\<lambda>a. eq_ignore_ascii_case a m) ALLOWED_EXTRA_METHODS) (ed_extra_methods p)))"

definition invalid_extra_method :: "early_data_policy \<Rightarrow> string option" where
  "invalid_extra_method p =
     find (\<lambda>m. \<not> list_ex (\<lambda>d. eq_ignore_ascii_case d m) DEFAULT_METHODS \<and> \<not> list_ex (\<lambda>a. eq_ignore_ascii_case a m) ALLOWED_EXTRA_METHODS)
       (map trim (ed_extra_methods p))"

definition early_data_policy_check :: "early_data_policy \<Rightarrow> transport_failure option" where
  "early_data_policy_check p =
     (case invalid_extra_method p of
        None \<Rightarrow> None
      | Some m \<Rightarrow>
          (if ed_enabled p then
             Some (with_field (new_failure Prepare UnsupportedCombination
               (m @ '' cannot be sent as 0-RTT early data: early data can be replayed, and only idempotent methods (RFC 9110 '' @ [CHR 0xC2, CHR 0xA7]
                @ ''9.2.2: PUT, DELETE, TRACE besides GET, HEAD and OPTIONS) may be listed; nothing was sent'')) ''settings.early_data.extra_methods'')
           else None))"

definition early_intent :: "early_data_policy \<Rightarrow> string \<Rightarrow> bool \<Rightarrow> attempt_reason \<Rightarrow> early_data_intent" where
  "early_intent p meth https reason =
     (if \<not> ed_enabled p \<or> \<not> https then EarlyOff
      else if reason = TooEarlyRetry then EarlyHold RetryAfterTooEarly
      else if \<not> early_allows p meth then EarlyHold MethodNotEligible
      else EarlySend)"

datatype h3_fallback = FallbackNone | FallbackTcp | FallbackNotResent

definition tcp_fallback :: "http_version_policy \<Rightarrow> bool \<Rightarrow> dispatch_state \<Rightarrow> string \<Rightarrow> bool \<Rightarrow> h3_fallback" where
  "tcp_fallback policy failed_without_response dispatch meth canceled =
     (if policy \<noteq> Http3WithFallback \<or> \<not> failed_without_response \<or> canceled then FallbackNone
      else if dispatch = NotDispatched \<or> is_idempotent meth then FallbackTcp
      else FallbackNotResent)"

definition same_listener :: "target \<Rightarrow> target \<Rightarrow> bool" where
  "same_listener a b \<longleftrightarrow> eq_ignore_ascii_case (tg_host a) (tg_host b) \<and> tg_port a = tg_port b"

definition is_redirect :: "nat \<Rightarrow> bool" where
  "is_redirect status \<longleftrightarrow> status \<in> {301, 302, 303, 307, 308}"

definition header_values :: "response \<Rightarrow> string \<Rightarrow> string list" where
  "header_values r name = map snd (filter (\<lambda>(n, _). eq_ignore_ascii_case n name) (rp_headers r))"

definition carries_credential :: "string \<Rightarrow> string \<Rightarrow> string list \<Rightarrow> string list \<Rightarrow> string list \<Rightarrow> bool" where
  "carries_credential name v marked extra_names secs \<longleftrightarrow>
     is_credential_name name extra_names
     \<or> list_ex (\<lambda>m. eq_ignore_ascii_case m name) marked
     \<or> list_ex (\<lambda>s. s \<noteq> [] \<and> (v = s \<or> 4 \<le> length s \<and> str_find s v \<noteq> None)) secs"

definition body_carries_secret :: "string \<Rightarrow> string list \<Rightarrow> bool" where
  "body_carries_secret body secs \<longleftrightarrow> list_ex (\<lambda>s. str_find s body \<noteq> None) (filter (\<lambda>s. 4 \<le> length s) secs)"

section \<open>Credentials of one attempt\<close>

definition invalid_header :: "string \<Rightarrow> string \<Rightarrow> transport_failure" where
  "invalid_header msg field = with_field (new_failure Prepare InvalidHeader msg) field"

definition auth_header_issue :: "'j exec_externs \<Rightarrow> string \<Rightarrow> string \<times> string \<Rightarrow> string option" where
  "auth_header_issue X label h =
     (case h of (n, v) \<Rightarrow>
        (if re_header_name (hx_route X) n = None then
           Some (''the auth profile '' @ label @ '' would send a header named '' @ ax_debug (hx_auth X) n @ '', which is not a valid header name'')
         else if \<not> re_header_value (hx_route X) v then
           Some (''the auth profile '' @ label @ '' produced a value for the '' @ n @ '' header that is not a valid header value (it holds a line break or control character, for example pasted with the credential)'')
         else if eq_ignore_ascii_case n ''host'' then
           map_option (\<lambda>why. ''the auth profile '' @ label @ '' would send a Host header that is not a host with an optional port: '' @ why) (host_problem v)
         else None))"

definition auth_header_problem :: "'j exec_externs \<Rightarrow> applied \<Rightarrow> string option" where
  "auth_header_problem X a =
     (case List.map_filter (auth_header_issue X (ap_label a)) (ap_set_headers a) of why # _ \<Rightarrow> Some why | [] \<Rightarrow> None)"

definition signable :: "attempt_target \<Rightarrow> signable_request" where
  "signable c =
     \<lparr>sr_method = at_method c, sr_scheme = tg_scheme (at_target c), sr_authority = request_authority (at_headers c) (at_target c),
      sr_raw_path = tg_path (at_target c), sr_raw_query = tg_query (at_target c), sr_headers = at_headers c, sr_body = at_body c\<rparr>"

text \<open>The engine's own application of the changes.\<close>

definition engine_set_header :: "string \<times> string \<Rightarrow> (string \<times> string) list \<Rightarrow> (string \<times> string) list" where
  "engine_set_header h headers = filter (\<lambda>(n, _). \<not> eq_ignore_ascii_case n (fst h)) headers @ [h]"

definition engine_add_query :: "auth_externs \<Rightarrow> string \<times> string \<Rightarrow> string \<Rightarrow> string" where
  "engine_add_query A kv query =
     (let pair = ax_percent_encode A QUERY_COMPONENT (fst kv) @ ''='' @ ax_percent_encode A QUERY_COMPONENT (snd kv)
      in if query = [] then pair else query @ ''&'' @ pair)"

record wire =
  wi_headers :: "(string \<times> string) list"
  wi_query :: string
  wi_body :: string

definition engine_apply :: "auth_externs \<Rightarrow> applied \<Rightarrow> attempt_target \<Rightarrow> wire" where
  "engine_apply A a c =
     \<lparr>wi_headers = fold engine_set_header (ap_set_headers a) (at_headers c), wi_query = fold (engine_add_query A) (ap_append_query a) (tg_query (at_target c)),
      wi_body = (case ap_body a of Some b \<Rightarrow> b | None \<Rightarrow> at_body c)\<rparr>"

definition apply_credentials :: "'j exec_externs \<Rightarrow> 'j exec_state \<Rightarrow> transport_failure + applied" where
  "apply_credentials X s =
     (case apply_auth (hx_auth X) (xs_auth s) (signable (xs_current s)) (hx_now X (length (xs_attempts s))) (hx_random X (length (xs_attempts s))) of
        Inl e \<Rightarrow> Inl (with_field (new_failure Prepare AuthPreparationFailed
           (case e of Acquisition m \<Rightarrow> ''credential acquisition failed: '' @ m | AuthInvalid m \<Rightarrow> m | AuthUnsupported m \<Rightarrow> m | InteractionRequired m \<Rightarrow> m | AuthCanceled m \<Rightarrow> m)) ''auth'')
      | Inr a \<Rightarrow> (case auth_header_problem X a of Some why \<Rightarrow> Inl (invalid_header (why @ ''; the request was not sent'') ''auth'') | None \<Rightarrow> Inr a))"

definition credential_step :: "'j exec_externs \<Rightarrow> 'j exec_state \<Rightarrow> transport_failure + wire \<times> 'j exec_state" where
  "credential_step X s =
     (let c = xs_current s
      in if at_with_credentials c then
           (case apply_credentials X s of
              Inl f \<Rightarrow> Inl f
            | Inr a \<Rightarrow> Inr (engine_apply (hx_auth X) a c,
                s\<lparr>xs_redactor := fold (add_secret (hx_redact X)) (ap_secrets a) (xs_redactor s), xs_facts := ap_facts a\<rparr>))
         else Inr (\<lparr>wi_headers = at_headers c, wi_query = tg_query (at_target c), wi_body = at_body c\<rparr>, s))"

section \<open>Cookies of one attempt\<close>

definition cookie_name :: "string \<Rightarrow> string" where
  "cookie_name pair = trim (case split_once CHR ''='' pair of Some (n, _) \<Rightarrow> n | None \<Rightarrow> pair)"

fun cookie_budget :: "(string \<times> string) list \<Rightarrow> nat \<Rightarrow> (string \<times> string) list \<times> string list \<times> nat" where
  "cookie_budget [] used_bytes = ([], [], used_bytes)"
| "cookie_budget ((n, v) # hs) used_bytes =
     (if \<not> eq_ignore_ascii_case n ''cookie'' then (case cookie_budget hs used_bytes of (hs', ns, b) \<Rightarrow> ((n, v) # hs', ns, b))
      else (let added = length v + (if used_bytes = 0 then 0 else 2)
            in if MAX_COOKIE_HEADER_BYTES < used_bytes + added then
                 (case cookie_budget hs used_bytes of (hs', ns, b) \<Rightarrow> (hs', ''a Cookie header exceeds the 8 KiB request cookie budget'' # ns, b))
               else (case cookie_budget hs (used_bytes + added) of (hs', ns, b) \<Rightarrow> ((n, v) # hs', ns, b))))"

definition sent_cookie_names :: "(string \<times> string) list \<Rightarrow> string list" where
  "sent_cookie_names headers =
     filter (\<lambda>n. n \<noteq> []) (map cookie_name (concat (map (\<lambda>(_, v). split_char CHR '';'' v) (filter (\<lambda>(n, _). eq_ignore_ascii_case n ''cookie'') headers))))"

text \<open>The stored pairs that go out: the text so far and the bytes used, with the notes of those that do not.\<close>

fun stored_pairs :: "(string \<Rightarrow> bool) \<Rightarrow> string list \<Rightarrow> string list \<Rightarrow> string \<Rightarrow> nat \<Rightarrow> string \<times> string list" where
  "stored_pairs ok sent [] added used_bytes = (added, [])"
| "stored_pairs ok sent (pair # more_pairs) added used_bytes =
     (if cookie_name pair \<in> set sent then stored_pairs ok sent more_pairs added used_bytes
      else if \<not> ok pair then
        (case stored_pairs ok sent more_pairs added used_bytes of (a, ns) \<Rightarrow>
           (a, (''stored cookie '' @ [CHR 0x27] @ cookie_name pair @ [CHR 0x27] @ '' not sent: its value is not a valid header value'') # ns))
      else (let size = length pair + (if used_bytes = 0 then 0 else 2)
            in if MAX_COOKIE_HEADER_BYTES < used_bytes + size then
                 (case stored_pairs ok sent more_pairs added used_bytes of (a, ns) \<Rightarrow> (a, ''a stored cookie exceeds the 8 KiB request cookie budget'' # ns))
               else stored_pairs ok sent more_pairs ((if added = [] then pair else added @ ''; '' @ pair)) (used_bytes + size)))"

fun append_cookie :: "string \<Rightarrow> (string \<times> string) list \<Rightarrow> (string \<times> string) list" where
  "append_cookie added [] = [(''Cookie'', added)]"
| "append_cookie added ((n, v) # hs) =
     (if eq_ignore_ascii_case n ''cookie'' then (n, if trim v = [] then added else v @ ''; '' @ added) # hs
      else (n, v) # append_cookie added hs)"

definition add_jar_cookies :: "'j exec_externs \<Rightarrow> 'j \<Rightarrow> target \<Rightarrow> (string \<times> string) list \<Rightarrow> (string \<times> string) list \<times> string list \<times> 'j" where
  "add_jar_cookies X j t headers0 =
     (case cookie_budget headers0 0 of (headers, notes1, used_bytes) \<Rightarrow>
        (case hx_jar_header X j t of
           (None, j') \<Rightarrow> (headers, notes1, j')
         | (Some stored, j') \<Rightarrow>
             (case stored_pairs (re_header_value (hx_route X)) (sent_cookie_names headers)
                     (filter (\<lambda>p. p \<noteq> []) (map trim (split_char CHR '';'' stored))) [] used_bytes of (added, notes2) \<Rightarrow>
                (if added = [] then headers else append_cookie added headers, notes1 @ notes2, j'))))"

definition add_notes :: "string list \<Rightarrow> string list \<Rightarrow> string list" where
  "add_notes ns known = fold (\<lambda>n all. if n \<in> set all then all else all @ [n]) ns known"

section \<open>The plan of one attempt\<close>

fun wire_headers :: "'j exec_externs \<Rightarrow> (string \<times> string) list \<Rightarrow> transport_failure + (string \<times> string) list" where
  "wire_headers X [] = Inr []"
| "wire_headers X ((n, v) # hs) =
     (case re_header_name (hx_route X) n of
        None \<Rightarrow> Inl (invalid_header (ax_debug (hx_auth X) n @ '' is not a valid header name; the request was not sent'') ''headers'')
      | Some name \<Rightarrow>
          (if \<not> re_header_value (hx_route X) v then
             Inl (invalid_header (''the '' @ n @ '' header value is not a valid header value; the request was not sent'') ''headers'')
           else map_sum id (Cons (name, v)) (wire_headers X hs)))"

definition early_reason :: "'j exec_state \<Rightarrow> attempt_reason" where
  "early_reason s =
     (case (xs_reason s, xs_resent s, xs_fallback_repeats s) of
        (ReusedConnectionClosed _, Some r, _) \<Rightarrow> r
      | (ProtocolFallback _, _, Some r) \<Rightarrow> r
      | _ \<Rightarrow> xs_reason s)"

definition is_fallback :: "attempt_reason \<Rightarrow> bool" where
  "is_fallback r \<longleftrightarrow> (case r of ProtocolFallback _ \<Rightarrow> True | _ \<Rightarrow> False)"

definition attempt_version :: "exec_prep \<Rightarrow> 'j exec_state \<Rightarrow> http_version_policy" where
  "attempt_version P s = (if is_fallback (xs_reason s) then VersionAuto else xp_version P)"

definition withheld_why :: "exec_prep \<Rightarrow> target \<Rightarrow> string" where
  "withheld_why P t =
     ''not sent: the PROXY header is configured for '' @ tg_authority (xp_target P) @ '' only, and this attempt goes to '' @ tg_authority t"

text \<open>The PROXY header of an attempt, why it is withheld, and the notes.\<close>

definition plan_proxy_header :: "exec_prep \<Rightarrow> target \<Rightarrow> string list \<Rightarrow> header_plan option \<times> string option \<times> string list" where
  "plan_proxy_header P t known =
     (case xp_proxy_header P of
        None \<Rightarrow> (None, None, known)
      | Some h \<Rightarrow>
          (if same_listener t (xp_target P) then (Some h, None, known)
           else (None, Some (withheld_why P t),
                 if list_ex (is_prefix_of ''PROXY header withheld'') known then known
                 else known @ [''PROXY header withheld on the redirect to '' @ tg_authority t @ '': '' @ withheld_why P t])))"

definition make_plan :: "'j exec_externs \<Rightarrow> exec_prep \<Rightarrow> 'j exec_state \<Rightarrow> wire \<Rightarrow> (string \<times> string) list \<Rightarrow> header_plan option \<Rightarrow> string option \<Rightarrow> attempt_plan" where
  "make_plan X P s w headers ph held =
     (let c = xs_current s; t = (at_target c)\<lparr>tg_query := wi_query w\<rparr>
      in \<lparr>pl_method = (if hx_method_ok X (at_method c) then at_method c else ''GET''), pl_https = (tg_scheme (at_target c) = ''https''),
          pl_host = tg_host (at_target c), pl_port = tg_port (at_target c), pl_authority = tg_authority (at_target c),
          pl_request_target = request_target t, pl_headers = headers, pl_body = wi_body w, pl_version = attempt_version P s,
          pl_proxy = at_proxy c, pl_tls = at_tls c, pl_isolation = xp_isolation P,
          pl_display_url = redact_url (hx_redact X) (xs_redactor s) (target_url t), pl_proxy_header = ph, pl_proxy_header_withheld = held,
          pl_early_data = early_intent (xp_early P) (at_method c) (tg_scheme (at_target c) = ''https'') (early_reason s)\<rparr>)"

definition attempt_cookies :: "'j exec_externs \<Rightarrow> exec_prep \<Rightarrow> 'j exec_state \<Rightarrow> (string \<times> string) list \<Rightarrow> (string \<times> string) list \<times> 'j exec_state" where
  "attempt_cookies X P s headers =
     (case (if xp_cookies P then add_jar_cookies X (xs_jar s) (at_target (xs_current s)) headers
            else (case cookie_budget headers 0 of (hs, ns, _) \<Rightarrow> (hs, ns, xs_jar s))) of
        (hs, ns, j) \<Rightarrow> (hs, s\<lparr>xs_inferred := add_notes ns (xs_inferred s), xs_jar := j\<rparr>))"

text \<open>Everything before the request goes out: the plan, or the failure, with the loop's variables.\<close>

definition plan_attempt :: "'j exec_externs \<Rightarrow> exec_prep \<Rightarrow> 'j exec_state \<Rightarrow> (transport_failure + attempt_plan) \<times> 'j exec_state" where
  "plan_attempt X P s =
     (case credential_step X s of
        Inl f \<Rightarrow> (Inl f, s)
      | Inr (w, s1) \<Rightarrow>
          (case attempt_cookies X P s1 (wi_headers w) of (headers, s2) \<Rightarrow>
             (case wire_headers X headers of
                Inl f \<Rightarrow> (Inl f, s2)
              | Inr more_pairs \<Rightarrow>
                  (case plan_proxy_header P (at_target (xs_current s2)) (xs_inferred s2) of (ph, held, known) \<Rightarrow>
                     (Inr (make_plan X P s2 w more_pairs ph held), s2\<lparr>xs_inferred := known\<rparr>)))))"

section \<open>After an attempt\<close>

definition append_message :: "string \<Rightarrow> observation list \<Rightarrow> observation list" where
  "append_message m obs =
     (if obs = [] then obs
      else butlast obs @ [(last obs)\<lparr>ob_failure := map_option (\<lambda>f. f\<lparr>tf_message := tf_message f @ m\<rparr>) (ob_failure (last obs))\<rparr>])"

text \<open>What the attempt before a resend or a fallback says of it.\<close>

definition note_repeat :: "'j exec_state \<Rightarrow> observation list" where
  "note_repeat s =
     (let obs = xs_attempts s; index = show_nat (length obs)
      in case xs_reason s of
           ReusedConnectionClosed _ \<Rightarrow> append_message ('' (sent once more on a new connection as attempt '' @ index @ '', with its auth applied again)'') obs
         | ProtocolFallback _ \<Rightarrow>
             (if obs \<noteq> [] \<and> ob_dispatch (last obs) \<noteq> NotDispatched then
                append_message ('' (the '' @ at_method (xs_current s) @ '' request may have been received; being idempotent, it was sent over TCP as attempt '' @ index @ '', signed again)'') obs
              else obs)
         | _ \<Rightarrow> obs)"

definition SECRET_COOKIE_NAME_NOTE :: string where
  "SECRET_COOKIE_NAME_NOTE = ''a response cookie was not stored because its name contains a request secret''"

definition store_followed_cookies :: "'j exec_externs \<Rightarrow> exec_prep \<Rightarrow> response option \<Rightarrow> 'j exec_state \<Rightarrow> 'j exec_state" where
  "store_followed_cookies X P resp s =
     (case resp of
        None \<Rightarrow> s
      | Some r \<Rightarrow>
          (if xp_cookies P then
             (case hx_jar_store X (xs_jar s) (at_target (xs_current s)) r (xs_redactor s) of (skipped, j) \<Rightarrow>
                s\<lparr>xs_jar := j, xs_inferred := (if skipped then add_notes [SECRET_COOKIE_NAME_NOTE] (xs_inferred s) else xs_inferred s)\<rparr>)
           else s))"

definition redirect_refused :: "target \<Rightarrow> string \<Rightarrow> 'j exec_state \<Rightarrow> 'j exec_state" where
  "redirect_refused t why s = s\<lparr>xs_inferred := xs_inferred s @ [''redirect to '' @ tg_authority t @ '' not followed: '' @ why]\<rparr>"

definition redirect_method :: "nat \<Rightarrow> attempt_target \<Rightarrow> string \<times> string" where
  "redirect_method status c =
     (if status = 303 \<and> at_method c \<noteq> ''HEAD'' then (''GET'', [])
      else if status \<in> {301, 302} \<and> at_method c = ''POST'' then (''GET'', [])
      else (at_method c, at_body c))"

definition without :: "string \<Rightarrow> (string \<times> string) list \<Rightarrow> (string \<times> string) list" where
  "without name headers = filter (\<lambda>(n, _). \<not> eq_ignore_ascii_case n name) headers"

text \<open>The headers of a followed redirect before credentials are taken out.\<close>

definition redirect_headers :: "bool \<Rightarrow> string \<Rightarrow> (string \<times> string) list \<Rightarrow> (string \<times> string) list \<times> bool" where
  "redirect_headers cross_origin body headers0 =
     (let headers = without ''host'' headers0;
          session_withheld = (cross_origin \<and> list_ex (\<lambda>(n, _). eq_ignore_ascii_case n ''mcp-session-id'') headers);
          headers = (if session_withheld then without ''mcp-session-id'' headers else headers)
      in (if body = [] then without ''content-length'' (without ''content-type'' headers) else headers, session_withheld))"

definition credential_header :: "exec_prep \<Rightarrow> string \<times> string \<Rightarrow> bool" where
  "credential_header P h = carries_credential (fst h) (snd h) (xp_sensitive_headers P) (xp_redaction_names P) (xp_used_secrets P)"

definition withheld_names :: "redactor \<Rightarrow> (string \<times> string) list \<Rightarrow> string list" where
  "withheld_names r hs = fold (\<lambda>(n, _) ws. if list_ex (\<lambda>w. eq_ignore_ascii_case w n) ws then ws else ws @ [redact_text r n]) hs []"

text \<open>Taking the credentials out of a hop to another origin; \<open>None\<close> when the body must not be sent there.\<close>

definition strip_credentials :: "exec_prep \<Rightarrow> redactor \<Rightarrow> target \<Rightarrow> string \<Rightarrow> (string \<times> string) list \<Rightarrow> ((string \<times> string) list \<times> string list) option" where
  "strip_credentials P r t body headers =
     (if body \<noteq> [] \<and> (xp_body_uses_secret P \<or> body_carries_secret body (xp_used_secrets P)) then None
      else (let held = withheld_names r (filter (credential_header P) headers)
            in Some (filter (\<lambda>h. \<not> credential_header P h) headers,
                     if held = [] then []
                     else [''credential headers withheld on the redirect to '' @ tg_authority t @ '': '' @ join_with '', '' held])))"

text \<open>The proxy and the TLS settings of the new hop, or why it is not followed.\<close>

definition hop_route :: "'j exec_externs \<Rightarrow> exec_prep \<Rightarrow> bool \<Rightarrow> target \<Rightarrow> string + (proxy_plan option \<times> prepared_tls option \<times> string option) \<times> string list" where
  "hop_route X P cross_origin t =
     (case proxy_for (hx_route X) (xp_context P) (xp_routes P) t of
        Inl f \<Rightarrow> Inl (''its proxy route could not be prepared: '' @ tf_message f)
      | Inr (proxy, ns1) \<Rightarrow>
          (case hop_tls (hx_route X) (xp_context P) (xp_routes P) (xp_bindings P) cross_origin t of
             Inl f \<Rightarrow> Inl (''its TLS settings could not be prepared: '' @ tf_message f)
           | Inr ((tls, name), ns2) \<Rightarrow> Inr ((proxy, tls, name), ns1 @ ns2)))"

definition follow_to :: "'j exec_externs \<Rightarrow> exec_prep \<Rightarrow> nat \<Rightarrow> attempt_output \<Rightarrow> target \<Rightarrow> 'j exec_state \<Rightarrow> 'j loop_step" where
  "follow_to X P status out t s0 =
     (let c = xs_current s0; (meth, body) = redirect_method status c; cross_origin = (target_origin t \<noteq> target_origin (xp_target P));
          (headers, session_withheld) = redirect_headers cross_origin body (at_headers c);
          s = s0\<lparr>xs_redirects := xs_redirects s0 + 1, xs_last := Some out,
                 xs_inferred := (if session_withheld then xs_inferred s0 @ [''MCP session header withheld on the cross-origin redirect to '' @ tg_authority t] else xs_inferred s0)\<rparr>;
          strip = (cross_origin \<and> \<not> xp_forward_cross_origin P)
      in case (if strip then strip_credentials P (xs_redactor s) t body headers else Some (headers, [])) of
           None \<Rightarrow> LoopStop (ExecDone (redirect_refused t (''a '' @ show_nat status @ '' redirect would resend a body holding a secret to another origin'') s))
         | Some (kept_headers, ns) \<Rightarrow>
             (let s1 = s\<lparr>xs_inferred := xs_inferred s @ ns, xs_stripped := xs_stripped s \<or> strip\<rparr>
              in case hop_route X P cross_origin t of
                   Inl why \<Rightarrow> LoopStop (ExecDone (redirect_refused t why s1))
                 | Inr ((proxy, tls, name), hop_notes) \<Rightarrow>
                     (let s2 = store_followed_cookies X P (ao_response out) (s1\<lparr>xs_inferred := add_notes hop_notes (xs_inferred s1)\<rparr>)
                      in LoopAgain (s2\<lparr>xs_current := \<lparr>at_method = meth, at_target = t, at_headers = kept_headers, at_body = body,
                             at_with_credentials = at_with_credentials c \<and> \<not> strip, at_tls = tls, at_tls_profile = name, at_proxy = proxy\<rparr>,
                           xs_reason := Redirect status\<rparr>))))"

definition redirect_step :: "'j exec_externs \<Rightarrow> exec_prep \<Rightarrow> attempt_output \<Rightarrow> 'j exec_state \<Rightarrow> 'j loop_step option" where
  "redirect_step X P out s =
     (case ao_response out of
        None \<Rightarrow> None
      | Some resp \<Rightarrow>
          (if is_redirect (rp_status resp) \<and> xp_follow P then
             (case header_values resp ''location'' of
                [] \<Rightarrow> None
              | loc # _ \<Rightarrow>
                  (if xp_max_redirects P \<le> xs_redirects s then Some (LoopStop (ExecDone (s\<lparr>xs_last := Some out\<rparr>)))
                   else
                     (let new = (case uc_join (hx_url X) (target_url (at_target (xs_current s))) loc of Some u \<Rightarrow> u | None \<Rightarrow> loc)
                      in case fst (parse_target (hx_url X) new [''https'', ''http'']) of
                           Inl _ \<Rightarrow> Some (LoopStop (ExecDone (s\<lparr>xs_last := Some out\<rparr>)))
                         | Inr t \<Rightarrow> Some (follow_to X P (rp_status resp) out t s))))
           else None))"

definition set_dpop_nonce :: "string \<Rightarrow> resolved_auth \<Rightarrow> resolved_auth" where
  "set_dpop_nonce nonce a = (case a of Dpop tok pem sch _ \<Rightarrow> Dpop tok pem sch (Some nonce) | other \<Rightarrow> other)"

definition dpop_step_again :: "'j exec_externs \<Rightarrow> exec_prep \<Rightarrow> attempt_output \<Rightarrow> 'j exec_state \<Rightarrow> 'j loop_step option" where
  "dpop_step_again X P out s =
     (case ao_response out of
        None \<Rightarrow> None
      | Some resp \<Rightarrow>
          (if \<not> xs_dpop_used s \<and> (case xs_auth s of Dpop _ _ _ _ \<Rightarrow> True | _ \<Rightarrow> False) \<and> (rp_status resp = 401 \<or> rp_status resp = 400) then
             (case header_values resp ''dpop-nonce'' of
                [] \<Rightarrow> None
              | nonce # _ \<Rightarrow>
                  Some (LoopAgain ((store_followed_cookies X P (ao_response out) (s\<lparr>xs_dpop_used := True, xs_auth := set_dpop_nonce nonce (xs_auth s)\<rparr>))
                     \<lparr>xs_reason := AuthChallenge ''DPoP'', xs_last := Some out\<rparr>)))
           else None))"

definition too_early_step :: "'j exec_externs \<Rightarrow> exec_prep \<Rightarrow> attempt_output \<Rightarrow> 'j exec_state \<Rightarrow> 'j loop_step option" where
  "too_early_step X P out s =
     (case ao_response out of
        None \<Rightarrow> None
      | Some resp \<Rightarrow>
          (if rp_status resp = 425 \<and> \<not> xs_too_early_retried s \<and> tg_scheme (at_target (xs_current s)) = ''https''
              \<and> ed_enabled (xp_early P) \<and> early_allows (xp_early P) (at_method (xs_current s)) then
             Some (LoopAgain ((store_followed_cookies X P (ao_response out) (s\<lparr>xs_too_early_retried := True\<rparr>))\<lparr>xs_reason := TooEarlyRetry, xs_last := Some out\<rparr>))
           else None))"

definition resend_step :: "failure_kind option \<Rightarrow> attempt_output \<Rightarrow> 'j exec_state \<Rightarrow> 'j loop_step option" where
  "resend_step closed_under out s =
     (case closed_under of
        None \<Rightarrow> None
      | Some after \<Rightarrow>
          (if xs_resent s = None \<and> ao_response out = None then
             Some (LoopAgain (s\<lparr>xs_resent := Some (xs_reason s), xs_reason := ReusedConnectionClosed after, xs_last := Some out\<rparr>))
           else None))"

definition retry_step :: "'j exec_externs \<Rightarrow> exec_prep \<Rightarrow> nat \<Rightarrow> attempt_output \<Rightarrow> 'j exec_state \<Rightarrow> 'j loop_step option" where
  "retry_step X P index out s =
     (case ob_failure (ao_observation out) of
        None \<Rightarrow> None
      | Some f \<Rightarrow>
          (if ao_response out = None \<and> xs_retries s < xp_max_retries P \<and> tf_kind f \<noteq> Canceled \<and> \<not> is_local_preparation (tf_kind f)
              \<and> (ob_dispatch (ao_observation out) = NotDispatched \<or> is_idempotent (at_method (xs_current s))) then
             (let s' = s\<lparr>xs_retries := xs_retries s + 1, xs_last := Some out\<rparr>
              in Some (if hx_backoff_canceled X index then LoopStop (ExecDone s') else LoopAgain (s'\<lparr>xs_reason := Retry (tf_kind f)\<rparr>)))
           else None))"

text \<open>The end of the chain: the fallback from HTTP/3, retries, and the end of the loop.\<close>

definition retry_or_stop :: "'j exec_externs \<Rightarrow> exec_prep \<Rightarrow> nat \<Rightarrow> attempt_output \<Rightarrow> 'j exec_state \<Rightarrow> 'j loop_step" where
  "retry_or_stop X P index out s = (case retry_step X P index out s of Some r \<Rightarrow> r | None \<Rightarrow> LoopStop (ExecDone (s\<lparr>xs_last := Some out\<rparr>)))"

definition not_resent_note :: "string \<Rightarrow> string" where
  "not_resent_note meth = '' (not sent again over TCP: the '' @ meth @ '' request may have been received over HTTP/3 and is not idempotent)''"

definition fallback_step :: "'j exec_externs \<Rightarrow> exec_prep \<Rightarrow> http_version_policy \<Rightarrow> nat \<Rightarrow> attempt_output \<Rightarrow> 'j exec_state \<Rightarrow> 'j loop_step" where
  "fallback_step X P version index out s =
     (let failed = (ao_response out = None \<and> ob_failure (ao_observation out) \<noteq> None)
      in case tcp_fallback version failed (ob_dispatch (ao_observation out)) (at_method (xs_current s)) (hx_canceled X index) of
           FallbackTcp \<Rightarrow> LoopAgain (s\<lparr>xs_fallback_repeats := Some (xs_reason s), xs_reason := ProtocolFallback ''h3'', xs_last := Some out\<rparr>)
         | FallbackNotResent \<Rightarrow>
             retry_or_stop X P index out (s\<lparr>xs_attempts := append_message (not_resent_note (at_method (xs_current s))) (xs_attempts s)\<rparr>)
         | FallbackNone \<Rightarrow> retry_or_stop X P index out s)"

fun first_of :: "'a option list \<Rightarrow> 'a option" where
  "first_of [] = None"
| "first_of (Some x # _) = Some x"
| "first_of (None # xs) = first_of xs"

definition after_attempt :: "'j exec_externs \<Rightarrow> exec_prep \<Rightarrow> http_version_policy \<Rightarrow> nat \<Rightarrow> attempt_output \<Rightarrow> failure_kind option \<Rightarrow> 'j exec_state \<Rightarrow> 'j loop_step" where
  "after_attempt X P version index out closed_under s =
     (case first_of [redirect_step X P out s, dpop_step_again X P out s, too_early_step X P out s, resend_step closed_under out s] of
        Some r \<Rightarrow> r
      | None \<Rightarrow> fallback_step X P version index out s)"

definition is_h3 :: "http_version_policy \<Rightarrow> bool" where
  "is_h3 v \<longleftrightarrow> v = Http3Only \<or> v = Http3WithFallback"

definition send_attempt :: "'j exec_externs \<Rightarrow> exec_prep \<Rightarrow> attempt_plan \<Rightarrow> 'j exec_state \<Rightarrow> 'j loop_step" where
  "send_attempt X P plan s =
     (let index = length (xs_attempts s); obs = note_repeat s;
          (outs, closed) = hx_send X plan index (xs_reason s) (0 < xs_redirects s);
          closed_under = (if is_h3 (attempt_version P s) \<or> \<not> is_fallback (xs_reason s) then closed else None)
      in if outs = [] then LoopStop (ExecPanic s)
         else after_attempt X P (attempt_version P s) index (last outs) closed_under
                (s\<lparr>xs_attempts := obs @ map ao_observation outs, xs_last_hop := hop_of (xs_current s), xs_sent := xs_sent s @ [(plan, xs_reason s, last outs)]\<rparr>))"

definition exec_iter :: "'j exec_externs \<Rightarrow> exec_prep \<Rightarrow> 'j exec_state \<Rightarrow> 'j loop_step" where
  "exec_iter X P s =
     (case plan_attempt X P s of
        (Inl f, s') \<Rightarrow>
          LoopStop (if xs_attempts s' = [] then ExecLocal f s'
            else ExecDone (s'\<lparr>xs_inferred := xs_inferred s' @ [''the follow-up attempt to '' @ tg_authority (at_target (xs_current s')) @ '' was not sent: '' @ tf_message f]\<rparr>))
      | (Inr plan, s') \<Rightarrow> send_attempt X P plan s')"


section \<open>The loop ends\<close>

text \<open>What is left of the loop's allowances, and whether a fallback can still follow.\<close>

definition allowance :: "exec_prep \<Rightarrow> 'j exec_state \<Rightarrow> nat" where
  "allowance P s = (xp_max_redirects P - xs_redirects s) + (xp_max_retries P - xs_retries s)
     + (if xs_dpop_used s then 0 else 1) + (if xs_too_early_retried s then 0 else 1) + (if xs_resent s = None then 1 else 0)"

definition loop_rank :: "exec_prep \<Rightarrow> 'j exec_state \<Rightarrow> nat" where
  "loop_rank P s = 2 * allowance P s + (if is_fallback (xs_reason s) then 0 else 1)"

text \<open>The variables that decide how the loop goes on.\<close>

definition loop_vars where
  "loop_vars s = (xs_current s, xs_auth s, xs_attempts s, xs_redirects s, xs_retries s, xs_dpop_used s, xs_too_early_retried s,
     xs_resent s, xs_fallback_repeats s, xs_reason s, xs_stripped s, xs_sent s)"

lemma loop_varsD:
  assumes "loop_vars s' = loop_vars s"
  shows "xs_current s' = xs_current s" "xs_auth s' = xs_auth s" "xs_attempts s' = xs_attempts s" "xs_redirects s' = xs_redirects s"
    "xs_retries s' = xs_retries s" "xs_dpop_used s' = xs_dpop_used s" "xs_too_early_retried s' = xs_too_early_retried s" "xs_resent s' = xs_resent s"
    "xs_fallback_repeats s' = xs_fallback_repeats s" "xs_reason s' = xs_reason s" "xs_stripped s' = xs_stripped s" "xs_sent s' = xs_sent s"
  using assms by (simp_all add: loop_vars_def)

lemma store_followed_keeps: "loop_vars (store_followed_cookies X P resp s) = loop_vars s"
  by (simp add: store_followed_cookies_def loop_vars_def split: option.splits prod.splits)

lemmas store_followed_vars [simp] = loop_varsD [OF store_followed_keeps]

lemma credential_step_keeps: "credential_step X s = Inr (w, s') \<Longrightarrow> loop_vars s' = loop_vars s"
  by (auto simp: credential_step_def Let_def loop_vars_def split: if_splits sum.splits)

lemma attempt_cookies_keeps: "attempt_cookies X P s hs = (hs', s') \<Longrightarrow> loop_vars s' = loop_vars s"
  by (auto simp: attempt_cookies_def loop_vars_def split: prod.splits)

lemma plan_attempt_keeps:
  assumes "plan_attempt X P s = (r, s')"
  shows "loop_vars s' = loop_vars s"
proof (cases "credential_step X s")
  case (Inl f)
  then show ?thesis using assms by (simp add: plan_attempt_def)
next
  case (Inr ws)
  obtain w s1 where ws: "ws = (w, s1)" by fastforce
  obtain hs s2 where c: "attempt_cookies X P s1 (wi_headers w) = (hs, s2)" by fastforce
  have "loop_vars s' = loop_vars s2"
    using assms Inr ws c by (auto simp: plan_attempt_def loop_vars_def split: sum.splits prod.splits)
  then show ?thesis using attempt_cookies_keeps [OF c] credential_step_keeps Inr ws by metis
qed

text \<open>One lemma per way to go on.\<close>

definition same_allowance :: "'j exec_state \<Rightarrow> 'j exec_state \<Rightarrow> bool" where
  "same_allowance s s' \<longleftrightarrow> xs_redirects s' = xs_redirects s \<and> xs_retries s' = xs_retries s \<and> xs_dpop_used s' = xs_dpop_used s
     \<and> xs_too_early_retried s' = xs_too_early_retried s \<and> xs_resent s' = xs_resent s"

lemma follow_to_again:
  assumes "follow_to X P status out t s = LoopAgain s'"
  shows "xs_redirects s' = xs_redirects s + 1" "xs_retries s' = xs_retries s" "xs_dpop_used s' = xs_dpop_used s"
    "xs_too_early_retried s' = xs_too_early_retried s" "xs_resent s' = xs_resent s" "xs_reason s' = Redirect status" "xs_sent s' = xs_sent s"
    "xs_auth s' = xs_auth s" "xs_attempts s' = xs_attempts s"
  using assms by (auto simp: follow_to_def Let_def split: prod.splits option.splits sum.splits)

lemma redirect_step_again:
  assumes "redirect_step X P out s = Some (LoopAgain s')"
  obtains resp t where "ao_response out = Some resp" "is_redirect (rp_status resp)" "xs_redirects s < xp_max_redirects P"
    "tg_scheme t = ''https'' \<or> tg_scheme t = ''http''" "follow_to X P (rp_status resp) out t s = LoopAgain s'"
proof -
  obtain resp t new where r: "ao_response out = Some resp" "is_redirect (rp_status resp)" "xs_redirects s < xp_max_redirects P"
      "fst (parse_target (hx_url X) new [''https'', ''http'']) = Inr t" "follow_to X P (rp_status resp) out t s = LoopAgain s'"
    using assms by (auto simp: redirect_step_def Let_def split: option.splits list.splits sum.splits if_splits)
  have "tg_scheme t \<in> set [''https'', ''http'']" by (rule parse_target_scheme [OF r(4)])
  then show thesis using that [OF r(1,2,3) _ r(5)] by auto
qed

lemma dpop_step_again:
  assumes "dpop_step_again X P out s = Some (LoopAgain s')"
  shows "\<not> xs_dpop_used s \<and> xs_dpop_used s' \<and> xs_redirects s' = xs_redirects s \<and> xs_retries s' = xs_retries s
    \<and> xs_too_early_retried s' = xs_too_early_retried s \<and> xs_resent s' = xs_resent s \<and> xs_reason s' = AuthChallenge ''DPoP'' \<and> xs_sent s' = xs_sent s
    \<and> xs_current s' = xs_current s \<and> xs_stripped s' = xs_stripped s
    \<and> (\<exists>resp. ao_response out = Some resp \<and> (rp_status resp = 401 \<or> rp_status resp = 400))"
  using assms by (auto simp: dpop_step_again_def split: option.splits list.splits if_splits)

lemma too_early_again:
  assumes "too_early_step X P out s = Some (LoopAgain s')"
  shows "\<not> xs_too_early_retried s \<and> xs_too_early_retried s' \<and> xs_redirects s' = xs_redirects s \<and> xs_retries s' = xs_retries s
    \<and> xs_dpop_used s' = xs_dpop_used s \<and> xs_resent s' = xs_resent s \<and> xs_reason s' = TooEarlyRetry \<and> xs_sent s' = xs_sent s
    \<and> xs_current s' = xs_current s \<and> xs_stripped s' = xs_stripped s
    \<and> (\<exists>resp. ao_response out = Some resp \<and> rp_status resp = 425)"
  using assms by (auto simp: too_early_step_def split: option.splits if_splits)

lemma resend_again:
  assumes "resend_step cl out s = Some (LoopAgain s')"
  shows "xs_resent s = None \<and> xs_resent s' \<noteq> None \<and> xs_redirects s' = xs_redirects s \<and> xs_retries s' = xs_retries s
    \<and> xs_dpop_used s' = xs_dpop_used s \<and> xs_too_early_retried s' = xs_too_early_retried s \<and> (\<exists>k. cl = Some k \<and> xs_reason s' = ReusedConnectionClosed k)
    \<and> xs_sent s' = xs_sent s \<and> xs_current s' = xs_current s \<and> xs_stripped s' = xs_stripped s \<and> ao_response out = None"
  using assms by (auto simp: resend_step_def split: option.splits if_splits)

lemma retry_again:
  assumes "retry_step X P i out s = Some (LoopAgain s')"
  shows "xs_retries s < xp_max_retries P \<and> xs_retries s' = xs_retries s + 1 \<and> xs_redirects s' = xs_redirects s \<and> xs_resent s' = xs_resent s
    \<and> xs_dpop_used s' = xs_dpop_used s \<and> xs_too_early_retried s' = xs_too_early_retried s \<and> (\<exists>k. xs_reason s' = Retry k)
    \<and> xs_sent s' = xs_sent s \<and> xs_current s' = xs_current s \<and> xs_stripped s' = xs_stripped s
    \<and> ao_response out = None \<and> (ob_dispatch (ao_observation out) = NotDispatched \<or> is_idempotent (at_method (xs_current s)))"
  using assms by (auto simp: retry_step_def Let_def split: option.splits if_splits)

text \<open>The only step that is always the end, or a retry, or the one fallback.\<close>

lemma fallback_again:
  assumes "fallback_step X P v i out s = LoopAgain s'"
  shows "(v = Http3WithFallback \<and> same_allowance s s' \<and> xs_reason s' = ProtocolFallback ''h3'' \<and> xs_sent s' = xs_sent s
      \<and> xs_current s' = xs_current s \<and> xs_stripped s' = xs_stripped s \<and> ao_response out = None
      \<and> (ob_dispatch (ao_observation out) = NotDispatched \<or> is_idempotent (at_method (xs_current s))))
    \<or> (\<exists>s0. same_allowance s s0 \<and> xs_sent s0 = xs_sent s \<and> xs_current s0 = xs_current s \<and> xs_stripped s0 = xs_stripped s
        \<and> retry_step X P i out s0 = Some (LoopAgain s'))"
proof -
  define s1 where "s1 = s\<lparr>xs_attempts := append_message (not_resent_note (at_method (xs_current s))) (xs_attempts s)\<rparr>"
  have s1: "same_allowance s s1" "xs_sent s1 = xs_sent s" "xs_current s1 = xs_current s" "xs_stripped s1 = xs_stripped s"
    by (simp_all add: s1_def same_allowance_def)
  have s: "same_allowance s s" by (simp add: same_allowance_def)
  have retry: "\<exists>s0. same_allowance s s0 \<and> xs_sent s0 = xs_sent s \<and> xs_current s0 = xs_current s \<and> xs_stripped s0 = xs_stripped s
      \<and> retry_step X P i out s0 = Some (LoopAgain s')"
    if "s0 = s \<or> s0 = s1" "retry_or_stop X P i out s0 = LoopAgain s'" for s0
    using that s s1 by (intro exI [of _ s0]) (auto simp: retry_or_stop_def split: option.splits)
  show ?thesis
  proof (cases "tcp_fallback v (ao_response out = None \<and> ob_failure (ao_observation out) \<noteq> None) (ob_dispatch (ao_observation out))
      (at_method (xs_current s)) (hx_canceled X i)")
    case FallbackNone
    then show ?thesis using assms retry [of s] by (simp add: fallback_step_def Let_def)
  next
    case FallbackTcp
    then have "v = Http3WithFallback" "ao_response out = None" "ob_dispatch (ao_observation out) = NotDispatched \<or> is_idempotent (at_method (xs_current s))"
      by (auto simp: tcp_fallback_def split: if_splits)
    moreover have "s' = s\<lparr>xs_fallback_repeats := Some (xs_reason s), xs_reason := ProtocolFallback ''h3'', xs_last := Some out\<rparr>"
      using assms FallbackTcp by (simp add: fallback_step_def Let_def)
    ultimately show ?thesis by (simp add: same_allowance_def)
  next
    case FallbackNotResent
    then show ?thesis using assms retry [of s1] by (simp add: fallback_step_def Let_def s1_def)
  qed
qed

lemma first_of_Some: "first_of xs = Some x \<Longrightarrow> Some x \<in> set xs"
  by (induction xs rule: first_of.induct) auto

lemma after_attempt_again:
  assumes "after_attempt X P v i out cl s = LoopAgain s'"
  obtains (redirect) "redirect_step X P out s = Some (LoopAgain s')" | (dpop) "dpop_step_again X P out s = Some (LoopAgain s')"
    | (too_early) "too_early_step X P out s = Some (LoopAgain s')" | (resend) "resend_step cl out s = Some (LoopAgain s')"
    | (fallback) "fallback_step X P v i out s = LoopAgain s'"
proof (cases "first_of [redirect_step X P out s, dpop_step_again X P out s, too_early_step X P out s, resend_step cl out s]")
  case None
  then show thesis using assms fallback by (simp add: after_attempt_def)
next
  case (Some r)
  then have r: "r = LoopAgain s'" using assms by (simp add: after_attempt_def)
  from first_of_Some [OF Some] show thesis using redirect dpop too_early resend unfolding r by auto
qed

lemma after_attempt_rank:
  assumes "after_attempt X P v i out cl s = LoopAgain s'" "v = Http3WithFallback \<Longrightarrow> \<not> is_fallback (xs_reason s)"
  shows "loop_rank P s' < loop_rank P s"
  using assms(1)
proof (cases rule: after_attempt_again)
  case redirect
  then show ?thesis
  proof (rule redirect_step_again)
    fix resp t assume "xs_redirects s < xp_max_redirects P" "follow_to X P (rp_status resp) out t s = LoopAgain s'"
    then show ?thesis using follow_to_again [of X P "rp_status resp" out t s s'] by (simp add: loop_rank_def allowance_def is_fallback_def)
  qed
next
  case dpop
  from dpop_step_again [OF this] show ?thesis by (simp add: loop_rank_def allowance_def is_fallback_def)
next
  case too_early
  from too_early_again [OF this] show ?thesis by (simp add: loop_rank_def allowance_def is_fallback_def)
next
  case resend
  from resend_again [OF this] show ?thesis by (auto simp: loop_rank_def allowance_def is_fallback_def)
next
  case fallback
  consider "v = Http3WithFallback" "same_allowance s s'" "xs_reason s' = ProtocolFallback ''h3''"
    | s0 where "same_allowance s s0" "retry_step X P i out s0 = Some (LoopAgain s')"
    using fallback_again [OF fallback] by blast
  then show ?thesis
  proof cases
    case 1
    moreover from this have "\<not> is_fallback (xs_reason s)" using assms(2) by blast
    ultimately show ?thesis by (simp add: loop_rank_def allowance_def same_allowance_def is_fallback_def)
  next
    case s0: 2
    have eqs: "xs_redirects s' = xs_redirects s" "xs_resent s' = xs_resent s" "xs_dpop_used s' = xs_dpop_used s"
        "xs_too_early_retried s' = xs_too_early_retried s" and lt: "xp_max_retries P - xs_retries s' < xp_max_retries P - xs_retries s"
      using retry_again [OF s0(2)] s0(1) by (auto simp: same_allowance_def)
    have "allowance P s' < allowance P s" unfolding allowance_def eqs using lt by linarith
    then show ?thesis by (simp add: loop_rank_def)
  qed
qed

lemma send_attempt_rank:
  assumes "send_attempt X P plan s = LoopAgain s'"
  shows "loop_rank P s' < loop_rank P s"
proof -
  obtain out cl obs where a: "after_attempt X P (attempt_version P s) (length (xs_attempts s)) out cl
      (s\<lparr>xs_attempts := obs, xs_last_hop := hop_of (xs_current s), xs_sent := xs_sent s @ [(plan, xs_reason s, out)]\<rparr>) = LoopAgain s'"
    using assms by (auto simp: send_attempt_def Let_def split: prod.splits if_splits)
  let ?s = "s\<lparr>xs_attempts := obs, xs_last_hop := hop_of (xs_current s), xs_sent := xs_sent s @ [(plan, xs_reason s, out)]\<rparr>"
  have "attempt_version P s = Http3WithFallback \<Longrightarrow> \<not> is_fallback (xs_reason ?s)" by (simp add: attempt_version_def split: if_splits)
  moreover have "loop_rank P ?s = loop_rank P s" by (simp add: loop_rank_def allowance_def)
  ultimately show ?thesis using after_attempt_rank [OF a] by metis
qed

lemma exec_iter_rank:
  assumes "exec_iter X P s = LoopAgain s'"
  shows "loop_rank P s' < loop_rank P s"
proof -
  obtain plan s1 where p: "plan_attempt X P s = (Inr plan, s1)" "send_attempt X P plan s1 = LoopAgain s'"
    using assms by (auto simp: exec_iter_def split: prod.splits sum.splits)
  from send_attempt_rank [OF p(2)] loop_varsD [OF plan_attempt_keeps [OF p(1)]] show ?thesis
    by (simp add: loop_rank_def allowance_def)
qed

function exec_loop :: "'j exec_externs \<Rightarrow> exec_prep \<Rightarrow> 'j exec_state \<Rightarrow> 'j exec_outcome" where
  "exec_loop X P s = (case exec_iter X P s of LoopStop r \<Rightarrow> r | LoopAgain s' \<Rightarrow> exec_loop X P s')"
  by pat_completeness auto
termination
  by (relation "measure (\<lambda>(X, P, s). loop_rank P s)") (simp_all add: exec_iter_rank)

declare exec_loop.simps [simp del]

definition initial_state :: "exec_prep \<Rightarrow> resolved_auth \<Rightarrow> redactor \<Rightarrow> string list \<Rightarrow> 'j \<Rightarrow> 'j exec_state" where
  "initial_state P auth r known j =
     (let c = \<lparr>at_method = xp_method P, at_target = xp_target P, at_headers = xp_headers P, at_body = xp_body P, at_with_credentials = True,
               at_tls = xp_tls P, at_tls_profile = xp_tls_profile P, at_proxy = xp_proxy P\<rparr>
      in \<lparr>xs_current = c, xs_auth = auth, xs_redactor = r, xs_inferred = known, xs_attempts = [], xs_last = None, xs_last_hop = hop_of c,
          xs_redirects = 0, xs_retries = 0, xs_dpop_used = False, xs_too_early_retried = False, xs_resent = None, xs_fallback_repeats = None,
          xs_reason = Initial, xs_stripped = False, xs_facts = [], xs_jar = j, xs_sent = []\<rparr>)"

definition final_trust :: "exec_prep \<Rightarrow> 'j exec_state \<Rightarrow> ferrum_trust" where
  "final_trust P s =
     (case trust_for (xp_context P) (rh_target (xs_last_hop s)) of
        (NotConfigured, _) \<Rightarrow> NotConfigured
      | (Trusted name cid _, require_verified) \<Rightarrow>
          (let verified = (case xs_last s of Some out \<Rightarrow> ob_verified (ao_observation out) | None \<Rightarrow> False)
           in if require_verified \<and> \<not> verified then NotConfigured else Trusted name cid verified))"

end
