(* ===== verification/Exec_Safety.thy ===== *)
theory Exec_Safety
  imports Http_Exec
begin

text \<open>
  What the loop of attempts guarantees: how many attempts there are, why each of them was made, that a request
  that may have been received is not sent again, that credentials stay with the origin they are for, and that
  what is signed is what is sent.
\<close>

section \<open>Traces of the loop\<close>

definition sent_of :: "'j exec_outcome \<Rightarrow> (attempt_plan \<times> attempt_reason \<times> attempt_output) list" where
  "sent_of r = (case r of ExecLocal _ s \<Rightarrow> xs_sent s | ExecDone s \<Rightarrow> xs_sent s | ExecPanic s \<Rightarrow> xs_sent s)"

lemma after_attempt_stop:
  assumes "after_attempt X P v i out cl s = LoopStop r"
  shows "\<exists>s'. r = ExecDone s' \<and> xs_sent s' = xs_sent s"
proof -
  have retry: "\<exists>s'. r = ExecDone s' \<and> xs_sent s' = xs_sent s" if "retry_or_stop X P i out s0 = LoopStop r" "xs_sent s0 = xs_sent s" for s0
    using that by (auto simp: retry_or_stop_def retry_step_def Let_def split: option.splits if_splits)
  have follow: "\<exists>s'. r = ExecDone s' \<and> xs_sent s' = xs_sent s" if "follow_to X P st out t s = LoopStop r" for st t
    using that by (auto simp: follow_to_def redirect_refused_def Let_def split: prod.splits option.splits sum.splits)
  show ?thesis
  proof (cases "first_of [redirect_step X P out s, dpop_step_again X P out s, too_early_step X P out s, resend_step cl out s]")
    case None
    then have "fallback_step X P v i out s = LoopStop r" using assms by (simp add: after_attempt_def)
    then show ?thesis using retry [of s] retry [of "s\<lparr>xs_attempts := append_message (not_resent_note (at_method (xs_current s))) (xs_attempts s)\<rparr>"]
      by (auto simp: fallback_step_def Let_def split: h3_fallback.splits)
  next
    case (Some r')
    then have r': "r' = LoopStop r" using assms by (simp add: after_attempt_def)
    from first_of_Some [OF Some] consider "redirect_step X P out s = Some (LoopStop r)" | "dpop_step_again X P out s = Some (LoopStop r)"
      | "too_early_step X P out s = Some (LoopStop r)" | "resend_step cl out s = Some (LoopStop r)" unfolding r' by auto
    then show ?thesis
    proof cases
      case 1
      then show ?thesis using follow by (auto simp: redirect_step_def Let_def split: option.splits list.splits sum.splits if_splits)
    qed (auto simp: dpop_step_again_def too_early_step_def resend_step_def split: option.splits list.splits if_splits)
  qed
qed

text \<open>The state in which the output of an attempt is judged: the state before it, with the attempt recorded.\<close>

definition judged :: "attempt_plan \<Rightarrow> attempt_output \<Rightarrow> 'j exec_state \<Rightarrow> 'j exec_state \<Rightarrow> bool" where
  "judged plan out s s2 \<longleftrightarrow> xs_sent s2 = xs_sent s @ [(plan, xs_reason s, out)] \<and> xs_current s2 = xs_current s \<and> xs_auth s2 = xs_auth s
     \<and> xs_reason s2 = xs_reason s \<and> xs_stripped s2 = xs_stripped s \<and> same_allowance s s2"

lemma exec_iter_cases:
  obtains (refused) f s1 where "plan_attempt X P s = (Inl f, s1)" "\<exists>r. exec_iter X P s = LoopStop r \<and> sent_of r = xs_sent s"
  | (panic) plan s1 where "plan_attempt X P s = (Inr plan, s1)" "exec_iter X P s = LoopStop (ExecPanic s1)" "xs_sent s1 = xs_sent s"
  | (sent) plan s1 out cl i s2 where "plan_attempt X P s = (Inr plan, s1)" "judged plan out s s2"
      "exec_iter X P s = after_attempt X P (attempt_version P s) i out cl s2" "cl = None \<or> \<not> is_fallback (xs_reason s)"
proof (cases "plan_attempt X P s")
  case (Pair r s1)
  note keep = loop_varsD [OF plan_attempt_keeps [OF Pair]]
  show thesis
  proof (cases r)
    case (Inl f)
    then show thesis using refused Pair keep by (auto simp: exec_iter_def sent_of_def)
  next
    case (Inr plan)
    then have iter: "exec_iter X P s = send_attempt X P plan s1" using Pair by (simp add: exec_iter_def)
    obtain outs cl0 where o: "hx_send X plan (length (xs_attempts s1)) (xs_reason s1) (0 < xs_redirects s1) = (outs, cl0)" by fastforce
    show thesis
    proof (cases "outs = []")
      case True
      then have "send_attempt X P plan s1 = LoopStop (ExecPanic s1)" using o by (simp add: send_attempt_def Let_def)
      then show thesis using panic Pair Inr iter keep by simp
    next
      case False
      define cl where "cl = (if is_h3 (attempt_version P s) \<or> \<not> is_fallback (xs_reason s) then cl0 else None)"
      define s2 where "s2 = s1\<lparr>xs_attempts := note_repeat s1 @ map ao_observation outs, xs_last_hop := hop_of (xs_current s1),
        xs_sent := xs_sent s1 @ [(plan, xs_reason s1, last outs)]\<rparr>"
      have v: "attempt_version P s1 = attempt_version P s" using keep by (simp add: attempt_version_def)
      have "exec_iter X P s = after_attempt X P (attempt_version P s) (length (xs_attempts s1)) (last outs) cl s2"
        using False o iter keep v by (simp add: send_attempt_def Let_def cl_def s2_def)
      moreover have "judged plan (last outs) s s2" using keep by (simp add: judged_def s2_def same_allowance_def)
      moreover have "cl = None \<or> \<not> is_fallback (xs_reason s)" by (auto simp: cl_def is_h3_def attempt_version_def)
      ultimately show thesis using sent Pair Inr by blast
    qed
  qed
qed

lemma exec_iter_stop: "exec_iter X P s = LoopStop r \<Longrightarrow>
   sent_of r = xs_sent s \<or> (\<exists>plan s1 out. plan_attempt X P s = (Inr plan, s1) \<and> sent_of r = xs_sent s @ [(plan, xs_reason s, out)])"
proof (cases rule: exec_iter_cases [of X P s])
  case (sent plan s1 out cl i s2)
  assume "exec_iter X P s = LoopStop r"
  then obtain s' where "r = ExecDone s'" "xs_sent s' = xs_sent s2" using after_attempt_stop sent(3) by metis
  then show ?thesis using sent(1,2) by (auto simp: sent_of_def judged_def)
qed (auto simp: sent_of_def)

text \<open>
  An invariant of the loop and what it promises of the trace: it holds again whenever the loop goes on, and the
  trace with one more attempt is as promised.
\<close>

locale attempt_trace =
  fixes X :: "'j exec_externs" and P :: exec_prep and inv :: "'j exec_state \<Rightarrow> bool"
    and ok :: "(attempt_plan \<times> attempt_reason \<times> attempt_output) list \<Rightarrow> bool"
  assumes sound: "inv s \<Longrightarrow> ok (xs_sent s)"
    and send: "inv s \<Longrightarrow> plan_attempt X P s = (Inr plan, s1) \<Longrightarrow> ok (xs_sent s @ [(plan, xs_reason s, out)])"
    and again: "inv s \<Longrightarrow> exec_iter X P s = LoopAgain s' \<Longrightarrow> inv s'"
begin

lemma trace: "inv s \<Longrightarrow> ok (sent_of (exec_loop X P s))"
proof (induction "loop_rank P s" arbitrary: s rule: less_induct)
  case less
  show ?case
  proof (cases "exec_iter X P s")
    case (LoopStop r)
    have "ok (sent_of r)" using exec_iter_stop [OF LoopStop] sound [OF less(2)] send [OF less(2)] by auto
    then show ?thesis using LoopStop by (simp add: exec_loop.simps [of X P s])
  next
    case (LoopAgain s')
    then show ?thesis using less(1) [OF exec_iter_rank [OF LoopAgain] again [OF less(2) LoopAgain]] by (simp add: exec_loop.simps [of X P s])
  qed
qed

end

section \<open>How many attempts\<close>

definition attempt_bound :: "exec_prep \<Rightarrow> nat" where
  "attempt_bound P = 2 * (xp_max_redirects P + xp_max_retries P + 3) + 2"

lemma exec_iter_again_sent:
  assumes "exec_iter X P s = LoopAgain s'"
  obtains plan s1 out cl i s2 where "plan_attempt X P s = (Inr plan, s1)" "judged plan out s s2"
    "after_attempt X P (attempt_version P s) i out cl s2 = LoopAgain s'" "cl = None \<or> \<not> is_fallback (xs_reason s)"
proof (cases rule: exec_iter_cases [of X P s])
  case (sent plan s1 out cl i s2)
  then show thesis using that assms by metis
qed (use assms in auto)

lemma after_attempt_sent:
  assumes "after_attempt X P v i out cl s = LoopAgain s'"
  shows "xs_sent s' = xs_sent s"
  using assms
proof (cases rule: after_attempt_again)
  case redirect
  then show ?thesis by (rule redirect_step_again) (rule follow_to_again(7))
next
  case fallback
  then show ?thesis using fallback_again [OF fallback] retry_again by metis
qed (use dpop_step_again too_early_again resend_again in blast)+

interpretation bounded: attempt_trace X P "\<lambda>s. length (xs_sent s) + loop_rank P s < attempt_bound P" "\<lambda>xs. length xs \<le> attempt_bound P" for X P
proof unfold_locales
  fix s s' assume s: "length (xs_sent s) + loop_rank P s < attempt_bound P" "exec_iter X P s = LoopAgain s'"
  from s(2) show "length (xs_sent s') + loop_rank P s' < attempt_bound P"
  proof (rule exec_iter_again_sent)
    fix plan s1 out cl i s2
    assume "judged plan out s s2" "after_attempt X P (attempt_version P s) i out cl s2 = LoopAgain s'"
    then have "length (xs_sent s') = length (xs_sent s) + 1" using after_attempt_sent by (fastforce simp: judged_def)
    then show ?thesis using s exec_iter_rank [OF s(2)] by simp
  qed
qed simp_all

text \<open>
  C5.  One request is sent a bounded number of times.  Whatever the servers answer and however the transport
  fails, the loop of attempts ends, after at most twice the redirects and retries allowed, plus three (the DPoP
  challenge, the retry after 425 and the resend), plus two attempts.
\<close>

theorem attempts_bounded:
  "length (sent_of (exec_loop X P (initial_state P auth r known j))) \<le> 2 * (xp_max_redirects P + xp_max_retries P + 3) + 2"
proof -
  have "loop_rank P (initial_state P auth r known j) = 2 * (xp_max_redirects P + xp_max_retries P + 3) + 1"
    by (simp add: loop_rank_def allowance_def initial_state_def is_fallback_def Let_def)
  then have "length (xs_sent (initial_state P auth r known j)) + loop_rank P (initial_state P auth r known j) < attempt_bound P"
    by (simp add: initial_state_def Let_def attempt_bound_def)
  from bounded.trace [OF this] show ?thesis by (simp add: attempt_bound_def)
qed

section \<open>Why an attempt is made\<close>

lemma plan_attempt_cases:
  assumes "plan_attempt X P s = (Inr plan, s')"
  obtains w s1 headers s2 hs ph held where "credential_step X s = Inr (w, s1)" "attempt_cookies X P s1 (wi_headers w) = (headers, s2)"
    "wire_headers X headers = Inr hs" "plan = make_plan X P s2 w hs ph held" "loop_vars s1 = loop_vars s" "loop_vars s2 = loop_vars s"
    "xs_redactor s' = xs_redactor s2"
proof (cases "credential_step X s")
  case (Inl f)
  then show thesis using assms by (simp add: plan_attempt_def)
next
  case (Inr ws)
  obtain w s1 where ws: "ws = (w, s1)" by fastforce
  obtain headers s2 where c: "attempt_cookies X P s1 (wi_headers w) = (headers, s2)" by fastforce
  obtain hs ph held where "wire_headers X headers = Inr hs" "plan = make_plan X P s2 w hs ph held" "xs_redactor s' = xs_redactor s2"
    using assms Inr ws c by (auto simp: plan_attempt_def split: sum.splits prod.splits)
  moreover have "loop_vars s1 = loop_vars s" using credential_step_keeps Inr ws by blast
  ultimately show thesis using that Inr ws c attempt_cookies_keeps [OF c] by metis
qed

text \<open>What the attempt before must have been for an attempt with this reason and method.\<close>

definition answered :: "attempt_output \<Rightarrow> nat \<Rightarrow> bool" where
  "answered out status \<longleftrightarrow> (case ao_response out of Some resp \<Rightarrow> rp_status resp = status | None \<Rightarrow> False)"

definition not_received :: "attempt_output \<Rightarrow> string \<Rightarrow> bool" where
  "not_received out meth \<longleftrightarrow> ao_response out = None \<and> (ob_dispatch (ao_observation out) = NotDispatched \<or> is_idempotent meth)"

definition justified :: "attempt_reason \<Rightarrow> string \<Rightarrow> attempt_output \<Rightarrow> bool" where
  "justified r meth out \<longleftrightarrow>
     (case r of
        Initial \<Rightarrow> False
      | Redirect status \<Rightarrow> is_redirect status \<and> answered out status
      | Retry _ \<Rightarrow> not_received out meth
      | ProtocolFallback _ \<Rightarrow> not_received out meth
      | AuthChallenge _ \<Rightarrow> answered out 401 \<or> answered out 400
      | TooEarlyRetry \<Rightarrow> answered out 425
      | ReusedConnectionClosed _ \<Rightarrow> ao_response out = None)"

lemma justified_get: "justified r m out \<Longrightarrow> justified r (if b then m else ''GET'') out"
proof -
  have "is_idempotent ''GET''" by code_simp
  then show "justified r m out \<Longrightarrow> justified r (if b then m else ''GET'') out"
    by (auto simp: justified_def not_received_def split: attempt_reason.splits)
qed

lemma after_attempt_justified:
  assumes "after_attempt X P v i out cl s = LoopAgain s'"
  shows "justified (xs_reason s') (at_method (xs_current s')) out"
  using assms
proof (cases rule: after_attempt_again)
  case redirect
  then show ?thesis
  proof (rule redirect_step_again)
    fix resp t assume "ao_response out = Some resp" "is_redirect (rp_status resp)" "follow_to X P (rp_status resp) out t s = LoopAgain s'"
    then show ?thesis using follow_to_again(6) [of X P "rp_status resp" out t s s'] by (simp add: justified_def answered_def)
  qed
next
  case dpop
  from dpop_step_again [OF this] show ?thesis by (auto simp: justified_def answered_def)
next
  case too_early
  from too_early_again [OF this] show ?thesis by (auto simp: justified_def answered_def)
next
  case resend
  from resend_again [OF this] show ?thesis by (auto simp: justified_def)
next
  case fallback
  have "not_received out (at_method (xs_current s')) \<and> (xs_reason s' = ProtocolFallback ''h3'' \<or> (\<exists>k. xs_reason s' = Retry k))"
    using fallback_again [OF fallback] retry_again unfolding not_received_def by metis
  then show ?thesis by (auto simp: justified_def)
qed

definition link_ok :: "attempt_plan \<times> attempt_reason \<times> attempt_output \<Rightarrow> attempt_plan \<times> attempt_reason \<times> attempt_output \<Rightarrow> bool" where
  "link_ok a b \<longleftrightarrow> justified (fst (snd b)) (pl_method (fst b)) (snd (snd a))"

definition trace_ok :: "(attempt_plan \<times> attempt_reason \<times> attempt_output) list \<Rightarrow> bool" where
  "trace_ok xs \<longleftrightarrow> successively link_ok xs \<and> (xs \<noteq> [] \<longrightarrow> fst (snd (hd xs)) = Initial)
     \<and> (\<forall>(plan, r, out) \<in> set xs. r = TooEarlyRetry \<longrightarrow> pl_early_data plan \<noteq> EarlySend)"

definition reason_fits :: "'j exec_state \<Rightarrow> bool" where
  "reason_fits s \<longleftrightarrow> (if xs_sent s = [] then xs_reason s = Initial else justified (xs_reason s) (at_method (xs_current s)) (snd (snd (last (xs_sent s)))))"

lemma plan_method_early:
  assumes "plan_attempt X P s = (Inr plan, s1)"
  shows "\<exists>b. pl_method plan = (if b then at_method (xs_current s) else ''GET'')" "xs_reason s = TooEarlyRetry \<Longrightarrow> pl_early_data plan \<noteq> EarlySend"
proof -
  obtain w s2 hs ph held where plan: "plan = make_plan X P s2 w hs ph held" and v: "loop_vars s2 = loop_vars s"
    using assms by (rule plan_attempt_cases)
  note same = loop_varsD [OF v]
  show "\<exists>b. pl_method plan = (if b then at_method (xs_current s) else ''GET'')" by (auto simp: plan make_plan_def Let_def same)
  assume "xs_reason s = TooEarlyRetry"
  then show "pl_early_data plan \<noteq> EarlySend" by (simp add: plan make_plan_def Let_def same early_reason_def early_intent_def)
qed

lemma trace_ok_snoc:
  assumes "trace_ok (xs_sent s)" "reason_fits s" "plan_attempt X P s = (Inr plan, s1)"
  shows "trace_ok (xs_sent s @ [(plan, xs_reason s, out)])"
proof -
  obtain b where m: "pl_method plan = (if b then at_method (xs_current s) else ''GET'')" using plan_method_early(1) [OF assms(3)] by blast
  have "link_ok (last (xs_sent s)) (plan, xs_reason s, out)" if "xs_sent s \<noteq> []"
    using that assms(2) justified_get by (simp add: link_ok_def reason_fits_def m)
  then show ?thesis using assms(1,2) plan_method_early(2) [OF assms(3)]
    by (cases "xs_sent s = []") (auto simp: trace_ok_def successively_append_iff reason_fits_def)
qed

interpretation reasons: attempt_trace X P "\<lambda>s. trace_ok (xs_sent s) \<and> reason_fits s" trace_ok for X P
proof unfold_locales
  fix s s' assume s: "trace_ok (xs_sent s) \<and> reason_fits s" "exec_iter X P s = LoopAgain s'"
  from s(2) show "trace_ok (xs_sent s') \<and> reason_fits s'"
  proof (rule exec_iter_again_sent)
    fix plan s1 out cl i s2
    assume a: "plan_attempt X P s = (Inr plan, s1)" "judged plan out s s2" "after_attempt X P (attempt_version P s) i out cl s2 = LoopAgain s'"
    have sent: "xs_sent s' = xs_sent s @ [(plan, xs_reason s, out)]" using after_attempt_sent [OF a(3)] a(2) by (simp add: judged_def)
    have "reason_fits s'" using after_attempt_justified [OF a(3)] by (simp add: reason_fits_def sent)
    then show ?thesis using trace_ok_snoc [OF _ _ a(1)] s(1) by (simp add: sent)
  qed
qed (simp_all add: trace_ok_snoc)

text \<open>
  C2.  Every attempt after the first has its reason.  A redirect follows that redirect status, a challenge a 400 or
  401, the retry after 425 a 425, and that retry is never early data.  A retry and the fallback from HTTP/3 follow an attempt without
  a response, and only when nothing of the request had been sent or its method is idempotent: a request
  that may have been received and is not safe to repeat is not sent again by either.
\<close>

theorem attempts_justified:
  "trace_ok (sent_of (exec_loop X P (initial_state P auth r known j)))"
  by (rule reasons.trace) (simp add: trace_ok_def reason_fits_def initial_state_def Let_def)

section \<open>Credentials stay with their origin\<close>

definition other_origin :: "exec_prep \<Rightarrow> target \<Rightarrow> bool" where
  "other_origin P t \<longleftrightarrow> target_origin t \<noteq> target_origin (xp_target P)"

definition body_free :: "exec_prep \<Rightarrow> string \<Rightarrow> bool" where
  "body_free P body \<longleftrightarrow> body = [] \<or> \<not> xp_body_uses_secret P \<and> \<not> body_carries_secret body (xp_used_secrets P)"

definition http_scheme :: "target \<Rightarrow> bool" where
  "http_scheme t \<longleftrightarrow> tg_scheme t = ''https'' \<or> tg_scheme t = ''http''"

definition guarded :: "exec_prep \<Rightarrow> 'j exec_state \<Rightarrow> bool" where
  "guarded P s \<longleftrightarrow>
     (let c = xs_current s
      in http_scheme (at_target c)
         \<and> (other_origin P (at_target c) \<longrightarrow> xs_stripped s \<and> body_free P (at_body c))
         \<and> (xs_stripped s \<longrightarrow> \<not> at_with_credentials c \<and> (\<forall>h \<in> set (at_headers c). \<not> credential_header P h)))"

lemma redirect_headers_subset: "set (fst (redirect_headers cross body hs)) \<subseteq> set hs"
  by (auto simp: redirect_headers_def without_def Let_def)

lemma strip_credentials_some:
  assumes "strip_credentials P r t body hs = Some (hs', ns)"
  shows "set hs' \<subseteq> set hs \<and> (\<forall>h \<in> set hs'. \<not> credential_header P h) \<and> body_free P body"
  using assms by (auto simp: strip_credentials_def body_free_def Let_def split: if_splits)

lemma follow_to_target:
  assumes "follow_to X P status out t s = LoopAgain s'"
  defines "strip \<equiv> other_origin P t \<and> \<not> xp_forward_cross_origin P"
  shows "at_target (xs_current s') = t" "xs_stripped s' = (xs_stripped s \<or> strip)"
    "at_with_credentials (xs_current s') = (at_with_credentials (xs_current s) \<and> \<not> strip)"
    "set (at_headers (xs_current s')) \<subseteq> set (at_headers (xs_current s))"
    "strip \<Longrightarrow> (\<forall>h \<in> set (at_headers (xs_current s')). \<not> credential_header P h) \<and> body_free P (at_body (xs_current s'))"
proof -
  show "at_target (xs_current s') = t" "xs_stripped s' = (xs_stripped s \<or> strip)"
    "at_with_credentials (xs_current s') = (at_with_credentials (xs_current s) \<and> \<not> strip)"
    using assms(1) by (auto simp: follow_to_def Let_def strip_def other_origin_def split: prod.splits option.splits sum.splits if_splits)
  obtain meth body where mb: "redirect_method status (xs_current s) = (meth, body)" by fastforce
  obtain hs sw where hs: "redirect_headers (other_origin P t) body (at_headers (xs_current s)) = (hs, sw)" by fastforce
  have "\<exists>ns. at_body (xs_current s') = body \<and> (if strip then strip_credentials P (xs_redactor s) t body hs else Some (hs, [])) = Some (at_headers (xs_current s'), ns)"
    using assms(1) mb hs by (auto simp: follow_to_def Let_def strip_def other_origin_def split: prod.splits option.splits sum.splits if_splits)
  then obtain ns where h: "redirect_headers (other_origin P t) (at_body (xs_current s')) (at_headers (xs_current s)) = (hs, sw)"
      "(if strip then strip_credentials P (xs_redactor s) t (at_body (xs_current s')) hs else Some (hs, [])) = Some (at_headers (xs_current s'), ns)"
    using hs by blast
  have sub: "set hs \<subseteq> set (at_headers (xs_current s))"
    using redirect_headers_subset [of "other_origin P t" "at_body (xs_current s')" "at_headers (xs_current s)"] h(1) by simp
  show "set (at_headers (xs_current s')) \<subseteq> set (at_headers (xs_current s))"
    using h(2) sub strip_credentials_some [of P "xs_redactor s" t "at_body (xs_current s')" hs "at_headers (xs_current s')" ns]
    by (cases strip) auto
  show "strip \<Longrightarrow> (\<forall>h \<in> set (at_headers (xs_current s')). \<not> credential_header P h) \<and> body_free P (at_body (xs_current s'))"
    using h(2) strip_credentials_some by (auto split: if_splits)
qed

lemma guarded_again:
  assumes "guarded P s" "\<not> xp_forward_cross_origin P" "exec_iter X P s = LoopAgain s'"
  shows "guarded P s'"
  using assms(3)
proof (rule exec_iter_again_sent)
  fix plan s1 out cl i s2
  assume a: "judged plan out s s2" "after_attempt X P (attempt_version P s) i out cl s2 = LoopAgain s'"
  have g: "guarded P s2" using assms(1) a(1) by (simp add: guarded_def judged_def)
  have same: "guarded P s'" if "xs_current s' = xs_current s2" "xs_stripped s' = xs_stripped s2" using g that by (simp add: guarded_def)
  from a(2) show "guarded P s'"
  proof (cases rule: after_attempt_again)
    case redirect
    then show ?thesis
    proof (rule redirect_step_again)
      fix resp t assume "tg_scheme t = ''https'' \<or> tg_scheme t = ''http''" "follow_to X P (rp_status resp) out t s2 = LoopAgain s'"
      then show ?thesis using g follow_to_target [of X P "rp_status resp" out t s2 s'] assms(2)
        unfolding guarded_def Let_def http_scheme_def by blast
    qed
  next
    case fallback
    then have "xs_current s' = xs_current s2" "xs_stripped s' = xs_stripped s2" using fallback_again [OF fallback] retry_again by metis+
    then show ?thesis by (rule same)
  qed (use same dpop_step_again too_early_again resend_again in blast)+
qed

text \<open>A value made of pairs the cookie jar gave for a target.\<close>

definition jar_text :: "'j exec_externs \<Rightarrow> target \<Rightarrow> string \<Rightarrow> bool" where
  "jar_text X t v \<longleftrightarrow>
     (\<exists>j stored j' ps. hx_jar_header X j t = (Some stored, j') \<and> v = join_with ''; '' ps \<and> set ps \<subseteq> set (map trim (split_char CHR '';'' stored)))"

lemma join_with_snoc: "qs \<noteq> [] \<Longrightarrow> join_with sep (qs @ [q]) = join_with sep qs @ sep @ q"
proof (induction qs)
  case (Cons p qs)
  then show ?case by (cases qs) auto
qed simp

lemma join_with_Nil: "join_with sep qs = [] \<Longrightarrow> [] \<notin> set qs \<Longrightarrow> qs = []"
  by (cases "(sep, qs)" rule: join_with.cases) auto

lemma stored_pairs_join:
  assumes "[] \<notin> set ps" "[] \<notin> set qs"
  shows "\<exists>rs. set rs \<subseteq> set ps \<and> fst (stored_pairs f sent ps (join_with ''; '' qs) n) = join_with ''; '' (qs @ rs)"
  using assms
proof (induction ps arbitrary: qs n)
  case (Cons p ps)
  have skip: "\<exists>rs. set rs \<subseteq> set (p # ps) \<and> fst (stored_pairs f sent ps (join_with ''; '' qs) m) = join_with ''; '' (qs @ rs)" for m
    using Cons.IH [of qs m] Cons.prems by auto
  have added: "(if join_with ''; '' qs = [] then p else join_with ''; '' qs @ ''; '' @ p) = join_with ''; '' (qs @ [p])"
    using join_with_Nil [of "''; ''" qs] join_with_snoc [of qs "''; ''" p] Cons.prems by (cases "qs = []") auto
  have take: "\<exists>rs. set rs \<subseteq> set (p # ps) \<and> fst (stored_pairs f sent ps (join_with ''; '' (qs @ [p])) m) = join_with ''; '' (qs @ rs)" for m
  proof -
    obtain rs where "set rs \<subseteq> set ps" "fst (stored_pairs f sent ps (join_with ''; '' (qs @ [p])) m) = join_with ''; '' ((qs @ [p]) @ rs)"
      using Cons.IH [of "qs @ [p]" m] Cons.prems by auto
    then show ?thesis by (intro exI [of _ "p # rs"]) auto
  qed
  show ?case
  proof (cases "cookie_name p \<in> set sent")
    case True
    then show ?thesis using skip by simp
  next
    case new: False
    show ?thesis
    proof (cases "f p \<and> n + (length p + (if n = 0 then 0 else 2)) \<le> MAX_COOKIE_HEADER_BYTES")
      case True
      then show ?thesis using new take by (simp add: added Let_def)
    next
      case False
      then have "fst (stored_pairs f sent (p # ps) (join_with ''; '' qs) n) = fst (stored_pairs f sent ps (join_with ''; '' qs) n)"
        using new by (auto simp: Let_def split: prod.split)
      then show ?thesis using skip by simp
    qed
  qed
qed simp

lemma jar_cookies_apart:
  assumes "\<forall>(n, v) \<in> set hs. \<not> eq_ignore_ascii_case n ''cookie''" "add_jar_cookies X j t hs = (hs', ns, j')"
  shows "hs' = hs \<or> (\<exists>v. hs' = hs @ [(''Cookie'', v)] \<and> jar_text X t v)"
proof -
  have none: "cookie_budget hs n = (hs, [], n)" for n using assms(1) by (induction hs) auto
  have snoc: "append_cookie v hs = hs @ [(''Cookie'', v)]" for v using assms(1) by (induction hs) auto
  obtain found j'' where h: "hx_jar_header X j t = (found, j'')" by fastforce
  show ?thesis
  proof (cases found)
    case None
    then show ?thesis using assms(2) h by (simp add: add_jar_cookies_def none)
  next
    case (Some stored)
    let ?ps = "filter (\<lambda>p. p \<noteq> []) (map trim (split_char CHR '';'' stored))"
    obtain rs where rs: "set rs \<subseteq> set ?ps" "fst (stored_pairs (re_header_value (hx_route X)) (sent_cookie_names hs) ?ps [] 0) = join_with ''; '' rs"
      using stored_pairs_join [of ?ps "[]" "re_header_value (hx_route X)" "sent_cookie_names hs" 0] by auto
    then have "set rs \<subseteq> set (map trim (split_char CHR '';'' stored))" by auto
    then have "jar_text X t (join_with ''; '' rs)" using h Some unfolding jar_text_def by blast
    moreover have "hs' = hs \<or> hs' = hs @ [(''Cookie'', join_with ''; '' rs)]"
      using assms(2) h Some rs(2) by (simp add: add_jar_cookies_def none snoc split: prod.splits if_splits)
    ultimately show ?thesis by blast
  qed
qed

lemma cookies_apart:
  assumes "\<forall>(n, v) \<in> set hs. \<not> eq_ignore_ascii_case n ''cookie''" "attempt_cookies X P s hs = (hs', s')"
  shows "hs' = hs \<or> (\<exists>v. hs' = hs @ [(''Cookie'', v)] \<and> jar_text X (at_target (xs_current s)) v)"
proof (cases "xp_cookies P")
  case True
  obtain ns j' where "add_jar_cookies X (xs_jar s) (at_target (xs_current s)) hs = (hs', ns, j')"
    using assms(2) True by (auto simp: attempt_cookies_def split: prod.splits)
  from jar_cookies_apart [OF assms(1) this] show ?thesis .
next
  case False
  have "cookie_budget hs n = (hs, [], n)" for n using assms(1) by (induction hs) auto
  then show ?thesis using assms(2) False by (simp add: attempt_cookies_def)
qed

lemma wire_headers_from:
  "wire_headers X hs = Inr hs' \<Longrightarrow> h' \<in> set hs' \<Longrightarrow> \<exists>n. (n, snd h') \<in> set hs \<and> re_header_name (hx_route X) n = Some (fst h')"
proof (induction hs arbitrary: hs')
  case (Cons h hs)
  obtain name hs2 where "re_header_name (hx_route X) (fst h) = Some name" "wire_headers X hs = Inr hs2" "hs' = (name, snd h) # hs2"
    using Cons.prems(1) by (cases h) (auto split: option.splits if_splits sum.splits simp: map_sum_def)
  moreover have "h' = (name, snd h) \<or> h' \<in> set hs2" using calculation(3) Cons.prems(2) by simp
  ultimately show ?case using Cons.IH [of hs2] by (cases h) fastforce
qed simp

lemma credential_header_case:
  assumes "lower n = lower m"
  shows "credential_header P (n, v) = credential_header P (m, v)"
proof -
  have "eq_ignore_ascii_case e n = eq_ignore_ascii_case e m" for e using assms by (simp add: eq_ignore_ascii_case_def)
  then show ?thesis using assms by (simp add: credential_header_def carries_credential_def is_credential_name_def)
qed

lemma cookie_is_credential:
  assumes "eq_ignore_ascii_case n ''cookie''"
  shows "credential_header P (n, v)"
proof -
  have "lower n = lower ''cookie''" using assms by (simp add: eq_ignore_ascii_case_def)
  moreover have "lower ''cookie'' \<in> set SENSITIVE_HEADERS" by code_simp
  ultimately have "lower n \<in> set SENSITIVE_HEADERS" by simp
  then show ?thesis by (simp add: credential_header_def carries_credential_def is_credential_name_def Let_def)
qed

definition plan_origin :: "attempt_plan \<Rightarrow> string \<times> string \<times> nat" where
  "plan_origin plan = (if pl_https plan then ''https'' else ''http'', lower (pl_host plan), pl_port plan)"

definition clean_plan :: "'j exec_externs \<Rightarrow> exec_prep \<Rightarrow> attempt_plan \<Rightarrow> bool" where
  "clean_plan X P plan \<longleftrightarrow>
     (\<forall>(n, v) \<in> set (pl_headers plan). credential_header P (n, v) \<longrightarrow>
        eq_ignore_ascii_case n ''cookie'' \<and> (\<exists>t. target_origin t = plan_origin plan \<and> jar_text X t v))
     \<and> body_free P (pl_body plan)"

lemma guarded_plan:
  assumes "guarded P s" "plan_attempt X P s = (Inr plan, s')" "plan_origin plan \<noteq> target_origin (xp_target P)"
    and law: "\<And>n n'. re_header_name (hx_route X) n = Some n' \<Longrightarrow> lower n' = lower n"
  shows "clean_plan X P plan"
proof -
  obtain w s1 headers s2 hs ph held where p: "credential_step X s = Inr (w, s1)" "attempt_cookies X P s1 (wi_headers w) = (headers, s2)"
      "wire_headers X headers = Inr hs" "plan = make_plan X P s2 w hs ph held" "loop_vars s1 = loop_vars s" "loop_vars s2 = loop_vars s"
    using assms(2) by (rule plan_attempt_cases)
  note cur = loop_varsD(1) [OF p(5)] loop_varsD(1) [OF p(6)]
  let ?t = "at_target (xs_current s)"
  have o: "target_origin ?t = plan_origin plan"
    using assms(1) cur by (auto simp: p(4) make_plan_def Let_def plan_origin_def target_origin_def guarded_def http_scheme_def)
  have g: "\<not> at_with_credentials (xs_current s)" "\<forall>h \<in> set (at_headers (xs_current s)). \<not> credential_header P h" "body_free P (at_body (xs_current s))"
    using assms(1,3) o by (auto simp: guarded_def other_origin_def Let_def)
  have w: "wi_headers w = at_headers (xs_current s)" "wi_body w = at_body (xs_current s)" using p(1) g(1) by (auto simp: credential_step_def Let_def)
  have "\<forall>(n, v) \<in> set (wi_headers w). \<not> eq_ignore_ascii_case n ''cookie''" using g(2) cookie_is_credential w by fastforce
  from cookies_apart [OF this p(2)] have from_jar: "h \<in> set (wi_headers w) \<or> (\<exists>v. h = (''Cookie'', v) \<and> jar_text X ?t v)" if "h \<in> set headers" for h
    using that cur by auto
  have "eq_ignore_ascii_case n ''cookie'' \<and> jar_text X ?t v" if h: "(n, v) \<in> set hs" and c: "credential_header P (n, v)" for n v
  proof -
    obtain m where m: "(m, v) \<in> set headers" "re_header_name (hx_route X) m = Some n" using wire_headers_from [OF p(3) h] by auto
    have "credential_header P (m, v)" using c credential_header_case [OF law [OF m(2)]] by simp
    then have "(m, v) \<notin> set (wi_headers w)" using g(2) w by auto
    then have "m = ''Cookie''" "jar_text X ?t v" using from_jar [OF m(1)] by auto
    moreover have "lower ''Cookie'' = lower ''cookie''" by code_simp
    ultimately show ?thesis using law [OF m(2)] by (simp only: eq_ignore_ascii_case_def)
  qed
  then show ?thesis using g(3) o w unfolding clean_plan_def by (fastforce simp: p(4) make_plan_def Let_def)
qed

definition home_trace :: "'j exec_externs \<Rightarrow> exec_prep \<Rightarrow> (attempt_plan \<times> attempt_reason \<times> attempt_output) list \<Rightarrow> bool" where
  "home_trace X P xs \<longleftrightarrow> (\<forall>(plan, _) \<in> set xs. plan_origin plan = target_origin (xp_target P) \<or> clean_plan X P plan)"

definition names_kept :: "'j exec_externs \<Rightarrow> bool" where
  "names_kept X \<longleftrightarrow> (\<forall>n n'. re_header_name (hx_route X) n = Some n' \<longrightarrow> lower n' = lower n)"

interpretation home: attempt_trace X P
  "\<lambda>s. names_kept X \<and> \<not> xp_forward_cross_origin P \<and> guarded P s \<and> home_trace X P (xs_sent s)" "home_trace X P" for X P
proof unfold_locales
  fix s s1 plan out
  assume s: "names_kept X \<and> \<not> xp_forward_cross_origin P \<and> guarded P s \<and> home_trace X P (xs_sent s)" and plan: "plan_attempt X P s = (Inr plan, s1)"
  from s have "plan_origin plan = target_origin (xp_target P) \<or> clean_plan X P plan" using guarded_plan [OF _ plan] by (auto simp: names_kept_def)
  then show "home_trace X P (xs_sent s @ [(plan, xs_reason s, out)])" using s by (simp add: home_trace_def)
next
  fix s s'
  assume s: "names_kept X \<and> \<not> xp_forward_cross_origin P \<and> guarded P s \<and> home_trace X P (xs_sent s)" and iter: "exec_iter X P s = LoopAgain s'"
  have "guarded P s'" using s guarded_again iter by blast
  moreover from iter have "home_trace X P (xs_sent s')"
  proof (rule exec_iter_again_sent)
    fix plan s1 out cl i s2
    assume a: "plan_attempt X P s = (Inr plan, s1)" "judged plan out s s2" "after_attempt X P (attempt_version P s) i out cl s2 = LoopAgain s'"
    have "xs_sent s' = xs_sent s @ [(plan, xs_reason s, out)]" using after_attempt_sent [OF a(3)] a(2) by (simp add: judged_def)
    moreover have "plan_origin plan = target_origin (xp_target P) \<or> clean_plan X P plan" using s guarded_plan [OF _ a(1)] by (auto simp: names_kept_def)
    ultimately show ?thesis using s by (simp add: home_trace_def)
  qed
  ultimately show "names_kept X \<and> \<not> xp_forward_cross_origin P \<and> guarded P s' \<and> home_trace X P (xs_sent s')" using s by blast
qed simp

text \<open>
  C1.  Credentials stay with the origin they are for.  Unless the request says that credentials follow redirects
  to other origins, whatever redirects the servers answer with, an attempt that goes to another scheme, host or port than the
  request's has no credential header (none named as one, marked as one or holding a secret), no body that
  uses or holds a secret, and no cookie but those the jar gives for that origin.  Header names are taken to be kept up to
  case by the HTTP library.
\<close>

theorem credentials_stay_home:
  assumes "\<forall>n n'. re_header_name (hx_route X) n = Some n' \<longrightarrow> lower n' = lower n" "\<not> xp_forward_cross_origin P"
    "tg_scheme (xp_target P) \<in> {''https'', ''http''}"
    "(plan, reason, out) \<in> set (sent_of (exec_loop X P (initial_state P auth r known j)))" "plan_origin plan \<noteq> target_origin (xp_target P)"
  shows "clean_plan X P plan"
proof -
  have "guarded P (initial_state P auth r known j)" using assms(3) by (simp add: guarded_def initial_state_def Let_def other_origin_def http_scheme_def)
  then have "home_trace X P (sent_of (exec_loop X P (initial_state P auth r known j)))"
    using assms(1,2) by (intro home.trace) (simp add: names_kept_def home_trace_def initial_state_def Let_def)
  then show ?thesis using assms(4,5) by (auto simp: home_trace_def)
qed

section \<open>What is signed is what is sent\<close>

lemma fold_absorb_query_keeps:
  "sr_headers (fold (absorb_query A) qs r) = sr_headers r" "sr_authority (fold (absorb_query A) qs r) = sr_authority r" "sr_body (fold (absorb_query A) qs r) = sr_body r"
  by (induction qs arbitrary: r) (simp_all add: absorb_query_def Let_def)

lemma fold_absorb_header_keeps:
  "sr_raw_query (fold absorb_header hs r) = sr_raw_query r" "sr_body (fold absorb_header hs r) = sr_body r"
  by (induction hs arbitrary: r) simp_all

lemma engine_query_same: "fold (engine_add_query A) qs (sr_raw_query r) = sr_raw_query (fold (absorb_query A) qs r)"
proof (induction qs arbitrary: r)
  case (Cons q qs)
  have "engine_add_query A q (sr_raw_query r) = sr_raw_query (absorb_query A q r)" by (simp add: engine_add_query_def absorb_query_def Let_def)
  then show ?case using Cons [of "absorb_query A q r"] by simp
qed simp

lemma find_filter_other: "(\<And>h. P h \<Longrightarrow> Q h) \<Longrightarrow> find P (filter Q xs) = find P xs"
  by (induction xs) auto

lemma find_snoc: "find P (xs @ [x]) = (case find P xs of Some y \<Rightarrow> Some y | None \<Rightarrow> if P x then Some x else None)"
  by (induction xs) auto

lemma authority_absorbed:
  assumes "request_authority (sr_headers r) t = sr_authority r"
  shows "request_authority (sr_headers (absorb_header h r)) t = sr_authority (absorb_header h r)"
proof (cases h)
  case (Pair n v)
  let ?host = "\<lambda>(m, _). eq_ignore_ascii_case m ''host''"
  let ?hs = "filter (\<lambda>(m, _). \<not> eq_ignore_ascii_case m n) (sr_headers r)"
  have a: "sr_headers (absorb_header h r) = ?hs @ [(n, v)]" "sr_authority (absorb_header h r) = (if eq_ignore_ascii_case n ''host'' then v else sr_authority r)"
    by (simp_all add: Pair absorb_header_def)
  show ?thesis
  proof (cases "eq_ignore_ascii_case n ''host''")
    case True
    then have "find ?host ?hs = None" by (auto simp: find_None_iff eq_ignore_ascii_case_def)
    then show ?thesis unfolding a request_authority_def find_snoc using True by simp
  next
    case False
    then have "find ?host ?hs = find ?host (sr_headers r)" by (intro find_filter_other) (auto simp: eq_ignore_ascii_case_def)
    then have "find ?host (?hs @ [(n, v)]) = find ?host (sr_headers r)" using False by (simp add: find_snoc split: option.splits)
    then show ?thesis using assms False unfolding a request_authority_def by simp
  qed
qed

lemma engine_headers_same:
  "request_authority (sr_headers r) t = sr_authority r \<Longrightarrow>
   fold engine_set_header hs (sr_headers r) = sr_headers (fold absorb_header hs r)
   \<and> request_authority (sr_headers (fold absorb_header hs r)) t = sr_authority (fold absorb_header hs r)"
proof (induction hs arbitrary: r)
  case (Cons h hs)
  have "engine_set_header h (sr_headers r) = sr_headers (absorb_header h r)" by (cases h) (simp add: engine_set_header_def absorb_header_def)
  then show ?case using Cons.IH [OF authority_absorbed [OF Cons.prems, of h]] by simp
qed simp

text \<open>
  C4.  What the engine sends is what the authentication crate signed.  The engine applies a profile's changes to the
  headers, the query and the body by code of its own; the result is the request the profiles were applied to step by step,
  with the same headers, query and body, and the authority the server sees is the authority that was signed.
\<close>

theorem engine_sends_signed:
  fixes A a c
  defines "signed_req \<equiv> absorb_step A a (signable c)"
  shows "engine_apply A a c = \<lparr>wi_headers = sr_headers signed_req, wi_query = sr_raw_query signed_req, wi_body = sr_body signed_req\<rparr>
    \<and> request_authority (wi_headers (engine_apply A a c)) (at_target c) = sr_authority signed_req"
proof -
  let ?hs = "fold absorb_header (ap_set_headers a) (signable c)"
  let ?q = "fold (absorb_query A) (ap_append_query a) ?hs"
  have eff: "signed_req = (case ap_body a of Some b \<Rightarrow> ?q\<lparr>sr_body := b\<rparr> | None \<Rightarrow> ?q)"
    by (simp add: signed_req_def absorb_step_def Let_def)
  have base: "request_authority (sr_headers (signable c)) (at_target c) = sr_authority (signable c)" by (simp add: signable_def)
  have "fold engine_set_header (ap_set_headers a) (at_headers c) = sr_headers ?hs" using engine_headers_same [OF base] by (simp add: signable_def)
  moreover have "fold (engine_add_query A) (ap_append_query a) (tg_query (at_target c)) = sr_raw_query ?q"
    using engine_query_same [of A "ap_append_query a" ?hs] by (simp add: fold_absorb_header_keeps signable_def)
  moreover have "sr_headers signed_req = sr_headers ?hs" "sr_authority signed_req = sr_authority ?hs" "sr_raw_query signed_req = sr_raw_query ?q"
    "sr_body signed_req = (case ap_body a of Some b \<Rightarrow> b | None \<Rightarrow> at_body c)"
    by (simp_all add: eff fold_absorb_query_keeps fold_absorb_header_keeps signable_def split: option.split)
  ultimately show ?thesis using engine_headers_same [OF base] by (simp add: engine_apply_def)
qed

section \<open>Allowed retries are made\<close>

lemma exec_loop_last: "\<exists>s0. exec_iter X P s0 = LoopStop (exec_loop X P s)"
proof (induction "loop_rank P s" arbitrary: s rule: less_induct)
  case less
  show ?case
  proof (cases "exec_iter X P s")
    case (LoopStop r)
    then show ?thesis by (intro exI [of _ s]) (simp add: exec_loop.simps [of X P s])
  next
    case (LoopAgain s')
    then show ?thesis using less [OF exec_iter_rank [OF LoopAgain]] by (simp add: exec_loop.simps [of X P s])
  qed
qed

text \<open>An output after which no retry is due.\<close>

definition settled :: "exec_prep \<Rightarrow> 'j exec_state \<Rightarrow> attempt_output \<Rightarrow> bool" where
  "settled P s out \<longleftrightarrow>
     ao_response out \<noteq> None
     \<or> (case ob_failure (ao_observation out) of None \<Rightarrow> True | Some f \<Rightarrow> tf_kind f = Canceled \<or> is_local_preparation (tf_kind f))
     \<or> ob_dispatch (ao_observation out) \<noteq> NotDispatched \<and> \<not> is_idempotent (at_method (xs_current s))
     \<or> xp_max_retries P \<le> xs_retries s"

lemma retry_stop_settled:
  assumes "retry_or_stop X P i out s = LoopStop (ExecDone s')" "\<not> hx_backoff_canceled X i"
  shows "settled P s' out"
  using assms by (auto simp: retry_or_stop_def retry_step_def settled_def Let_def split: option.splits if_splits)

lemma after_attempt_settled:
  assumes "after_attempt X P v i out cl s = LoopStop (ExecDone s')" "\<not> hx_backoff_canceled X i"
  shows "settled P s' out"
proof (cases "first_of [redirect_step X P out s, dpop_step_again X P out s, too_early_step X P out s, resend_step cl out s]")
  case None
  then have "fallback_step X P v i out s = LoopStop (ExecDone s')" using assms(1) by (simp add: after_attempt_def)
  then show ?thesis using retry_stop_settled [OF _ assms(2)] by (auto simp: fallback_step_def Let_def split: h3_fallback.splits)
next
  case (Some r)
  then have "r = LoopStop (ExecDone s')" using assms(1) by (simp add: after_attempt_def)
  with first_of_Some [OF Some] have "redirect_step X P out s = Some (LoopStop (ExecDone s'))"
    by (auto simp: dpop_step_again_def too_early_step_def resend_step_def split: option.splits list.splits if_splits)
  then have "ao_response out \<noteq> None" by (auto simp: redirect_step_def split: option.splits)
  then show ?thesis by (simp add: settled_def)
qed


section \<open>Examples\<close>

definition demo_answers :: "attempt_plan \<Rightarrow> attempt_output list" where
  "demo_answers plan =
     [\<lparr>ao_observation = \<lparr>ob_failure = None, ob_dispatch = Sent, ob_verified = False\<rparr>,
       ao_response = Some (if pl_host plan = ''h'' then \<lparr>rp_status = 302, rp_headers = [(''Location'', ''http://g/'')]\<rparr> else \<lparr>rp_status = 200, rp_headers = []\<rparr>)\<rparr>]"

definition demo_exec :: "unit exec_externs" where
  "demo_exec =
     \<lparr>hx_auth = plain_crypto, hx_redact = demo_crates, hx_url = \<lparr>uc_parse = (\<lambda>_. Inr (Some ''g'', None)), uc_join = (\<lambda>base loc. Some loc)\<rparr>, hx_route = demo_routes,
      hx_send = (\<lambda>plan _ _ _. (demo_answers plan, None)), hx_now = (\<lambda>_. 0), hx_random = (\<lambda>_. []), hx_canceled = (\<lambda>_. False),
      hx_backoff_canceled = (\<lambda>_. False), hx_method_ok = (\<lambda>_. True), hx_jar_header = (\<lambda>j _. (Some ''s=1'', j)), hx_jar_store = (\<lambda>j _ _ _. (False, j))\<rparr>"

definition demo_prep :: exec_prep where
  "demo_prep =
     \<lparr>xp_method = ''GET'', xp_target = \<lparr>tg_scheme = ''http'', tg_host = ''h'', tg_port = 80, tg_authority = ''h'', tg_path = ''/'', tg_query = []\<rparr>,
      xp_headers = [(''Authorization'', ''t''), (''Accept'', ''a'')], xp_sensitive_headers = [], xp_body = [], xp_body_uses_secret = False,
      xp_tls = None, xp_tls_profile = None, xp_bindings = [], xp_proxy = None, xp_proxy_header = None, xp_follow = True, xp_max_redirects = 3,
      xp_forward_cross_origin = False, xp_max_retries = 1, xp_version = VersionAuto, xp_early = \<lparr>ed_enabled = False, ed_extra_methods = []\<rparr>,
      xp_cookies = True, xp_routes = \<lparr>rs_tls_profile_id = None, rs_proxy_profile_id = None\<rparr>,
      xp_context = \<lparr>rc_tls_profiles = [], rc_proxy_profiles = [], rc_integrations = []\<rparr>, xp_redaction_names = [], xp_used_secrets = [], xp_isolation = []\<rparr>"

definition demo_redactor :: redactor where
  "demo_redactor = \<lparr>rd_secrets = [], rd_matcher = None, rd_any_case = None, rd_any_case_fallback = [], rd_fallback_patterns = [], rd_extra_names = []\<rparr>"

definition demo_run :: "unit exec_outcome" where
  "demo_run = exec_loop demo_exec demo_prep (initial_state demo_prep AuthNone demo_redactor [''known''] ())"

definition demo_hosts :: "string list" where
  "demo_hosts = map (\<lambda>(plan, _). pl_host plan) (sent_of demo_run)"

lemma demo_run_hosts: "demo_hosts = [''h'', ''g'']"
  by code_simp

theorem credentials_stay_home_witness:
  "\<exists>plan reason out. (plan, reason, out) \<in> set (sent_of demo_run) \<and> pl_host plan = ''g'' \<and> clean_plan demo_exec demo_prep plan"
proof -
  have "''g'' \<in> set demo_hosts" by (simp add: demo_run_hosts)
  then obtain plan reason out where p: "(plan, reason, out) \<in> set (sent_of demo_run)" "pl_host plan = ''g''"
    by (auto simp: demo_hosts_def)
  have "lower ''g'' \<noteq> lower ''h''" by code_simp
  then have "plan_origin plan \<noteq> target_origin (xp_target demo_prep)" using p(2) by (simp add: plan_origin_def target_origin_def demo_prep_def)
  moreover have "\<forall>n n'. re_header_name (hx_route demo_exec) n = Some n' \<longrightarrow> lower n' = lower n" by (simp add: demo_exec_def demo_routes_def)
  moreover have "\<not> xp_forward_cross_origin demo_prep" "tg_scheme (xp_target demo_prep) \<in> {''https'', ''http''}" by (simp_all add: demo_prep_def)
  ultimately have "clean_plan demo_exec demo_prep plan"
    using credentials_stay_home [of demo_exec demo_prep plan reason out AuthNone demo_redactor "[''known'']" "()"] p(1) unfolding demo_run_def by blast
  then show ?thesis using p by blast
qed


end
