(* ===== verification/Contract_Route.thy ===== *)
theory Contract_Route
  imports Json_Patch Net_Addr "HOL-Library.Product_Lexorder"
begin

text \<open>
  Which operation of an API description an observed request is (\<^verbatim>\<open>crates/anvil-contract/src/route.rs\<close>, with the URL helpers
  of \<^verbatim>\<open>observe.rs\<close>): path templates and server base paths as segments, the operations a router lists within its
  byte budget, and the choice among the templates that match.

  The path items of the description, with the operations each has, are an argument (\<open>route_spec\<close>).  Regular expressions
  are their text: escaping, compiling and matching are fields of \<open>regex_crate\<close>.  Hash maps that only find a template
  by its path, or the templates of one length, are searches in the list of templates.
\<close>

section \<open>Segments\<close>

datatype seg = Lit string | Param | Mixed string | Choice "string list"

record regex_crate =
  rg_escape :: "string \<Rightarrow> string"
  rg_valid :: "string \<Rightarrow> bool"
  rg_match :: "string \<Rightarrow> string \<Rightarrow> bool"

fun seg_matches :: "regex_crate \<Rightarrow> seg \<Rightarrow> string \<Rightarrow> bool" where
  "seg_matches R (Lit l) s = (l = s)"
| "seg_matches R Param s = (s \<noteq> [])"
| "seg_matches R (Mixed re) s = rg_match R re s"
| "seg_matches R (Choice vs) s = (s \<in> set vs)"

fun seg_score :: "seg \<Rightarrow> nat" where
  "seg_score (Lit _) = 2"
| "seg_score (Choice _) = 2"
| "seg_score (Mixed _) = 1"
| "seg_score Param = 0"

fun seg_canonical :: "seg \<Rightarrow> string" where
  "seg_canonical (Lit l) = ''l:'' @ l"
| "seg_canonical Param = ''p''"
| "seg_canonical (Mixed re) = ''m:'' @ re"
| "seg_canonical (Choice vs) = ''c:'' @ join_with [CHR 0x00] vs"

fun percent_decode_with_plus :: "bool \<Rightarrow> string \<Rightarrow> string" where
  "percent_decode_with_plus plus_is_space (c # x # y # cs) =
     (case (if c = CHR ''%'' then (hex_val x, hex_val y) else (None, None)) of
        (Some h, Some l) \<Rightarrow> char_of (h * 16 + l) # percent_decode_with_plus plus_is_space cs
      | _ \<Rightarrow> (if plus_is_space \<and> c = CHR ''+'' then CHR '' '' else c) # percent_decode_with_plus plus_is_space (x # y # cs))"
| "percent_decode_with_plus plus_is_space (c # cs) =
     (if plus_is_space \<and> c = CHR ''+'' then CHR '' '' else c) # percent_decode_with_plus plus_is_space cs"
| "percent_decode_with_plus plus_is_space [] = []"

definition percent_decode_path :: "string \<Rightarrow> string" where
  "percent_decode_path s = from_utf8_lossy (percent_decode_with_plus False s)"

text \<open>\<^verbatim>\<open>split('/')\<close> without the empty pieces.\<close>

definition path_pieces :: "string \<Rightarrow> string list" where
  "path_pieces path = filter (\<lambda>s. s \<noteq> []) (split_char CHR ''/'' path)"

text \<open>A segment that mixes text and parameters, as the text of a regular expression.\<close>

function mixed_regex :: "regex_crate \<Rightarrow> string \<Rightarrow> string" where
  "mixed_regex R rest =
     (case position (\<lambda>c. c = CHR ''{'') rest of
        None \<Rightarrow> rg_escape R rest
      | Some open_at \<Rightarrow>
          rg_escape R (take open_at rest)
          @ (case position (\<lambda>c. c = CHR ''}'') (drop open_at rest) of
               Some close_at \<Rightarrow> ''[^/]+'' @ mixed_regex R (drop (open_at + close_at + 1) rest)
             | None \<Rightarrow> rg_escape R (drop open_at rest) @ rg_escape R []))"
  by pat_completeness auto
termination
  by (relation "measure (length \<circ> snd)") (auto dest: position_SomeD)

declare mixed_regex.simps [simp del]

definition parse_segment :: "regex_crate \<Rightarrow> string \<Rightarrow> seg" where
  "parse_segment R s =
     (if CHR ''{'' \<notin> set s then Lit (percent_decode_path s)
      else if hd s = CHR ''{'' \<and> last s = CHR ''}'' \<and> length (filter (\<lambda>c. c = CHR ''{'') s) = 1 then Param
      else (let re = ''^'' @ mixed_regex R s @ ''$'' in if rg_valid R re then Mixed re else Lit s))"

definition parse_segments :: "regex_crate \<Rightarrow> string \<Rightarrow> seg list" where
  "parse_segments R path = map (parse_segment R) (path_pieces path)"

definition server_base :: "string \<Rightarrow> string" where
  "server_base url =
     (let path = (case str_find ''://'' url of Some i \<Rightarrow> dropWhile (\<lambda>c. c \<noteq> CHR ''/'') (drop (i + 3) url) | None \<Rightarrow> url)
      in rev (dropWhile (\<lambda>c. c = CHR ''/'') (rev (takeWhile (\<lambda>c. c \<noteq> CHR ''?'' \<and> c \<noteq> CHR ''#'') path))))"

text \<open>The origin and the path of a URL.\<close>

definition split_url :: "string \<Rightarrow> string option \<times> string" where
  "split_url url =
     (let no_query = takeWhile (\<lambda>c. c \<noteq> CHR ''?'') (takeWhile (\<lambda>c. c \<noteq> CHR ''#'') url)
      in case str_find ''://'' no_query of
           Some i \<Rightarrow>
             (let rest = drop (i + 3) no_query; auth = takeWhile (\<lambda>c. c \<noteq> CHR ''/'') rest; path = dropWhile (\<lambda>c. c \<noteq> CHR ''/'') rest;
                  auth = (case rposition (\<lambda>c. c = CHR ''@'') auth of Some k \<Rightarrow> drop (k + 1) auth | None \<Rightarrow> auth)
              in (Some (map ascii_lower (take i no_query) @ ''://'' @ map ascii_lower auth), if path = [] then ''/'' else path))
         | None \<Rightarrow> (None, if is_prefix_of ''/'' no_query then no_query else ''/'' @ no_query))"

section \<open>Operations and templates\<close>

definition MAX_BASES :: nat where "MAX_BASES = 64"
definition MAX_CHOICES :: nat where "MAX_CHOICES = 64"
definition MAX_ROUTE_BYTES :: nat where "MAX_ROUTE_BYTES = 256 * 1024 * 1024"
definition ROUTE_OPERATION_BYTES :: nat where "ROUTE_OPERATION_BYTES = 512"

text \<open>A path item: its value and pointer, and the method, pointer and object of each of its operations.\<close>

record path_item =
  pi_value :: json
  pi_pointer :: string
  pi_operations :: "(string \<times> string \<times> json) list"

record route_spec =
  rs_items :: "path_item list"
  rs_paths :: "(string \<times> nat) list"
  rs_root :: json
  rs_swagger2 :: bool

record route_entry =
  en_path :: string
  en_item :: nat
  en_op :: nat

record template =
  te_path :: string
  te_segs :: "seg list"
  te_score :: nat
  te_ops :: "nat list"

definition new_template :: "regex_crate \<Rightarrow> string \<Rightarrow> nat list \<Rightarrow> template" where
  "new_template R path ops =
     (let segs = parse_segments R path in \<lparr>te_path = path, te_segs = segs, te_score = sum_list (map seg_score segs), te_ops = ops\<rparr>)"

definition as_string :: "json option \<Rightarrow> string option" where
  "as_string v = (case v of Some (JString s) \<Rightarrow> Some s | _ \<Rightarrow> None)"

definition as_array :: "json option \<Rightarrow> json list" where
  "as_array v = (case v of Some (JArray xs) \<Rightarrow> xs | _ \<Rightarrow> [])"

definition as_members :: "json option \<Rightarrow> (string \<times> json) list" where
  "as_members v = (case v of Some (JObject ms) \<Rightarrow> ms | _ \<Rightarrow> [])"

definition statuses_cost :: "json \<Rightarrow> nat" where
  "statuses_cost op = sum_list (map (\<lambda>(k, _). length k + 24) (as_members (json_get op ''responses'')))"

definition operation_cost :: "string \<Rightarrow> path_item \<Rightarrow> string \<times> string \<times> json \<Rightarrow> nat" where
  "operation_cost path item oper =
     (case oper of (meth, ptr, op) \<Rightarrow>
        ROUTE_OPERATION_BYTES + 4 * (length meth + length path + length ptr) + 2 * length (pi_pointer item) + statuses_cost op)"

text \<open>The operations of one path from the \<open>k\<close>th on: the entries so far, the bytes left and the operations left out.\<close>

fun list_operations ::
    "string \<Rightarrow> nat \<Rightarrow> path_item \<Rightarrow> nat \<Rightarrow> (string \<times> string \<times> json) list \<Rightarrow> route_entry list \<times> nat \<times> nat \<Rightarrow> route_entry list \<times> nat \<times> nat" where
  "list_operations path i item k [] st = st"
| "list_operations path i item k (oper # opers) (es, bytes_left, skipped) =
     (let cost = operation_cost path item oper
      in if 0 < skipped \<or> bytes_left < cost then (es, bytes_left, skipped + length (oper # opers))
         else list_operations path i item (k + 1) opers (es @ [\<lparr>en_path = path, en_item = i, en_op = k\<rparr>], bytes_left - cost, skipped))"

definition list_path :: "path_item list \<Rightarrow> string \<times> nat \<Rightarrow> route_entry list \<times> nat \<times> nat \<Rightarrow> route_entry list \<times> nat \<times> nat" where
  "list_path items p = list_operations (fst p) (snd p) (items ! snd p) 0 (pi_operations (items ! snd p))"

definition list_entries :: "route_spec \<Rightarrow> route_entry list \<times> nat \<times> nat" where
  "list_entries S = fold (list_path (rs_items S)) (rs_paths S) ([], MAX_ROUTE_BYTES, 0)"

definition template_at :: "string \<Rightarrow> template list \<Rightarrow> nat option" where
  "template_at path ts = position (\<lambda>t. te_path t = path) ts"

definition add_entry :: "regex_crate \<Rightarrow> nat \<times> route_entry \<Rightarrow> template list \<Rightarrow> template list" where
  "add_entry R ie ts =
     (case ie of (i, e) \<Rightarrow>
        (case template_at (en_path e) ts of
           Some t \<Rightarrow> ts[t := (ts ! t)\<lparr>te_ops := te_ops (ts ! t) @ [i]\<rparr>]
         | None \<Rightarrow> ts @ [new_template R (en_path e) [i]]))"

definition add_declared :: "regex_crate \<Rightarrow> string \<Rightarrow> template list \<Rightarrow> template list" where
  "add_declared R p ts = (if template_at p ts = None then ts @ [new_template R p []] else ts)"

definition make_templates :: "regex_crate \<Rightarrow> route_spec \<Rightarrow> route_entry list \<Rightarrow> template list" where
  "make_templates R S es =
     fold (add_declared R) (filter (\<lambda>k. \<not> is_prefix_of ''x-'' k) (map fst (as_members (json_get (rs_root S) ''paths''))))
       (fold (add_entry R) (enumerate 0 es) [])"

section \<open>Servers\<close>

definition swagger_urls :: "json \<Rightarrow> (string \<times> json option) list" where
  "swagger_urls root =
     (let base = (case as_string (json_get root ''basePath'') of Some b \<Rightarrow> b | None \<Rightarrow> [])
      in case as_string (json_get root ''host'') of
           Some host \<Rightarrow>
             (let schemes = List.map_filter (\<lambda>v. as_string (Some v)) (as_array (json_get root ''schemes''))
              in map (\<lambda>s. (s @ ''://'' @ host @ base, None)) (if schemes = [] then [''https''] else schemes))
         | None \<Rightarrow> [(base, None)])"

text \<open>The lists of servers: of the description, then of each path item with operations and of its operations, once.\<close>

fun item_servers :: "path_item list \<Rightarrow> nat list \<Rightarrow> nat list \<Rightarrow> json option list" where
  "item_servers items listed [] = []"
| "item_servers items listed (i # is) =
     (if pi_operations (items ! i) = [] \<or> i \<in> set listed then item_servers items listed is
      else json_get (pi_value (items ! i)) ''servers'' # map (\<lambda>(_, _, op). json_get op ''servers'') (pi_operations (items ! i))
           @ item_servers items (i # listed) is)"

definition server_objects :: "route_spec \<Rightarrow> (string \<times> json option) list" where
  "server_objects S =
     concat (map (\<lambda>l. List.map_filter (\<lambda>s. map_option (\<lambda>u. (u, json_get s ''variables'')) (as_string (json_get s ''url''))) (as_array l))
       (json_get (rs_root S) ''servers'' # item_servers (rs_items S) [] (map snd (rs_paths S))))"

text \<open>URLs at their first occurrence, and the later objects of the same URL that have variables.\<close>

fun split_servers :: "(string \<times> json option) list \<Rightarrow> string list \<Rightarrow> (string \<times> json option) list \<times> (string \<times> json option) list" where
  "split_servers [] seen = ([], [])"
| "split_servers ((u, v) # ss) seen =
     (if u \<notin> set seen then (case split_servers ss (u # seen) of (urls, variants) \<Rightarrow> ((u, v) # urls, variants))
      else if v \<noteq> None then (case split_servers ss seen of (urls, variants) \<Rightarrow> (urls, (u, v) # variants))
      else split_servers ss seen)"

definition server_urls :: "route_spec \<Rightarrow> (string \<times> json option) list \<times> (string \<times> json option) list" where
  "server_urls S = (if rs_swagger2 S then (swagger_urls (rs_root S), []) else split_servers (server_objects S) [])"

record route_base =
  ba_loose :: "seg list"
  ba_strict :: "seg list"

definition strict_segment :: "json option \<Rightarrow> string \<times> seg \<Rightarrow> seg" where
  "strict_segment vars rs =
     (case rs of (raw, seg) \<Rightarrow>
        (if seg = Param then
           (let name = rev (dropWhile (\<lambda>c. c = CHR ''}'') (rev (dropWhile (\<lambda>c. c = CHR ''{'') raw)));
                v = Option.bind vars (\<lambda>v. json_get v name)
            in Choice (List.map_filter (\<lambda>x. as_string (Some x)) (as_array (Option.bind v (\<lambda>v. json_get v ''enum'')))
                       @ (case as_string (Option.bind v (\<lambda>v. json_get v ''default'')) of Some d \<Rightarrow> [d] | None \<Rightarrow> [])))
         else seg))"

definition strict_segments :: "regex_crate \<Rightarrow> string \<Rightarrow> json option \<Rightarrow> seg list" where
  "strict_segments R base vars = map (strict_segment vars) (zip (path_pieces base) (parse_segments R base))"

definition add_choice :: "string \<Rightarrow> string list \<Rightarrow> string list" where
  "add_choice v vs = (if length vs < MAX_CHOICES \<and> v \<notin> set vs then vs @ [v] else vs)"

fun merge_strict :: "seg list \<Rightarrow> seg list \<Rightarrow> seg list" where
  "merge_strict (Choice vs # hs) (Choice extra # xs) = Choice (fold add_choice extra vs) # merge_strict hs xs"
| "merge_strict (h # hs) (x # xs) = h # merge_strict hs xs"
| "merge_strict hs _ = hs"

definition base_key :: "seg list \<Rightarrow> string" where
  "base_key loose = join_with ''/'' (map seg_canonical loose)"

definition add_base :: "regex_crate \<Rightarrow> string \<times> json option \<Rightarrow> (string \<times> route_base) list \<times> string list \<Rightarrow> (string \<times> route_base) list \<times> string list" where
  "add_base R uv st =
     (case (uv, st) of ((u, vars), (bs, dropped)) \<Rightarrow>
        (let b = server_base u; loose = parse_segments R b; strict = strict_segments R b vars; key = base_key loose
         in case position (\<lambda>(k, _). k = key) bs of
              Some i \<Rightarrow> (bs[i := (fst (bs ! i), (snd (bs ! i))\<lparr>ba_strict := merge_strict (ba_strict (snd (bs ! i))) strict\<rparr>)], dropped)
            | None \<Rightarrow>
                (if length bs < MAX_BASES then (bs @ [(key, \<lparr>ba_loose = loose, ba_strict = strict\<rparr>)], dropped)
                 else (bs, List.insert u dropped))))"

definition collect_bases :: "regex_crate \<Rightarrow> (string \<times> json option) list \<Rightarrow> (string \<times> route_base) list \<times> string list" where
  "collect_bases R servers = fold (add_base R) servers ([([], \<lparr>ba_loose = [], ba_strict = []\<rparr>)], [])"

function origin_regex :: "regex_crate \<Rightarrow> string \<Rightarrow> string" where
  "origin_regex R r =
     (case position (\<lambda>c. c = CHR ''{'') r of
        None \<Rightarrow> rg_escape R (map ascii_lower r)
      | Some open_at \<Rightarrow>
          rg_escape R (map ascii_lower (take open_at r)) @ ''[^/.:]+''
          @ origin_regex R (drop (case position (\<lambda>c. c = CHR ''}'') (drop open_at r) of Some c \<Rightarrow> open_at + c + 1 | None \<Rightarrow> length r) r))"
  by pat_completeness auto
termination
  by (relation "measure (length \<circ> snd)") (auto dest: position_SomeD split: option.splits)

declare origin_regex.simps [simp del]

definition server_origin :: "regex_crate \<Rightarrow> string \<Rightarrow> string option" where
  "server_origin R u =
     (case str_find ''://'' u of
        None \<Rightarrow> None
      | Some i \<Rightarrow>
          (let re = ''^'' @ rg_escape R (map ascii_lower (take i u)) @ ''://'' @ origin_regex R (takeWhile (\<lambda>c. c \<noteq> CHR ''/'') (drop (i + 3) u)) @ ''$''
           in if rg_valid R re then Some re else None))"

section \<open>The router\<close>

record router =
  ro_spec :: route_spec
  ro_entries :: "route_entry list"
  ro_templates :: "template list"
  ro_bases :: "route_base list"
  ro_servers :: "(string \<times> string option) list"
  ro_dropped_servers :: nat
  ro_skipped_operations :: nat

definition new_router :: "regex_crate \<Rightarrow> route_spec \<Rightarrow> router" where
  "new_router R S =
     (case list_entries S of (es, _, skipped) \<Rightarrow>
        (case server_urls S of (urls, variants) \<Rightarrow>
           (case collect_bases R (urls @ variants) of (bs, dropped) \<Rightarrow>
              \<lparr>ro_spec = S, ro_entries = es, ro_templates = make_templates R S es,
               ro_bases = sort_key (\<lambda>b. - int (length (ba_loose b))) (map snd bs),
               ro_servers = map (\<lambda>(u, _). (u, server_origin R u)) urls, ro_dropped_servers = length dropped, ro_skipped_operations = skipped\<rparr>)))"

definition operation_at :: "router \<Rightarrow> nat \<Rightarrow> string \<times> string \<times> json" where
  "operation_at rt i = (let e = ro_entries rt ! i in pi_operations (rs_items (ro_spec rt) ! en_item e) ! en_op e)"

definition method_of :: "router \<Rightarrow> nat \<Rightarrow> string" where
  "method_of rt i = fst (operation_at rt i)"

definition upper_text :: "string \<Rightarrow> string" where
  "upper_text = map (\<lambda>c. if 97 \<le> byte c \<and> byte c \<le> 122 then char_of (byte c - 32) else c)"

definition operation_key :: "string option \<Rightarrow> string \<Rightarrow> string \<Rightarrow> string" where
  "operation_key oid meth path = (case oid of Some k \<Rightarrow> k | None \<Rightarrow> upper_text meth @ '' '' @ path)"

definition key_of :: "router \<Rightarrow> nat \<Rightarrow> string" where
  "key_of rt i = operation_key (as_string (json_get (snd (snd (operation_at rt i))) ''operationId'')) (method_of rt i) (en_path (ro_entries rt ! i))"

definition methods_of :: "router \<Rightarrow> string \<Rightarrow> string list" where
  "methods_of rt path =
     (case template_at path (ro_templates rt) of Some t \<Rightarrow> map (\<lambda>i. upper_text (method_of rt i)) (te_ops (ro_templates rt ! t)) | None \<Rightarrow> [])"

definition strip_dup :: "string \<Rightarrow> string" where
  "strip_dup k =
     (case rposition (\<lambda>c. c = CHR ''#'') k of
        Some i \<Rightarrow> if list_all is_digit (drop (i + 1) k) \<and> drop (i + 1) k \<noteq> [] then take i k else k
      | None \<Rightarrow> k)"

definition segs_match :: "regex_crate \<Rightarrow> seg list \<Rightarrow> string list \<Rightarrow> bool" where
  "segs_match R segs rest \<longleftrightarrow> list_all (\<lambda>(s, r). seg_matches R s r) (zip segs rest)"

definition base_declared :: "regex_crate \<Rightarrow> router \<Rightarrow> string \<Rightarrow> bool" where
  "base_declared R rt base =
     (let segs = map percent_decode_path (path_pieces base)
      in list_ex (\<lambda>b. length (ba_strict b) = length segs \<and> segs_match R (ba_strict b) segs) (ro_bases rt))"

definition origin_declared :: "regex_crate \<Rightarrow> router \<Rightarrow> string \<Rightarrow> bool option" where
  "origin_declared R rt origin_text =
     (let absolute = List.map_filter snd (ro_servers rt) in if absolute = [] then None else Some (list_ex (\<lambda>re. rg_match R re origin_text) absolute))"

section \<open>Routing\<close>

type_synonym pick = "nat \<times> nat \<times> nat \<times> string"

definition hinted :: "router \<Rightarrow> string option \<Rightarrow> nat \<Rightarrow> bool" where
  "hinted rt hint i = (case hint of Some h \<Rightarrow> list_ex (\<lambda>k. key_of rt k = strip_dup h) (te_ops (ro_templates rt ! i)) | None \<Rightarrow> False)"

definition is_better :: "router \<Rightarrow> string option \<Rightarrow> nat \<Rightarrow> nat \<Rightarrow> nat \<Rightarrow> pick option \<Rightarrow> bool" where
  "is_better rt hint lits base_len ti best =
     (case best of
        None \<Rightarrow> True
      | Some (bl, bb, bt, _) \<Rightarrow> bl < lits \<or> bl = lits \<and> bb < base_len \<or> lits = bl \<and> base_len = bb \<and> hinted rt hint ti \<and> \<not> hinted rt hint bt)"

definition consider_template :: "regex_crate \<Rightarrow> router \<Rightarrow> string option \<Rightarrow> nat \<Rightarrow> string \<Rightarrow> string list \<Rightarrow> nat \<Rightarrow> pick option \<Rightarrow> pick option" where
  "consider_template R rt hint base_len base rest ti best =
     (let t = ro_templates rt ! ti
      in if segs_match R (te_segs t) rest \<and> is_better rt hint (te_score t) base_len ti best then Some (te_score t, base_len, ti, base) else best)"

definition templates_of_length :: "router \<Rightarrow> nat \<Rightarrow> nat list" where
  "templates_of_length rt n = filter (\<lambda>i. length (te_segs (ro_templates rt ! i)) = n) [0..<length (ro_templates rt)]"

definition base_text :: "string list \<Rightarrow> nat \<Rightarrow> string" where
  "base_text segs n = (if n = 0 then [] else ''/'' @ join_with ''/'' (take n segs))"

definition base_fits :: "regex_crate \<Rightarrow> seg list \<Rightarrow> string list \<Rightarrow> bool" where
  "base_fits R bsegs rest \<longleftrightarrow> length bsegs \<le> length rest \<and> segs_match R bsegs rest"

definition try_base :: "regex_crate \<Rightarrow> router \<Rightarrow> string option \<Rightarrow> string list \<Rightarrow> nat \<Rightarrow> route_base \<Rightarrow> pick option \<Rightarrow> pick option" where
  "try_base R rt hint segs k b best =
     (if base_fits R (ba_loose b) (drop k segs) then
        (let n = k + length (ba_loose b); rest = drop n segs
         in fold (consider_template R rt hint (length (ba_loose b)) (base_text segs n) rest) (templates_of_length rt (length rest)) best)
      else best)"

fun try_prefixes :: "regex_crate \<Rightarrow> router \<Rightarrow> string option \<Rightarrow> string list \<Rightarrow> nat list \<Rightarrow> pick option" where
  "try_prefixes R rt hint segs [] = None"
| "try_prefixes R rt hint segs (k # ks) =
     (case fold (try_base R rt hint segs k) (ro_bases rt) None of Some p \<Rightarrow> Some p | None \<Rightarrow> try_prefixes R rt hint segs ks)"

definition pick_template :: "regex_crate \<Rightarrow> router \<Rightarrow> string option \<Rightarrow> string list \<Rightarrow> pick option" where
  "pick_template R rt hint segs = try_prefixes R rt hint segs [0..<min 3 (length segs - 1) + 1]"

definition assumed_base_at :: "regex_crate \<Rightarrow> router \<Rightarrow> string list \<Rightarrow> nat \<Rightarrow> string option" where
  "assumed_base_at R rt segs k =
     map_option (\<lambda>b. ''/'' @ join_with ''/'' (take (k + length b) segs))
       (find (\<lambda>b. b \<noteq> [] \<and> base_fits R b (drop k segs)) (map ba_strict (ro_bases rt)))"

definition assumed_base :: "regex_crate \<Rightarrow> router \<Rightarrow> string list \<Rightarrow> string" where
  "assumed_base R rt segs = (case List.map_filter (assumed_base_at R rt segs) [0..<min 3 (length segs) + 1] of b # _ \<Rightarrow> b | [] \<Rightarrow> [])"

datatype route_result = RouteOperation nat string string | RouteMethod string string | RoutePath string

definition find_method :: "router \<Rightarrow> template \<Rightarrow> string \<Rightarrow> nat option" where
  "find_method rt t m = find (\<lambda>i. method_of rt i = m) (te_ops t)"

definition operation_for :: "router \<Rightarrow> template \<Rightarrow> string \<Rightarrow> nat option" where
  "operation_for rt t meth =
     (case find_method rt t meth of Some i \<Rightarrow> Some i | None \<Rightarrow> if meth = ''head'' then find_method rt t ''get'' else None)"

definition request_segments :: "string \<Rightarrow> string list" where
  "request_segments url = map percent_decode_path (path_pieces (snd (split_url url)))"

definition route :: "regex_crate \<Rightarrow> router \<Rightarrow> string \<Rightarrow> string \<Rightarrow> string option \<Rightarrow> route_result" where
  "route R rt meth url hint =
     (let segs = request_segments url
      in case pick_template R rt hint segs of
           None \<Rightarrow> RoutePath (assumed_base R rt segs)
         | Some (_, _, ti, base) \<Rightarrow>
             (let t = ro_templates rt ! ti
              in case operation_for rt t (map ascii_lower meth) of
                   Some i \<Rightarrow> RouteOperation i (te_path t) base
                 | None \<Rightarrow> RouteMethod (te_path t) base))"

section \<open>The first of the best\<close>

text \<open>A left-to-right choice of the first element of largest rank.\<close>

definition take_best :: "('a \<Rightarrow> 'k :: linorder) \<Rightarrow> 'a \<Rightarrow> 'a option \<Rightarrow> 'a option" where
  "take_best f c best = (case best of None \<Rightarrow> Some c | Some d \<Rightarrow> if f d < f c then Some c else best)"

definition first_best :: "('a \<Rightarrow> 'k :: linorder) \<Rightarrow> 'a list \<Rightarrow> 'a \<Rightarrow> bool" where
  "first_best f xs c \<longleftrightarrow> (\<exists>as bs. xs = as @ c # bs \<and> (\<forall>a \<in> set as. f a < f c) \<and> (\<forall>b \<in> set bs. f b \<le> f c))"

lemma first_best_snoc:
  assumes "first_best f xs d"
  shows "first_best f (xs @ [c]) (if f d < f c then c else d)"
proof -
  obtain as bs where xs: "xs = as @ d # bs" "\<forall>a \<in> set as. f a < f d" "\<forall>b \<in> set bs. f b \<le> f d" using assms by (auto simp: first_best_def)
  show ?thesis
  proof (cases "f d < f c")
    case True
    then have "\<forall>a \<in> set (as @ d # bs). f a < f c" using xs by fastforce
    then show ?thesis using True xs(1) unfolding first_best_def by (intro exI [of _ "as @ d # bs"] exI [of _ "[]"]) simp
  next
    case False
    then show ?thesis using xs unfolding first_best_def by (intro exI [of _ as] exI [of _ "bs @ [c]"]) auto
  qed
qed

lemma take_best_simps [simp]: "take_best f c None = Some c" "take_best f c (Some d) = Some (if f d < f c then c else d)"
  by (simp_all add: take_best_def)

lemma fold_take_best: "case fold (take_best f) xs None of None \<Rightarrow> xs = [] | Some c \<Rightarrow> first_best f xs c"
proof (induction xs rule: rev_induct)
  case (snoc c xs)
  show ?case
  proof (cases "fold (take_best f) xs None")
    case None
    then have "xs = []" using snoc by simp
    then show ?thesis by (auto simp: first_best_def intro!: exI [of _ "[]"])
  next
    case (Some d)
    then show ?thesis using snoc first_best_snoc [of f xs d c] by simp
  qed
qed simp

text \<open>The templates that match after a prefix of \<open>k\<close> segments and a declared base path: the base's length, the template
  and the base.\<close>

definition candidates_at :: "regex_crate \<Rightarrow> router \<Rightarrow> string list \<Rightarrow> nat \<Rightarrow> route_base \<Rightarrow> (nat \<times> nat \<times> string) list" where
  "candidates_at R rt segs k b =
     (if base_fits R (ba_loose b) (drop k segs) then
        (let n = k + length (ba_loose b)
         in map (\<lambda>ti. (length (ba_loose b), ti, base_text segs n))
              (filter (\<lambda>ti. segs_match R (te_segs (ro_templates rt ! ti)) (drop n segs)) (templates_of_length rt (length (drop n segs)))))
      else [])"

definition route_candidates :: "regex_crate \<Rightarrow> router \<Rightarrow> string list \<Rightarrow> nat \<Rightarrow> (nat \<times> nat \<times> string) list" where
  "route_candidates R rt segs k = concat (map (candidates_at R rt segs k) (ro_bases rt))"

text \<open>How good a candidate is: how specific its template is, then how long its base, then whether it is the hinted operation's.\<close>

definition route_rank :: "router \<Rightarrow> string option \<Rightarrow> nat \<times> nat \<times> string \<Rightarrow> nat \<times> nat \<times> nat" where
  "route_rank rt hint c = (case c of (bl, ti, _) \<Rightarrow> (te_score (ro_templates rt ! ti), bl, if hinted rt hint ti then 1 else 0))"

definition as_pick :: "router \<Rightarrow> nat \<times> nat \<times> string \<Rightarrow> pick" where
  "as_pick rt c = (case c of (bl, ti, base) \<Rightarrow> (te_score (ro_templates rt ! ti), bl, ti, base))"

lemma is_better_rank:
  "is_better rt hint (te_score (ro_templates rt ! ti)) bl ti (map_option (as_pick rt) best)
   = (case best of None \<Rightarrow> True | Some d \<Rightarrow> route_rank rt hint d < route_rank rt hint (bl, ti, base))"
  by (auto simp: is_better_def as_pick_def route_rank_def split: option.splits prod.splits)

lemma consider_step:
  "consider_template R rt hint bl base rest ti (map_option (as_pick rt) best)
   = map_option (as_pick rt) (if segs_match R (te_segs (ro_templates rt ! ti)) rest then take_best (route_rank rt hint) (bl, ti, base) best else best)"
  unfolding consider_template_def Let_def is_better_rank [of rt hint ti bl best base]
  by (cases best) (auto simp: take_best_def as_pick_def)

lemma fold_consider:
  "fold (consider_template R rt hint bl base rest) tis (map_option (as_pick rt) best)
   = map_option (as_pick rt) (fold (take_best (route_rank rt hint))
       (map (\<lambda>ti. (bl, ti, base)) (filter (\<lambda>ti. segs_match R (te_segs (ro_templates rt ! ti)) rest) tis)) best)"
  by (induction tis arbitrary: best) (simp_all add: consider_step)

lemma fold_try_base:
  "fold (try_base R rt hint segs k) bs (map_option (as_pick rt) best)
   = map_option (as_pick rt) (fold (take_best (route_rank rt hint)) (concat (map (candidates_at R rt segs k) bs)) best)"
proof (induction bs arbitrary: best)
  case (Cons b bs)
  have "try_base R rt hint segs k b (map_option (as_pick rt) best)
      = map_option (as_pick rt) (fold (take_best (route_rank rt hint)) (candidates_at R rt segs k b) best)"
    by (simp add: try_base_def candidates_at_def Let_def fold_consider)
  then show ?case using Cons by simp
qed simp

lemma prefix_pick:
  "case fold (try_base R rt hint segs k) (ro_bases rt) None of
     None \<Rightarrow> route_candidates R rt segs k = []
   | Some p \<Rightarrow> (\<exists>c. p = as_pick rt c \<and> first_best (route_rank rt hint) (route_candidates R rt segs k) c)"
  using fold_try_base [of R rt hint segs k "ro_bases rt" None] fold_take_best [where f = "route_rank rt hint" and xs = "route_candidates R rt segs k"]
  by (auto simp: route_candidates_def split: option.splits)

lemma try_prefixes_pick:
  assumes "sorted_wrt (<) ks"
  shows "case try_prefixes R rt hint segs ks of
     None \<Rightarrow> (\<forall>k \<in> set ks. route_candidates R rt segs k = [])
   | Some p \<Rightarrow> (\<exists>k \<in> set ks. \<exists>c. p = as_pick rt c \<and> first_best (route_rank rt hint) (route_candidates R rt segs k) c
       \<and> (\<forall>j \<in> set ks. j < k \<longrightarrow> route_candidates R rt segs j = []))"
  using assms
proof (induction ks)
  case (Cons k ks)
  have first: "\<forall>j \<in> set (k # ks). j < k \<longrightarrow> route_candidates R rt segs j = []" using Cons.prems by auto
  note here = prefix_pick [where R = R and rt = rt and hint = hint and segs = segs and k = k]
  show ?case
  proof (cases "fold (try_base R rt hint segs k) (ro_bases rt) None")
    case None
    then have none: "route_candidates R rt segs k = []" using here by simp
    have "case try_prefixes R rt hint segs ks of
        None \<Rightarrow> (\<forall>k \<in> set ks. route_candidates R rt segs k = [])
      | Some p \<Rightarrow> (\<exists>k \<in> set ks. \<exists>c. p = as_pick rt c \<and> first_best (route_rank rt hint) (route_candidates R rt segs k) c
          \<and> (\<forall>j \<in> set ks. j < k \<longrightarrow> route_candidates R rt segs j = []))" using Cons by simp
    then show ?thesis using None none by (cases "try_prefixes R rt hint segs ks") auto
  next
    case (Some p)
    then obtain c where "p = as_pick rt c" "first_best (route_rank rt hint) (route_candidates R rt segs k) c" using here by auto
    then have "\<exists>c. p = as_pick rt c \<and> first_best (route_rank rt hint) (route_candidates R rt segs k) c
        \<and> (\<forall>j \<in> set (k # ks). j < k \<longrightarrow> route_candidates R rt segs j = [])" using first by blast
    then show ?thesis using Some by auto
  qed
qed simp

lemma pick_template_spec:
  "case pick_template R rt hint segs of
     None \<Rightarrow> (\<forall>k \<le> min 3 (length segs - 1). route_candidates R rt segs k = [])
   | Some p \<Rightarrow> (\<exists>k c. k \<le> min 3 (length segs - 1) \<and> p = as_pick rt c \<and> first_best (route_rank rt hint) (route_candidates R rt segs k) c
       \<and> (\<forall>j < k. route_candidates R rt segs j = []))"
proof -
  define ks where "ks = [0..<min 3 (length segs - 1) + 1]"
  have ks: "set ks = {k. k \<le> min 3 (length segs - 1)}" by (auto simp: ks_def)
  have sorted: "sorted_wrt (<) ks" unfolding ks_def by (rule sorted_wrt_upt)
  from try_prefixes_pick [OF sorted, where R = R and rt = rt and hint = hint and segs = segs] show ?thesis
    unfolding pick_template_def ks_def [symmetric] ks by (cases "try_prefixes R rt hint segs ks") fastforce+
qed

text \<open>
  C29.  A request is attributed to the most specific declared path.  A route without a path is given exactly when no
  template matches behind any base, with up to three segments in front of it.  Otherwise the template is the first, in
  the order of the bases and of the description, of those with the most literal text, then the longest base, then the hinted
  operation, among those that match behind the fewest segments of unknown prefix.
\<close>

theorem route_most_specific:
  fixes R rt meth url hint
  defines "segs \<equiv> request_segments url"
  shows "if \<forall>k \<le> min 3 (length segs - 1). route_candidates R rt segs k = [] then route R rt meth url hint = RoutePath (assumed_base R rt segs)
    else \<exists>k bl ti base. k \<le> min 3 (length segs - 1) \<and> (\<forall>j < k. route_candidates R rt segs j = [])
      \<and> first_best (route_rank rt hint) (route_candidates R rt segs k) (bl, ti, base)
      \<and> route R rt meth url hint =
          (case operation_for rt (ro_templates rt ! ti) (map ascii_lower meth) of
             Some i \<Rightarrow> RouteOperation i (te_path (ro_templates rt ! ti)) base
           | None \<Rightarrow> RouteMethod (te_path (ro_templates rt ! ti)) base)"
proof -
  note found = pick_template_spec [where R = R and rt = rt and hint = hint and segs = segs]
  have none: "first_best (route_rank rt hint) [] c \<Longrightarrow> False" for c by (simp add: first_best_def)
  show ?thesis
  proof (cases "pick_template R rt hint segs")
    case None
    then have "\<forall>k \<le> min 3 (length segs - 1). route_candidates R rt segs k = []"
      using found by simp
    then show ?thesis using None by (simp add: route_def Let_def segs_def)
  next
    case (Some p)
    then obtain k c where k: "k \<le> min 3 (length segs - 1)" "p = as_pick rt c" "first_best (route_rank rt hint) (route_candidates R rt segs k) c"
        "\<forall>j < k. route_candidates R rt segs j = []"
      using found by fastforce
    obtain bl ti base where c: "c = (bl, ti, base)" by (cases c)
    have "route_candidates R rt segs k \<noteq> []" using k(3) none by metis
    then have "\<not> (\<forall>k \<le> min 3 (length segs - 1). route_candidates R rt segs k = [])" using k(1) by blast
    moreover have "route R rt meth url hint = (case operation_for rt (ro_templates rt ! ti) (map ascii_lower meth) of
             Some i \<Rightarrow> RouteOperation i (te_path (ro_templates rt ! ti)) base
           | None \<Rightarrow> RouteMethod (te_path (ro_templates rt ! ti)) base)"
      using Some k(2) c by (simp add: route_def Let_def segs_def as_pick_def)
    ultimately show ?thesis using k c by auto
  qed
qed

section \<open>The operations that are listed\<close>

definition path_entries :: "path_item list \<Rightarrow> string \<times> nat \<Rightarrow> route_entry list" where
  "path_entries items p = map (\<lambda>k. \<lparr>en_path = fst p, en_item = snd p, en_op = k\<rparr>) [0..<length (pi_operations (items ! snd p))]"

definition all_entries :: "route_spec \<Rightarrow> route_entry list" where
  "all_entries S = concat (map (path_entries (rs_items S)) (rs_paths S))"

definition entry_cost :: "path_item list \<Rightarrow> route_entry \<Rightarrow> nat" where
  "entry_cost items e = operation_cost (en_path e) (items ! en_item e) (pi_operations (items ! en_item e) ! en_op e)"

text \<open>A listing of some operations: those that fit, in order, then only a count.\<close>

definition listed :: "path_item list \<Rightarrow> route_entry list \<Rightarrow> route_entry list \<times> nat \<times> nat \<Rightarrow> bool" where
  "listed items all st \<longleftrightarrow>
     (case st of (es, bytes_left, skipped) \<Rightarrow>
        es = take (length es) all \<and> length es + skipped = length all
        \<and> sum_list (map (entry_cost items) es) + bytes_left = MAX_ROUTE_BYTES
        \<and> (0 < skipped \<longrightarrow> bytes_left < entry_cost items (all ! length es)))"

lemma listed_skip:
  assumes "listed items all (es, bytes_left, skipped)" "0 < skipped"
  shows "listed items (all @ xs) (es, bytes_left, skipped + length xs)"
  using assms by (auto simp: listed_def nth_append)

lemma listed_operations:
  assumes "listed items all st" "opers = drop k (pi_operations (items ! i))" "k \<le> length (pi_operations (items ! i))"
  shows "listed items (all @ map (\<lambda>j. \<lparr>en_path = path, en_item = i, en_op = j\<rparr>) [k..<length (pi_operations (items ! i))])
    (list_operations path i (items ! i) k opers st)"
  using assms
proof (induction path i "items ! i" k opers st arbitrary: all rule: list_operations.induct)
  case (1 path i k st)
  then show ?case by simp
next
  case (2 path i k oper opers es bytes_left skipped)
  let ?ops = "pi_operations (items ! i)" and ?e = "\<lambda>j. \<lparr>en_path = path, en_item = i, en_op = j\<rparr>"
  have k: "k < length ?ops" using 2 by (metis drop_eq_Nil leI list.distinct(1))
  have oper: "oper = ?ops ! k" "opers = drop (Suc k) ?ops" using 2(3) k by (metis Cons_nth_drop_Suc list.inject)+
  have cost: "entry_cost items (?e k) = operation_cost path (items ! i) oper" by (simp add: entry_cost_def oper)
  have split: "map ?e [k..<length ?ops] = ?e k # map ?e [Suc k..<length ?ops]" using k by (simp add: upt_conv_Cons)
  have len: "length (oper # opers) = length (map ?e [k..<length ?ops])" using oper k by simp
  show ?case
  proof (cases "0 < skipped \<or> bytes_left < operation_cost path (items ! i) oper")
    case True
    then have r: "list_operations path i (items ! i) k (oper # opers) (es, bytes_left, skipped)
        = (es, bytes_left, skipped + length (map ?e [k..<length ?ops]))" using len by (simp add: Let_def)
    show ?thesis
    proof (cases "0 < skipped")
      case True
      then show ?thesis unfolding r by (rule listed_skip [OF 2(2)])
    next
      case False
      with True have "skipped = 0" "bytes_left < entry_cost items (?e k)" using cost by auto
      then show ?thesis unfolding r using 2(2) split by (auto simp: listed_def)
    qed
  next
    case False
    then have "listed items (all @ [?e k]) (es @ [?e k], bytes_left - operation_cost path (items ! i) oper, skipped)"
      using 2(2) cost by (auto simp: listed_def)
    from 2(1) [OF refl _ this] False oper k show ?thesis by (simp add: Let_def split)
  qed
qed

lemma listed_paths:
  assumes "listed items all st"
  shows "listed items (all @ concat (map (path_entries items) ps)) (fold (list_path items) ps st)"
  using assms
proof (induction ps arbitrary: all st)
  case (Cons p ps)
  have "listed items (all @ path_entries items p) (list_path items p st)"
    using listed_operations [OF Cons.prems, of "pi_operations (items ! snd p)" 0 "snd p" "fst p"] by (simp add: list_path_def path_entries_def)
  from Cons.IH [OF this] show ?case by simp
qed simp

text \<open>
  C31.  No operation disappears from a router.  The operations it lists are the first of the description, in its order; the
  others are counted.  What the listed ones cost is within the byte budget, and an operation is only left out when the
  first one left out would not have fitted.
\<close>

theorem operations_listed:
  fixes R S
  defines "rt \<equiv> new_router R S"
  shows "ro_entries rt = take (length (ro_entries rt)) (all_entries S)
    \<and> length (ro_entries rt) + ro_skipped_operations rt = length (all_entries S)
    \<and> sum_list (map (entry_cost (rs_items S)) (ro_entries rt)) \<le> MAX_ROUTE_BYTES
    \<and> (0 < ro_skipped_operations rt \<longrightarrow>
        MAX_ROUTE_BYTES < sum_list (map (entry_cost (rs_items S)) (take (length (ro_entries rt) + 1) (all_entries S))))"
proof -
  obtain es bytes_left skipped where l: "list_entries S = (es, bytes_left, skipped)" by (cases "list_entries S")
  have rt: "ro_entries rt = es" "ro_skipped_operations rt = skipped" by (auto simp: rt_def new_router_def l split: prod.splits)
  have "listed (rs_items S) [] ([], MAX_ROUTE_BYTES, 0)" by (simp add: listed_def)
  from listed_paths [OF this, of "rs_paths S"]
  have st: "es = take (length es) (all_entries S)" "length es + skipped = length (all_entries S)"
      "sum_list (map (entry_cost (rs_items S)) es) + bytes_left = MAX_ROUTE_BYTES"
      "0 < skipped \<longrightarrow> bytes_left < entry_cost (rs_items S) (all_entries S ! length es)"
    using l by (simp_all add: listed_def list_entries_def all_entries_def)
  have "take (length es + 1) (all_entries S) = es @ [all_entries S ! length es]" if "0 < skipped"
    using that st(1,2) by (metis Suc_eq_plus1 less_add_same_cancel1 take_Suc_conv_app_nth)
  then show ?thesis using st rt by auto
qed

section \<open>A routed operation is the declared one\<close>

definition template_ok :: "regex_crate \<Rightarrow> route_entry list \<Rightarrow> nat \<Rightarrow> template \<Rightarrow> bool" where
  "template_ok R es n t \<longleftrightarrow> te_segs t = parse_segments R (te_path t) \<and> te_ops t = filter (\<lambda>i. en_path (es ! i) = te_path t) [0..<n]"

definition templates_ok :: "regex_crate \<Rightarrow> route_entry list \<Rightarrow> nat \<Rightarrow> template list \<Rightarrow> bool" where
  "templates_ok R es n ts \<longleftrightarrow> distinct (map te_path ts) \<and> list_all (template_ok R es n) ts \<and> (\<forall>i < n. en_path (es ! i) \<in> te_path ` set ts)"

lemma template_ok_new: "(\<forall>i < n. en_path (es ! i) \<noteq> path) \<Longrightarrow> template_ok R es n (new_template R path [])"
  by (simp add: template_ok_def new_template_def Let_def filter_empty_conv)

lemma template_at_None: "template_at path ts = None \<longleftrightarrow> path \<notin> te_path ` set ts"
  by (auto simp: template_at_def position_None)

lemma add_entry_ok:
  assumes "templates_ok R es n ts"
  shows "templates_ok R es (Suc n) (add_entry R (n, es ! n) ts)"
proof (cases "template_at (en_path (es ! n)) ts")
  case None
  then have new: "en_path (es ! n) \<notin> te_path ` set ts" by (simp add: template_at_None)
  have "template_ok R es (Suc n) t" if "t \<in> set ts" for t
    using that assms new by (auto simp: templates_ok_def list_all_iff template_ok_def)
  moreover have "\<forall>i < n. en_path (es ! i) \<noteq> en_path (es ! n)" using assms new unfolding templates_ok_def by metis
  then have "template_ok R es (Suc n) (new_template R (en_path (es ! n)) [n])"
    by (simp add: template_ok_def new_template_def Let_def filter_empty_conv)
  ultimately show ?thesis using assms new None
    by (auto simp: templates_ok_def add_entry_def list_all_iff new_template_def Let_def less_Suc_eq)
next
  case (Some k)
  then have k: "k < length ts" "te_path (ts ! k) = en_path (es ! n)" by (auto simp: template_at_def dest: position_SomeD)
  define t' where "t' = (ts ! k)\<lparr>te_ops := te_ops (ts ! k) @ [n]\<rparr>"
  have ts': "add_entry R (n, es ! n) ts = ts[k := t']" by (simp add: add_entry_def Some t'_def)
  have d: "distinct (map te_path ts)" and ok: "\<And>t. t \<in> set ts \<Longrightarrow> template_ok R es n t" and all: "\<forall>i < n. en_path (es ! i) \<in> te_path ` set ts"
    using assms by (auto simp: templates_ok_def list_all_iff)
  have paths: "map te_path (ts[k := t']) = map te_path ts" using k(1) by (simp add: map_update t'_def list_update_same_conv)
  have "template_ok R es (Suc n) ((ts[k := t']) ! j)" if j: "j < length ts" for j
  proof (cases "j = k")
    case True
    then show ?thesis using ok [of "ts ! k"] k by (simp add: t'_def template_ok_def)
  next
    case False
    then have "te_path (ts ! j) \<noteq> en_path (es ! n)" using d j k by (metis (no_types) distinct_conv_nth length_map nth_map)
    then show ?thesis using ok [of "ts ! j"] j False by (simp add: template_ok_def)
  qed
  then have "list_all (template_ok R es (Suc n)) (ts[k := t'])" by (auto simp: list_all_length)
  moreover have "te_path ` set (ts[k := t']) = te_path ` set ts" by (metis paths set_map)
  moreover have "en_path (es ! n) \<in> te_path ` set ts" using k by (metis image_eqI nth_mem)
  ultimately show ?thesis using d all paths unfolding ts' templates_ok_def by (auto simp: less_Suc_eq)
qed

lemma add_entries_ok: "n \<le> length es \<Longrightarrow> templates_ok R es n (fold (add_entry R) (take n (enumerate 0 es)) [])"
proof (induction n)
  case 0
  show ?case by (simp add: templates_ok_def)
next
  case (Suc n)
  then have "take (Suc n) (enumerate 0 es) = take n (enumerate 0 es) @ [(n, es ! n)]"
    by (simp add: take_Suc_conv_app_nth nth_enumerate_eq)
  then show ?case using Suc add_entry_ok by simp
qed

lemma add_declared_ok:
  assumes "templates_ok R es (length es) ts"
  shows "templates_ok R es (length es) (fold (add_declared R) ps ts)"
  using assms
proof (induction ps arbitrary: ts)
  case (Cons p ps)
  have "templates_ok R es (length es) (add_declared R p ts)"
  proof (cases "p \<in> te_path ` set ts")
    case True
    then show ?thesis using Cons.prems by (simp add: add_declared_def template_at_None)
  next
    case False
    then have "\<forall>i < length es. en_path (es ! i) \<noteq> p" using Cons.prems by (auto simp: templates_ok_def)
    then have "template_ok R es (length es) (new_template R p [])" by (rule template_ok_new)
    then show ?thesis using Cons.prems False
      by (auto simp: templates_ok_def add_declared_def template_at_None new_template_def Let_def)
  qed
  then show ?case using Cons.IH by simp
qed simp

lemma router_templates_ok:
  fixes R S
  defines "rt \<equiv> new_router R S"
  shows "templates_ok R (ro_entries rt) (length (ro_entries rt)) (ro_templates rt)"
proof -
  have "ro_templates rt = make_templates R S (ro_entries rt)" by (simp add: rt_def new_router_def split: prod.splits)
  moreover have "templates_ok R es (length es) (fold (add_entry R) (enumerate 0 es) [])" for es
    using add_entries_ok [of "length es" es R] by simp
  ultimately show ?thesis unfolding make_templates_def using add_declared_ok by metis
qed

lemma candidate_matches:
  assumes "(bl, ti, base) \<in> set (route_candidates R rt segs k)" "k \<le> length segs"
  shows "ti < length (ro_templates rt) \<and> (\<exists>n \<le> length segs. base = base_text segs n
    \<and> length (te_segs (ro_templates rt ! ti)) = length segs - n \<and> segs_match R (te_segs (ro_templates rt ! ti)) (drop n segs))"
proof -
  obtain b where b: "(bl, ti, base) \<in> set (candidates_at R rt segs k b)" using assms by (auto simp: route_candidates_def)
  let ?n = "k + length (ba_loose b)"
  have f: "base_fits R (ba_loose b) (drop k segs)" using b by (auto simp: candidates_at_def split: if_splits)
  then have t: "ti < length (ro_templates rt)" "base = base_text segs ?n" "length (te_segs (ro_templates rt ! ti)) = length segs - ?n"
      "segs_match R (te_segs (ro_templates rt ! ti)) (drop ?n segs)"
    using b by (auto simp: candidates_at_def Let_def templates_of_length_def)
  have "?n \<le> length segs" using f assms(2) by (auto simp: base_fits_def)
  then show ?thesis using t by blast
qed

text \<open>
  C30.  The operation a request is attributed to is one the router lists, for its own method (or for \<open>get\<close> when the request
  is a \<open>HEAD\<close>), under the path that is reported, and the segments of the request behind the reported base match that path's.
\<close>

theorem routed_operation_declared:
  assumes "route R (new_router R S) meth url hint = RouteOperation i path base"
  defines "rt \<equiv> new_router R S" and "segs \<equiv> request_segments url"
  shows "i < length (ro_entries rt) \<and> en_path (ro_entries rt ! i) = path
    \<and> (method_of rt i = map ascii_lower meth \<or> map ascii_lower meth = ''head'' \<and> method_of rt i = ''get'')
    \<and> (\<exists>n \<le> length segs. base = base_text segs n \<and> length (parse_segments R path) = length segs - n \<and> segs_match R (parse_segments R path) (drop n segs))"
proof -
  obtain ti bl sc where p: "pick_template R rt hint segs = Some (sc, bl, ti, base)" "operation_for rt (ro_templates rt ! ti) (map ascii_lower meth) = Some i"
      "te_path (ro_templates rt ! ti) = path"
    using assms(1) by (auto simp: route_def Let_def rt_def segs_def split: option.splits)
  obtain k c where kc: "k \<le> min 3 (length segs - 1)" "(sc, bl, ti, base) = as_pick rt c" "first_best (route_rank rt hint) (route_candidates R rt segs k) c"
    using p(1) pick_template_spec [where R = R and rt = rt and hint = hint and segs = segs] by auto
  then have k: "k \<le> length segs" by auto
  have "(bl, ti, base) \<in> set (route_candidates R rt segs k)" using kc(2,3) by (auto simp: as_pick_def first_best_def split: prod.splits)
  note m = candidate_matches [OF this k]
  have ok: "template_ok R (ro_entries rt) (length (ro_entries rt)) (ro_templates rt ! ti)"
    using router_templates_ok [of R S] m by (auto simp: templates_ok_def list_all_length rt_def)
  have "i \<in> set (te_ops (ro_templates rt ! ti))" "method_of rt i = map ascii_lower meth \<or> map ascii_lower meth = ''head'' \<and> method_of rt i = ''get''"
    using p(2) by (auto simp: operation_for_def find_method_def find_Some_iff split: option.splits if_splits)
  then show ?thesis using ok m p(3) by (auto simp: template_ok_def)
qed

section \<open>Examples\<close>

definition demo_regex :: regex_crate where
  "demo_regex = \<lparr>rg_escape = id, rg_valid = (\<lambda>_. False), rg_match = (\<lambda>_ _. False)\<rparr>"

definition demo_item :: path_item where
  "demo_item = \<lparr>pi_value = JObject [], pi_pointer = ''/paths/~1pets'', pi_operations = [(''get'', ''/paths/~1pets/get'', JObject [])]\<rparr>"

definition demo_api :: route_spec where
  "demo_api = \<lparr>rs_items = [demo_item], rs_paths = [(''/pets/{id}'', 0), (''/pets/mine'', 0)],
     rs_root = JObject [(''servers'', JArray [JObject [(''url'', JString ''https://h/v1'')]]), (''paths'', JObject [])], rs_swagger2 = False\<rparr>"

definition demo_entries :: "route_entry list" where
  "demo_entries = [\<lparr>en_path = ''/pets/{id}'', en_item = 0, en_op = 0\<rparr>, \<lparr>en_path = ''/pets/mine'', en_item = 0, en_op = 0\<rparr>]"

text \<open>The router with its entries already listed.\<close>

definition demo_table :: router where
  "demo_table =
     (case server_urls demo_api of (urls, variants) \<Rightarrow>
        (case collect_bases demo_regex (urls @ variants) of (bs, dropped) \<Rightarrow>
           \<lparr>ro_spec = demo_api, ro_entries = demo_entries, ro_templates = make_templates demo_regex demo_api demo_entries,
            ro_bases = sort_key (\<lambda>b. - int (length (ba_loose b))) (map snd bs),
            ro_servers = map (\<lambda>(u, _). (u, server_origin demo_regex u)) urls, ro_dropped_servers = length dropped, ro_skipped_operations = 0\<rparr>))"

definition demo_url_text :: string where
  "demo_url_text = ''https://h/v1/pets/mine?x=1''"

lemma demo_listed: "\<exists>bytes_left. list_entries demo_api = (demo_entries, bytes_left, 0)"
  by (simp add: list_entries_def demo_api_def demo_item_def demo_entries_def list_path_def operation_cost_def statuses_cost_def as_members_def
      json_get_def MAX_ROUTE_BYTES_def ROUTE_OPERATION_BYTES_def Let_def)

lemma demo_router: "new_router demo_regex demo_api = demo_table"
  using demo_listed by (auto simp: new_router_def demo_table_def split: prod.splits)

lemma demo_route: "route demo_regex demo_table ''GET'' demo_url_text None = RouteOperation 1 ''/pets/mine'' ''/v1''"
  by code_simp

theorem route_most_specific_witness:
  "\<exists>k bl ti base. (\<forall>j < k. route_candidates demo_regex demo_table (request_segments demo_url_text) j = [])
     \<and> first_best (route_rank demo_table None) (route_candidates demo_regex demo_table (request_segments demo_url_text) k) (bl, ti, base)
     \<and> te_path (ro_templates demo_table ! ti) = ''/pets/mine''"
proof -
  note m = route_most_specific [where R = demo_regex and rt = demo_table and url = demo_url_text and meth = "''GET''" and hint = None, unfolded demo_route]
  have "RouteOperation 1 ''/pets/mine'' ''/v1'' \<noteq> RoutePath (assumed_base demo_regex demo_table (request_segments demo_url_text))" by simp
  with m obtain k bl ti base where k: "\<forall>j < k. route_candidates demo_regex demo_table (request_segments demo_url_text) j = []"
      "first_best (route_rank demo_table None) (route_candidates demo_regex demo_table (request_segments demo_url_text) k) (bl, ti, base)"
      "RouteOperation 1 ''/pets/mine'' ''/v1'' = (case operation_for demo_table (ro_templates demo_table ! ti) (map ascii_lower ''GET'') of
         Some i \<Rightarrow> RouteOperation i (te_path (ro_templates demo_table ! ti)) base | None \<Rightarrow> RouteMethod (te_path (ro_templates demo_table ! ti)) base)"
    by (simp only: split: if_split_asm) blast
  have "te_path (ro_templates demo_table ! ti) = ''/pets/mine''" using k(3) by (simp split: option.splits)
  with k show ?thesis by blast
qed

theorem operations_listed_witness: "ro_entries demo_table = all_entries demo_api"
proof -
  have "ro_skipped_operations demo_table = 0" by (simp add: demo_table_def split: prod.splits)
  then show ?thesis using operations_listed [of demo_regex demo_api, unfolded demo_router] by auto
qed

theorem routed_operation_declared_witness:
  "en_path (ro_entries demo_table ! 1) = ''/pets/mine'' \<and> method_of demo_table 1 = ''get''"
proof -
  have "map ascii_lower ''GET'' = ''get''" by code_simp
  then show ?thesis using routed_operation_declared [where R = demo_regex and S = demo_api, unfolded demo_router, OF demo_route] by simp
qed

end
