(* ===== verification/Spec2Isabelle.thy ===== *)
theory Spec2Isabelle
  imports
    Cookie_Jar
    Evidence
    Vars
    Framing
    Sse
    Grpc_Web
    Net_Addr
    Proxy_Protocol
    Proxy_Envelope
    Destination
    Conn_Pool
    Json_Patch
    Xml_Limits
    Redact_Evidence
    Ws_Deflate
    Auth_Compose
    Target
    Routes
    Http_Exec
    Exec_Safety
    Contract_Route
begin

text \<open>
  A verification development of Ferrum Anvil, an API client and diagnostic workbench written in Rust.

  \<^bold>\<open>The program and its parts.\<close>  A request is prepared by the engine (\<^verbatim>\<open>crates/anvil-engine\<close>): variables are
  expanded in it, its URL becomes a target with a TLS and proxy route, and the loop of attempts signs it
  (\<^verbatim>\<open>crates/anvil-auth\<close>), attaches cookies, makes a plan of it, sends it, and follows redirects, challenges and
  retries; everything recorded of it is redacted.  The transport crate
  (\<^verbatim>\<open>crates/anvil-transport\<close>) decides where the plan may connect to, takes a pooled connection or opens one,
  writes a PROXY protocol header or wraps datagrams where the plan says so, and speaks HTTP, server-sent
  events, gRPC and datagrams tunnelled over HTTP.  Every attempt leaves typed evidence
  (\<^verbatim>\<open>crates/anvil-domain\<close>).  Beside that path, API descriptions are compared with what was observed and
  patched (\<^verbatim>\<open>crates/anvil-contract\<close>), and every XML text is scanned before it is parsed
  (\<^verbatim>\<open>crates/anvil-xml-limits\<close>).  The parts modelled here are those with logic of their own.

  \<^bold>\<open>Theories.\<close>
  \<^item> \<open>Prelude\<close>, \<open>Rust_Text\<close>, \<open>Net_Addr\<close>: what the sources use of the Rust standard library (vectors,
    iterators, strings as UTF-8 bytes, numbers and their text, IP addresses), with the lemma
    collections the other theories rely on.
  \<^item> \<open>Cookie_Jar\<close> (\<^verbatim>\<open>anvil-engine/src/cookies.rs\<close>): \<open>bounded_jar\<close> is \<^verbatim>\<open>BoundedJar\<close>.  No sequence of inserts and
    header builds panics or exceeds a limit; eviction is by least recent use; the header is whole pairs
    within its bound; rebasing the clock keeps the order of use.
  \<^item> \<open>Vars\<close> (\<^verbatim>\<open>anvil-engine/src/vars.rs\<close>): \<open>resolver\<close> and \<open>vstate\<close> are \<^verbatim>\<open>Resolver\<close>.  A successful resolution is a
    derivation in an inductive reference semantics, records exactly the secrets it substituted, never
    passes through a cycle, and keeps the depth, count and size limits; vault variables stay frozen.
  \<^item> \<open>Evidence\<close> (\<^verbatim>\<open>anvil-domain/src/execution.rs\<close> and the classifiers of the transports and of load
    metrics): phases, dispatch states, failure kinds; the classifications agree with each other.
  \<^item> \<open>Framing\<close> (\<^verbatim>\<open>hbone_udp.rs\<close>, \<^verbatim>\<open>masque.rs\<close>), \<open>Sse\<close> (\<^verbatim>\<open>sse.rs\<close>), \<open>Grpc_Web\<close> (\<^verbatim>\<open>grpc_web.rs\<close>, \<^verbatim>\<open>grpc.rs\<close>): incremental
    decoders with their encoders.  What was sent is delivered whatever the chunks; chunk boundaries
    change nothing for arbitrary bytes; buffers are bounded.
  \<^item> \<open>Proxy_Protocol\<close> and \<open>Proxy_Envelope\<close> (\<^verbatim>\<open>proxy_protocol.rs\<close> of both crates): headers are read back as the plan
    means them, or refused with a recorded problem; the evidence of a redacted header keeps no secret; the
    tag of a datagram binds the listener and every byte; sequence numbers saturate.
  \<^item> \<open>Destination\<close> (\<^verbatim>\<open>dns.rs\<close>, \<^verbatim>\<open>destination.rs\<close>, and NO_PROXY in \<^verbatim>\<open>net.rs\<close>): redirects and retries stay in the zones
    granted to the original destination; the addresses that were validated are the ones dialled.
  \<^item> \<open>Conn_Pool\<close> (\<^verbatim>\<open>fence.rs\<close>, the pool of \<^verbatim>\<open>http.rs\<close>, \<^verbatim>\<open>tickets.rs\<close>): after a vault lock or the deletion of a workspace no
    earlier attempt brings a connection or a ticket context back; the caches keep their bounds.
  \<^item> \<open>Json_Patch\<close> (\<^verbatim>\<open>anvil-contract/src/patch.rs\<close>): a list of changes is applied as a whole or undone exactly, and
    the difference of two documents turns the one into the other.
  \<^item> \<open>Contract_Route\<close> (\<^verbatim>\<open>anvil-contract/src/route.rs\<close>): \<open>router\<close> is \<^verbatim>\<open>Router\<close>.  Operations are listed within a byte budget and
    the rest counted; an observed request goes to the most specific declared path, and to an operation that
    path declares.
  \<^item> \<open>Xml_Limits\<close> (\<^verbatim>\<open>anvil-xml-limits/src/lib.rs\<close>): the byte scan accepts the text of a document exactly when the
    document keeps every limit, and its own memory is bounded on arbitrary bytes.

  \<^item> \<open>Scrub\<close>, \<open>Redact\<close>, \<open>Redact_Evidence\<close> (\<^verbatim>\<open>anvil-engine/src/redact.rs\<close>, \<^verbatim>\<open>secret.rs\<close>, the findings of \<^verbatim>\<open>anvil-diagnostics\<close>): \<open>redactor\<close>
    is \<^verbatim>\<open>Redactor\<close>.  Text it returns holds no secret in any form it knows, a redacted URL none that decoding up to three
    times would show; headers, JSON fields, findings and excerpts follow.
  \<^item> \<open>Ws_Deflate\<close> (\<^verbatim>\<open>ws_deflate.rs\<close>): an answer to the WebSocket offer is accepted exactly when it is within the
    offer, and the frame meter counts the same however the bytes arrive.
  \<^item> \<open>Auth_Sign\<close>, \<open>Auth_Compose\<close> (\<^verbatim>\<open>anvil-auth/src\<close>): \<open>apply_auth\<close> is \<^verbatim>\<open>apply\<close>.  In a set of profiles, an HMAC signature and a DPoP
    proof match the request that is sent; cookie credentials change no other cookie; every credential is
    handed to the redactor; WS-Security changes the envelope at one place.
  \<^item> \<open>Target\<close> (\<^verbatim>\<open>anvil-engine/src/prepare.rs\<close>): parsed targets are well formed and their URLs parse back; a Host is accepted
    exactly when it is in the grammar.
  \<^item> \<open>Routes\<close> (\<^verbatim>\<open>anvil-engine/src/http_exec.rs\<close>): \<open>tls_for\<close>, \<open>proxy_for\<close> and \<open>trust_for\<close>; on a redirect to another origin only a
    profile bound to the new target presents its client identity.
  \<^item> \<open>Http_Exec\<close>, \<open>Exec_Safety\<close> (\<^verbatim>\<open>execute_viewing\<close> of \<^verbatim>\<open>http_exec.rs\<close>, \<^verbatim>\<open>h3_exec.rs\<close>): \<open>exec_state\<close> holds the loop's variables, \<open>exec_iter\<close> is
    one turn, \<open>exec_loop\<close> the loop.  It ends; every further attempt has its reason; a request that may have been
    received is not repeated unless that is safe; allowed retries are made; credentials stay with their
    origin; what the engine sends is what was signed.

  \<^bold>\<open>Interfaces.\<close>  Four contracts are locales.  \<open>guarded_machine\<close> (\<open>Prelude\<close>): operations that may fail keep an
  invariant, so a whole run succeeds and keeps it; interpreted by the jar, the resolver and the frame meter.
  \<open>stream_decoder\<close> (\<open>Framing\<close>): bytes that arrive later change no frame, error or wait already decided, so
  splitting a stream has no effect; interpreted by the records, the capsules and the gRPC frames.
  \<open>fenced_cache\<close> (\<open>Conn_Pool\<close>): only an admitted put adds a key and a clear removes the keys it covers, so
  nothing from before a clear returns; interpreted by the connection pool and by the ticket cache.
  \<open>attempt_trace\<close> (\<open>Exec_Safety\<close>): an invariant of one turn of the loop that promises something of the attempts sent so far
  holds of the whole trace; interpreted by the bound, by the reasons and by the credentials.

  \<^bold>\<open>Conventions.\<close>  A method on \<^verbatim>\<open>&mut self\<close> is a function that returns the new state.  \<^verbatim>\<open>Result\<close> is a sum with the
  error on the left, or an error option beside the state where the code keeps what it did before the
  error; an index that would panic is \<open>None\<close>.  Text is its UTF-8 bytes.  Sizes of values in memory are \<open>nat\<close>;
  counters whose overflow the code handles keep their width or their saturation.  Loops over
  positions and buffers are recursive functions with termination proofs.  The one budget,
  the levels left in \<open>resolve_inner\<close>, is the code's own depth limit.

  \<^bold>\<open>Parameters.\<close>  Code of other crates and the outside world are arguments: \<^verbatim>\<open>cookie_store\<close> and \<^verbatim>\<open>psl\<close>, the vault,
  clocks, random numbers and UUIDs, base64 segments, hex and HMAC, the answers of a resolver, the order in
  which a hash map is enumerated, whether a connection is still usable, the automaton and encoders of the
  redactor, digests, key parsing and JWT encoding, the URL and XML parsers, TLS configuration and PKCS#12, and
  the transports' answer to every attempt.  The path items of an API description, read through its references, and
  regular expressions are arguments of the router.

  \<^bold>\<open>Not modelled.\<close>  Sockets, TLS, HTTP and QUIC exchanges themselves (\<^verbatim>\<open>http.rs\<close> and \<^verbatim>\<open>h3.rs\<close> beyond the pool and the
  classifiers, \<^verbatim>\<open>ws.rs\<close>, \<^verbatim>\<open>session.rs\<close>) are asynchronous I/O around other crates.  Storage is files and
  cryptography of other crates.  The desktop application, the command line, the test lab and the
  fixtures are glue.  Of an execution, what is before the loop (workload identities, OAuth tokens, body
  serialisation) and the record assembled after it are left out, as is the cache of prepared TLS configurations.
  The comparison that proposes patches (\<^verbatim>\<open>drift.rs\<close>), imports, linting and the load
  generator are candidates for later work.  \<^verbatim>\<open>fragment\<close> and \<^verbatim>\<open>render\<close> of \<^verbatim>\<open>patch.rs\<close> only format a document.
\<close>

end
